(* ===== verification/Prelude.thy ===== *)
theory Prelude
  imports Main "HOL-Library.Word" "HOL-Library.List_Lexorder" "HOL-Library.Char_ord"
    "HOL-Library.Multiset"
begin

text \<open>
  Shared vocabulary of the Clipse development: the Rust integer types as words, the saturating
  operations of the standard library (\<open>saturating_add\<close>, \<open>saturating_sub\<close>), little-endian byte
  encodings (\<open>to_le_bytes\<close>), the three-way comparison \<open>std::cmp::Ordering\<close> and the list lemmas
  that several components use.

  The collection \<open>clipse_defs\<close> gathers the unfolding equations a component's own proofs share.
\<close>

named_theorems clipse_defs \<open>unfolding equations of model definitions\<close>

section \<open>Machine integers\<close>

type_synonym u8 = "8 word"
type_synonym u16 = "16 word"
type_synonym u32 = "32 word"
type_synonym u64 = "64 word"
type_synonym bytes = "u8 list"

definition sat_add :: "'a::len word \<Rightarrow> 'a word \<Rightarrow> 'a word" where
  "sat_add a b = (if unat a + unat b < 2 ^ LENGTH('a) then a + b else - 1)"

definition sat_sub :: "'a::len word \<Rightarrow> 'a word \<Rightarrow> 'a word" where
  "sat_sub a b = (if b \<le> a then a - b else 0)"

lemma unat_max_word: "unat (- 1 :: 'a::len word) = 2 ^ LENGTH('a) - 1"
  by (simp add: unsigned_minus_1_eq_mask mask_eq_exp_minus_1)

lemma unat_le_max: "unat (a :: 'a::len word) \<le> 2 ^ LENGTH('a) - 1"
  by (metis unat_max_word word_le_nat_alt word_order.extremum)

lemma unat_sat_add:
  "unat (sat_add a b :: 'a::len word) = min (unat a + unat b) (2 ^ LENGTH('a) - 1)"
  by (auto simp: sat_add_def unat_word_ariths unat_max_word)

lemma unat_sat_sub: "unat (sat_sub a b) = unat a - unat b"
  by (auto simp: sat_sub_def unat_sub word_le_nat_alt)

lemma sat_add_ge: "a \<le> sat_add a b"
  using unat_le_max [of a] by (simp add: word_le_nat_alt unat_sat_add)

lemma sat_add_one_gt: "a \<noteq> - 1 \<Longrightarrow> a < sat_add a 1"
proof -
  assume "a \<noteq> - 1"
  then have "unat a \<noteq> 2 ^ LENGTH('a) - 1"
    by (metis unat_max_word word_unat_eq_iff)
  with unat_le_max [of a] show ?thesis by (simp add: word_less_nat_alt unat_sat_add)
qed

lemma sat_add_one_mono: "a \<le> b \<Longrightarrow> sat_add a 1 \<le> sat_add b 1"
  by (simp add: word_le_nat_alt unat_sat_add)

lemma sat_add_max [simp]: "sat_add (- 1) 1 = - 1"
  by (simp add: word_unat_eq_iff unat_sat_add unat_max_word)

text \<open>Casts between \<open>u32\<close> and \<open>u64\<close>.\<close>

lemma unat_ucast_u32_u64 [simp]: "unat (ucast (i :: u32) :: u64) = unat i"
  using unsigned_less [of i, where 'a = nat] by (simp add: unsigned_ucast_eq take_bit_nat_eq_self)

lemma unat_ucast_u64_u32: "unat (w :: u64) < 2 ^ 32 \<Longrightarrow> unat (ucast w :: u32) = unat w"
  by (simp add: unsigned_ucast_eq take_bit_nat_eq_self)

lemma ucast_u32_u64_u32 [simp]: "(ucast (ucast (i :: u32) :: u64) :: u32) = i"
  using unsigned_less [of i, where 'a = nat] by (simp add: word_unat_eq_iff unat_ucast_u64_u32)

section \<open>Three-way comparison\<close>

text \<open>\<open>std::cmp::Ordering\<close> and its \<open>then\<close>.\<close>

datatype ordering = LessO | EqualO | GreaterO

definition cmp :: "'a::linorder \<Rightarrow> 'a \<Rightarrow> ordering" where
  "cmp a b = (if a < b then LessO else if a = b then EqualO else GreaterO)"

fun then_cmp :: "ordering \<Rightarrow> ordering \<Rightarrow> ordering" where
  "then_cmp EqualO o2 = o2"
| "then_cmp o1 o2 = o1"

lemma cmp_simps [simp]:
  "cmp a b = LessO \<longleftrightarrow> a < b" "cmp a b = EqualO \<longleftrightarrow> a = b" "cmp a b = GreaterO \<longleftrightarrow> b < a"
  by (auto simp: cmp_def)

lemma then_cmp_eq [simp]:
  "then_cmp o1 o2 = LessO \<longleftrightarrow> o1 = LessO \<or> o1 = EqualO \<and> o2 = LessO"
  "then_cmp o1 o2 = EqualO \<longleftrightarrow> o1 = EqualO \<and> o2 = EqualO"
  "then_cmp o1 o2 = GreaterO \<longleftrightarrow> o1 = GreaterO \<or> o1 = EqualO \<and> o2 = GreaterO"
  by (cases o1; simp)+

section \<open>Lists\<close>

lemma distinct_set_singleton: "distinct xs \<Longrightarrow> set xs = {k} \<Longrightarrow> xs = [k]"
  by (induction xs) (auto simp: subset_singleton_iff insert_eq_iff split: if_splits)

lemma find_SomeD: "find P xs = Some x \<Longrightarrow> x \<in> set xs \<and> P x"
  by (auto simp: find_Some_iff)

text \<open>\<open>slice::chunks\<close>.\<close>

function chunks :: "nat \<Rightarrow> 'a list \<Rightarrow> 'a list list" where
  "chunks n xs = (if n = 0 \<or> xs = [] then [] else take n xs # chunks n (drop n xs))"
  by pat_completeness auto
termination
  by (relation "measure (\<lambda>(n, xs). length xs)") auto

declare chunks.simps [simp del]

lemma concat_chunks: "n > 0 \<Longrightarrow> concat (chunks n xs) = xs"
proof (induction n xs rule: chunks.induct)
  case (1 n xs)
  then show ?case by (subst chunks.simps) auto
qed

lemma chunks_lengths: "c \<in> set (chunks n xs) \<Longrightarrow> c \<noteq> [] \<and> length c \<le> n"
proof (induction n xs rule: chunks.induct)
  case (1 n xs)
  then show ?case by (subst (asm) (2) chunks.simps) (auto split: if_splits)
qed

lemma chunks_nonempty: "n > 0 \<Longrightarrow> xs \<noteq> [] \<Longrightarrow> chunks n xs \<noteq> []"
  by (subst chunks.simps) simp

section \<open>Results\<close>

text \<open>The \<open>?\<close> operator on \<open>Result\<close>, and \<open>collect\<close> of an iterator of results.\<close>

fun bind_r :: "'e + 'a \<Rightarrow> ('a \<Rightarrow> 'e + 'b) \<Rightarrow> 'e + 'b" where
  "bind_r (Inl e) f = Inl e"
| "bind_r (Inr a) f = f a"

fun mapM_r :: "('a \<Rightarrow> 'e + 'b) \<Rightarrow> 'a list \<Rightarrow> 'e + 'b list" where
  "mapM_r f [] = Inr []"
| "mapM_r f (x # xs) = bind_r (f x) (\<lambda>y. bind_r (mapM_r f xs) (\<lambda>ys. Inr (y # ys)))"

fun map_err :: "('e \<Rightarrow> 'f) \<Rightarrow> 'e + 'a \<Rightarrow> 'f + 'a" where
  "map_err g (Inl e) = Inl (g e)"
| "map_err g (Inr a) = Inr a"

lemma bind_r_Inr: "bind_r r f = Inr b \<longleftrightarrow> (\<exists>a. r = Inr a \<and> f a = Inr b)"
  by (cases r) auto

lemma map_err_Inr [simp]: "map_err g r = Inr a \<longleftrightarrow> r = Inr a"
  by (cases r) auto

lemma mapM_r_all: "(\<And>x. x \<in> set xs \<Longrightarrow> f x = Inr (g x)) \<Longrightarrow> mapM_r f xs = Inr (map g xs)"
  by (induction xs) auto

end
