(* ===== verification/Hlc_Clock.thy ===== *)
theory Hlc_Clock
  imports Prelude
begin

text \<open>
  Identifiers and the hybrid logical clock of \<open>clipse-core\<close> (\<open>id.rs\<close>, \<open>hlc.rs\<close>).

  A UUID is its 128-bit big-endian value, so the derived byte order of \<open>Uuid\<close> is the unsigned
  order of the word. The system clock (\<open>now_ms\<close>) is an argument of every operation that reads
  it. The clock's mutex-protected \<open>State\<close> is passed explicitly.
\<close>

section \<open>Identifiers\<close>

type_synonym uuid = "128 word"

datatype device_id = DeviceId (as_uuid: uuid)
datatype clip_id = ClipId (clip_uuid: uuid)

instantiation device_id :: linorder
begin

definition less_eq_device_id :: "device_id \<Rightarrow> device_id \<Rightarrow> bool" where
  "a \<le> b \<longleftrightarrow> as_uuid a \<le> as_uuid b"

definition less_device_id :: "device_id \<Rightarrow> device_id \<Rightarrow> bool" where
  "a < b \<longleftrightarrow> as_uuid a < as_uuid b"

instance
  by standard (auto simp: less_eq_device_id_def less_device_id_def device_id.expand)

end

section \<open>Timestamps\<close>

datatype hlc = Hlc (wall_ms: u64) (counter: u32) (hlc_device: device_id)

text \<open>\<open>Ord for Hlc\<close>: wall clock, then counter, then the device's UUID.\<close>

definition hlc_cmp :: "hlc \<Rightarrow> hlc \<Rightarrow> ordering" where
  "hlc_cmp a b =
     then_cmp (then_cmp (cmp (wall_ms a) (wall_ms b)) (cmp (counter a) (counter b)))
       (cmp (as_uuid (hlc_device a)) (as_uuid (hlc_device b)))"

instantiation hlc :: linorder
begin

definition less_hlc :: "hlc \<Rightarrow> hlc \<Rightarrow> bool" where
  "a < b \<longleftrightarrow> hlc_cmp a b = LessO"

definition less_eq_hlc :: "hlc \<Rightarrow> hlc \<Rightarrow> bool" where
  "a \<le> b \<longleftrightarrow> hlc_cmp a b \<noteq> GreaterO"

instance
proof
  fix x y z :: hlc
  show "x < y \<longleftrightarrow> x \<le> y \<and> \<not> y \<le> x"
    by (auto simp: less_hlc_def less_eq_hlc_def hlc_cmp_def)
  show "x \<le> x" by (simp add: less_eq_hlc_def hlc_cmp_def)
  show "x \<le> y \<Longrightarrow> y \<le> z \<Longrightarrow> x \<le> z"
    by (auto simp: less_eq_hlc_def hlc_cmp_def not_less)
  show "x \<le> y \<Longrightarrow> y \<le> x \<Longrightarrow> x = y"
    by (cases x; cases y; cases "hlc_device x"; cases "hlc_device y")
      (auto simp: less_eq_hlc_def hlc_cmp_def not_less)
  show "x \<le> y \<or> y \<le> x"
    by (auto simp: less_eq_hlc_def hlc_cmp_def)
qed

end

lemma less_hlc_iff:
  "a < b \<longleftrightarrow> wall_ms a < wall_ms b \<or> wall_ms a = wall_ms b \<and>
     (counter a < counter b \<or> counter a = counter b \<and> hlc_device a < hlc_device b)"
  by (auto simp: less_hlc_def hlc_cmp_def less_device_id_def)

lemma less_eq_hlc_iff:
  "a \<le> b \<longleftrightarrow> wall_ms a < wall_ms b \<or> wall_ms a = wall_ms b \<and>
     (counter a < counter b \<or> counter a = counter b \<and> hlc_device a \<le> hlc_device b)"
  by (auto simp: less_eq_hlc_def hlc_cmp_def less_eq_device_id_def not_less)

section \<open>The clock\<close>

definition MAX_CLOCK_DRIFT_MS :: u64 where
  "MAX_CLOCK_DRIFT_MS = 60000"

record hlc_clock =
  clk_device :: device_id
  clk_wall :: u64
  clk_counter :: u32

definition clock_new :: "device_id \<Rightarrow> hlc_clock" where
  "clock_new d = \<lparr>clk_device = d, clk_wall = 0, clk_counter = 0\<rparr>"

text \<open>\<open>HlcClock::now\<close>; \<open>physical\<close> is what \<open>now_ms()\<close> returned.\<close>

definition clock_now :: "u64 \<Rightarrow> hlc_clock \<Rightarrow> hlc \<times> hlc_clock" where
  "clock_now physical c =
     (let c' = (if physical > clk_wall c
                then c\<lparr>clk_wall := physical, clk_counter := 0\<rparr>
                else c\<lparr>clk_counter := sat_add (clk_counter c) 1\<rparr>)
      in (Hlc (clk_wall c') (clk_counter c') (clk_device c'), c'))"

definition clamp_remote :: "u64 \<Rightarrow> hlc \<Rightarrow> u64" where
  "clamp_remote physical remote =
     (if wall_ms remote > sat_add physical MAX_CLOCK_DRIFT_MS then physical else wall_ms remote)"

definition clock_observe :: "u64 \<Rightarrow> hlc \<Rightarrow> hlc_clock \<Rightarrow> hlc \<times> hlc_clock" where
  "clock_observe physical remote c =
     (let remote_wall = clamp_remote physical remote;
          max_wall = max (max (clk_wall c) remote_wall) physical;
          ctr = (case (max_wall = clk_wall c, max_wall = remote_wall) of
                   (True, True) \<Rightarrow> sat_add (max (clk_counter c) (counter remote)) 1
                 | (True, False) \<Rightarrow> sat_add (clk_counter c) 1
                 | (False, True) \<Rightarrow> sat_add (counter remote) 1
                 | (False, False) \<Rightarrow> 0);
          c' = c\<lparr>clk_wall := max_wall, clk_counter := ctr\<rparr>
      in (Hlc max_wall ctr (clk_device c'), c'))"

text \<open>The timestamp the clock last issued (or, before the first one, its zero).\<close>

definition last_stamp :: "hlc_clock \<Rightarrow> hlc" where
  "last_stamp c = Hlc (clk_wall c) (clk_counter c) (clk_device c)"

section \<open>Contract of a stamping clock\<close>

text \<open>
  What the rest of the program relies on: every operation returns the clock's new last stamp,
  never goes back, and moves strictly forward unless the counter is exhausted. The lemmas on
  runs of operations are proved from the contract alone.
\<close>

locale stamping_clock =
  fixes step :: "'e \<Rightarrow> 's \<Rightarrow> 't::linorder \<times> 's"
    and last :: "'s \<Rightarrow> 't"
    and exhausted :: "'t \<Rightarrow> bool"
  assumes step_last: "step e s = (t, s') \<Longrightarrow> last s' = t"
    and step_mono: "step e s = (t, s') \<Longrightarrow> last s \<le> t"
    and step_strict: "step e s = (t, s') \<Longrightarrow> \<not> exhausted (last s) \<Longrightarrow> last s < t"
begin

primrec run :: "'e list \<Rightarrow> 's \<Rightarrow> 't list" where
  "run [] s = []"
| "run (e # es) s = (let (t, s') = step e s in t # run es s')"

lemma run_ge: "t \<in> set (run es s) \<Longrightarrow> last s \<le> t"
proof (induction es arbitrary: s)
  case (Cons e es)
  obtain u s' where st: "step e s = (u, s')" by force
  from Cons.prems st consider "t = u" | "t \<in> set (run es s')" by auto
  then show ?case
  proof cases
    case 2
    then have "last s' \<le> t" by (rule Cons.IH)
    with step_last [OF st] step_mono [OF st] show ?thesis by simp
  qed (use step_mono [OF st] in simp)
qed simp

lemma run_sorted: "sorted (run es s)"
proof (induction es arbitrary: s)
  case (Cons e es)
  obtain t s' where st: "step e s = (t, s')" by force
  have "\<forall>u \<in> set (run es s'). t \<le> u" using run_ge step_last [OF st] by blast
  with Cons.IH st show ?case by simp
qed simp

lemma run_gt:
  "t \<in> set (run es s) \<Longrightarrow> \<not> exhausted (last s) \<Longrightarrow> last s < t"
proof (cases es)
  case (Cons e es')
  assume t: "t \<in> set (run es s)" and ne: "\<not> exhausted (last s)"
  obtain u s' where st: "step e s = (u, s')" by force
  with t Cons consider "t = u" | "t \<in> set (run es' s')" by auto
  then have "u \<le> t"
    by cases (use run_ge step_last [OF st] in \<open>auto\<close>)
  with step_strict [OF st ne] show ?thesis by simp
qed simp

lemma run_strict:
  assumes "\<forall>t \<in> set (butlast (run es s)). \<not> exhausted t"
  shows "sorted_wrt (<) (run es s)"
  using assms
proof (induction es arbitrary: s)
  case (Cons e es)
  obtain t s' where st: "step e s = (t, s')" by force
  show ?case
  proof (cases "run es s'")
    case Nil
    with st show ?thesis by simp
  next
    case (Cons u us)
    with Cons.prems st have ne: "\<not> exhausted t"
      and tl: "\<forall>v \<in> set (butlast (run es s')). \<not> exhausted v" by auto
    have "\<forall>v \<in> set (run es s'). t < v" using run_gt step_last [OF st] ne by blast
    with Cons.IH [OF tl] st show ?thesis by simp
  qed
qed simp

end

datatype clock_event = Now u64 | Observe u64 hlc

fun clock_step :: "clock_event \<Rightarrow> hlc_clock \<Rightarrow> hlc \<times> hlc_clock" where
  "clock_step (Now physical) c = clock_now physical c"
| "clock_step (Observe physical remote) c = clock_observe physical remote c"

definition counter_exhausted :: "hlc \<Rightarrow> bool" where
  "counter_exhausted t \<longleftrightarrow> counter t = - 1"

lemma clock_now_last: "clock_now p c = (t, c') \<Longrightarrow> last_stamp c' = t"
  by (auto simp: clock_now_def last_stamp_def Let_def)

lemma clock_observe_last: "clock_observe p r c = (t, c') \<Longrightarrow> last_stamp c' = t"
  by (auto simp: clock_observe_def last_stamp_def Let_def)

lemma clock_now_mono: "clock_now p c = (t, c') \<Longrightarrow> last_stamp c \<le> t"
  using sat_add_ge [of "clk_counter c" 1]
  by (auto simp: clock_now_def last_stamp_def Let_def less_eq_hlc_iff order_le_less split: if_splits)

lemma clock_now_strict:
  "clock_now p c = (t, c') \<Longrightarrow> \<not> counter_exhausted (last_stamp c) \<Longrightarrow> last_stamp c < t"
  using sat_add_one_gt [of "clk_counter c"]
  by (auto simp: clock_now_def last_stamp_def counter_exhausted_def Let_def less_hlc_iff
      split: if_splits)

lemma sat_add_max_ge: "a \<le> sat_add (max a b) 1" "b \<le> sat_add (max a b) 1"
  using sat_add_ge [of "max a b" 1] by (meson max.bounded_iff order_trans)+

lemma clock_observe_counter_ge:
  assumes "clock_observe p r c = (t, c')" and "wall_ms t = clk_wall c"
  shows "clk_counter c \<le> counter t"
    and "clk_counter c \<noteq> - 1 \<Longrightarrow> clk_counter c < counter t"
proof -
  have ctr: "counter t = sat_add (max (clk_counter c) (counter r)) 1 \<or>
      counter t = sat_add (clk_counter c) 1"
    using assms by (auto simp: clock_observe_def Let_def split: bool.splits)
  then show "clk_counter c \<le> counter t"
    using sat_add_ge sat_add_max_ge by auto
  assume ne: "clk_counter c \<noteq> - 1"
  have "sat_add (clk_counter c) 1 \<le> counter t"
    using ctr sat_add_one_mono [of "clk_counter c" "max (clk_counter c) (counter r)"] by auto
  with sat_add_one_gt [OF ne] show "clk_counter c < counter t" by simp
qed

lemma clock_observe_wall_ge: "clock_observe p r c = (t, c') \<Longrightarrow> clk_wall c \<le> wall_ms t"
  by (auto simp: clock_observe_def Let_def le_max_iff_disj)

lemma clock_observe_device: "clock_observe p r c = (t, c') \<Longrightarrow> hlc_device t = clk_device c"
  by (auto simp: clock_observe_def Let_def)

lemma clock_observe_mono: "clock_observe p r c = (t, c') \<Longrightarrow> last_stamp c \<le> t"
  using clock_observe_wall_ge [of p r c t c'] clock_observe_counter_ge(1) [of p r c t c']
    clock_observe_device [of p r c t c']
  by (auto simp: last_stamp_def less_eq_hlc_iff order_le_less)

lemma clock_observe_strict:
  "clock_observe p r c = (t, c') \<Longrightarrow> \<not> counter_exhausted (last_stamp c) \<Longrightarrow> last_stamp c < t"
  using clock_observe_wall_ge [of p r c t c'] clock_observe_counter_ge(2) [of p r c t c']
  by (auto simp: last_stamp_def counter_exhausted_def less_hlc_iff order_le_less)

interpretation hlc: stamping_clock clock_step last_stamp counter_exhausted
proof
  fix e c t c' assume st: "clock_step e c = (t, c')"
  show "last_stamp c' = t"
    using st by (cases e) (auto dest: clock_now_last clock_observe_last)
  show "last_stamp c \<le> t"
    using st by (cases e) (auto dest: clock_now_mono clock_observe_mono)
  assume "\<not> counter_exhausted (last_stamp c)"
  then show "last_stamp c < t"
    using st by (cases e) (auto dest: clock_now_strict clock_observe_strict)
qed

section \<open>Runs of the clock\<close>

text \<open>The stamps a device issues while it handles a sequence of local and remote events.\<close>

primrec clock_run :: "clock_event list \<Rightarrow> hlc_clock \<Rightarrow> hlc list" where
  "clock_run [] c = []"
| "clock_run (e # es) c = (let (t, c') = clock_step e c in t # clock_run es c')"

lemma clock_run_eq: "clock_run es c = hlc.run es c"
  by (induction es arbitrary: c) (auto split: prod.splits)

text \<open>
  C28. The stamps of one clock are strictly increasing over any sequence of \<open>now\<close> and
  \<open>observe\<close> calls, whatever the system clock does (stall, jump back) and whatever timestamps
  arrive, as long as no stamp but the last has used up the 32-bit counter.
\<close>

theorem clock_run_strictly_increasing:
  assumes "\<forall>t \<in> set (butlast (clock_run es c)). \<not> counter_exhausted t"
  shows "sorted_wrt (<) (clock_run es c)"
  using assms unfolding clock_run_eq by (rule hlc.run_strict)

theorem clock_run_strictly_increasing_witness:
  "sorted_wrt (<) (clock_run
     [Now 5000, Now 4000, Observe 4000 (Hlc 5500 7 (DeviceId 9)), Now 4000]
     (clock_new (DeviceId 1)))"
  by (rule clock_run_strictly_increasing)
    (simp add: clock_now_def clock_observe_def clamp_remote_def clock_new_def Let_def
      counter_exhausted_def MAX_CLOCK_DRIFT_MS_def sat_add_def max_def)

text \<open>
  Even with an exhausted counter the clock never issues a stamp below an earlier one.
\<close>

theorem clock_run_never_decreases: "sorted (clock_run es c)"
  unfolding clock_run_eq by (rule hlc.run_sorted)

lemma observe_counter_gt_remote:
  assumes st: "clock_observe p r c = (t, c')" and w: "wall_ms t = clamp_remote p r"
    and ne: "counter r \<noteq> - 1"
  shows "counter r < counter t"
proof -
  have "sat_add (counter r) 1 \<le> counter t"
    using st w sat_add_one_mono [of "counter r" "max (clk_counter c) (counter r)"]
    by (auto simp: clock_observe_def Let_def split: bool.splits)
  with sat_add_one_gt [OF ne] show ?thesis by simp
qed

text \<open>
  Causality: after observing a remote timestamp that is within the accepted drift and whose
  counter is not exhausted, the local clock's stamp is strictly later than the remote one.
\<close>

theorem observe_orders_after_remote:
  assumes "clock_observe p r c = (t, c')"
    and "wall_ms r \<le> sat_add p MAX_CLOCK_DRIFT_MS"
    and "counter r \<noteq> - 1"
  shows "r < t"
proof -
  have cl: "clamp_remote p r = wall_ms r" using assms(2) by (auto simp: clamp_remote_def dest: leD)
  have "wall_ms r \<le> wall_ms t"
    using assms(1) by (auto simp: clock_observe_def Let_def cl le_max_iff_disj)
  with observe_counter_gt_remote [OF assms(1) _ assms(3)] show ?thesis
    by (auto simp: less_hlc_iff cl order_le_less)
qed

theorem observe_orders_after_remote_witness:
  "Hlc 1500 7 (DeviceId 9) < fst (clock_observe 1000 (Hlc 1500 7 (DeviceId 9)) (clock_new (DeviceId 1)))"
proof -
  have "Hlc 1500 7 (DeviceId 9) < t" if "clock_observe 1000 (Hlc 1500 7 (DeviceId 9)) (clock_new (DeviceId 1)) = (t, c')" for t c'
    by (rule observe_orders_after_remote [OF that])
      (simp_all add: sat_add_def MAX_CLOCK_DRIFT_MS_def)
  then show ?thesis by (metis prod.collapse)
qed

text \<open>
  A peer whose clock is far ahead cannot drag ours along: whatever timestamp is observed, the
  wall part moves at most to the physical clock plus the drift limit.
\<close>

theorem observe_bounded_by_drift:
  "wall_ms (fst (clock_observe p r c)) \<le> max (clk_wall c) (sat_add p MAX_CLOCK_DRIFT_MS)"
  using sat_add_ge [of p MAX_CLOCK_DRIFT_MS]
  by (auto simp: clock_observe_def clamp_remote_def Let_def max_def)

text \<open>
  The counter of a timestamp that was clamped for being too far ahead is still taken over:
  one such timestamp with an exhausted counter exhausts ours, and the next two local events in
  the same millisecond get equal stamps.
\<close>

theorem clamped_remote_exhausts_counter:
  assumes "clk_wall c < p" and "wall_ms r > sat_add p MAX_CLOCK_DRIFT_MS" and "counter r = - 1"
    and "clock_observe p r c = (t, c')" and "clock_now p c' = (t1, c1)" and "clock_now p c1 = (t2, c2)"
  shows "counter_exhausted t \<and> t1 = t \<and> t2 = t1"
proof -
  have cl: "clamp_remote p r = p" using assms(2) by (simp add: clamp_remote_def)
  have "c' = c\<lparr>clk_wall := p, clk_counter := - 1\<rparr>" and t: "t = Hlc p (- 1) (clk_device c)"
    using assms(1,3,4) by (auto simp: clock_observe_def Let_def cl max_absorb2 split: bool.splits)
  with assms(5,6) show ?thesis by (auto simp: clock_now_def counter_exhausted_def)
qed

theorem clamped_remote_exhausts_counter_witness:
  "let r = Hlc 99999999 (- 1) (DeviceId 9); (t, c') = clock_observe 1000 r (clock_new (DeviceId 1));
       (t1, c1) = clock_now 1000 c'; (t2, c2) = clock_now 1000 c1
   in counter_exhausted t \<and> t1 = t \<and> t2 = t1"
proof -
  have w: "clk_wall (clock_new (DeviceId 1)) < 1000"
    and r: "wall_ms (Hlc 99999999 (- 1) (DeviceId 9)) > sat_add 1000 MAX_CLOCK_DRIFT_MS"
    by (simp_all add: clock_new_def sat_add_def MAX_CLOCK_DRIFT_MS_def)
  obtain t c' where o: "clock_observe 1000 (Hlc 99999999 (- 1) (DeviceId 9)) (clock_new (DeviceId 1)) = (t, c')"
    by force
  obtain t1 c1 where n1: "clock_now 1000 c' = (t1, c1)" by force
  obtain t2 c2 where n2: "clock_now 1000 c1 = (t2, c2)" by force
  show ?thesis
    using clamped_remote_exhausts_counter [OF w r _ o n1 n2] by (simp add: o n1 n2)
qed

end
