(* ===== verification/Crates.thy ===== *)
theory Crates
  imports Hlc_Clock
begin

text \<open>
  The third-party crates the program calls and whose sources are not in the repository:
  \<open>blake3\<close> (one-shot and incremental hashing), \<open>hex\<close> (\<open>encode\<close>, \<open>decode\<close>) and \<open>uuid\<close>
  (\<open>to_string\<close>, \<open>parse_str\<close>). They are the fields of one record that is an argument of every
  definition that calls them. \<open>crates_ok\<close> states their documented behaviour: a BLAKE3 digest has
  32 bytes, hexadecimal is lower case with two digits per byte, a UUID prints as 8-4-4-4-12 lower
  case hexadecimal digits, and each decoder inverts its encoder. Nothing is assumed about
  collisions of the hash; the properties that need it name the pair of inputs concerned.

  The second half proves that the textual order of printed UUIDs is the order of the UUIDs, which
  the SQL queries of the store rely on, and gives an instance of the record for witnesses.
\<close>

section \<open>The crates as parameters\<close>

record crates =
  blake3_hash :: "bytes \<Rightarrow> bytes"
  hex_encode :: "bytes \<Rightarrow> string"
  hex_decode :: "string \<Rightarrow> bytes option"
  uuid_to_string :: "uuid \<Rightarrow> string"
  uuid_parse_str :: "string \<Rightarrow> uuid option"

definition hex_digit :: "nat \<Rightarrow> char" where
  "hex_digit d = char_of (if d < 10 then 48 + d else 87 + d)"

fun hex_digits :: "nat \<Rightarrow> nat \<Rightarrow> string" where
  "hex_digits 0 v = []"
| "hex_digits (Suc n) v = hex_digits n (v div 16) @ [hex_digit (v mod 16)]"

definition hex_lower :: "bytes \<Rightarrow> string" where
  "hex_lower bs = concat (map (\<lambda>b. hex_digits 2 (unat b)) bs)"

definition uuid_hyphenated :: "uuid \<Rightarrow> string" where
  "uuid_hyphenated u =
     (let h = hex_digits 32 (unat u)
      in take 8 h @ ''-'' @ take 4 (drop 8 h) @ ''-'' @ take 4 (drop 12 h) @ ''-'' @
         take 4 (drop 16 h) @ ''-'' @ drop 20 h)"

definition crates_ok :: "'x crates_scheme \<Rightarrow> bool" where
  "crates_ok X \<longleftrightarrow>
     (\<forall>b. length (blake3_hash X b) = 32) \<and>
     (\<forall>b. hex_encode X b = hex_lower b) \<and>
     (\<forall>b. hex_decode X (hex_lower b) = Some b) \<and>
     (\<forall>u. uuid_to_string X u = uuid_hyphenated u) \<and>
     (\<forall>u. uuid_parse_str X (uuid_hyphenated u) = Some u)"

lemma crates_okD:
  assumes "crates_ok X"
  shows "length (blake3_hash X b) = 32" "hex_encode X b = hex_lower b"
    "hex_decode X (hex_lower b) = Some b" "uuid_to_string X u = uuid_hyphenated u"
    "uuid_parse_str X (uuid_hyphenated u) = Some u"
  using assms by (auto simp: crates_ok_def)

section \<open>Textual order of fixed-width hexadecimal\<close>

lemma hex_digit_less: "d < 16 \<Longrightarrow> e < 16 \<Longrightarrow> hex_digit d < hex_digit e \<longleftrightarrow> d < e"
  by (simp add: less_char_def hex_digit_def)

lemma hex_digit_inj: "d < 16 \<Longrightarrow> e < 16 \<Longrightarrow> hex_digit d = hex_digit e \<longleftrightarrow> d = e"
  by (metis hex_digit_less linorder_neq_iff)

lemma length_hex_digits [simp]: "length (hex_digits n v) = n"
  by (induction n arbitrary: v) auto

lemma append_less_append:
  fixes xs ys :: "'a::linorder list"
  assumes "length xs = length ys"
  shows "xs @ us < ys @ vs \<longleftrightarrow> xs < ys \<or> xs = ys \<and> us < vs"
  using assms by (induction xs ys rule: list_induct2) auto

lemma hex_digits_inj:
  "v < 16 ^ n \<Longrightarrow> w < 16 ^ n \<Longrightarrow> hex_digits n v = hex_digits n w \<longleftrightarrow> v = w"
proof (induction n arbitrary: v w)
  case (Suc n)
  then have "v div 16 < 16 ^ n" "w div 16 < 16 ^ n" by auto
  from Suc.IH [OF this] show ?case
    by (simp add: hex_digit_inj) (metis div_mult_mod_eq)
qed simp

lemma hex_digits_less:
  "v < 16 ^ n \<Longrightarrow> w < 16 ^ n \<Longrightarrow> hex_digits n v < hex_digits n w \<longleftrightarrow> v < w"
proof (induction n arbitrary: v w)
  case (Suc n)
  then have b: "v div 16 < 16 ^ n" "w div 16 < 16 ^ n" by auto
  have "v < w \<longleftrightarrow> v div 16 < w div 16 \<or> v div 16 = w div 16 \<and> v mod 16 < w mod 16"
  proof -
    define a c a' c' where d: "a = v div 16" "c = v mod 16" "a' = w div 16" "c' = w mod 16"
    have "v = 16 * a + c" "w = 16 * a' + c'" "c < 16" "c' < 16" by (simp_all add: d)
    then show ?thesis unfolding d [symmetric] by arith
  qed
  with Suc.IH [OF b] hex_digits_inj [OF b] show ?case
    by (simp add: append_less_append hex_digit_less)
qed simp

definition hyphenate :: "string \<Rightarrow> string" where
  "hyphenate h = take 8 h @ ''-'' @ take 4 (drop 8 h) @ ''-'' @ take 4 (drop 12 h) @ ''-'' @
     take 4 (drop 16 h) @ ''-'' @ drop 20 h"

lemma split_8_4_4_4:
  "take 8 h @ take 4 (drop 8 h) @ take 4 (drop 12 h) @ take 4 (drop 16 h) @ drop 20 h = h"
proof -
  have "take 4 (drop 16 h) @ drop 20 h = drop 16 h"
    using append_take_drop_id [of 4 "drop 16 h"] by simp
  moreover have "take 4 (drop 12 h) @ drop 16 h = drop 12 h"
    using append_take_drop_id [of 4 "drop 12 h"] by simp
  moreover have "take 4 (drop 8 h) @ drop 12 h = drop 8 h"
    using append_take_drop_id [of 4 "drop 8 h"] by simp
  ultimately show ?thesis by simp
qed

lemma hyphenate_less:
  assumes "length g = 32" "length h = 32"
  shows "hyphenate g < hyphenate h \<longleftrightarrow> g < h"
proof -
  have "g < h \<longleftrightarrow>
      take 8 g @ take 4 (drop 8 g) @ take 4 (drop 12 g) @ take 4 (drop 16 g) @ drop 20 g <
      take 8 h @ take 4 (drop 8 h) @ take 4 (drop 12 h) @ take 4 (drop 16 h) @ drop 20 h"
    by (simp only: split_8_4_4_4)
  then show ?thesis
    using assms by (simp add: hyphenate_def append_less_append)
qed

lemma uuid_hyphenated_eq: "uuid_hyphenated u = hyphenate (hex_digits 32 (unat u))"
  by (simp add: uuid_hyphenated_def hyphenate_def Let_def)

lemma uuid_hyphenated_less: "uuid_hyphenated u < uuid_hyphenated v \<longleftrightarrow> u < v"
proof -
  have "unat (w :: uuid) < 16 ^ 32" for w
    using unsigned_less [of w, where 'a = nat] by simp
  then show ?thesis
    by (simp add: uuid_hyphenated_eq hyphenate_less hex_digits_less word_less_nat_alt)
qed

lemma uuid_hyphenated_inj [simp]: "uuid_hyphenated u = uuid_hyphenated v \<longleftrightarrow> u = v"
  by (metis linorder_neq_iff uuid_hyphenated_less)

section \<open>An instance for witnesses\<close>

text \<open>
  Executable stand-ins with the documented formats. The stand-in for BLAKE3 is the input padded
  or cut to 32 bytes; it has the length of a digest and no claim to its strength.
\<close>

definition hex_value :: "char \<Rightarrow> nat option" where
  "hex_value c =
     (let n = of_char c :: nat
      in if 48 \<le> n \<and> n \<le> 57 then Some (n - 48)
         else if 97 \<le> n \<and> n \<le> 102 then Some (n - 87) else None)"

fun hex_number :: "nat \<Rightarrow> string \<Rightarrow> nat option" where
  "hex_number acc [] = Some acc"
| "hex_number acc (c # cs) =
     (case hex_value c of None \<Rightarrow> None | Some d \<Rightarrow> hex_number (16 * acc + d) cs)"

fun hex_pairs :: "string \<Rightarrow> bytes option" where
  "hex_pairs [] = Some []"
| "hex_pairs [c] = None"
| "hex_pairs (c # d # cs) =
     (case (hex_number 0 [c, d], hex_pairs cs) of
        (Some n, Some bs) \<Rightarrow> Some (of_nat n # bs) | _ \<Rightarrow> None)"

definition parse_hyphenated :: "string \<Rightarrow> uuid option" where
  "parse_hyphenated s = map_option of_nat (hex_number 0 (filter (\<lambda>c. c \<noteq> CHR ''-'') s))"

definition sample_crates :: crates where
  "sample_crates = \<lparr>blake3_hash = (\<lambda>b. take 32 (b @ replicate 32 0)), hex_encode = hex_lower,
     hex_decode = hex_pairs, uuid_to_string = uuid_hyphenated, uuid_parse_str = parse_hyphenated\<rparr>"

lemma hex_value_digit: "d < 16 \<Longrightarrow> hex_value (hex_digit d) = Some d"
  by (auto simp: hex_value_def hex_digit_def Let_def)

lemma hex_number_append:
  "hex_number acc (xs @ ys) = Option.bind (hex_number acc xs) (\<lambda>a. hex_number a ys)"
  by (induction xs arbitrary: acc) (auto split: option.splits)

lemma hex_number_digits: "v < 16 ^ n \<Longrightarrow> hex_number acc (hex_digits n v) = Some (acc * 16 ^ n + v)"
proof (induction n arbitrary: v)
  case (Suc n)
  then have "v div 16 < 16 ^ n" by auto
  with Suc.IH show ?case
    by (simp add: hex_number_append hex_value_digit algebra_simps)
qed simp

lemma hex_digits_2: "hex_digits 2 v = [hex_digit (v div 16 mod 16), hex_digit (v mod 16)]"
  by (simp add: numeral_2_eq_2)

lemma hex_pairs_lower: "hex_pairs (hex_lower bs) = Some bs"
proof (induction bs)
  case (Cons b bs)
  have "unat b < 16 ^ 2" using unsigned_less [of b, where 'a = nat] by simp
  then have "hex_number 0 (hex_digits 2 (unat b)) = Some (unat b)" by (simp add: hex_number_digits)
  with Cons show ?case by (simp add: hex_lower_def hex_digits_2)
qed (simp add: hex_lower_def)

lemma hex_digit_not_hyphen: "d < 16 \<Longrightarrow> hex_digit d \<noteq> CHR ''-''"
proof -
  assume "d < 16"
  then have "of_char (hex_digit d) \<noteq> (45 :: nat)" by (simp add: hex_digit_def)
  then show ?thesis by auto
qed

lemma hex_digits_no_hyphen: "c \<in> set (hex_digits n v) \<Longrightarrow> c \<noteq> CHR ''-''"
proof (induction n arbitrary: v)
  case (Suc n)
  then show ?case using hex_digit_not_hyphen [of "v mod 16"] by auto
qed simp

lemma filter_hyphenate:
  assumes "CHR ''-'' \<notin> set h"
  shows "filter (\<lambda>c. c \<noteq> CHR ''-'') (hyphenate h) = h"
proof -
  have keep: "filter (\<lambda>c. c \<noteq> CHR ''-'') xs = xs" if "set xs \<subseteq> set h" for xs
    using that assms by (auto intro: filter_True)
  have sub: "set (take n (drop k h)) \<subseteq> set h" "set (take n h) \<subseteq> set h" "set (drop k h) \<subseteq> set h" for n k
    using set_take_subset set_drop_subset by (metis dual_order.trans)+
  show ?thesis
    using split_8_4_4_4 [of h] by (simp add: hyphenate_def keep sub)
qed

lemma sample_crates_ok: "crates_ok sample_crates"
proof -
  have "parse_hyphenated (uuid_hyphenated u) = Some u" for u
  proof -
    have "CHR ''-'' \<notin> set (hex_digits 32 (unat u))" using hex_digits_no_hyphen by blast
    moreover have "unat u < 16 ^ 32" using unsigned_less [of u, where 'a = nat] by simp
    ultimately show ?thesis
      by (simp add: parse_hyphenated_def uuid_hyphenated_eq filter_hyphenate hex_number_digits)
  qed
  then show ?thesis
    by (auto simp: crates_ok_def sample_crates_def hex_pairs_lower min_def)
qed

end
