(* ===== verification/Content_Hash.thy ===== *)
theory Content_Hash
  imports Crates
begin

text \<open>
  Content hashes (\<open>clipse-core/src/hash.rs\<close>): the digest of a payload, the length-prefixed digest
  of a multi-format clip, the hexadecimal text form and the blob store's shard path.

  The byte stream \<open>of_parts\<close> feeds to the hasher is \<open>part_stream\<close>; it is injective, so two clips
  whose representations differ have equal identities only if BLAKE3 itself collides.
\<close>

section \<open>Bytes of a machine word and of a string\<close>

definition le_bytes_u64 :: "u64 \<Rightarrow> bytes" where
  "le_bytes_u64 w = map (\<lambda>i. ucast (drop_bit (8 * i) w)) [0..<8]"

definition str_bytes :: "string \<Rightarrow> bytes" where
  "str_bytes s = map of_char s"

section \<open>Content hashes\<close>

datatype content_hash = ContentHash (hash_bytes: bytes)

datatype core_error =
    InvalidHash string
  | InvalidDeviceId string
  | ClockDrift u64
  | UnsupportedFormat string
  | NoDataDirectory

definition hash_of :: "'x crates_scheme \<Rightarrow> bytes \<Rightarrow> content_hash" where
  "hash_of X bs = ContentHash (blake3_hash X bs)"

text \<open>What the loop of \<open>of_parts\<close> passes to \<open>Hasher::update\<close>, in order.\<close>

definition part_bytes :: "string \<times> bytes \<Rightarrow> bytes" where
  "part_bytes part =
     (case part of (label, bs) \<Rightarrow>
        le_bytes_u64 (of_nat (length (str_bytes label))) @ str_bytes label @
        le_bytes_u64 (of_nat (length bs)) @ bs)"

definition part_stream :: "(string \<times> bytes) list \<Rightarrow> bytes" where
  "part_stream parts = concat (map part_bytes parts)"

definition of_parts :: "'x crates_scheme \<Rightarrow> (string \<times> bytes) list \<Rightarrow> content_hash" where
  "of_parts X parts = ContentHash (blake3_hash X (part_stream parts))"

definition to_hex :: "'x crates_scheme \<Rightarrow> content_hash \<Rightarrow> string" where
  "to_hex X h = hex_encode X (hash_bytes h)"

definition shard_path :: "'x crates_scheme \<Rightarrow> content_hash \<Rightarrow> string \<times> string \<times> string" where
  "shard_path X h =
     (let hex = to_hex X h in (take 2 hex, take 2 (drop 2 hex), hex))"

text \<open>\<open>FromStr\<close>: hexadecimal that does not decode to exactly 32 bytes is refused.\<close>

definition hash_from_str :: "'x crates_scheme \<Rightarrow> string \<Rightarrow> core_error + content_hash" where
  "hash_from_str X s =
     (case hex_decode X s of
        None \<Rightarrow> Inl (InvalidHash s)
      | Some raw \<Rightarrow> if length raw = 32 then Inr (ContentHash raw) else Inl (InvalidHash s))"

text \<open>The Rust type \<open>[u8; 32]\<close>.\<close>

definition hash_wf :: "content_hash \<Rightarrow> bool" where
  "hash_wf h \<longleftrightarrow> length (hash_bytes h) = 32"

lemma hash_of_wf [simp]: "crates_ok X \<Longrightarrow> hash_wf (hash_of X bs)"
  by (simp add: hash_wf_def hash_of_def crates_okD)

lemma of_parts_wf [simp]: "crates_ok X \<Longrightarrow> hash_wf (of_parts X ps)"
  by (simp add: hash_wf_def of_parts_def crates_okD)

section \<open>Identifiers as text\<close>

definition device_to_string :: "'x crates_scheme \<Rightarrow> device_id \<Rightarrow> string" where
  "device_to_string X d = uuid_to_string X (as_uuid d)"

definition device_from_str :: "'x crates_scheme \<Rightarrow> string \<Rightarrow> core_error + device_id" where
  "device_from_str X s =
     (case uuid_parse_str X s of None \<Rightarrow> Inl (InvalidDeviceId s) | Some u \<Rightarrow> Inr (DeviceId u))"

definition clip_id_to_string :: "'x crates_scheme \<Rightarrow> clip_id \<Rightarrow> string" where
  "clip_id_to_string X i = uuid_to_string X (clip_uuid i)"

definition clip_id_from_str :: "'x crates_scheme \<Rightarrow> string \<Rightarrow> core_error + clip_id" where
  "clip_id_from_str X s =
     (case uuid_parse_str X s of None \<Rightarrow> Inl (InvalidDeviceId s) | Some u \<Rightarrow> Inr (ClipId u))"

section \<open>Text round trips\<close>

lemma hash_roundtrip: "crates_ok X \<Longrightarrow> hash_wf h \<Longrightarrow> hash_from_str X (to_hex X h) = Inr h"
  by (cases h) (simp add: hash_from_str_def to_hex_def hash_wf_def crates_okD)

lemma device_roundtrip: "crates_ok X \<Longrightarrow> device_from_str X (device_to_string X d) = Inr d"
  by (cases d) (simp add: device_from_str_def device_to_string_def crates_okD)

lemma clip_id_roundtrip: "crates_ok X \<Longrightarrow> clip_id_from_str X (clip_id_to_string X i) = Inr i"
  by (cases i) (simp add: clip_id_from_str_def clip_id_to_string_def crates_okD)

lemma to_hex_inj: "crates_ok X \<Longrightarrow> to_hex X g = to_hex X h \<longleftrightarrow> g = h"
  by (metis content_hash.expand crates_okD(2,3) option.inject to_hex_def)

lemma device_to_string_inj: "crates_ok X \<Longrightarrow> device_to_string X a = device_to_string X b \<longleftrightarrow> a = b"
  by (metis device_roundtrip sum.inject(2))

lemma clip_id_to_string_inj: "crates_ok X \<Longrightarrow> clip_id_to_string X a = clip_id_to_string X b \<longleftrightarrow> a = b"
  by (metis clip_id_roundtrip sum.inject(2))

lemma device_to_string_less:
  "crates_ok X \<Longrightarrow> device_to_string X a < device_to_string X b \<longleftrightarrow> a < b"
  by (simp add: device_to_string_def crates_okD uuid_hyphenated_less less_device_id_def)

text \<open>
  A content hash survives printing and parsing, and its shard path is the two two-digit
  prefixes of that text followed by all 64 digits, so distinct hashes never share a blob file.
\<close>

theorem content_hash_text_roundtrip:
  assumes "crates_ok X" and "hash_wf g" and "hash_wf h"
  shows "hash_from_str X (to_hex X h) = Inr h \<and>
    length (snd (snd (shard_path X h))) = 64 \<and>
    (shard_path X g = shard_path X h \<longleftrightarrow> g = h)"
proof (intro conjI)
  show "hash_from_str X (to_hex X h) = Inr h" using assms by (intro hash_roundtrip)
  have "length (hex_lower bs) = 2 * length bs" for bs
    by (induction bs) (auto simp: hex_lower_def)
  then show "length (snd (snd (shard_path X h))) = 64"
    using assms by (simp add: shard_path_def Let_def to_hex_def crates_okD hash_wf_def)
  show "shard_path X g = shard_path X h \<longleftrightarrow> g = h"
    using assms(1) by (auto simp: shard_path_def Let_def to_hex_inj)
qed

theorem content_hash_text_roundtrip_witness:
  "hash_from_str sample_crates (to_hex sample_crates (hash_of sample_crates [1, 255])) =
     Inr (hash_of sample_crates [1, 255]) \<and>
   length (snd (snd (shard_path sample_crates (hash_of sample_crates [1, 255])))) = 64 \<and>
   shard_path sample_crates (hash_of sample_crates [1]) \<noteq> shard_path sample_crates (hash_of sample_crates [2])"
proof -
  note wf = hash_of_wf [OF sample_crates_ok]
  have "hash_of sample_crates [1] \<noteq> hash_of sample_crates [2]"
    by (simp add: hash_of_def sample_crates_def)
  with content_hash_text_roundtrip [OF sample_crates_ok wf wf] show ?thesis by metis
qed

section \<open>The length-prefixed stream is injective\<close>

lemma length_le_bytes [simp]: "length (le_bytes_u64 w) = 8"
  by (simp add: le_bytes_u64_def)

lemma le_bytes_inj: "le_bytes_u64 v = le_bytes_u64 w \<longleftrightarrow> v = w"
proof
  assume eq: "le_bytes_u64 v = le_bytes_u64 w"
  show "v = w"
  proof (rule bit_word_eqI)
    fix n assume n: "n < LENGTH(64)"
    have i: "n div 8 < 8" using n by simp
    have "le_bytes_u64 v ! (n div 8) = le_bytes_u64 w ! (n div 8)" using eq by simp
    then have "(ucast (drop_bit (8 * (n div 8)) v) :: u8) = ucast (drop_bit (8 * (n div 8)) w)"
      using i by (simp add: le_bytes_u64_def)
    then have "bit (ucast (drop_bit (8 * (n div 8)) v) :: u8) (n mod 8) =
        bit (ucast (drop_bit (8 * (n div 8)) w) :: u8) (n mod 8)" by simp
    then show "bit v n = bit w n"
      by (simp add: bit_simps)
  qed
qed simp

lemma str_bytes_inj: "str_bytes s = str_bytes t \<longleftrightarrow> s = t"
proof -
  have "inj (of_char :: char \<Rightarrow> u8)"
  proof (rule injI)
    fix a b :: char assume "(of_char a :: u8) = of_char b"
    then have "unat (of_nat (of_char a) :: u8) = unat (of_nat (of_char b) :: u8)"
      by (simp only: of_nat_of_char)
    then have "(of_char a :: nat) = of_char b" by (simp add: unat_of_nat)
    then show "a = b" by simp
  qed
  then show ?thesis by (simp add: str_bytes_def inj_map_eq_map)
qed

text \<open>
  In memory no label and no byte slice has more than \<open>2 ^ 64 - 1\<close> bytes, so the cast of a
  length to \<open>u64\<close> loses nothing.
\<close>

definition part_fits :: "string \<times> bytes \<Rightarrow> bool" where
  "part_fits part \<longleftrightarrow> length (fst part) < 2 ^ 64 \<and> length (snd part) < 2 ^ 64"

lemma length_str_bytes [simp]: "length (str_bytes s) = length s"
  by (simp add: str_bytes_def)

lemma le_bytes_length_inj:
  "m < 2 ^ 64 \<Longrightarrow> n < 2 ^ 64 \<Longrightarrow> le_bytes_u64 (of_nat m) = le_bytes_u64 (of_nat n) \<longleftrightarrow> m = n"
  by (simp add: le_bytes_inj of_nat_inverse word_unat_eq_iff unat_of_nat)

lemma prefixed_append_inj:
  assumes "length xs < 2 ^ 64" "length ys < 2 ^ 64"
    and "le_bytes_u64 (of_nat (length xs)) @ xs @ us = le_bytes_u64 (of_nat (length ys)) @ ys @ vs"
  shows "xs = ys \<and> us = vs"
proof -
  from assms(3) have "le_bytes_u64 (of_nat (length xs)) = le_bytes_u64 (of_nat (length ys))"
    and rest: "xs @ us = ys @ vs" by (auto simp: append_eq_append_conv)
  with assms(1,2) have "length xs = length ys" by (simp add: le_bytes_length_inj)
  with rest show ?thesis by simp
qed

lemma part_bytes_append_inj:
  assumes "part_fits p" "part_fits q" and eq: "part_bytes p @ us = part_bytes q @ vs"
  shows "p = q \<and> us = vs"
proof -
  obtain l a m b where pq: "p = (l, a)" "q = (m, b)" by force
  have "str_bytes l = str_bytes m \<and>
      le_bytes_u64 (of_nat (length a)) @ a @ us = le_bytes_u64 (of_nat (length b)) @ b @ vs"
    using assms by (intro prefixed_append_inj) (auto simp: pq part_bytes_def part_fits_def)
  moreover from this have "a = b \<and> us = vs"
    using assms by (intro prefixed_append_inj) (auto simp: pq part_fits_def)
  ultimately show ?thesis by (simp add: pq str_bytes_inj)
qed

lemma part_bytes_nonempty: "part_bytes p \<noteq> []"
proof -
  have "length (part_bytes p) > 0" by (cases p) (simp add: part_bytes_def)
  then show ?thesis by auto
qed

lemma part_stream_inj:
  "list_all part_fits ps \<Longrightarrow> list_all part_fits qs \<Longrightarrow> part_stream ps = part_stream qs \<longleftrightarrow> ps = qs"
proof (induction ps arbitrary: qs)
  case Nil
  then show ?case by (cases qs) (auto simp: part_stream_def part_bytes_nonempty)
next
  case (Cons p ps)
  show ?case
  proof (cases qs)
    case (Cons q qs')
    with Cons.prems Cons.IH [of qs'] part_bytes_append_inj [of p q "part_stream ps" "part_stream qs'"]
    show ?thesis by (auto simp: part_stream_def)
  qed (auto simp: part_stream_def part_bytes_nonempty)
qed

text \<open>
  Length prefixing works: two lists of representations get the same content hash only if
  they are the same list, or two different byte streams are a BLAKE3 collision.
\<close>

theorem of_parts_identifies:
  assumes "list_all part_fits ps" and "list_all part_fits qs"
    and "of_parts X ps = of_parts X qs" and "ps \<noteq> qs"
  shows "part_stream ps \<noteq> part_stream qs \<and>
    blake3_hash X (part_stream ps) = blake3_hash X (part_stream qs)"
  using assms by (simp add: part_stream_inj of_parts_def)

theorem of_parts_identifies_witness:
  "let X = sample_crates\<lparr>blake3_hash := \<lambda>_. replicate 32 0\<rparr>
   in part_stream [(''text'', [1, 2]), (''html'', [3])] \<noteq> part_stream [(''text'', [1]), (''html'', [2, 3])] \<and>
      blake3_hash X (part_stream [(''text'', [1, 2]), (''html'', [3])]) =
      blake3_hash X (part_stream [(''text'', [1]), (''html'', [2, 3])])"
  unfolding Let_def
  by (rule of_parts_identifies) (simp_all add: part_fits_def of_parts_def)

end
