(* ===== verification/Text.thy ===== *)
theory Text
  imports Prelude
begin

text \<open>
  The text operations of the Rust standard library that the program uses: strict UTF-8 decoding
  (\<open>str::from_utf8\<close>), Unicode white space, \<open>split_whitespace\<close>, \<open>trim\<close>, \<open>join\<close>, and the decimal
  formatting of integers and of \<open>f64\<close> with a fixed number of digits. A Rust string is the list of
  its code points here; labels and identifiers, which are only compared, are byte strings.
\<close>

type_synonym ustr = "nat list"

abbreviation lit :: "string \<Rightarrow> ustr" where
  "lit s \<equiv> map of_char s"

section \<open>UTF-8\<close>

definition is_cont :: "nat \<Rightarrow> bool" where
  "is_cont n \<longleftrightarrow> 128 \<le> n \<and> n \<le> 191"

definition second_ok :: "nat \<Rightarrow> nat \<Rightarrow> bool" where
  "second_ok n0 n1 \<longleftrightarrow>
     (if n0 = 224 then 160 \<le> n1 \<and> n1 \<le> 191
      else if n0 = 237 then 128 \<le> n1 \<and> n1 \<le> 159
      else if n0 = 240 then 144 \<le> n1 \<and> n1 \<le> 191
      else if n0 = 244 then 128 \<le> n1 \<and> n1 \<le> 143
      else is_cont n1)"

fun utf8_decode :: "nat list \<Rightarrow> ustr option" where
  "utf8_decode [] = Some []"
| "utf8_decode (n0 # bs) =
     (if n0 < 128 then map_option ((#) n0) (utf8_decode bs)
      else if 194 \<le> n0 \<and> n0 \<le> 223 then
        (case bs of
           n1 # bs' \<Rightarrow>
             if is_cont n1
             then map_option ((#) ((n0 - 192) * 64 + (n1 - 128))) (utf8_decode bs') else None
         | _ \<Rightarrow> None)
      else if 224 \<le> n0 \<and> n0 \<le> 239 then
        (case bs of
           n1 # n2 # bs' \<Rightarrow>
             if second_ok n0 n1 \<and> is_cont n2
             then map_option ((#) ((n0 - 224) * 4096 + (n1 - 128) * 64 + (n2 - 128))) (utf8_decode bs')
             else None
         | _ \<Rightarrow> None)
      else if 240 \<le> n0 \<and> n0 \<le> 244 then
        (case bs of
           n1 # n2 # n3 # bs' \<Rightarrow>
             if second_ok n0 n1 \<and> is_cont n2 \<and> is_cont n3
             then map_option ((#) ((n0 - 240) * 262144 + (n1 - 128) * 4096 + (n2 - 128) * 64 + (n3 - 128)))
                    (utf8_decode bs')
             else None
         | _ \<Rightarrow> None)
      else None)"

definition from_utf8 :: "bytes \<Rightarrow> ustr option" where
  "from_utf8 bs = utf8_decode (map unat bs)"

text \<open>The encoder, to state that decoding inverts it.\<close>

definition is_scalar :: "nat \<Rightarrow> bool" where
  "is_scalar c \<longleftrightarrow> c < 55296 \<or> 57344 \<le> c \<and> c < 1114112"

definition utf8_char :: "nat \<Rightarrow> nat list" where
  "utf8_char c =
     (if c < 128 then [c]
      else if c < 2048 then [192 + c div 64, 128 + c mod 64]
      else if c < 65536 then [224 + c div 4096, 128 + c div 64 mod 64, 128 + c mod 64]
      else [240 + c div 262144, 128 + c div 4096 mod 64, 128 + c div 64 mod 64, 128 + c mod 64])"

definition utf8_encode :: "ustr \<Rightarrow> bytes" where
  "utf8_encode cs = map of_nat (concat (map utf8_char cs))"

section \<open>White space\<close>

definition is_whitespace :: "nat \<Rightarrow> bool" where
  "is_whitespace c \<longleftrightarrow>
     9 \<le> c \<and> c \<le> 13 \<or> c = 32 \<or> c = 133 \<or> c = 160 \<or> c = 5760 \<or> 8192 \<le> c \<and> c \<le> 8202 \<or>
     c = 8232 \<or> c = 8233 \<or> c = 8239 \<or> c = 8287 \<or> c = 12288"

function split_whitespace :: "ustr \<Rightarrow> ustr list" where
  "split_whitespace s =
     (let r = dropWhile is_whitespace s
      in if r = [] then []
         else takeWhile (\<lambda>c. \<not> is_whitespace c) r #
              split_whitespace (dropWhile (\<lambda>c. \<not> is_whitespace c) r))"
  by pat_completeness auto
termination
proof (relation "measure length", goal_cases)
  case (2 s r)
  then have ws: "\<not> is_whitespace (hd r)" using hd_dropWhile [of is_whitespace s] by simp
  have "length (dropWhile (\<lambda>c. \<not> is_whitespace c) r) < length r"
    using 2(2) ws by (cases r) (auto simp: le_imp_less_Suc length_dropWhile_le)
  moreover have "length r \<le> length s" using 2(1) by (simp add: length_dropWhile_le)
  ultimately show ?case by simp
qed simp

declare split_whitespace.simps [simp del]

definition trim :: "ustr \<Rightarrow> ustr" where
  "trim s = rev (dropWhile is_whitespace (rev (dropWhile is_whitespace s)))"

fun join :: "ustr \<Rightarrow> ustr list \<Rightarrow> ustr" where
  "join sep [] = []"
| "join sep [s] = s"
| "join sep (s # t # ts) = s @ sep @ join sep (t # ts)"

section \<open>Decimal formatting\<close>

fun dec :: "nat \<Rightarrow> ustr" where
  "dec n = (if n < 10 then [48 + n] else dec (n div 10) @ [48 + n mod 10])"

declare dec.simps [simp del]

text \<open>
  \<open>format!("{:.0}")\<close> and \<open>format!("{:.1}")\<close> of the quotient of two integers that is exact in
  \<open>f64\<close>: the decimal expansion rounded half to even.
\<close>

definition round_half_even :: "nat \<Rightarrow> nat \<Rightarrow> nat" where
  "round_half_even a b =
     (let q = a div b; r = a mod b
      in if 2 * r < b \<or> 2 * r = b \<and> even q then q else q + 1)"

definition fmt0 :: "nat \<Rightarrow> nat \<Rightarrow> ustr" where
  "fmt0 a b = dec (round_half_even a b)"

definition fmt1 :: "nat \<Rightarrow> nat \<Rightarrow> ustr" where
  "fmt1 a b = (let t = round_half_even (10 * a) b in dec (t div 10) @ lit ''.'' @ dec (t mod 10))"

section \<open>Facts\<close>

lemma base64_split:
  fixes c :: nat
  shows "c = c div 64 * 64 + c mod 64"
    and "c = c div 4096 * 4096 + c div 64 mod 64 * 64 + c mod 64"
    and "c = c div 262144 * 262144 + c div 4096 mod 64 * 4096 + c div 64 mod 64 * 64 + c mod 64"
proof -
  have d: "c div 4096 = c div 64 div 64" "c div 262144 = c div 64 div 64 div 64"
    by (simp_all flip: div_mult2_eq)
  note split = div_mult_mod_eq [symmetric, where b = 64]
  show "c = c div 64 * 64 + c mod 64" by simp
  show "c = c div 4096 * 4096 + c div 64 mod 64 * 64 + c mod 64"
    unfolding d using split [of c] split [of "c div 64"] by linarith
  show "c = c div 262144 * 262144 + c div 4096 mod 64 * 4096 + c div 64 mod 64 * 64 + c mod 64"
    unfolding d using split [of c] split [of "c div 64"] split [of "c div 64 div 64"] by linarith
qed

lemma utf8_decode_2:
  assumes "2 \<le> a" "a < 32" "d < 64"
  shows "utf8_decode ((192 + a) # (128 + d) # bs) = map_option ((#) (a * 64 + d)) (utf8_decode bs)"
  using assms by (simp add: is_cont_def)

lemma utf8_decode_3:
  assumes "a < 16" "b < 64" "d < 64" "a = 0 \<longrightarrow> 32 \<le> b" "a = 13 \<longrightarrow> b < 32"
  shows "utf8_decode ((224 + a) # (128 + b) # (128 + d) # bs) =
    map_option ((#) (a * 4096 + b * 64 + d)) (utf8_decode bs)"
  using assms by (auto simp: is_cont_def second_ok_def)

lemma utf8_decode_4:
  assumes "a < 5" "b < 64" "d < 64" "e < 64" "a = 0 \<longrightarrow> 16 \<le> b" "a = 4 \<longrightarrow> b < 16"
  shows "utf8_decode ((240 + a) # (128 + b) # (128 + d) # (128 + e) # bs) =
    map_option ((#) (a * 262144 + b * 4096 + d * 64 + e)) (utf8_decode bs)"
  using assms by (auto simp: is_cont_def second_ok_def)

lemma utf8_decode_char:
  assumes c: "is_scalar c"
  shows "utf8_decode (utf8_char c @ bs) = map_option ((#) c) (utf8_decode bs)"
proof -
  consider "c < 128" | "128 \<le> c" "c < 2048" | "2048 \<le> c" "c < 65536" | "65536 \<le> c" by linarith
  then show ?thesis
  proof cases
    case 1
    then show ?thesis by (simp add: utf8_char_def)
  next
    case 2
    then have "2 \<le> c div 64" "c div 64 < 32" by auto
    from utf8_decode_2 [OF this, of "c mod 64" bs] 2 show ?thesis
      by (simp add: utf8_char_def del: utf8_decode.simps)
  next
    case 3
    define a b d where abd: "a = c div 4096" "b = c div 64 mod 64" "d = c mod 64"
    have e: "c = a * 4096 + b * 64 + d" unfolding abd by (rule base64_split)
    have bd: "b < 64" "d < 64" by (simp_all add: abd)
    have "a < 16" "a = 0 \<longrightarrow> 32 \<le> b" "a = 13 \<longrightarrow> b < 32"
      using 3 c e bd by (auto simp: is_scalar_def)
    note decode = utf8_decode_3 [OF this(1) bd this(2,3), of bs, folded e]
    have "utf8_char c = [224 + a, 128 + b, 128 + d]" using 3 by (simp add: utf8_char_def abd)
    with decode show ?thesis by (simp del: utf8_decode.simps)
  next
    case 4
    define a b d f where abd: "a = c div 262144" "b = c div 4096 mod 64" "d = c div 64 mod 64" "f = c mod 64"
    have e: "c = a * 262144 + b * 4096 + d * 64 + f" unfolding abd by (rule base64_split)
    have bd: "b < 64" "d < 64" "f < 64" by (simp_all add: abd)
    have "a < 5" "a = 0 \<longrightarrow> 16 \<le> b" "a = 4 \<longrightarrow> b < 16"
      using 4 c e bd by (auto simp: is_scalar_def)
    note decode = utf8_decode_4 [OF this(1) bd this(2,3), of bs, folded e]
    have "utf8_char c = [240 + a, 128 + b, 128 + d, 128 + f]" using 4 by (simp add: utf8_char_def abd)
    with decode show ?thesis by (simp del: utf8_decode.simps)
  qed
qed

lemma utf8_char_byte: "is_scalar c \<Longrightarrow> n \<in> set (utf8_char c) \<Longrightarrow> n < 256"
  by (auto simp: utf8_char_def is_scalar_def split: if_splits)

lemma from_utf8_encode:
  assumes "list_all is_scalar cs"
  shows "from_utf8 (utf8_encode cs) = Some cs"
proof -
  have "\<forall>n \<in> set (concat (map utf8_char cs)). n < 256"
    using assms utf8_char_byte by (fastforce simp: list_all_iff)
  then have "map (unat \<circ> (of_nat :: nat \<Rightarrow> u8)) (concat (map utf8_char cs)) = concat (map utf8_char cs)"
    by (intro map_idI) (auto simp: unat_of_nat intro: mod_less)
  moreover have "utf8_decode (concat (map utf8_char cs)) = Some cs"
    using assms by (induction cs) (auto simp: utf8_decode_char)
  ultimately show ?thesis by (simp add: from_utf8_def utf8_encode_def)
qed

lemma split_whitespace_tokens:
  "t \<in> set (split_whitespace s) \<Longrightarrow> t \<noteq> [] \<and> (\<forall>c \<in> set t. \<not> is_whitespace c)"
proof (induction s rule: split_whitespace.induct)
  case (1 s)
  let ?r = "dropWhile is_whitespace s"
  show ?case
  proof (cases "?r = []")
    case True
    with "1.prems" show ?thesis by (simp add: split_whitespace.simps [of s])
  next
    case False
    then have hd: "\<not> is_whitespace (hd ?r)" by (rule hd_dropWhile)
    have eq: "split_whitespace s = takeWhile (\<lambda>c. \<not> is_whitespace c) ?r #
        split_whitespace (dropWhile (\<lambda>c. \<not> is_whitespace c) ?r)"
      using False unfolding split_whitespace.simps [of s] Let_def by (rule if_not_P)
    from "1.prems" consider "t = takeWhile (\<lambda>c. \<not> is_whitespace c) ?r"
      | "t \<in> set (split_whitespace (dropWhile (\<lambda>c. \<not> is_whitespace c) ?r))"
      unfolding eq by auto
    then show ?thesis
    proof cases
      case 1
      with hd False show ?thesis by (cases ?r) (auto dest: set_takeWhileD)
    next
      case 2
      with "1.IH" [OF refl False] show ?thesis by blast
    qed
  qed
qed

lemma split_whitespace_empty_iff: "split_whitespace s = [] \<longleftrightarrow> (\<forall>c \<in> set s. is_whitespace c)"
  by (simp add: split_whitespace.simps [of s] Let_def)

end
