(* ===== verification/Clip_Model.thy ===== *)
theory Clip_Model
  imports Content_Hash Text
begin

text \<open>
  The domain types of \<open>clipse-core/src/clip.rs\<close>: representations of a copy, where their bytes
  live, and the history entry assembled from them. \<open>ClipId::generate()\<close> is an argument of
  \<open>clip_new\<close>; the assertion of \<open>Clip::new\<close> is the result \<open>None\<close>.
\<close>

section \<open>Formats and kinds\<close>

datatype clip_format = Text | Html | Rtf | Png | Jpeg | Svg | FileList | Other string

datatype clip_kind = KText | KHtml | KRtf | KImage | KFiles | KOther

fun label :: "clip_format \<Rightarrow> string" where
  "label Text = ''text/plain''"
| "label Html = ''text/html''"
| "label Rtf = ''application/rtf''"
| "label Png = ''image/png''"
| "label Jpeg = ''image/jpeg''"
| "label Svg = ''image/svg+xml''"
| "label FileList = ''application/x-clipse-filelist''"
| "label (Other s) = s"

definition from_label :: "string \<Rightarrow> clip_format" where
  "from_label s =
     (if s = ''text/plain'' then Text
      else if s = ''text/html'' then Html
      else if s = ''application/rtf'' then Rtf
      else if s = ''image/png'' then Png
      else if s = ''image/jpeg'' then Jpeg
      else if s = ''image/svg+xml'' then Svg
      else if s = ''application/x-clipse-filelist'' then FileList
      else Other s)"

fun format_kind :: "clip_format \<Rightarrow> clip_kind" where
  "format_kind Text = KText"
| "format_kind Html = KHtml"
| "format_kind Rtf = KRtf"
| "format_kind Png = KImage"
| "format_kind Jpeg = KImage"
| "format_kind Svg = KImage"
| "format_kind FileList = KFiles"
| "format_kind (Other _) = KOther"

fun display_rank :: "clip_format \<Rightarrow> nat" where
  "display_rank FileList = 5"
| "display_rank Png = 4"
| "display_rank Jpeg = 4"
| "display_rank Svg = 4"
| "display_rank Html = 3"
| "display_rank Rtf = 2"
| "display_rank Text = 1"
| "display_rank (Other _) = 0"

fun kind_str :: "clip_kind \<Rightarrow> string" where
  "kind_str KText = ''text''"
| "kind_str KHtml = ''html''"
| "kind_str KRtf = ''rtf''"
| "kind_str KImage = ''image''"
| "kind_str KFiles = ''files''"
| "kind_str KOther = ''other''"

section \<open>Payloads\<close>

definition INLINE_MAX_BYTES :: u64 where
  "INLINE_MAX_BYTES = 64 * 1024"

datatype payload_body = Inline bytes | Blob

record payload =
  p_format :: clip_format
  p_digest :: content_hash
  p_size :: u64
  p_body :: payload_body

definition payload_new :: "'x crates_scheme \<Rightarrow> clip_format \<Rightarrow> bytes \<Rightarrow> payload" where
  "payload_new X fmt bs =
     (let digest = hash_of X bs;
          sz = of_nat (length bs);
          body = (if sz \<le> INLINE_MAX_BYTES then Inline bs else Blob)
      in \<lparr>p_format = fmt, p_digest = digest, p_size = sz, p_body = body\<rparr>)"

definition payload_blob :: "clip_format \<Rightarrow> content_hash \<Rightarrow> u64 \<Rightarrow> payload" where
  "payload_blob fmt digest sz = \<lparr>p_format = fmt, p_digest = digest, p_size = sz, p_body = Blob\<rparr>"

definition inline_bytes :: "payload \<Rightarrow> bytes option" where
  "inline_bytes p = (case p_body p of Inline b \<Rightarrow> Some b | Blob \<Rightarrow> None)"

definition is_blob :: "payload \<Rightarrow> bool" where
  "is_blob p \<longleftrightarrow> p_body p = Blob"

section \<open>Clips\<close>

record clip_source =
  src_device :: device_id
  src_device_label :: ustr
  src_app :: "ustr option"

definition source_new :: "device_id \<Rightarrow> ustr \<Rightarrow> clip_source" where
  "source_new d l = \<lparr>src_device = d, src_device_label = l, src_app = None\<rparr>"

definition with_app :: "ustr option \<Rightarrow> clip_source \<Rightarrow> clip_source" where
  "with_app a s = s\<lparr>src_app := a\<rparr>"

record clip =
  c_id :: clip_id
  c_hash :: content_hash
  c_kind :: clip_kind
  c_payloads :: "payload list"
  c_preview :: ustr
  c_source :: clip_source
  c_hlc :: hlc
  c_created_at_ms :: u64
  c_pinned :: bool
  c_deleted :: bool

definition compute_hash :: "'x crates_scheme \<Rightarrow> payload list \<Rightarrow> content_hash" where
  "compute_hash X ps = of_parts X (map (\<lambda>p. (label (p_format p), hash_bytes (p_digest p))) ps)"

definition hash_matches :: "'x crates_scheme \<Rightarrow> clip \<Rightarrow> bool" where
  "hash_matches X c \<longleftrightarrow> compute_hash X (c_payloads c) = c_hash c"

definition clip_payload :: "clip \<Rightarrow> clip_format \<Rightarrow> payload option" where
  "clip_payload c fmt = find (\<lambda>p. p_format p = fmt) (c_payloads c)"

definition payloads_text :: "payload list \<Rightarrow> ustr option" where
  "payloads_text ps =
     Option.bind (Option.bind (find (\<lambda>p. p_format p = Text) ps) inline_bytes) from_utf8"

definition clip_text :: "clip \<Rightarrow> ustr option" where
  "clip_text c = payloads_text (c_payloads c)"

text \<open>\<open>sum()\<close> over \<open>u64\<close>: the release build wraps.\<close>

definition sum_sizes :: "payload list \<Rightarrow> u64" where
  "sum_sizes ps = sum_list (map p_size ps)"

definition total_size :: "clip \<Rightarrow> u64" where
  "total_size c = sum_sizes (c_payloads c)"

definition is_complete :: "(content_hash \<Rightarrow> bool) \<Rightarrow> clip \<Rightarrow> bool" where
  "is_complete has_blob c \<longleftrightarrow> list_all (\<lambda>p. \<not> is_blob p \<or> has_blob (p_digest p)) (c_payloads c)"

section \<open>Preview\<close>

definition PREVIEW_MAX_CHARS :: nat where
  "PREVIEW_MAX_CHARS = 240"

text \<open>
  \<open>human_size\<close>: the quotients are exact in \<open>f64\<close> for sizes below \<open>2 ^ 53\<close>, far beyond
  what a capture can hold.
\<close>

definition human_size :: "u64 \<Rightarrow> ustr" where
  "human_size b =
     (if b \<ge> 1024 * 1024 then fmt1 (unat b) (1024 * 1024) @ lit '' MB''
      else if b \<ge> 1024 then fmt0 (unat b) 1024 @ lit '' KB''
      else dec (unat b) @ lit '' B'')"

definition middle_dot :: ustr where
  "middle_dot = lit '' '' @ [183] @ lit '' ''"

definition build_preview :: "payload list \<Rightarrow> clip_kind \<Rightarrow> ustr" where
  "build_preview ps kind =
     (case payloads_text ps of
        Some text \<Rightarrow>
          let collapsed = join (lit '' '') (split_whitespace text);
              trimmed = (if collapsed = [] then trim text else collapsed)
          in take PREVIEW_MAX_CHARS trimmed
      | None \<Rightarrow>
          let bs = sum_sizes ps
          in case kind of
               KImage \<Rightarrow> lit ''Image'' @ middle_dot @ human_size bs
             | KFiles \<Rightarrow> dec (length ps) @ lit '' file(s)''
             | _ \<Rightarrow> lit (kind_str kind) @ middle_dot @ human_size bs)"

section \<open>Assembling a clip\<close>

text \<open>\<open>Iterator::max_by_key\<close> keeps the last of several maximal elements.\<close>

fun max_by_key :: "('a \<Rightarrow> 'b::linorder) \<Rightarrow> 'a list \<Rightarrow> 'a option" where
  "max_by_key k [] = None"
| "max_by_key k (x # xs) =
     (case max_by_key k xs of
        None \<Rightarrow> Some x
      | Some y \<Rightarrow> if k y < k x then Some x else Some y)"

definition headline_kind :: "payload list \<Rightarrow> clip_kind" where
  "headline_kind ps =
     (case max_by_key (\<lambda>p. display_rank (p_format p)) ps of
        Some p \<Rightarrow> format_kind (p_format p) | None \<Rightarrow> KOther)"

definition sort_payloads :: "payload list \<Rightarrow> payload list" where
  "sort_payloads ps = sort_key (\<lambda>p. label (p_format p)) ps"

definition clip_new :: "'x crates_scheme \<Rightarrow> clip_id \<Rightarrow> payload list \<Rightarrow> clip_source \<Rightarrow> hlc \<Rightarrow> clip option" where
  "clip_new X fresh payloads source t =
     (if payloads = [] then None
      else let ps = sort_payloads payloads;
               kind = headline_kind ps
           in Some \<lparr>c_id = fresh, c_hash = compute_hash X ps, c_kind = kind, c_payloads = ps,
                    c_preview = build_preview ps kind, c_source = source, c_hlc = t,
                    c_created_at_ms = wall_ms t, c_pinned = False, c_deleted = False\<rparr>)"

section \<open>Labels\<close>

lemma label_from_label [simp]: "label (from_label s) = s"
  by (simp add: from_label_def)

definition canonical :: "clip_format \<Rightarrow> bool" where
  "canonical f \<longleftrightarrow> from_label (label f) = f"

lemma canonical_from_label [simp]: "canonical (from_label s)"
  by (simp add: canonical_def)

lemma canonical_known [simp]:
  "canonical Text" "canonical Html" "canonical Rtf" "canonical Png" "canonical Jpeg"
  "canonical Svg" "canonical FileList"
  by (simp_all add: canonical_def from_label_def)

lemma label_inj: "canonical f \<Longrightarrow> canonical g \<Longrightarrow> label f = label g \<longleftrightarrow> f = g"
  by (metis canonical_def)

section \<open>Order independence of the identity\<close>

lemma sort_key_perm_eq:
  assumes "mset xs = mset ys" and "distinct (map f xs)"
  shows "sort_key f xs = sort_key f ys"
proof (rule properties_for_sort_key)
  show "mset (sort_key f ys) = mset xs" using assms(1) by simp
  show "sorted (map f (sort_key f ys))" by simp
  fix k assume "k \<in> set (sort_key f ys)"
  then have "k \<in> set xs" using assms(1) by (metis mset_eq_setD set_sort)
  have inj: "inj_on f (set xs)" and dx: "distinct xs" using assms(2) by (simp_all add: distinct_map)
  have dy: "distinct ys" using assms(1) dx by (metis mset_eq_imp_distinct_iff)
  have sy: "set ys = set xs" using assms(1) by (metis mset_eq_setD)
  have one: "filter (\<lambda>x. f k = f x) zs = [k]" if "distinct zs" "set zs = set xs" for zs
  proof -
    have "set (filter (\<lambda>x. f k = f x) zs) = {k}"
      using inj \<open>k \<in> set xs\<close> that(2) by (auto dest: inj_onD)
    moreover have "distinct (filter (\<lambda>x. f k = f x) zs)" using that(1) by simp
    ultimately show ?thesis by (intro distinct_set_singleton)
  qed
  show "filter (\<lambda>x. f k = f x) (sort_key f ys) = filter (\<lambda>x. f k = f x) xs"
    using one [of "sort_key f ys"] one [of xs] dx dy sy by simp
qed

text \<open>
  The identity of a capture does not depend on the order in which the platform enumerated its
  formats: two captures with the same representations (one per format label) get the same
  payload list, content hash, kind and preview.
\<close>

theorem clip_new_order_independent:
  assumes "mset ps = mset qs" and "distinct (map (\<lambda>p. label (p_format p)) ps)"
  shows "clip_new X i ps src t = clip_new X i qs src t"
proof -
  have "sort_payloads ps = sort_payloads qs"
    unfolding sort_payloads_def using assms by (rule sort_key_perm_eq)
  moreover have "ps = [] \<longleftrightarrow> qs = []" using assms(1) by auto
  ultimately show ?thesis by (simp add: clip_new_def)
qed

theorem clip_new_order_independent_witness:
  "let a = payload_new sample_crates Text [104, 105];
       b = payload_new sample_crates Html [60, 98, 62]
   in clip_new sample_crates (ClipId 1) [a, b] (source_new (DeviceId 2) []) (Hlc 3 0 (DeviceId 2)) =
      clip_new sample_crates (ClipId 1) [b, a] (source_new (DeviceId 2) []) (Hlc 3 0 (DeviceId 2))"
  unfolding Let_def
  by (rule clip_new_order_independent) (simp_all add: payload_new_def)

section \<open>What a new clip looks like\<close>

lemma max_by_key_Some:
  "max_by_key k xs = Some x \<Longrightarrow> x \<in> set xs \<and> (\<forall>y \<in> set xs. k y \<le> k x)"
proof (induction xs arbitrary: x)
  case (Cons a xs)
  show ?case
  proof (cases "max_by_key k xs")
    case None
    moreover from this have "xs = []" by (cases xs) (auto split: option.splits if_splits)
    ultimately show ?thesis using Cons.prems by simp
  next
    case (Some y)
    with Cons show ?thesis by (fastforce split: if_splits)
  qed
qed simp

lemma max_by_key_None [simp]: "max_by_key k xs = None \<longleftrightarrow> xs = []"
  by (cases xs) (auto split: option.splits)

lemma headline_kind_top:
  assumes "ps \<noteq> []"
  shows "\<exists>p \<in> set ps. headline_kind ps = format_kind (p_format p) \<and>
    (\<forall>q \<in> set ps. display_rank (p_format q) \<le> display_rank (p_format p))"
proof -
  from assms obtain p where "max_by_key (\<lambda>p. display_rank (p_format p)) ps = Some p"
    by (metis max_by_key_None not_None_eq)
  with max_by_key_Some [OF this] show ?thesis by (auto simp: headline_kind_def)
qed

lemma hash_matches_clip_new: "clip_new X i ps src t = Some c \<Longrightarrow> hash_matches X c"
  by (auto simp: clip_new_def hash_matches_def Let_def split: if_splits)

text \<open>
  A clip built from a non-empty capture always exists (no panic), carries exactly the captured
  payloads in label order, verifies against its own hash, takes the kind of a representation of
  the highest display rank, is dated by its timestamp, and is neither pinned nor deleted.
\<close>

theorem clip_new_sound:
  assumes "ps \<noteq> []"
  shows "\<exists>c. clip_new X i ps src t = Some c \<and> c_id c = i \<and> c_hlc c = t \<and>
    c_created_at_ms c = wall_ms t \<and> c_source c = src \<and> \<not> c_pinned c \<and> \<not> c_deleted c \<and>
    mset (c_payloads c) = mset ps \<and> sorted (map (\<lambda>p. label (p_format p)) (c_payloads c)) \<and>
    hash_matches X c \<and>
    (\<exists>p \<in> set ps. c_kind c = format_kind (p_format p) \<and>
       (\<forall>q \<in> set ps. display_rank (p_format q) \<le> display_rank (p_format p)))"
proof -
  have "sort_payloads ps \<noteq> []" "set (sort_payloads ps) = set ps"
    using assms by (auto simp: sort_payloads_def set_empty2 [symmetric] simp del: set_empty2)
  with headline_kind_top [of "sort_payloads ps"] assms show ?thesis
    by (simp add: clip_new_def hash_matches_def Let_def sort_payloads_def)
qed

theorem clip_new_sound_witness:
  "\<exists>c. clip_new sample_crates (ClipId 1) [payload_new sample_crates Text [104, 105], payload_new sample_crates Png [0]]
        (source_new (DeviceId 2) []) (Hlc 3 0 (DeviceId 2)) = Some c \<and> hash_matches sample_crates c \<and>
       c_kind c = KImage"
proof -
  let ?ps = "[payload_new sample_crates Text [104, 105], payload_new sample_crates Png [0]]"
  from clip_new_sound [of ?ps sample_crates "ClipId 1" "source_new (DeviceId 2) []" "Hlc 3 0 (DeviceId 2)"]
  show ?thesis by (auto simp: payload_new_def)
qed

text \<open>
  \<open>hash_matches\<close> looks at the digests a clip declares, not at the bytes it carries: the
  inline bytes of every payload can be replaced by anything without the check noticing.
\<close>

theorem hash_matches_ignores_inline_bytes:
  "hash_matches X (c\<lparr>c_payloads := map (\<lambda>p. p\<lparr>p_body := forge p\<rparr>) (c_payloads c)\<rparr>) \<longleftrightarrow> hash_matches X c"
  by (simp add: hash_matches_def compute_hash_def comp_def)

lemma join_hd: "xs \<noteq> [] \<Longrightarrow> hd xs \<noteq> [] \<Longrightarrow> join sep xs \<noteq> [] \<and> hd (join sep xs) = hd (hd xs)"
  by (induction sep xs rule: join.induct) auto

text \<open>
  The preview of a clip with a UTF-8 text representation has at most 240 characters, and the
  preview of a text with any visible character starts with one (leading blanks are gone).
\<close>

theorem preview_of_text:
  assumes "payloads_text ps = Some str"
  shows "length (build_preview ps kind) \<le> 240 \<and>
    ((\<exists>c \<in> set str. \<not> is_whitespace c) \<longrightarrow>
      build_preview ps kind \<noteq> [] \<and> \<not> is_whitespace (hd (build_preview ps kind)))"
proof (intro conjI impI)
  show "length (build_preview ps kind) \<le> 240"
    using assms by (simp add: build_preview_def PREVIEW_MAX_CHARS_def Let_def)
next
  let ?ts = "split_whitespace str"
  assume "\<exists>c \<in> set str. \<not> is_whitespace c"
  then have ne: "?ts \<noteq> []" by (auto simp: split_whitespace_empty_iff)
  then have tok: "hd ?ts \<noteq> [] \<and> (\<forall>c \<in> set (hd ?ts). \<not> is_whitespace c)"
    by (intro split_whitespace_tokens [of _ str]) simp
  from join_hd [OF ne] tok
  have j: "join (lit '' '') ?ts \<noteq> []" "\<not> is_whitespace (hd (join (lit '' '') ?ts))" by auto
  have p: "build_preview ps kind = take 240 (join (lit '' '') ?ts)"
    using assms j(1) by (simp add: build_preview_def PREVIEW_MAX_CHARS_def Let_def)
  from j show "build_preview ps kind \<noteq> []" "\<not> is_whitespace (hd (build_preview ps kind))"
    unfolding p by simp_all
qed

theorem preview_of_text_witness:
  "let ps = [payload_new sample_crates Text [32, 104, 105]]
   in length (build_preview ps KText) \<le> 240 \<and> build_preview ps KText \<noteq> [] \<and>
      \<not> is_whitespace (hd (build_preview ps KText))"
proof -
  have "payloads_text [payload_new sample_crates Text [32, 104, 105]] = Some [32, 104, 105]"
    by (simp add: payloads_text_def payload_new_def inline_bytes_def from_utf8_def INLINE_MAX_BYTES_def)
  from preview_of_text [OF this, of KText] show ?thesis by (auto simp: is_whitespace_def)
qed

section \<open>A clip to try things on\<close>

definition sample_clip :: "u64 \<Rightarrow> bool \<Rightarrow> bool \<Rightarrow> clip" where
  "sample_clip w pinned deleted =
     (the (clip_new sample_crates (ClipId 1) [payload_new sample_crates Text [104, 105]]
             (source_new (DeviceId 2) []) (Hlc w 0 (DeviceId 2))))
     \<lparr>c_pinned := pinned, c_deleted := deleted\<rparr>"

lemma hash_matches_sample: "hash_matches sample_crates (sample_clip w p d)"
  by (simp add: hash_matches_def compute_hash_def sample_clip_def clip_new_def sort_payloads_def Let_def)

end
