(* ===== verification/Merge.thy ===== *)
theory Merge
  imports Clip_Model
begin

text \<open>
  The merge rule of \<open>clipse-sync/src/merge.rs\<close> and the convergence it is there for. The
  \<open>debug_assert_eq!\<close> of \<open>merge\<close> is absent from release builds and is not part of the model.

  \<open>merged\<close> spells out what the documentation of \<open>MergeAction\<close> tells the caller to do. It is the
  specification that the session code of the daemon (theory \<open>Sync_Session\<close>) is compared with.
\<close>

section \<open>The rule\<close>

datatype merge_action = Insert | UpdateMetadata bool bool | Ignore | Reject

definition merge :: "'x crates_scheme \<Rightarrow> clip option \<Rightarrow> clip \<Rightarrow> merge_action" where
  "merge X local incoming =
     (if \<not> hash_matches X incoming then Reject
      else case local of
             None \<Rightarrow> Insert
           | Some l \<Rightarrow>
               if c_hlc incoming > c_hlc l
               then UpdateMetadata (c_pinned incoming) (c_deleted incoming)
               else Ignore)"

text \<open>The meaning of each action for one content hash.\<close>

definition merged :: "'x crates_scheme \<Rightarrow> clip \<Rightarrow> clip option \<Rightarrow> clip option" where
  "merged X incoming local =
     (case merge X local incoming of
        Insert \<Rightarrow> Some incoming
      | UpdateMetadata pinned deleted \<Rightarrow>
          map_option (\<lambda>l. l\<lparr>c_pinned := pinned, c_deleted := deleted, c_hlc := c_hlc incoming\<rparr>) local
      | Ignore \<Rightarrow> local
      | Reject \<Rightarrow> local)"

text \<open>What two replicas have to agree on: the timestamp and the two replicated flags.\<close>

definition clip_meta :: "clip \<Rightarrow> hlc \<times> bool \<times> bool" where
  "clip_meta c = (c_hlc c, c_pinned c, c_deleted c)"

section \<open>Contract of a last-writer-wins replica\<close>

text \<open>
  A replica absorbs events in some order. Its view is empty or the value of one event; a valid
  event replaces the view exactly if its stamp is greater, an invalid one is without effect. From
  this alone, the final view depends only on the set of valid events.
\<close>

locale lww_replica =
  fixes absorb :: "'e \<Rightarrow> 'r \<Rightarrow> 'r"
    and view :: "'r \<Rightarrow> 'm option"
    and val :: "'e \<Rightarrow> 'm"
    and stamp :: "'m \<Rightarrow> 't::linorder"
    and valid :: "'e \<Rightarrow> bool"
  assumes absorb_fresh: "valid e \<Longrightarrow> view r = None \<Longrightarrow> view (absorb e r) = Some (val e)"
    and absorb_newer:
      "valid e \<Longrightarrow> view r = Some m \<Longrightarrow> stamp m < stamp (val e) \<Longrightarrow> view (absorb e r) = Some (val e)"
    and absorb_older:
      "valid e \<Longrightarrow> view r = Some m \<Longrightarrow> stamp (val e) \<le> stamp m \<Longrightarrow> view (absorb e r) = Some m"
    and absorb_invalid: "\<not> valid e \<Longrightarrow> view (absorb e r) = view r"
begin

lemma fold_view_from:
  assumes "view r = Some m"
  shows "\<exists>m' \<in> insert m (val ` {e \<in> set es. valid e}). view (fold absorb es r) = Some m' \<and>
    stamp m \<le> stamp m' \<and> (\<forall>e \<in> set es. valid e \<longrightarrow> stamp (val e) \<le> stamp m')"
  using assms
proof (induction es arbitrary: r m)
  case (Cons e es)
  show ?case
  proof (cases "valid e \<and> stamp m < stamp (val e)")
    case True
    then have "view (absorb e r) = Some (val e)" using Cons.prems absorb_newer by blast
    from Cons.IH [OF this] True show ?thesis by (auto intro: less_imp_le order_trans)
  next
    case False
    then have "view (absorb e r) = Some m"
      using Cons.prems absorb_older absorb_invalid by (cases "valid e") (auto simp: not_less)
    from Cons.IH [OF this] False show ?thesis by (auto simp: not_less intro: order_trans)
  qed
qed auto

lemma fold_view:
  assumes "view r = None"
  shows "(if {e \<in> set es. valid e} = {} then view (fold absorb es r) = None
     else \<exists>e \<in> set es. valid e \<and> view (fold absorb es r) = Some (val e) \<and>
       (\<forall>f \<in> set es. valid f \<longrightarrow> stamp (val f) \<le> stamp (val e)))"
  using assms
proof (induction es arbitrary: r)
  case (Cons e es)
  show ?case
  proof (cases "valid e")
    case True
    then have "view (absorb e r) = Some (val e)" using Cons.prems absorb_fresh by blast
    from fold_view_from [OF this, of es] True show ?thesis by auto
  next
    case False
    then have "view (absorb e r) = None" using Cons.prems absorb_invalid by metis
    from Cons.IH [OF this] False show ?thesis by (auto split: if_splits)
  qed
qed simp

theorem converge:
  assumes "view r = None" and "view r' = None"
    and "{e \<in> set es. valid e} = {e \<in> set es'. valid e}"
    and "\<And>e f. \<lbrakk> e \<in> set es; f \<in> set es; valid e; valid f; stamp (val e) = stamp (val f) \<rbrakk> \<Longrightarrow> val e = val f"
  shows "view (fold absorb es r) = view (fold absorb es' r')"
proof (cases "{e \<in> set es. valid e} = {}")
  case True
  with assms(3) fold_view [OF assms(1), of es] fold_view [OF assms(2), of es'] show ?thesis by simp
next
  case False
  note False' = False [unfolded assms(3)]
  from fold_view [OF assms(1), of es, unfolded if_not_P [OF False]] obtain e where
    e: "e \<in> set es" "valid e" "view (fold absorb es r) = Some (val e)"
      "\<And>f. f \<in> set es \<Longrightarrow> valid f \<Longrightarrow> stamp (val f) \<le> stamp (val e)" by blast
  from fold_view [OF assms(2), of es', unfolded if_not_P [OF False']] obtain f where
    f: "f \<in> set es'" "valid f" "view (fold absorb es' r') = Some (val f)"
      "\<And>g. g \<in> set es' \<Longrightarrow> valid g \<Longrightarrow> stamp (val g) \<le> stamp (val f)" by blast
  have "e \<in> set es'" "f \<in> set es" using e(1,2) f(1,2) assms(3) by blast+
  then have "stamp (val e) = stamp (val f)" using e f by (intro antisym) auto
  then have "val e = val f" using assms(4) e f \<open>f \<in> set es\<close> by blast
  with e f show ?thesis by simp
qed

end

interpretation lww: lww_replica "merged X" "map_option clip_meta" clip_meta fst "hash_matches X" for X
proof
  fix e r m
  show "hash_matches X e \<Longrightarrow> map_option clip_meta r = None \<Longrightarrow>
      map_option clip_meta (merged X e r) = Some (clip_meta e)"
    by (simp add: merged_def merge_def)
  show "hash_matches X e \<Longrightarrow> map_option clip_meta r = Some m \<Longrightarrow> fst m < fst (clip_meta e) \<Longrightarrow>
      map_option clip_meta (merged X e r) = Some (clip_meta e)"
    by (auto simp: merged_def merge_def clip_meta_def)
  show "hash_matches X e \<Longrightarrow> map_option clip_meta r = Some m \<Longrightarrow> fst (clip_meta e) \<le> fst m \<Longrightarrow>
      map_option clip_meta (merged X e r) = Some m"
    by (auto simp: merged_def merge_def clip_meta_def)
  show "\<not> hash_matches X e \<Longrightarrow> map_option clip_meta (merged X e r) = map_option clip_meta r"
    by (simp add: merged_def merge_def)
qed



text \<open>
  One exchange is enough for two devices: each applies the other's clip for the same content
  and both end with the metadata of the later timestamp.
\<close>

theorem merge_exchange_agrees:
  assumes "hash_matches X a" and "hash_matches X b" and "c_hlc a = c_hlc b \<longrightarrow> clip_meta a = clip_meta b"
  shows "map_option clip_meta (merged X b (Some a)) = map_option clip_meta (merged X a (Some b)) \<and>
    map_option clip_meta (merged X b (Some a)) = Some (if c_hlc a < c_hlc b then clip_meta b else clip_meta a)"
  using assms by (auto simp: merged_def merge_def clip_meta_def not_less)

theorem merge_exchange_agrees_witness:
  "let a = sample_clip 5 True False; b = sample_clip 7 False True
   in map_option clip_meta (merged sample_crates b (Some a)) = Some (clip_meta b)"
proof -
  have "hash_matches sample_crates (sample_clip w p d)" for w p d
    by (simp add: hash_matches_def compute_hash_def sample_clip_def clip_new_def sort_payloads_def Let_def)
  from merge_exchange_agrees [OF this this, of 5 True False 7 False True] show ?thesis
    by (simp add: sample_clip_def clip_new_def less_hlc_iff Let_def)
qed

end
