(* ===== verification/Chunk.thy ===== *)
theory Chunk
  imports Content_Hash
begin

text \<open>
  Offer-and-chunk transfer (\<open>clipse-sync/src/chunk.rs\<close>). Sizes and offsets are 64-bit words as in
  the source (\<open>usize\<close> on the supported targets), indices 32-bit; the lemmas show that none of the
  arithmetic wraps. Slice assignment \<open>buffer[range].copy_from_slice(bytes)\<close> is \<open>slice_write\<close>, which
  is only reached with the range inside the buffer (\<open>range_bounds\<close>).
\<close>

section \<open>Sender side\<close>

definition DEFAULT_CHUNK_BYTES :: u64 where
  "DEFAULT_CHUNK_BYTES = 256 * 1024"

definition MAX_BLOB_BYTES :: u64 where
  "MAX_BLOB_BYTES = 512 * 1024 * 1024"

datatype chunk_error =
    TooLarge u64
  | ZeroChunkSize
  | OutOfRange u32 u32
  | WrongLength u32 nat u64
  | Incomplete u32
  | DigestMismatch

record chunk_source =
  cs_size :: u64
  cs_chunk_bytes :: u64

definition chunk_source_new :: "u64 \<Rightarrow> u64 \<Rightarrow> chunk_error + chunk_source" where
  "chunk_source_new sz chunk_bytes =
     (if chunk_bytes = 0 then Inl ZeroChunkSize
      else if sz > MAX_BLOB_BYTES then Inl (TooLarge sz)
      else Inr \<lparr>cs_size = sz, cs_chunk_bytes = chunk_bytes\<rparr>)"

text \<open>\<open>u64::div_ceil\<close>.\<close>

definition div_ceil :: "u64 \<Rightarrow> u64 \<Rightarrow> u64" where
  "div_ceil a b = (if a mod b > 0 then a div b + 1 else a div b)"

definition total_chunks :: "chunk_source \<Rightarrow> u32" where
  "total_chunks s =
     (if cs_size s = 0 then 0 else ucast (div_ceil (cs_size s) (cs_chunk_bytes s)))"

definition chunk_range :: "chunk_source \<Rightarrow> u32 \<Rightarrow> (u64 \<times> u64) option" where
  "chunk_range s index =
     (if index \<ge> total_chunks s then None
      else let start = ucast index * cs_chunk_bytes s;
               stop = min (start + cs_chunk_bytes s) (cs_size s)
           in Some (start, stop))"

section \<open>Receiver side\<close>

record chunk_receiver =
  cr_digest :: content_hash
  cr_source :: chunk_source
  cr_buffer :: bytes
  cr_received :: "bool list"

definition chunk_receiver_new :: "content_hash \<Rightarrow> u64 \<Rightarrow> u64 \<Rightarrow> chunk_error + chunk_receiver" where
  "chunk_receiver_new digest sz chunk_bytes =
     (case chunk_source_new sz chunk_bytes of
        Inl e \<Rightarrow> Inl e
      | Inr s \<Rightarrow> Inr \<lparr>cr_digest = digest, cr_source = s, cr_buffer = replicate (unat sz) 0,
                    cr_received = replicate (unat (total_chunks s)) False\<rparr>)"

definition received_chunks :: "chunk_receiver \<Rightarrow> u32" where
  "received_chunks r = of_nat (length (filter id (cr_received r)))"

definition receiver_complete :: "chunk_receiver \<Rightarrow> bool" where
  "receiver_complete r \<longleftrightarrow> list_all id (cr_received r)"

text \<open>\<open>position(|got| !*got).unwrap_or(len)\<close>.\<close>

definition resume_from :: "chunk_receiver \<Rightarrow> u32" where
  "resume_from r = of_nat (length (takeWhile id (cr_received r)))"

definition slice_write :: "bytes \<Rightarrow> nat \<Rightarrow> bytes \<Rightarrow> bytes" where
  "slice_write buf start bs = take start buf @ bs @ drop (start + length bs) buf"

definition chunk_accept :: "chunk_receiver \<Rightarrow> u32 \<Rightarrow> bytes \<Rightarrow> chunk_error + chunk_receiver" where
  "chunk_accept r index bs =
     (case chunk_range (cr_source r) index of
        None \<Rightarrow> Inl (OutOfRange index (total_chunks (cr_source r)))
      | Some (start, stop) \<Rightarrow>
          let expected = stop - start
          in if length bs \<noteq> unat expected then Inl (WrongLength index (length bs) expected)
             else Inr (r\<lparr>cr_buffer := slice_write (cr_buffer r) (unat start) bs,
                         cr_received := (cr_received r)[unat index := True]\<rparr>))"

definition chunk_finish :: "'x crates_scheme \<Rightarrow> chunk_receiver \<Rightarrow> chunk_error + bytes" where
  "chunk_finish X r =
     (let missing = of_nat (length (filter (\<lambda>got. \<not> got) (cr_received r)))
      in if missing > 0 then Inl (Incomplete missing)
         else if hash_of X (cr_buffer r) \<noteq> cr_digest r then Inl DigestMismatch
         else Inr (cr_buffer r))"

text \<open>A peer that streams chunks of \<open>data\<close> in the order of \<open>indices\<close>.\<close>

definition chunk_of :: "chunk_source \<Rightarrow> bytes \<Rightarrow> u32 \<Rightarrow> bytes" where
  "chunk_of s data index =
     (case chunk_range s index of
        None \<Rightarrow> []
      | Some (start, stop) \<Rightarrow> take (unat stop - unat start) (drop (unat start) data))"

fun deliver :: "chunk_source \<Rightarrow> bytes \<Rightarrow> u32 list \<Rightarrow> chunk_receiver \<Rightarrow> chunk_error + chunk_receiver" where
  "deliver s data [] r = Inr r"
| "deliver s data (i # indices) r =
     (case chunk_accept r i (chunk_of s data i) of
        Inl e \<Rightarrow> Inl e | Inr r' \<Rightarrow> deliver s data indices r')"

section \<open>Arithmetic does not wrap\<close>

definition source_wf :: "chunk_source \<Rightarrow> bool" where
  "source_wf s \<longleftrightarrow> cs_chunk_bytes s \<noteq> 0 \<and> cs_size s \<le> MAX_BLOB_BYTES"

lemma source_new_wf: "chunk_source_new n c = Inr s \<Longrightarrow> source_wf s"
  by (auto simp: chunk_source_new_def source_wf_def not_less split: if_splits)

lemma source_wfD:
  assumes "source_wf s"
  shows "unat (cs_size s) \<le> 2 ^ 29" "0 < unat (cs_chunk_bytes s)"
  using assms by (auto simp: source_wf_def MAX_BLOB_BYTES_def word_le_nat_alt unat_gt_0)

lemma ceil_less_iff:
  fixes a b i :: nat
  assumes "0 < b"
  shows "i < (if a mod b > 0 then a div b + 1 else a div b) \<longleftrightarrow> i * b < a"
proof (cases "a mod b = 0")
  case True
  then have "a = a div b * b" by auto
  then have "i * b < a \<longleftrightarrow> i * b < a div b * b" by simp
  with True assms show ?thesis by simp
next
  case False
  have lt: "a div b * b < a" using False div_mult_mod_eq [of a b] by linarith
  have "i \<le> a div b \<longleftrightarrow> i * b < a"
  proof
    assume "i \<le> a div b"
    then have "i * b \<le> a div b * b" by simp
    with lt show "i * b < a" by linarith
  next
    assume "i * b < a"
    then have "i * b div b \<le> a div b" by (intro div_le_mono) simp
    with assms show "i \<le> a div b" by simp
  qed
  with False show ?thesis by auto
qed

lemma unat_div_ceil:
  assumes "unat a \<le> 2 ^ 29"
  shows "unat (div_ceil a b) =
    (if unat a mod unat b > 0 then unat a div unat b + 1 else unat a div unat b)"
    and "unat (div_ceil a b) \<le> 2 ^ 29 + 1"
proof -
  have q: "unat a div unat b \<le> 2 ^ 29" using assms div_le_dividend order_trans by blast
  then have "unat (a div b + 1) = unat a div unat b + 1"
    by (simp add: unat_word_ariths unat_div)
  then show eq: "unat (div_ceil a b) =
      (if unat a mod unat b > 0 then unat a div unat b + 1 else unat a div unat b)"
    by (auto simp: div_ceil_def word_less_nat_alt unat_div unat_mod)
  show "unat (div_ceil a b) \<le> 2 ^ 29 + 1" unfolding eq using q by simp
qed

text \<open>An index is in range exactly if its first byte is.\<close>

lemma less_total_chunks:
  assumes "source_wf s"
  shows "i < unat (total_chunks s) \<longleftrightarrow> i * unat (cs_chunk_bytes s) < unat (cs_size s)"
proof (cases "cs_size s = 0")
  case False
  let ?d = "div_ceil (cs_size s) (cs_chunk_bytes s)"
  note w = source_wfD [OF assms]
  have "unat (ucast ?d :: u32) = unat ?d"
    using unat_div_ceil(2) [OF w(1), of "cs_chunk_bytes s"]
    by (intro unat_ucast_u64_u32) simp
  then have "unat (total_chunks s) = unat ?d" using False by (simp add: total_chunks_def)
  with ceil_less_iff [OF w(2), of i "unat (cs_size s)"] show ?thesis
    by (simp add: unat_div_ceil(1) [OF w(1)])
qed (simp add: total_chunks_def)

lemma range_bounds:
  assumes "source_wf s"
  shows "chunk_range s i = Some (a, b) \<longleftrightarrow>
    unat i * unat (cs_chunk_bytes s) < unat (cs_size s) \<and>
    unat a = unat i * unat (cs_chunk_bytes s) \<and>
    unat b = min (unat a + unat (cs_chunk_bytes s)) (unat (cs_size s))"
    (is "?L \<longleftrightarrow> ?R")
proof -
  let ?c = "unat (cs_chunk_bytes s)" and ?n = "unat (cs_size s)"
  note w = source_wfD [OF assms]
  have none: "chunk_range s i = None \<longleftrightarrow> \<not> unat i * ?c < ?n"
    using less_total_chunks [OF assms, of "unat i"]
    by (simp add: chunk_range_def Let_def word_le_nat_alt not_less [symmetric])
  show ?thesis
  proof (cases "unat i * ?c < ?n")
    case True
    let ?start = "ucast i * cs_chunk_bytes s"
    have st: "unat ?start = unat i * ?c"
      using True w by (simp add: unat_word_ariths)
    have nowrap: "unat ?start + ?c < 2 ^ 64"
    proof (cases "unat i = 0")
      case True
      then show ?thesis using st unsigned_less [of "cs_chunk_bytes s", where 'a = nat] by simp
    next
      case False
      then have "?c \<le> unat i * ?c" by simp
      with True st w(1) [simplified] have "unat ?start + ?c < 18446744073709551616" by linarith
      then show ?thesis by simp
    qed
    then have en: "unat (min (?start + cs_chunk_bytes s) (cs_size s)) = min (unat ?start + ?c) ?n"
      by (simp add: min_def word_le_nat_alt unat_word_ariths)
    have "chunk_range s i = Some (?start, min (?start + cs_chunk_bytes s) (cs_size s))"
      using True none by (auto simp: chunk_range_def Let_def split: if_splits)
    with True st en show ?thesis by (auto simp: word_unat_eq_iff)
  qed (use none in auto)
qed

section \<open>The receiver's invariant\<close>

text \<open>
  \<open>holds data r\<close>: the receiver is set up for a transfer of \<open>data\<close>, and wherever a chunk is
  marked as received the buffer has the bytes of \<open>data\<close>.
\<close>

definition holds :: "bytes \<Rightarrow> chunk_receiver \<Rightarrow> bool" where
  "holds data r \<longleftrightarrow>
     (let s = cr_source r; n = unat (cs_size s); c = unat (cs_chunk_bytes s)
      in source_wf s \<and> length data = n \<and> length (cr_buffer r) = n \<and>
         length (cr_received r) = unat (total_chunks s) \<and>
         (\<forall>k < n. cr_received r ! (k div c) \<longrightarrow> cr_buffer r ! k = data ! k))"

lemma chunk_index_in_range:
  assumes "source_wf s" "k < unat (cs_size s)"
  shows "k div unat (cs_chunk_bytes s) < unat (total_chunks s)"
proof -
  have "k div unat (cs_chunk_bytes s) * unat (cs_chunk_bytes s) \<le> k"
    by (rule div_times_less_eq_dividend)
  with assms(2) show ?thesis unfolding less_total_chunks [OF assms(1)] by linarith
qed

lemma slice_write_nth:
  assumes "start + length bs \<le> length buf" "k < length buf"
  shows "slice_write buf start bs ! k =
    (if start \<le> k \<and> k < start + length bs then bs ! (k - start) else buf ! k)"
  using assms by (auto simp: slice_write_def nth_append min_def)

lemma length_slice_write:
  "start + length bs \<le> length buf \<Longrightarrow> length (slice_write buf start bs) = length buf"
  by (simp add: slice_write_def)

lemma length_chunk_of:
  assumes "chunk_range s i = Some (a, b)" "source_wf s" "length data = unat (cs_size s)"
  shows "length (chunk_of s data i) = unat (b - a)"
proof -
  from assms have "unat a \<le> unat b" "unat b \<le> length data" by (auto simp: range_bounds)
  then show ?thesis using assms(1) by (simp add: chunk_of_def unat_sub word_le_nat_alt)
qed

lemma accept_holds:
  assumes h: "holds data r" and i: "unat i < unat (total_chunks (cr_source r))"
  shows "\<exists>r'. chunk_accept r i (chunk_of (cr_source r) data i) = Inr r' \<and> holds data r' \<and>
    cr_source r' = cr_source r \<and> cr_digest r' = cr_digest r \<and>
    cr_received r' = (cr_received r)[unat i := True]"
proof -
  let ?s = "cr_source r"
  let ?n = "unat (cs_size ?s)" and ?c = "unat (cs_chunk_bytes ?s)"
  have wf: "source_wf ?s" and len: "length data = ?n" "length (cr_buffer r) = ?n"
    and rl: "length (cr_received r) = unat (total_chunks ?s)"
    and buf: "\<And>k. k < ?n \<Longrightarrow> cr_received r ! (k div ?c) \<Longrightarrow> cr_buffer r ! k = data ! k"
    using h by (auto simp: holds_def Let_def)
  note c0 = source_wfD(2) [OF wf]
  have lt: "unat i * ?c < ?n" using i less_total_chunks [OF wf] by simp
  then obtain a b where ab: "chunk_range ?s i = Some (a, b)"
    using i by (cases "chunk_range ?s i") (auto simp: chunk_range_def Let_def word_le_nat_alt split: if_splits)
  have a: "unat a = unat i * ?c" and b: "unat b = min (unat a + ?c) ?n"
    using ab by (auto simp: range_bounds [OF wf])
  let ?bs = "chunk_of ?s data i"
  have lbs: "length ?bs = unat (b - a)" using ab wf len(1) by (rule length_chunk_of)
  have ble: "unat a \<le> unat b" "unat b \<le> ?n" using a b lt by auto
  then have lbs': "length ?bs = unat b - unat a" using lbs by (simp add: unat_sub word_le_nat_alt)
  let ?r = "r\<lparr>cr_buffer := slice_write (cr_buffer r) (unat a) ?bs,
               cr_received := (cr_received r)[unat i := True]\<rparr>"
  have "chunk_accept r i ?bs = Inr ?r" using ab lbs by (simp add: chunk_accept_def Let_def)
  moreover have "holds data ?r"
  proof -
    have fit: "unat a + length ?bs \<le> length (cr_buffer r)" using lbs' ble len by simp
    have "slice_write (cr_buffer r) (unat a) ?bs ! k = data ! k"
      if k: "k < ?n" and got: "(cr_received r)[unat i := True] ! (k div ?c)" for k
    proof (cases "unat a \<le> k \<and> k < unat b")
      case True
      then have "k - unat a < unat b - unat a" by linarith
      with True have "?bs ! (k - unat a) = data ! k"
        using ab ble len by (simp add: chunk_of_def)
      with True fit k len lbs' ble show ?thesis by (simp add: slice_write_nth)
    next
      case False
      have "k div ?c \<noteq> unat i"
      proof
        assume e: "k div ?c = unat i"
        have "unat i * ?c \<le> k" unfolding e [symmetric] by simp
        moreover have "k < unat i * ?c + ?c"
          using c0 unfolding e [symmetric] by (metis add.commute dividend_less_div_times mult.commute)
        ultimately show False using False a b k by simp
      qed
      then have "cr_received r ! (k div ?c)" using got by simp
      then have "cr_buffer r ! k = data ! k" using buf k by blast
      with False fit k len lbs' ble show ?thesis by (auto simp: slice_write_nth)
    qed
    with fit show ?thesis using wf len rl by (simp add: holds_def Let_def length_slice_write)
  qed
  ultimately show ?thesis by auto
qed

lemma new_holds:
  assumes "chunk_receiver_new digest n c = Inr r" "length data = unat n"
  shows "holds data r \<and> cr_digest r = digest \<and> chunk_source_new n c = Inr (cr_source r)"
proof -
  from assms(1) obtain s where s: "chunk_source_new n c = Inr s"
    and r: "r = \<lparr>cr_digest = digest, cr_source = s, cr_buffer = replicate (unat n) 0,
      cr_received = replicate (unat (total_chunks s)) False\<rparr>"
    by (auto simp: chunk_receiver_new_def split: sum.splits)
  have wf: "source_wf s" using s by (rule source_new_wf)
  have sz: "cs_size s = n" using s by (auto simp: chunk_source_new_def split: if_splits)
  have "k div unat (cs_chunk_bytes s) < unat (total_chunks s)" if "k < unat n" for k
    using chunk_index_in_range [OF wf, unfolded sz, OF that] .
  then show ?thesis using wf assms(2) s by (auto simp: holds_def r sz Let_def)
qed

lemma deliver_holds:
  assumes "holds data r" "cr_source r = s" "\<forall>i \<in> set ixs. i < total_chunks s"
  shows "\<exists>r'. deliver s data ixs r = Inr r' \<and> holds data r' \<and> cr_source r' = s \<and>
    cr_digest r' = cr_digest r \<and>
    (\<forall>j < unat (total_chunks s). cr_received r' ! j \<longleftrightarrow> cr_received r ! j \<or> (\<exists>i \<in> set ixs. unat i = j))"
  using assms
proof (induction ixs arbitrary: r)
  case (Cons i ixs)
  have i: "unat i < unat (total_chunks (cr_source r))"
    using Cons.prems by (simp add: word_less_nat_alt)
  from accept_holds [OF Cons.prems(1) i] Cons.prems(2) obtain r1 where
    r1: "chunk_accept r i (chunk_of s data i) = Inr r1" "holds data r1" "cr_source r1 = s"
      "cr_digest r1 = cr_digest r" "cr_received r1 = (cr_received r)[unat i := True]" by auto
  have len: "length (cr_received r) = unat (total_chunks s)"
    using Cons.prems by (simp add: holds_def Let_def)
  from Cons.IH [OF r1(2,3)] Cons.prems(3) obtain r' where
    r': "deliver s data ixs r1 = Inr r'" "holds data r'" "cr_source r' = s"
      "cr_digest r' = cr_digest r1"
      "\<forall>j < unat (total_chunks s). cr_received r' ! j \<longleftrightarrow> cr_received r1 ! j \<or> (\<exists>i \<in> set ixs. unat i = j)"
    by auto
  have "(cr_received r)[unat i := True] ! j \<longleftrightarrow> cr_received r ! j \<or> j = unat i"
    if "j < unat (total_chunks s)" for j
    using that len by (cases "j = unat i") simp_all
  then show ?case using r1 r' by auto
qed simp

lemma finish_complete:
  assumes "holds data r" "\<forall>j < length (cr_received r). cr_received r ! j" "cr_digest r = hash_of X data"
  shows "chunk_finish X r = Inr data"
proof -
  let ?s = "cr_source r"
  have "filter (\<lambda>got. \<not> got) (cr_received r) = []"
    using assms(2) by (auto simp: filter_empty_conv in_set_conv_nth)
  moreover have "cr_buffer r = data"
  proof (rule nth_equalityI)
    fix k assume k: "k < length (cr_buffer r)"
    have wf: "source_wf ?s" and kn: "k < unat (cs_size ?s)" using assms(1) k by (auto simp: holds_def Let_def)
    then have "k div unat (cs_chunk_bytes ?s) < unat (total_chunks ?s)"
      by (rule chunk_index_in_range)
    then show "cr_buffer r ! k = data ! k" using assms(1,2) kn by (auto simp: holds_def Let_def)
  qed (use assms(1) in \<open>simp add: holds_def Let_def\<close>)
  ultimately show ?thesis using assms(3) by (simp add: chunk_finish_def)
qed

text \<open>
  C17. Reassembly: if a blob within the size limit is offered with its digest and a non-zero chunk
  size, then delivering its chunks in any order, with any repetitions, is accepted throughout, and
  once every chunk has been delivered at least once the receiver returns exactly the blob.
\<close>

theorem chunks_reassemble:
  assumes "chunk_receiver_new (hash_of X data) (of_nat (length data)) c = Inr r"
    and "length data < 2 ^ 64"
    and "set indices = {i. i < total_chunks (cr_source r)}"
  shows "\<exists>r'. deliver (cr_source r) data indices r = Inr r' \<and> chunk_finish X r' = Inr data"
proof -
  have "unat (of_nat (length data) :: u64) = length data" using assms(2) by (simp add: unat_of_nat)
  with new_holds [OF assms(1), of data] have h: "holds data r" and d: "cr_digest r = hash_of X data"
    by auto
  from deliver_holds [OF h refl, of indices] assms(3) obtain r' where
    r': "deliver (cr_source r) data indices r = Inr r'" "holds data r'" "cr_source r' = cr_source r"
      "cr_digest r' = cr_digest r"
      "\<And>j. j < unat (total_chunks (cr_source r)) \<Longrightarrow>
         cr_received r' ! j \<longleftrightarrow> cr_received r ! j \<or> (\<exists>i. i < total_chunks (cr_source r) \<and> unat i = j)"
    by auto
  have "cr_received r' ! j" if "j < unat (total_chunks (cr_source r))" for j
  proof -
    have "unat (of_nat j :: u32) = j"
      using that unsigned_less [of "total_chunks (cr_source r)", where 'a = nat] by (simp add: unat_of_nat)
    with that have "(of_nat j :: u32) < total_chunks (cr_source r) \<and> unat (of_nat j :: u32) = j"
      by (simp add: word_less_nat_alt)
    with r'(5) [OF that] show ?thesis by blast
  qed
  then have "\<forall>j < length (cr_received r'). cr_received r' ! j"
    using r'(2,3) by (simp add: holds_def Let_def)
  from finish_complete [OF r'(2) this, of X] r'(1,4) d show ?thesis by simp
qed

theorem chunks_reassemble_witness:
  "\<exists>r r'. chunk_receiver_new (hash_of sample_crates [1, 2, 3, 4, 5]) 5 2 = Inr r \<and>
     deliver (cr_source r) [1, 2, 3, 4, 5] [2, 0, 2, 1] r = Inr r' \<and>
     chunk_finish sample_crates r' = Inr [1, 2, 3, 4, 5]"
proof -
  let ?d = "[1, 2, 3, 4, 5] :: bytes"
  obtain r where r: "chunk_receiver_new (hash_of sample_crates ?d) (of_nat (length ?d)) 2 = Inr r"
    and s: "cr_source r = \<lparr>cs_size = 5, cs_chunk_bytes = 2\<rparr>"
    by (simp add: chunk_receiver_new_def chunk_source_new_def MAX_BLOB_BYTES_def)
  have "total_chunks (cr_source r) = 3" by (simp add: s total_chunks_def div_ceil_def)
  moreover have "i < 3 \<longleftrightarrow> i = 0 \<or> i = 1 \<or> i = 2" for i :: u32
    by (auto simp: word_less_nat_alt word_unat_eq_iff)
  ultimately have "set [2, 0, 2, 1] = {i. i < total_chunks (cr_source r)}" by auto
  from chunks_reassemble [OF r _ this] r show ?thesis by simp
qed

section \<open>Integrity and resumption\<close>



lemma concat_takes:
  "concat (map (\<lambda>i. take c (drop (i * c) xs)) [0..<m]) = take (m * c) xs"
proof (induction m)
  case (Suc m)
  have "Suc m * c = m * c + c" by simp
  then have "take (Suc m * c) xs = take (m * c) xs @ take c (drop (m * c) xs)"
    by (simp only: take_add)
  with Suc show ?case by simp
qed simp

text \<open>
  The sender's ranges tile the blob: they never reach past its end, no offset computation
  wraps, and the chunks of all indices in order are the blob itself.
\<close>

theorem chunks_tile_blob:
  assumes "chunk_source_new (of_nat (length data)) c = Inr s" and "length data < 2 ^ 64"
  shows "concat (map (\<lambda>i. chunk_of s data (of_nat i)) [0..<unat (total_chunks s)]) = data"
proof -
  have wf: "source_wf s" using assms(1) by (rule source_new_wf)
  have n: "unat (cs_size s) = length data"
    using assms by (auto simp: chunk_source_new_def unat_of_nat split: if_splits)
  let ?c = "unat (cs_chunk_bytes s)"
  have "chunk_of s data (of_nat i) = take ?c (drop (i * ?c) data)"
    if i: "i < unat (total_chunks s)" for i
  proof -
    have ui: "unat (of_nat i :: u32) = i"
      using i unsigned_less [of "total_chunks s", where 'a = nat] by (simp add: unat_of_nat)
    then obtain a b where ab: "chunk_range s (of_nat i) = Some (a, b)"
      using i by (cases "chunk_range s (of_nat i)")
        (auto simp: chunk_range_def Let_def word_le_nat_alt split: if_splits)
    then have "unat a = i * ?c" "unat b = min (i * ?c + ?c) (length data)" "i * ?c < length data"
      using ui n by (auto simp: range_bounds [OF wf])
    then show ?thesis using ab by (auto simp: chunk_of_def min_def)
  qed
  then have "concat (map (\<lambda>i. chunk_of s data (of_nat i)) [0..<unat (total_chunks s)]) =
      take (unat (total_chunks s) * ?c) data"
    unfolding concat_takes [symmetric] by (intro arg_cong [where f = concat] map_cong) auto
  moreover have "length data \<le> unat (total_chunks s) * ?c"
    using less_total_chunks [OF wf, of "unat (total_chunks s)"] n by simp
  ultimately show ?thesis by simp
qed

theorem chunks_tile_blob_witness:
  "\<exists>s. chunk_source_new 5 2 = Inr s \<and>
     concat (map (\<lambda>i. chunk_of s [1, 2, 3, 4, 5] (of_nat i)) [0..<unat (total_chunks s)]) = [1, 2, 3, 4, 5]"
proof -
  have "chunk_source_new (of_nat (length ([1, 2, 3, 4, 5] :: bytes))) 2 = Inr \<lparr>cs_size = 5, cs_chunk_bytes = 2\<rparr>"
    by (simp add: chunk_source_new_def MAX_BLOB_BYTES_def)
  from chunks_tile_blob [OF this] this show ?thesis by auto
qed

text \<open>
  A transfer resumes at its first gap: every chunk below the resumption index has been
  received, and the index is the number of chunks or that of a missing one.
\<close>

theorem resume_at_first_gap:
  assumes "length (cr_received r) < 2 ^ 32"
  shows "(\<forall>j < unat (resume_from r). cr_received r ! j) \<and>
    (unat (resume_from r) = length (cr_received r) \<or>
     unat (resume_from r) < length (cr_received r) \<and> \<not> cr_received r ! unat (resume_from r))"
proof -
  let ?t = "length (takeWhile id (cr_received r))"
  have le: "?t \<le> length (cr_received r)" by (rule length_takeWhile_le)
  then have u: "unat (resume_from r) = ?t" using assms by (simp add: resume_from_def unat_of_nat)
  have "cr_received r ! j" if "j < ?t" for j
    using that by (metis (full_types) id_apply nth_mem set_takeWhileD takeWhile_nth)
  moreover have "?t < length (cr_received r) \<Longrightarrow> \<not> cr_received r ! ?t"
    using nth_length_takeWhile [of id "cr_received r"] by simp
  ultimately show ?thesis unfolding u using le by (auto simp: le_less)
qed

theorem resume_at_first_gap_witness:
  "resume_from \<lparr>cr_digest = hash_of sample_crates [], cr_source = \<lparr>cs_size = 5, cs_chunk_bytes = 2\<rparr>,
     cr_buffer = [1, 2, 0, 0, 5], cr_received = [True, False, True]\<rparr> = 1 \<and> [True, False, True] ! 0"
  using resume_at_first_gap [of "\<lparr>cr_digest = hash_of sample_crates [],
      cr_source = \<lparr>cs_size = 5, cs_chunk_bytes = 2\<rparr>, cr_buffer = [1, 2, 0, 0, 5],
      cr_received = [True, False, True]\<rparr>"]
  by (simp add: resume_from_def)

end
