(* ===== verification/Echo_Guards.thy ===== *)
theory Echo_Guards
  imports Content_Hash
begin

text \<open>
  The two guards that keep a clip from bouncing between devices: \<open>OwnWriteGuard\<close> of
  \<open>clipse-clipboard/src/own_write_guard.rs\<close> (the echo of our own clipboard write) and \<open>LoopGuard\<close>
  of \<open>clipse-sync/src/loop_guard.rs\<close> (content that just arrived from a peer). Both promise the
  same thing, which is the locale \<open>echo_guard\<close>.

  The clocks (\<open>now\<close>, \<open>now_ms\<close>) are arguments. Instants of the monotonic clock are natural numbers
  of nanoseconds; \<open>duration_since\<close> saturates at zero like subtraction on them. The \<open>HashMap\<close> of the
  loop guard is an association list with distinct keys; its order stands for the unspecified
  iteration order, and every statement holds for any order.
\<close>

section \<open>The own-write guard\<close>

record pending =
  pw_hash :: content_hash
  pw_written_at :: nat

record own_write_guard =
  og_ttl :: nat
  og_pending :: "pending option"

definition DEFAULT_OWN_WRITE_TTL :: nat where
  "DEFAULT_OWN_WRITE_TTL = 750 * 1000000"

definition own_guard_new :: "nat \<Rightarrow> own_write_guard" where
  "own_guard_new ttl = \<lparr>og_ttl = ttl, og_pending = None\<rparr>"

definition record_write :: "nat \<Rightarrow> content_hash \<Rightarrow> own_write_guard \<Rightarrow> own_write_guard" where
  "record_write now h g = g\<lparr>og_pending := Some \<lparr>pw_hash = h, pw_written_at = now\<rparr>\<rparr>"

definition own_check :: "nat \<Rightarrow> content_hash \<Rightarrow> own_write_guard \<Rightarrow> bool \<times> own_write_guard" where
  "own_check now h g =
     (case og_pending g of
        None \<Rightarrow> (False, g)
      | Some p \<Rightarrow>
          if now - pw_written_at p > og_ttl g then (False, g\<lparr>og_pending := None\<rparr>)
          else if pw_hash p = h then (True, g\<lparr>og_pending := None\<rparr>)
          else (False, g))"

section \<open>The loop guard\<close>

datatype rebroadcast_verdict = Send | SuppressOrigin | SuppressEcho

record guard_entry =
  ge_origin :: device_id
  ge_at_ms :: u64

record loop_guard =
  lg_window_ms :: u64
  lg_seen :: "(content_hash \<times> guard_entry) list"

definition MAX_ENTRIES :: nat where
  "MAX_ENTRIES = 4096"

definition DEFAULT_ECHO_WINDOW :: u64 where
  "DEFAULT_ECHO_WINDOW = 30000"

definition loop_guard_new :: "u64 \<Rightarrow> loop_guard" where
  "loop_guard_new window = \<lparr>lg_window_ms = window, lg_seen = []\<rparr>"

text \<open>\<open>sort_by_key(|(_, at)| Reverse(*at))\<close> is stable and descending.\<close>

definition prune :: "u64 \<Rightarrow> loop_guard \<Rightarrow> loop_guard" where
  "prune now g =
     (let fresh = filter (\<lambda>(h, e). sat_sub now (ge_at_ms e) \<le> lg_window_ms g) (lg_seen g)
      in if length fresh \<ge> MAX_ENTRIES
         then let by_age = sort_key (\<lambda>(h, at). - uint at) (map (\<lambda>(h, e). (h, ge_at_ms e)) fresh);
                  keep = map fst (take (MAX_ENTRIES div 2) by_age)
              in g\<lparr>lg_seen := filter (\<lambda>(h, e). h \<in> set keep) fresh\<rparr>
         else g\<lparr>lg_seen := fresh\<rparr>)"

definition record_received :: "u64 \<Rightarrow> content_hash \<Rightarrow> device_id \<Rightarrow> loop_guard \<Rightarrow> loop_guard" where
  "record_received now h origin g =
     (let g' = prune now g
      in g'\<lparr>lg_seen := (h, \<lparr>ge_origin = origin, ge_at_ms = now\<rparr>) #
              filter (\<lambda>(k, e). k \<noteq> h) (lg_seen g')\<rparr>)"

definition verdict :: "u64 \<Rightarrow> content_hash \<Rightarrow> device_id \<Rightarrow> loop_guard \<Rightarrow> rebroadcast_verdict" where
  "verdict now h peer g =
     (case map_of (lg_seen g) h of
        None \<Rightarrow> Send
      | Some e \<Rightarrow>
          if sat_sub now (ge_at_ms e) > lg_window_ms g then Send
          else if ge_origin e = peer then SuppressOrigin
          else SuppressEcho)"

section \<open>Contract of an echo guard\<close>

text \<open>
  Recording content arms the guard for it. While the record is fresh, a check for that content
  recognises the echo, and checks for other content leave the guard armed. A stale record is not
  recognised. From this, an echo is recognised after any number of unrelated checks.
\<close>

locale echo_guard =
  fixes remember :: "'t \<Rightarrow> 'h \<Rightarrow> 'g \<Rightarrow> 'g"
    and check :: "'t \<Rightarrow> 'h \<Rightarrow> 'g \<Rightarrow> bool \<times> 'g"
    and armed :: "'t \<Rightarrow> 'h \<Rightarrow> 'g \<Rightarrow> bool"
    and fresh :: "'t \<Rightarrow> 't \<Rightarrow> bool"
    and ok :: "'g \<Rightarrow> bool"
  assumes remember_arms: "ok g \<Longrightarrow> armed t h (remember t h g)"
    and check_hit: "armed t h g \<Longrightarrow> fresh t t' \<Longrightarrow> fst (check t' h g)"
    and check_stale: "armed t h g \<Longrightarrow> \<not> fresh t t' \<Longrightarrow> \<not> fst (check t' h g)"
    and check_miss: "armed t h g \<Longrightarrow> fresh t t' \<Longrightarrow> h' \<noteq> h \<Longrightarrow> armed t h (snd (check t' h' g))"
begin

lemma armed_through_misses:
  assumes "armed t h g" and "\<forall>(t', h') \<in> set cs. fresh t t' \<and> h' \<noteq> h"
  shows "armed t h (fold (\<lambda>(t', h') g. snd (check t' h' g)) cs g)"
  using assms by (induction cs arbitrary: g) (auto intro: check_miss)

theorem echo_recognised:
  assumes "ok g" and "\<forall>(t', h') \<in> set cs. fresh t t' \<and> h' \<noteq> h"
  shows "fst (check t2 h (fold (\<lambda>(t', h') g. snd (check t' h' g)) cs (remember t h g))) \<longleftrightarrow> fresh t t2"
  using armed_through_misses [OF remember_arms [OF assms(1)] assms(2)] check_hit check_stale by blast

end

definition own_armed :: "nat \<Rightarrow> nat \<Rightarrow> content_hash \<Rightarrow> own_write_guard \<Rightarrow> bool" where
  "own_armed ttl t h g \<longleftrightarrow> og_ttl g = ttl \<and> og_pending g = Some \<lparr>pw_hash = h, pw_written_at = t\<rparr>"

interpretation own: echo_guard record_write own_check "own_armed ttl"
  "\<lambda>t t'. t' - t \<le> ttl" "\<lambda>g. og_ttl g = ttl" for ttl
  by unfold_locales (auto simp: own_armed_def record_write_def own_check_def)

definition loop_check :: "device_id \<Rightarrow> u64 \<Rightarrow> content_hash \<Rightarrow> loop_guard \<Rightarrow> bool \<times> loop_guard" where
  "loop_check peer now h g = (verdict now h peer g \<noteq> Send, g)"

definition loop_armed :: "u64 \<Rightarrow> u64 \<Rightarrow> content_hash \<Rightarrow> loop_guard \<Rightarrow> bool" where
  "loop_armed w t h g \<longleftrightarrow> lg_window_ms g = w \<and> (\<exists>e. map_of (lg_seen g) h = Some e \<and> ge_at_ms e = t)"

lemma prune_window [simp]: "lg_window_ms (prune now g) = lg_window_ms g"
  by (simp add: prune_def Let_def)

interpretation loop: echo_guard "\<lambda>t h. record_received t h origin" "loop_check peer" "loop_armed w"
  "\<lambda>t t'. sat_sub t' t \<le> w" "\<lambda>g. lg_window_ms g = w" for origin peer w
  by unfold_locales
    (auto simp: loop_armed_def record_received_def loop_check_def verdict_def Let_def dest: leD split: if_splits)

section \<open>Behaviour of the own-write guard\<close>

lemma own_check_disarms:
  "own_armed ttl t h g \<Longrightarrow> og_pending (snd (own_check t' h g)) = None"
  by (auto simp: own_armed_def own_check_def)

text \<open>
  Write, then capture: after a write of some content the guard lets captures of other content
  pass, and takes the first capture of that content for the echo exactly if it comes within the
  time limit; the one after it is a genuine copy in any case.
\<close>

theorem own_write_echo:
  assumes "\<forall>(t', h') \<in> set cs. t' - t \<le> og_ttl g \<and> h' \<noteq> h"
    and "g' = fold (\<lambda>(t', h') g. snd (own_check t' h' g)) cs (record_write t h g)"
  shows "(fst (own_check t2 h g') \<longleftrightarrow> t2 - t \<le> og_ttl g) \<and>
    \<not> fst (own_check t3 h (snd (own_check t2 h g')))"
proof
  show "fst (own_check t2 h g') \<longleftrightarrow> t2 - t \<le> og_ttl g"
    unfolding assms(2) using own.echo_recognised [OF refl assms(1)] .
  have "own_armed (og_ttl g) t h g'"
    unfolding assms(2) using own.armed_through_misses [OF own.remember_arms [OF refl] assms(1)] .
  from own_check_disarms [OF this, of t2] show "\<not> fst (own_check t3 h (snd (own_check t2 h g')))"
    by (simp add: own_check_def)
qed

theorem own_write_echo_witness:
  "let g = own_guard_new DEFAULT_OWN_WRITE_TTL;
       g' = snd (own_check 1100 (ContentHash [2]) (record_write 1000 (ContentHash [1]) g))
   in fst (own_check 1200 (ContentHash [1]) g') \<and>
      \<not> fst (own_check 1300 (ContentHash [1]) (snd (own_check 1200 (ContentHash [1]) g')))"
  using own_write_echo [of "[(1100, ContentHash [2])]" 1000 "own_guard_new DEFAULT_OWN_WRITE_TTL"
      "ContentHash [1]" _ 1200 1300, OF _ refl]
  by (simp add: own_guard_new_def DEFAULT_OWN_WRITE_TTL_def)

section \<open>Behaviour of the loop guard\<close>

text \<open>
  Content received from a peer is not broadcast while the echo window is open: to its origin
  it is suppressed as such, to every other peer as an echo; after the window it is sent again.
\<close>

theorem received_not_rebroadcast:
  "verdict t2 h peer (record_received t h origin g) =
     (if sat_sub t2 t > lg_window_ms g then Send
      else if origin = peer then SuppressOrigin else SuppressEcho)"
  by (simp add: verdict_def record_received_def Let_def)

lemma length_prune: "length (lg_seen (prune now g)) < MAX_ENTRIES \<or> \<not> distinct (map fst (lg_seen g))"
proof (cases "distinct (map fst (lg_seen g))")
  case True
  define fresh where "fresh = filter (\<lambda>(h, e). sat_sub now (ge_at_ms e) \<le> lg_window_ms g) (lg_seen g)"
  define keep where "keep = map fst (take (MAX_ENTRIES div 2)
    (sort_key (\<lambda>(h, at). - uint at) (map (\<lambda>(h, e). (h, ge_at_ms e)) fresh)))"
  have d: "distinct (map fst fresh)" using True by (simp add: fresh_def distinct_map_filter)
  have "length (filter (\<lambda>(h, e). h \<in> set keep) fresh) = card (set (map fst (filter (\<lambda>(h, e). h \<in> set keep) fresh)))"
    using d by (metis distinct_card distinct_map_filter length_map)
  also have "\<dots> \<le> card (set keep)" by (intro card_mono) auto
  also have "\<dots> \<le> length keep" by (rule card_length)
  also have "\<dots> \<le> MAX_ENTRIES div 2" by (simp add: keep_def)
  finally have "length (filter (\<lambda>(h, e). h \<in> set keep) fresh) < MAX_ENTRIES"
    by (simp add: MAX_ENTRIES_def)
  moreover have "lg_seen (prune now g) =
      (if length fresh \<ge> MAX_ENTRIES then filter (\<lambda>(h, e). h \<in> set keep) fresh else fresh)"
    by (simp add: prune_def Let_def fresh_def keep_def)
  ultimately show ?thesis by simp
qed simp

definition guard_ok :: "loop_guard \<Rightarrow> bool" where
  "guard_ok g \<longleftrightarrow> distinct (map fst (lg_seen g)) \<and> length (lg_seen g) \<le> MAX_ENTRIES"

lemma distinct_prune: "distinct (map fst (lg_seen g)) \<Longrightarrow> distinct (map fst (lg_seen (prune now g)))"
  by (auto simp: prune_def Let_def distinct_map_filter)

lemma record_received_ok: "guard_ok g \<Longrightarrow> guard_ok (record_received now h origin g)"
proof -
  assume g: "guard_ok g"
  then have d: "distinct (map fst (lg_seen (prune now g)))" by (simp add: guard_ok_def distinct_prune)
  have "length (filter (\<lambda>(k, e). k \<noteq> h) (lg_seen (prune now g))) < MAX_ENTRIES"
    using g length_prune [of now g] length_filter_le le_less_trans unfolding guard_ok_def by blast
  moreover have "h \<notin> fst ` set (filter (\<lambda>(k, e). k \<noteq> h) (lg_seen (prune now g)))" by auto
  ultimately show ?thesis using d by (simp add: guard_ok_def record_received_def Let_def distinct_map_filter)
qed

text \<open>
  However many clips arrive, the guard remembers at most 4096 hashes, each once.
\<close>

theorem loop_guard_bounded:
  "guard_ok (fold (\<lambda>(now, h, origin). record_received now h origin) events (loop_guard_new window))"
proof -
  have "guard_ok (loop_guard_new window)" by (simp add: guard_ok_def loop_guard_new_def)
  then show ?thesis
    by (induction events rule: rev_induct) (auto intro: record_received_ok split: prod.splits)
qed

lemma sorted_take_drop_le:
  assumes "sorted (map f xs)" "x \<in> set (take n xs)" "y \<in> set (drop n xs)"
  shows "f x \<le> f y"
proof -
  have "sorted (map f (take n xs) @ map f (drop n xs))"
    using assms(1) by (simp flip: map_append)
  then show ?thesis using assms(2,3) by (auto simp: sorted_append)
qed

text \<open>
  Pruning never forgets the wrong entries: an entry inside the window is dropped only when the
  guard is full, and then every entry that stays is at least as recent.
\<close>

theorem prune_drops_oldest:
  assumes "distinct (map fst (lg_seen g))"
    and "(h, e) \<in> set (lg_seen g)" and "sat_sub now (ge_at_ms e) \<le> lg_window_ms g"
    and "(h, e) \<notin> set (lg_seen (prune now g))"
  shows "length (lg_seen g) \<ge> MAX_ENTRIES \<and>
    (\<forall>(k, f) \<in> set (lg_seen (prune now g)). ge_at_ms e \<le> ge_at_ms f)"
proof -
  define fresh where "fresh = filter (\<lambda>(h, e). sat_sub now (ge_at_ms e) \<le> lg_window_ms g) (lg_seen g)"
  define by_age where "by_age = sort_key (\<lambda>(h, at). - uint at) (map (\<lambda>(h, e). (h, ge_at_ms e)) fresh)"
  let ?n = "MAX_ENTRIES div 2"
  let ?keep = "map fst (take ?n by_age)"
  have mem: "(h, e) \<in> set fresh" using assms(2,3) by (simp add: fresh_def)
  have full: "length fresh \<ge> MAX_ENTRIES"
    using assms(4) mem by (auto simp: prune_def Let_def fresh_def [symmetric] split: if_splits)
  then have pr: "lg_seen (prune now g) = filter (\<lambda>(h, e). h \<in> set ?keep) fresh"
    by (simp add: prune_def Let_def fresh_def [symmetric] by_age_def [symmetric])
  have df: "distinct (map fst fresh)" using assms(1) by (simp add: fresh_def distinct_map_filter)
  have sort: "sorted (map (\<lambda>(h, at). - uint at) by_age)" by (simp add: by_age_def)
  have sa: "set by_age = (\<lambda>(h, e). (h, ge_at_ms e)) ` set fresh" by (simp add: by_age_def)
  have "(h, ge_at_ms e) \<in> set by_age" using mem sa by force
  moreover have "(h, ge_at_ms e) \<notin> set (take ?n by_age)" using assms(4) mem pr by force
  ultimately have drop: "(h, ge_at_ms e) \<in> set (drop ?n by_age)"
    by (metis Un_iff append_take_drop_id set_append)
  have "ge_at_ms e \<le> ge_at_ms f" if kf: "(k, f) \<in> set (lg_seen (prune now g))" for k f
  proof -
    from kf pr obtain at where at: "(k, at) \<in> set (take ?n by_age)" and kff: "(k, f) \<in> set fresh" by auto
    then obtain f' where "(k, f') \<in> set fresh" "at = ge_at_ms f'" using sa by (force dest: in_set_takeD)
    with df kff have "at = ge_at_ms f" by (metis eq_key_imp_eq_value)
    with sorted_take_drop_le [OF sort at drop] show ?thesis by (simp add: word_le_def)
  qed
  moreover have "length (lg_seen g) \<ge> MAX_ENTRIES"
    using full unfolding fresh_def by (meson length_filter_le order_trans)
  ultimately show ?thesis by auto
qed

theorem prune_drops_oldest_witness:
  "let g = \<lparr>lg_window_ms = 0, lg_seen = map (\<lambda>i. (ContentHash (replicate i 0),
         \<lparr>ge_origin = DeviceId 0, ge_at_ms = 0\<rparr>)) [0..<4096]\<rparr>
   in \<exists>h e. (h, e) \<in> set (lg_seen g) \<and> (h, e) \<notin> set (lg_seen (prune 0 g)) \<and>
        (\<forall>(k, f) \<in> set (lg_seen (prune 0 g)). ge_at_ms e \<le> ge_at_ms f)"
proof -
  define g :: loop_guard where "g = \<lparr>lg_window_ms = 0, lg_seen = map (\<lambda>i. (ContentHash (replicate i 0),
         \<lparr>ge_origin = DeviceId 0, ge_at_ms = 0\<rparr>)) [0..<4096]\<rparr>"
  have d: "distinct (map fst (lg_seen g))" by (auto simp: g_def distinct_map inj_on_def)
  have "\<not> set (lg_seen g) \<subseteq> set (lg_seen (prune 0 g))"
  proof
    assume "set (lg_seen g) \<subseteq> set (lg_seen (prune 0 g))"
    then have "card (set (lg_seen g)) \<le> length (lg_seen (prune 0 g))"
      by (meson List.finite_set card_length card_mono order_trans)
    moreover have "distinct (lg_seen g)" using d by (simp only: distinct_map)
    moreover have "length (lg_seen g) = 4096" by (simp add: g_def)
    ultimately have "4096 \<le> length (lg_seen (prune 0 g))" by (simp add: distinct_card)
    then show False using length_prune [of 0 g] d by (simp add: MAX_ENTRIES_def)
  qed
  then obtain h e where he: "(h, e) \<in> set (lg_seen g)" "(h, e) \<notin> set (lg_seen (prune 0 g))" by auto
  moreover have "sat_sub 0 (ge_at_ms e) \<le> lg_window_ms g"
    using he(1) by (auto simp: g_def sat_sub_def)
  ultimately show ?thesis
    using prune_drops_oldest [OF d he(1) _ he(2)] unfolding Let_def g_def [symmetric] by blast
qed

end
