(* ===== verification/Store_Rows.thy ===== *)
theory Store_Rows
  imports Clip_Model
begin

text \<open>
  The rows of the SQLite tables (\<open>clipse-store/src/schema.rs\<close>) and their translation to and from
  the domain types (\<open>clipse-store/src/row.rs\<close>). A SQLite \<open>INTEGER\<close> column is a 64-bit word read
  as a signed number, so the casts \<open>as i64\<close> and \<open>as u64\<close> keep the bit pattern and SQL comparisons
  are comparisons of \<open>sint\<close>. Identifiers and hashes are text columns.

  The environment \<open>env\<close> adds to the crates what SQLite leaves open: the order in which a query
  visits the rows of the \<open>clip\<close> table (a permutation of the rows) and the FTS5 matcher.
\<close>

type_synonym i64 = "64 word"

section \<open>Row types\<close>

record raw_clip =
  rc_id :: string
  rc_hash :: string
  rc_kind :: string
  rc_preview :: ustr
  rc_source_device :: string
  rc_source_device_label :: ustr
  rc_source_app :: "ustr option"
  rc_hlc_wall_ms :: i64
  rc_hlc_counter :: i64
  rc_hlc_device :: string
  rc_created_at_ms :: i64
  rc_pinned :: i64
  rc_deleted :: i64

record clip_row = raw_clip +
  rc_deleted_at_ms :: "i64 option"

record raw_payload =
  rp_format_label :: string
  rp_digest :: string
  rp_size :: i64
  rp_inline_bytes :: "bytes option"

record payload_row = raw_payload +
  pr_clip_id :: string

record blob_meta =
  bm_digest :: string
  bm_size :: i64
  bm_used_seq :: i64

record env = crates +
  sqlite_scan :: "clip_row list \<Rightarrow> clip_row list"
  fts5_match :: "ustr \<Rightarrow> ustr \<Rightarrow> bool"

definition env_ok :: "env \<Rightarrow> bool" where
  "env_ok E \<longleftrightarrow> crates_ok E \<and> (\<forall>rows. mset (sqlite_scan E rows) = mset rows)"

section \<open>Reading rows\<close>

definition parse_kind :: "string \<Rightarrow> clip_kind" where
  "parse_kind s =
     (if s = ''text'' then KText
      else if s = ''html'' then KHtml
      else if s = ''rtf'' then KRtf
      else if s = ''image'' then KImage
      else if s = ''files'' then KFiles
      else KOther)"

definition into_clip ::
    "'x crates_scheme \<Rightarrow> 'r raw_clip_scheme \<Rightarrow> payload list \<Rightarrow> core_error + clip" where
  "into_clip X raw payloads =
     bind_r (clip_id_from_str X (rc_id raw)) (\<lambda>i.
     bind_r (hash_from_str X (rc_hash raw)) (\<lambda>h.
     bind_r (device_from_str X (rc_source_device raw)) (\<lambda>d.
     bind_r (device_from_str X (rc_hlc_device raw)) (\<lambda>hd.
       Inr \<lparr>c_id = i, c_hash = h, c_kind = parse_kind (rc_kind raw), c_payloads = payloads,
            c_preview = rc_preview raw,
            c_source = with_app (rc_source_app raw) (source_new d (rc_source_device_label raw)),
            c_hlc = Hlc (rc_hlc_wall_ms raw) (ucast (rc_hlc_counter raw)) hd,
            c_created_at_ms = rc_created_at_ms raw,
            c_pinned = (rc_pinned raw \<noteq> 0), c_deleted = (rc_deleted raw \<noteq> 0)\<rparr>))))"

definition into_payload :: "'x crates_scheme \<Rightarrow> 'r raw_payload_scheme \<Rightarrow> core_error + payload" where
  "into_payload X raw =
     bind_r (hash_from_str X (rp_digest raw)) (\<lambda>digest.
       Inr \<lparr>p_format = from_label (rp_format_label raw), p_digest = digest, p_size = rp_size raw,
            p_body = (case rp_inline_bytes raw of Some bs \<Rightarrow> Inline bs | None \<Rightarrow> Blob)\<rparr>)"

section \<open>Writing rows\<close>

text \<open>The values bound by the \<open>INSERT\<close> statements of \<open>Store::insert\<close>.\<close>

definition bool_i64 :: "bool \<Rightarrow> i64" where
  "bool_i64 b = (if b then 1 else 0)"

definition clip_row_of :: "'x crates_scheme \<Rightarrow> clip \<Rightarrow> clip_row" where
  "clip_row_of X c =
     \<lparr>rc_id = clip_id_to_string X (c_id c), rc_hash = to_hex X (c_hash c),
      rc_kind = kind_str (c_kind c), rc_preview = c_preview c,
      rc_source_device = device_to_string X (src_device (c_source c)),
      rc_source_device_label = src_device_label (c_source c), rc_source_app = src_app (c_source c),
      rc_hlc_wall_ms = wall_ms (c_hlc c), rc_hlc_counter = ucast (counter (c_hlc c)),
      rc_hlc_device = device_to_string X (hlc_device (c_hlc c)),
      rc_created_at_ms = c_created_at_ms c, rc_pinned = bool_i64 (c_pinned c),
      rc_deleted = bool_i64 (c_deleted c), rc_deleted_at_ms = None\<rparr>"

definition payload_row_of :: "'x crates_scheme \<Rightarrow> string \<Rightarrow> payload \<Rightarrow> payload_row" where
  "payload_row_of X id_str p =
     \<lparr>rp_format_label = label (p_format p), rp_digest = to_hex X (p_digest p), rp_size = p_size p,
      rp_inline_bytes = inline_bytes p, pr_clip_id = id_str\<rparr>"

section \<open>Round trips\<close>

lemma parse_kind_str [simp]: "parse_kind (kind_str k) = k"
  by (cases k) (simp_all add: parse_kind_def)

lemma bool_i64_simps [simp]:
  "bool_i64 b \<noteq> 0 \<longleftrightarrow> b" "bool_i64 b = 0 \<longleftrightarrow> \<not> b" "0 = bool_i64 b \<longleftrightarrow> \<not> b"
  "bool_i64 a = bool_i64 b \<longleftrightarrow> a = b" "bool_i64 b = 1 \<longleftrightarrow> b"
  by (auto simp: bool_i64_def)

text \<open>Reading back what was written.\<close>

lemma into_clip_row_of:
  assumes "crates_ok X" "hash_wf (c_hash c)"
  shows "into_clip X (clip_row_of X c) ps = Inr (c\<lparr>c_payloads := ps\<rparr>)"
  using assms
  by (cases "c_hlc c")
    (simp add: into_clip_def clip_row_of_def clip_id_roundtrip hash_roundtrip device_roundtrip
      with_app_def source_new_def)

lemma into_payload_row_of:
  assumes "crates_ok X" "hash_wf (p_digest p)" "canonical (p_format p)"
  shows "into_payload X (payload_row_of X i p) = Inr p"
  using assms
  by (simp add: into_payload_def payload_row_of_def hash_roundtrip canonical_def inline_bytes_def
      split: payload_body.splits)

section \<open>An environment to try things on\<close>

definition sample_env :: env where
  "sample_env = crates.extend sample_crates \<lparr>sqlite_scan = id, fts5_match = (\<lambda>expr body. True)\<rparr>"

lemma sample_env_ok: "env_ok sample_env"
  using sample_crates_ok by (simp add: env_ok_def crates_ok_def sample_env_def crates.defs)

lemma sample_env_crates [simp]:
  "blake3_hash sample_env = blake3_hash sample_crates" "hex_encode sample_env = hex_encode sample_crates"
  "hex_decode sample_env = hex_decode sample_crates" "uuid_to_string sample_env = uuid_to_string sample_crates"
  "uuid_parse_str sample_env = uuid_parse_str sample_crates" "sqlite_scan sample_env = id"
  by (simp_all add: sample_env_def crates.defs)

end
