(* ===== verification/Store.thy ===== *)
theory Store
  imports Store_Rows "HOL-Library.Product_Lexorder"
begin

text \<open>
  The history store (\<open>clipse-store/src/store.rs\<close>, \<open>fts.rs\<close>): the SQLite tables as lists of rows and
  every SQL statement of the source as an operation on them. A transaction that is not committed
  leaves the tables as they were, so an error result carries the old state. Errors of the operating
  system and of SQLite other than constraint violations are not modelled.

  \<open>current_epoch_ms()\<close> is an argument of the operations that read it. The mutex around the
  connection makes each operation atomic, which is what a state-passing function is.
\<close>

section \<open>State\<close>

record store =
  st_clip :: "clip_row list"
  st_payload :: "payload_row list"
  st_fts :: "(string \<times> ustr) list"
  st_blob_meta :: "blob_meta list"
  st_files :: "string \<times> string \<times> string \<Rightarrow> bytes option"
  st_used_seq :: u64
  st_quota :: u64

datatype store_error =
    SqliteConstraint
  | SqliteIntegerOverflow
  | SqliteObjectExists string
  | Core core_error
  | SchemaTooNew int int
  | NotFound clip_id
  | BlobNotFound content_hash

datatype insert_outcome = Inserted clip_id | Deduplicated clip_id | Rejected

record history_query =
  q_limit :: i64
  q_offset :: i64
  q_kind :: "clip_kind option"
  q_pinned_only :: bool

definition default_query :: history_query where
  "default_query = \<lparr>q_limit = 100, q_offset = 0, q_kind = None, q_pinned_only = False\<rparr>"

section \<open>SQL building blocks\<close>

text \<open>\<open>UPDATE t SET f WHERE P\<close>.\<close>

definition update_where :: "('r \<Rightarrow> bool) \<Rightarrow> ('r \<Rightarrow> 'r) \<Rightarrow> 'r list \<Rightarrow> 'r list" where
  "update_where P f rows = map (\<lambda>r. if P r then f r else r) rows"

text \<open>\<open>LIMIT\<close> and \<open>OFFSET\<close> with their SQLite meaning of negative values.\<close>

definition sql_limit :: "i64 \<Rightarrow> 'r list \<Rightarrow> 'r list" where
  "sql_limit n rows = (if sint n < 0 then rows else take (nat (sint n)) rows)"

definition sql_offset :: "i64 \<Rightarrow> 'r list \<Rightarrow> 'r list" where
  "sql_offset n rows = drop (nat (sint n)) rows"

text \<open>The sort key of \<open>ORDER BY hlc_wall_ms, hlc_counter, hlc_device\<close>.\<close>

definition hlc_key :: "'r raw_clip_scheme \<Rightarrow> int \<times> int \<times> string" where
  "hlc_key r = (sint (rc_hlc_wall_ms r), sint (rc_hlc_counter r), rc_hlc_device r)"

section \<open>Full-text index\<close>

definition body_text :: "clip \<Rightarrow> ustr" where
  "body_text c =
     (case clip_text c of
        Some t \<Rightarrow> if t \<noteq> c_preview c then c_preview c @ [10] @ t else c_preview c
      | None \<Rightarrow> c_preview c)"

definition double_quotes :: "ustr \<Rightarrow> ustr" where
  "double_quotes t = concat (map (\<lambda>ch. if ch = 34 then [34, 34] else [ch]) t)"

definition escape_query :: "ustr \<Rightarrow> ustr option" where
  "escape_query input =
     (let terms = split_whitespace input
      in if terms = [] then None
         else Some (join (lit '' '') (map (\<lambda>t. [34] @ double_quotes t @ [34]) terms)))"

section \<open>Loading\<close>

definition load_payloads :: "env \<Rightarrow> store \<Rightarrow> string \<Rightarrow> store_error + payload list" where
  "load_payloads E st id_str =
     map_err Core (mapM_r (into_payload E)
       (sort_key rp_format_label (filter (\<lambda>p. pr_clip_id p = id_str) (st_payload st))))"

definition row_to_clip :: "env \<Rightarrow> store \<Rightarrow> clip_row \<Rightarrow> store_error + clip" where
  "row_to_clip E st r =
     bind_r (load_payloads E st (rc_id r)) (\<lambda>ps. map_err Core (into_clip E r ps))"

definition load_clip :: "env \<Rightarrow> store \<Rightarrow> string \<Rightarrow> store_error + clip option" where
  "load_clip E st id_str =
     (case find (\<lambda>r. rc_id r = id_str) (st_clip st) of
        None \<Rightarrow> Inr None
      | Some r \<Rightarrow> bind_r (row_to_clip E st r) (\<lambda>c. Inr (Some c)))"

definition rows_to_clips :: "env \<Rightarrow> store \<Rightarrow> clip_row list \<Rightarrow> store_error + clip list" where
  "rows_to_clips E st rows = mapM_r (row_to_clip E st) rows"

section \<open>Operations\<close>

definition find_live :: "env \<Rightarrow> store \<Rightarrow> string \<Rightarrow> clip_row option" where
  "find_live E st hash_hex =
     find (\<lambda>r. rc_hash r = hash_hex \<and> rc_deleted r = 0) (sqlite_scan E (st_clip st))"

definition refresh_row :: "env \<Rightarrow> clip \<Rightarrow> clip_row \<Rightarrow> clip_row" where
  "refresh_row E c r =
     r\<lparr>rc_hlc_wall_ms := wall_ms (c_hlc c), rc_hlc_counter := ucast (counter (c_hlc c)),
       rc_hlc_device := device_to_string E (hlc_device (c_hlc c)),
       rc_created_at_ms := c_created_at_ms c,
       rc_source_device := device_to_string E (src_device (c_source c)),
       rc_source_device_label := src_device_label (c_source c),
       rc_source_app := src_app (c_source c)\<rparr>"

definition store_insert :: "env \<Rightarrow> clip \<Rightarrow> store \<Rightarrow> (store_error + insert_outcome) \<times> store" where
  "store_insert E c st =
     (if \<not> hash_matches E c then (Inr Rejected, st)
      else case find_live E st (to_hex E (c_hash c)) of
        Some r \<Rightarrow>
          (map_err Core (bind_r (clip_id_from_str E (rc_id r)) (\<lambda>i. Inr (Deduplicated i))),
           st\<lparr>st_clip := update_where (\<lambda>s. rc_id s = rc_id r) (refresh_row E c) (st_clip st)\<rparr>)
      | None \<Rightarrow>
          let id_str = clip_id_to_string E (c_id c);
              prows = map (payload_row_of E id_str) (c_payloads c)
          in if id_str \<in> set (map rc_id (st_clip st)) \<or>
                \<not> distinct (map (\<lambda>p. (pr_clip_id p, rp_format_label p)) (st_payload st @ prows))
             then (Inl SqliteConstraint, st)
             else (Inr (Inserted (c_id c)),
                   st\<lparr>st_clip := st_clip st @ [clip_row_of E c],
                      st_payload := st_payload st @ prows,
                      st_fts := st_fts st @ [(id_str, body_text c)]\<rparr>))"

definition store_get :: "env \<Rightarrow> clip_id \<Rightarrow> store \<Rightarrow> store_error + clip option" where
  "store_get E i st = load_clip E st (clip_id_to_string E i)"

definition lookup_by_hash :: "env \<Rightarrow> content_hash \<Rightarrow> bool \<Rightarrow> store \<Rightarrow> store_error + clip option" where
  "lookup_by_hash E h include_deleted st =
     (let hash_hex = to_hex E h;
          hits = (if include_deleted
                  then sort_key (\<lambda>r. sint (rc_deleted r))
                         (filter (\<lambda>r. rc_hash r = hash_hex) (sqlite_scan E (st_clip st)))
                  else filter (\<lambda>r. rc_hash r = hash_hex \<and> rc_deleted r = 0) (sqlite_scan E (st_clip st)))
      in case hits of [] \<Rightarrow> Inr None | r # _ \<Rightarrow> load_clip E st (rc_id r))"

definition by_hash :: "env \<Rightarrow> content_hash \<Rightarrow> store \<Rightarrow> store_error + clip option" where
  "by_hash E h st = lookup_by_hash E h False st"

definition by_hash_including_deleted :: "env \<Rightarrow> content_hash \<Rightarrow> store \<Rightarrow> store_error + clip option" where
  "by_hash_including_deleted E h st = lookup_by_hash E h True st"

definition query_row :: "history_query \<Rightarrow> clip_row \<Rightarrow> bool" where
  "query_row q r \<longleftrightarrow> rc_deleted r = 0 \<and>
     (case q_kind q of None \<Rightarrow> True | Some k \<Rightarrow> rc_kind r = kind_str k) \<and>
     (\<not> q_pinned_only q \<or> rc_pinned r = 1)"

definition page :: "history_query \<Rightarrow> clip_row list \<Rightarrow> clip_row list" where
  "page q rows = sql_limit (q_limit q) (sql_offset (q_offset q) (rev (sort_key hlc_key rows)))"

definition recent :: "env \<Rightarrow> history_query \<Rightarrow> store \<Rightarrow> store_error + clip list" where
  "recent E q st = rows_to_clips E st (page q (filter (query_row q) (sqlite_scan E (st_clip st))))"

definition search :: "env \<Rightarrow> ustr \<Rightarrow> history_query \<Rightarrow> store \<Rightarrow> store_error + clip list" where
  "search E t q st =
     (case escape_query t of
        None \<Rightarrow> Inr []
      | Some expr \<Rightarrow>
          let hit_ids = map fst (filter (\<lambda>(i, body). fts5_match E expr body) (st_fts st))
          in rows_to_clips E st
               (page q (filter (\<lambda>r. query_row q r \<and> rc_id r \<in> set hit_ids) (sqlite_scan E (st_clip st)))))"

definition stamp_row :: "env \<Rightarrow> hlc \<Rightarrow> clip_row \<Rightarrow> clip_row" where
  "stamp_row E t r =
     r\<lparr>rc_hlc_wall_ms := wall_ms t, rc_hlc_counter := ucast (counter t),
       rc_hlc_device := device_to_string E (hlc_device t)\<rparr>"

definition set_pinned :: "env \<Rightarrow> clip_id \<Rightarrow> bool \<Rightarrow> hlc \<Rightarrow> store \<Rightarrow> (store_error + unit) \<times> store" where
  "set_pinned E i pinned t st =
     (let P = (\<lambda>r. rc_id r = clip_id_to_string E i)
      in if filter P (st_clip st) = [] then (Inl (NotFound i), st)
         else (Inr (), st\<lparr>st_clip := update_where P
                 (\<lambda>r. (stamp_row E t r)\<lparr>rc_pinned := bool_i64 pinned\<rparr>) (st_clip st)\<rparr>))"

definition store_delete :: "env \<Rightarrow> u64 \<Rightarrow> clip_id \<Rightarrow> hlc \<Rightarrow> store \<Rightarrow> (store_error + unit) \<times> store" where
  "store_delete E now i t st =
     (let id_str = clip_id_to_string E i;
          P = (\<lambda>r. rc_id r = id_str \<and> rc_deleted r = 0)
      in if filter P (st_clip st) \<noteq> []
         then (Inr (), st\<lparr>st_clip := update_where P
                 (\<lambda>r. (stamp_row E t r)\<lparr>rc_deleted := 1, rc_deleted_at_ms := Some now\<rparr>) (st_clip st),
               st_fts := filter (\<lambda>(j, body). j \<noteq> id_str) (st_fts st)\<rparr>)
         else if filter (\<lambda>r. rc_id r = id_str) (st_clip st) = [] then (Inl (NotFound i), st)
         else (Inr (), st))"

definition after_cursor :: "env \<Rightarrow> hlc \<Rightarrow> clip_row \<Rightarrow> bool" where
  "after_cursor E t r \<longleftrightarrow>
     sint (rc_hlc_wall_ms r) > sint (wall_ms t) \<or>
     rc_hlc_wall_ms r = wall_ms t \<and> sint (rc_hlc_counter r) > sint (ucast (counter t) :: i64) \<or>
     rc_hlc_wall_ms r = wall_ms t \<and> rc_hlc_counter r = ucast (counter t) \<and>
       rc_hlc_device r > device_to_string E (hlc_device t)"

definition changes_since :: "env \<Rightarrow> hlc option \<Rightarrow> i64 \<Rightarrow> store \<Rightarrow> store_error + clip list" where
  "changes_since E cursor limit st =
     rows_to_clips E st (sql_limit limit (sort_key hlc_key
       (case cursor of
          None \<Rightarrow> sqlite_scan E (st_clip st)
        | Some t \<Rightarrow> filter (after_cursor E t) (sqlite_scan E (st_clip st)))))"

definition max_hlc :: "env \<Rightarrow> store \<Rightarrow> store_error + hlc option" where
  "max_hlc E st =
     (case rev (sort_key hlc_key (sqlite_scan E (st_clip st))) of
        [] \<Rightarrow> Inr None
      | r # _ \<Rightarrow>
          bind_r (map_err Core (device_from_str E (rc_hlc_device r)))
            (\<lambda>d. Inr (Some (Hlc (rc_hlc_wall_ms r) (ucast (rc_hlc_counter r)) d))))"

definition clip_count :: "store \<Rightarrow> nat" where
  "clip_count st = length (filter (\<lambda>r. rc_deleted r = 0) (st_clip st))"

text \<open>The tables of a database that was just created.\<close>

definition fresh_store :: "u64 \<Rightarrow> store" where
  "fresh_store quota = \<lparr>st_clip = [], st_payload = [], st_fts = [], st_blob_meta = [],
     st_files = (\<lambda>_. None), st_used_seq = 0, st_quota = quota\<rparr>"

end
