(* ===== verification/Store_Spec.thy ===== *)
theory Store_Spec
  imports Store
begin

text \<open>
  What the history store promises. \<open>store_ok\<close> is the invariant of its tables; \<open>history\<close> reads
  the tables as the list of clips they stand for, and every operation of \<open>Store\<close> is shown to do
  on the tables what a simple function does on that list. The invariant holds of every state
  reached by any sequence of operations, so reading a row back never fails.
\<close>

section \<open>Invariant\<close>

definition row_wf :: "'x crates_scheme \<Rightarrow> clip_row \<Rightarrow> bool" where
  "row_wf X r \<longleftrightarrow>
     (case into_clip X r [] of
        Inr c \<Rightarrow> hash_wf (c_hash c) \<and> r = (clip_row_of X c)\<lparr>rc_deleted_at_ms := rc_deleted_at_ms r\<rparr>
      | Inl _ \<Rightarrow> False)"

definition payload_row_wf :: "'x crates_scheme \<Rightarrow> payload_row \<Rightarrow> bool" where
  "payload_row_wf X p \<longleftrightarrow>
     (case into_payload X p of
        Inr q \<Rightarrow> hash_wf (p_digest q) \<and> p = payload_row_of X (pr_clip_id p) q
      | Inl _ \<Rightarrow> False)"

definition live_rows :: "store \<Rightarrow> clip_row list" where
  "live_rows st = filter (\<lambda>r. rc_deleted r = 0) (st_clip st)"

definition store_ok :: "'x crates_scheme \<Rightarrow> store \<Rightarrow> bool" where
  "store_ok X st \<longleftrightarrow>
     distinct (map rc_id (st_clip st)) \<and>
     list_all (row_wf X) (st_clip st) \<and>
     distinct (map (\<lambda>p. (pr_clip_id p, rp_format_label p)) (st_payload st)) \<and>
     list_all (payload_row_wf X) (st_payload st) \<and>
     list_all (\<lambda>p. pr_clip_id p \<in> set (map rc_id (st_clip st))) (st_payload st) \<and>
     distinct (map rc_hash (live_rows st))"

section \<open>The history a store stands for\<close>

definition row_clip :: "'x crates_scheme \<Rightarrow> clip_row \<Rightarrow> clip" where
  "row_clip X r = projr (into_clip X r [])"

definition row_payload :: "'x crates_scheme \<Rightarrow> payload_row \<Rightarrow> payload" where
  "row_payload X p = projr (into_payload X p)"

definition stored_payloads :: "'x crates_scheme \<Rightarrow> store \<Rightarrow> string \<Rightarrow> payload list" where
  "stored_payloads X st i =
     map (row_payload X) (sort_key rp_format_label (filter (\<lambda>p. pr_clip_id p = i) (st_payload st)))"

definition abs_clip :: "'x crates_scheme \<Rightarrow> store \<Rightarrow> clip_row \<Rightarrow> clip" where
  "abs_clip X st r = (row_clip X r)\<lparr>c_payloads := stored_payloads X st (rc_id r)\<rparr>"

definition history :: "'x crates_scheme \<Rightarrow> store \<Rightarrow> clip list" where
  "history X st = map (abs_clip X st) (st_clip st)"

text \<open>The clips a store can be handed: digests are 32 bytes, as the type \<open>ContentHash\<close> has it.\<close>

definition clip_wf :: "clip \<Rightarrow> bool" where
  "clip_wf c \<longleftrightarrow> hash_wf (c_hash c) \<and> list_all (\<lambda>p. hash_wf (p_digest p)) (c_payloads c)"

text \<open>Storing loses the order of the payloads and the spelling of a format with a known label.\<close>

definition norm_payload :: "payload \<Rightarrow> payload" where
  "norm_payload p = p\<lparr>p_format := from_label (label (p_format p))\<rparr>"

definition norm_clip :: "clip \<Rightarrow> clip" where
  "norm_clip c = c\<lparr>c_payloads := map norm_payload (sort_payloads (c_payloads c))\<rparr>"

section \<open>Reading well-formed rows\<close>

lemma row_wf_clip_row_of:
  assumes "crates_ok X" "hash_wf (c_hash c)"
  shows "row_wf X ((clip_row_of X c)\<lparr>rc_deleted_at_ms := t\<rparr>)"
    and "row_clip X ((clip_row_of X c)\<lparr>rc_deleted_at_ms := t\<rparr>) = c\<lparr>c_payloads := []\<rparr>"
proof -
  have "into_clip X ((clip_row_of X c)\<lparr>rc_deleted_at_ms := t\<rparr>) [] = Inr (c\<lparr>c_payloads := []\<rparr>)"
    using into_clip_row_of [OF assms, of "[]"] by (simp add: into_clip_def)
  then show "row_wf X ((clip_row_of X c)\<lparr>rc_deleted_at_ms := t\<rparr>)"
    and "row_clip X ((clip_row_of X c)\<lparr>rc_deleted_at_ms := t\<rparr>) = c\<lparr>c_payloads := []\<rparr>"
    using assms(2) by (simp_all add: row_wf_def row_clip_def clip_row_of_def)
qed

lemma row_wfE:
  assumes "row_wf X r"
  shows "hash_wf (c_hash (row_clip X r))"
    and "r = (clip_row_of X (row_clip X r))\<lparr>rc_deleted_at_ms := rc_deleted_at_ms r\<rparr>"
    and "into_clip X r ps = Inr ((row_clip X r)\<lparr>c_payloads := ps\<rparr>)"
proof -
  from assms obtain c where c: "into_clip X r [] = Inr c" "hash_wf (c_hash c)"
    "r = (clip_row_of X c)\<lparr>rc_deleted_at_ms := rc_deleted_at_ms r\<rparr>"
    by (auto simp: row_wf_def split: sum.splits)
  then have rc: "row_clip X r = c" by (simp add: row_clip_def)
  show "hash_wf (c_hash (row_clip X r))"
    "r = (clip_row_of X (row_clip X r))\<lparr>rc_deleted_at_ms := rc_deleted_at_ms r\<rparr>"
    unfolding rc using c by blast+
  show "into_clip X r ps = Inr ((row_clip X r)\<lparr>c_payloads := ps\<rparr>)"
    unfolding rc using c(1) by (auto simp: into_clip_def bind_r_Inr)
qed

text \<open>The columns of a well-formed row, read off its clip.\<close>

lemma row_wf_columns:
  assumes "row_wf X r"
  shows "rc_id r = clip_id_to_string X (c_id (row_clip X r))"
    and "rc_hash r = to_hex X (c_hash (row_clip X r))"
    and "rc_kind r = kind_str (c_kind (row_clip X r))"
    and "rc_hlc_wall_ms r = wall_ms (c_hlc (row_clip X r))"
    and "rc_hlc_counter r = ucast (counter (c_hlc (row_clip X r)))"
    and "rc_hlc_device r = device_to_string X (hlc_device (c_hlc (row_clip X r)))"
    and "rc_pinned r = bool_i64 (c_pinned (row_clip X r))"
    and "rc_deleted r = bool_i64 (c_deleted (row_clip X r))"
  by (subst row_wfE(2) [OF assms], simp add: clip_row_of_def)+

lemma payload_row_wf_of:
  assumes "crates_ok X" "hash_wf (p_digest q)"
  shows "payload_row_wf X (payload_row_of X i q)"
    and "row_payload X (payload_row_of X i q) = norm_payload q"
proof -
  have "payload_row_of X i q = payload_row_of X i (norm_payload q)"
    by (simp add: payload_row_of_def norm_payload_def inline_bytes_def)
  then have "into_payload X (payload_row_of X i q) = Inr (norm_payload q)"
    using into_payload_row_of [of X "norm_payload q" i] assms by (simp add: norm_payload_def)
  then show "payload_row_wf X (payload_row_of X i q)"
    and "row_payload X (payload_row_of X i q) = norm_payload q"
    using assms
    by (simp_all add: payload_row_wf_def row_payload_def payload_row_of_def norm_payload_def inline_bytes_def)
qed

lemma payload_row_wf_load: "payload_row_wf X p \<Longrightarrow> into_payload X p = Inr (row_payload X p)"
  by (auto simp: payload_row_wf_def row_payload_def split: sum.splits)

lemma store_okD:
  assumes "store_ok X st"
  shows "distinct (map rc_id (st_clip st))"
    and "\<And>r. r \<in> set (st_clip st) \<Longrightarrow> row_wf X r"
    and "distinct (map (\<lambda>p. (pr_clip_id p, rp_format_label p)) (st_payload st))"
    and "\<And>p. p \<in> set (st_payload st) \<Longrightarrow> payload_row_wf X p"
    and "\<And>p. p \<in> set (st_payload st) \<Longrightarrow> pr_clip_id p \<in> rc_id ` set (st_clip st)"
    and "distinct (map rc_hash (live_rows st))"
  using assms by (auto simp: store_ok_def list_all_iff)

lemma load_payloads_ok: "store_ok E st \<Longrightarrow> load_payloads E st i = Inr (stored_payloads E st i)"
  unfolding load_payloads_def stored_payloads_def map_err_Inr
  by (intro mapM_r_all payload_row_wf_load) (auto dest: store_okD)

lemma row_to_clip_ok:
  "store_ok E st \<Longrightarrow> r \<in> set (st_clip st) \<Longrightarrow> row_to_clip E st r = Inr (abs_clip E st r)"
  by (simp add: row_to_clip_def load_payloads_ok abs_clip_def row_wfE(3) [OF store_okD(2)])

lemma rows_to_clips_ok:
  "store_ok E st \<Longrightarrow> set rows \<subseteq> set (st_clip st) \<Longrightarrow> rows_to_clips E st rows = Inr (map (abs_clip E st) rows)"
  unfolding rows_to_clips_def by (intro mapM_r_all row_to_clip_ok) auto

lemma env_okD [dest]: "env_ok E \<Longrightarrow> crates_ok E" and set_scan: "env_ok E \<Longrightarrow> set (sqlite_scan E rows) = set rows"
  by (auto simp: env_ok_def dest: mset_eq_setD)

lemma abs_clip_sel [simp]:
  "c_id (abs_clip X st r) = c_id (row_clip X r)" "c_hash (abs_clip X st r) = c_hash (row_clip X r)"
  "c_kind (abs_clip X st r) = c_kind (row_clip X r)" "c_hlc (abs_clip X st r) = c_hlc (row_clip X r)"
  "c_pinned (abs_clip X st r) = c_pinned (row_clip X r)"
  "c_deleted (abs_clip X st r) = c_deleted (row_clip X r)"
  by (simp_all add: abs_clip_def)

section \<open>Lookups\<close>

lemma find_map_eq: "find P (map f xs) = map_option f (find (\<lambda>x. P (f x)) xs)"
  by (induction xs) auto

lemma find_filter: "find P xs = (case filter P xs of [] \<Rightarrow> None | x # _ \<Rightarrow> Some x)"
  by (induction xs) auto

lemma find_unique:
  assumes "x \<in> set xs" "P x" "\<And>y. y \<in> set xs \<Longrightarrow> P y \<Longrightarrow> y = x"
  shows "find P xs = Some x"
proof (cases "find P xs")
  case None
  with assms(1,2) show ?thesis by (auto simp: find_None_iff)
next
  case (Some y)
  then have "y \<in> set xs" "P y" by (auto simp: find_Some_iff)
  with assms(3) Some show ?thesis by simp
qed

lemma rows_unique:
  assumes "store_ok X st" "r \<in> set (st_clip st)" "s \<in> set (st_clip st)" "rc_id r = rc_id s"
  shows "r = s"
  using store_okD(1) [OF assms(1)] assms(2-) by (auto simp: distinct_map dest: inj_onD)

lemma live_unique:
  assumes "store_ok X st" "r \<in> set (st_clip st)" "s \<in> set (st_clip st)"
    "rc_hash r = rc_hash s" "rc_deleted r = 0" "rc_deleted s = 0"
  shows "r = s"
proof -
  have "inj_on rc_hash (set (live_rows st))" using store_okD(6) [OF assms(1)] by (simp add: distinct_map)
  moreover have "r \<in> set (live_rows st)" "s \<in> set (live_rows st)" using assms by (auto simp: live_rows_def)
  ultimately show ?thesis using assms(4) by (blast dest: inj_onD)
qed

lemma id_column:
  assumes "crates_ok X" "store_ok X st" "r \<in> set (st_clip st)"
  shows "rc_id r = clip_id_to_string X i \<longleftrightarrow> c_id (abs_clip X st r) = i"
  using row_wf_columns(1) [OF store_okD(2) [OF assms(2,3)]] by (simp add: clip_id_to_string_inj [OF assms(1)])

lemma hash_column:
  assumes "crates_ok X" "store_ok X st" "r \<in> set (st_clip st)"
  shows "rc_hash r = to_hex X h \<longleftrightarrow> c_hash (abs_clip X st r) = h"
  using row_wf_columns(2) [OF store_okD(2) [OF assms(2,3)]] by (simp add: to_hex_inj [OF assms(1)])

lemma deleted_column:
  assumes "store_ok X st" "r \<in> set (st_clip st)"
  shows "rc_deleted r = 0 \<longleftrightarrow> \<not> c_deleted (abs_clip X st r)"
  using row_wf_columns(8) [OF store_okD(2) [OF assms]] by simp

lemma load_clip_row:
  "store_ok E st \<Longrightarrow> r \<in> set (st_clip st) \<Longrightarrow> load_clip E st (rc_id r) = Inr (Some (abs_clip E st r))"
  using find_unique [of r "st_clip st" "\<lambda>s. rc_id s = rc_id r"]
  by (simp add: load_clip_def row_to_clip_ok rows_unique)

lemma store_get_history:
  assumes "env_ok E" "store_ok E st"
  shows "store_get E i st = Inr (find (\<lambda>c. c_id c = i) (history E st))"
proof -
  have "find (\<lambda>r. rc_id r = clip_id_to_string E i) (st_clip st) =
      find (\<lambda>r. c_id (abs_clip E st r) = i) (st_clip st)"
    using assms by (intro find_cong refl) (auto simp: id_column)
  then show ?thesis
    using assms(2)
    by (auto simp: store_get_def load_clip_def history_def find_map_eq row_to_clip_ok
        dest: find_SomeD split: option.split)
qed

lemma find_live_row:
  assumes "env_ok E" "store_ok E st"
  shows "find_live E st (to_hex E h) =
     find (\<lambda>r. rc_hash r = to_hex E h \<and> rc_deleted r = 0) (st_clip st)"
proof (cases "find_live E st (to_hex E h)")
  case None
  then have "find (\<lambda>r. rc_hash r = to_hex E h \<and> rc_deleted r = 0) (st_clip st) = None"
    using set_scan [OF assms(1)] unfolding find_live_def find_None_iff by simp
  with None show ?thesis by simp
next
  case (Some r)
  then have "r \<in> set (sqlite_scan E (st_clip st))" "rc_hash r = to_hex E h" "rc_deleted r = 0"
    unfolding find_live_def by (auto simp: find_Some_iff)
  moreover from this have "r \<in> set (st_clip st)" using set_scan [OF assms(1)] by simp
  ultimately have "find (\<lambda>r. rc_hash r = to_hex E h \<and> rc_deleted r = 0) (st_clip st) = Some r"
    by (intro find_unique) (auto intro: live_unique [OF assms(2)])
  with Some show ?thesis by simp
qed

lemma find_live_history:
  assumes "env_ok E" "store_ok E st"
  shows "map_option (abs_clip E st) (find_live E st (to_hex E h)) =
     find (\<lambda>c. c_hash c = h \<and> \<not> c_deleted c) (history E st)"
proof -
  have "find (\<lambda>r. rc_hash r = to_hex E h \<and> rc_deleted r = 0) (st_clip st) =
      find (\<lambda>r. c_hash (abs_clip E st r) = h \<and> \<not> c_deleted (abs_clip E st r)) (st_clip st)"
    using assms by (intro find_cong refl) (auto simp: hash_column deleted_column)
  then show ?thesis by (simp add: find_live_row [OF assms] history_def find_map_eq)
qed

lemma by_hash_history:
  assumes "env_ok E" "store_ok E st"
  shows "by_hash E h st = Inr (find (\<lambda>c. c_hash c = h \<and> \<not> c_deleted c) (history E st))"
proof (cases "find_live E st (to_hex E h)")
  case None
  then have "filter (\<lambda>r. rc_hash r = to_hex E h \<and> rc_deleted r = 0) (sqlite_scan E (st_clip st)) = []"
    by (auto simp: find_live_def find_None_iff filter_empty_conv)
  with None show ?thesis
    by (simp add: by_hash_def lookup_by_hash_def find_live_history [OF assms, symmetric])
next
  case (Some r)
  then obtain rs where f: "filter (\<lambda>r. rc_hash r = to_hex E h \<and> rc_deleted r = 0) (sqlite_scan E (st_clip st)) = r # rs"
    by (auto simp: find_live_def find_filter split: list.splits)
  have "r \<in> set (st_clip st)"
    using find_SomeD [OF Some [unfolded find_live_def]] set_scan [OF assms(1)] by simp
  with f Some show ?thesis
    by (simp add: by_hash_def lookup_by_hash_def load_clip_row assms(2) find_live_history [OF assms, symmetric])
qed

section \<open>Updates in place\<close>

lemma live_hashes_update:
  assumes "distinct (map h (filter Q xs))" "\<And>x. x \<in> set xs \<Longrightarrow> h (F x) = h x \<and> (Q (F x) \<longrightarrow> Q x)"
  shows "distinct (map h (filter Q (map F xs))) \<and>
    h ` set (filter Q (map F xs)) \<subseteq> h ` set (filter Q xs)"
  using assms by (induction xs) (auto 0 3)

text \<open>
  \<open>row_updates\<close>: what an \<open>UPDATE\<close> of the source does to a row it touches, and to the clip read
  from it.
\<close>

definition row_updates :: "'x crates_scheme \<Rightarrow> (clip_row \<Rightarrow> clip_row) \<Rightarrow> (clip \<Rightarrow> clip) \<Rightarrow> bool" where
  "row_updates X f g \<longleftrightarrow>
     (\<forall>r. row_wf X r \<longrightarrow>
        row_wf X (f r) \<and> row_clip X (f r) = g (row_clip X r) \<and> rc_id (f r) = rc_id r \<and>
        rc_hash (f r) = rc_hash r \<and> (rc_deleted (f r) = 0 \<longrightarrow> rc_deleted r = 0)) \<and>
     (\<forall>c ps. g (c\<lparr>c_payloads := ps\<rparr>) = (g c)\<lparr>c_payloads := ps\<rparr>)"

lemma row_updatesD:
  assumes "row_updates X f g" "row_wf X r"
  shows "row_wf X (f r)" "row_clip X (f r) = g (row_clip X r)" "rc_id (f r) = rc_id r"
    "rc_hash (f r) = rc_hash r" "rc_deleted (f r) = 0 \<Longrightarrow> rc_deleted r = 0"
    "g (c\<lparr>c_payloads := ps\<rparr>) = (g c)\<lparr>c_payloads := ps\<rparr>"
  using assms by (auto simp: row_updates_def)

lemma update_store_ok:
  assumes "store_ok X st" "row_updates X f g"
    "st_clip st' = update_where P f (st_clip st)" "st_payload st' = st_payload st"
  shows "store_ok X st'"
proof -
  let ?F = "\<lambda>r. if P r then f r else r"
  have wf: "row_wf X r" if "r \<in> set (st_clip st)" for r using store_okD(2) [OF assms(1) that] .
  have F: "rc_id (?F r) = rc_id r" "rc_hash (?F r) = rc_hash r \<and> (rc_deleted (?F r) = 0 \<longrightarrow> rc_deleted r = 0)"
      "row_wf X (?F r)" if "r \<in> set (st_clip st)" for r
    using row_updatesD(1,3,4,5) [OF assms(2) wf [OF that]] wf [OF that] by (cases "P r"; simp)+
  have ids: "map rc_id (st_clip st') = map rc_id (st_clip st)"
    using F(1) by (simp add: assms(3) update_where_def)
  have "distinct (map rc_hash (live_rows st'))"
  proof -
    define F where "F = ?F"
    have "rc_hash (F r) = rc_hash r \<and> (rc_deleted (F r) = 0 \<longrightarrow> rc_deleted r = 0)" if "r \<in> set (st_clip st)" for r
      unfolding F_def by (rule F(2) [OF that])
    then have "distinct (map rc_hash (filter (\<lambda>r. rc_deleted r = 0) (map F (st_clip st))))"
      using store_okD(6) [OF assms(1)] unfolding live_rows_def by (intro live_hashes_update [THEN conjunct1])
    then show ?thesis by (simp add: live_rows_def assms(3) update_where_def F_def)
  qed
  moreover have "list_all (row_wf X) (st_clip st')"
    unfolding assms(3) update_where_def list_all_iff using F(3) by fastforce
  ultimately show ?thesis
    using assms(1) unfolding store_ok_def ids assms(4) by blast
qed

lemma update_history:
  assumes "store_ok X st" "row_updates X f g"
    "st_clip st' = update_where P f (st_clip st)" "st_payload st' = st_payload st"
    "\<And>r. r \<in> set (st_clip st) \<Longrightarrow> P r \<longleftrightarrow> Q (abs_clip X st r)"
  shows "history X st' = map (\<lambda>c. if Q c then g c else c) (history X st)"
proof -
  have pay: "stored_payloads X st' = stored_payloads X st" by (simp add: stored_payloads_def assms(4) fun_eq_iff)
  have "abs_clip X st' (if P r then f r else r) = (if Q (abs_clip X st r) then g (abs_clip X st r) else abs_clip X st r)"
    if "r \<in> set (st_clip st)" for r
    using row_updatesD [OF assms(2) store_okD(2) [OF assms(1) that]] assms(5) [OF that]
    by (auto simp: abs_clip_def pay)
  then show ?thesis by (simp add: history_def assms(3) update_where_def)
qed

definition refresh_clip :: "clip \<Rightarrow> clip \<Rightarrow> clip" where
  "refresh_clip c d =
     d\<lparr>c_hlc := c_hlc c, c_created_at_ms := c_created_at_ms c, c_source := c_source c\<rparr>"

lemma row_updatesI:
  assumes "crates_ok X"
    "\<And>d t. hash_wf (c_hash d) \<Longrightarrow> \<exists>t'. f ((clip_row_of X d)\<lparr>rc_deleted_at_ms := t\<rparr>) = (clip_row_of X (g d))\<lparr>rc_deleted_at_ms := t'\<rparr>"
    "\<And>d. c_id (g d) = c_id d \<and> c_hash (g d) = c_hash d \<and> (c_deleted d \<longrightarrow> c_deleted (g d)) \<and> c_payloads (g d) = c_payloads d"
    "\<And>c ps. g (c\<lparr>c_payloads := ps\<rparr>) = (g c)\<lparr>c_payloads := ps\<rparr>"
  shows "row_updates X f g"
  unfolding row_updates_def
proof (intro conjI allI impI)
  fix r assume wf: "row_wf X r"
  let ?d = "row_clip X r"
  have e: "c_payloads ?d = []"
    using wf by (auto simp: row_wf_def row_clip_def into_clip_def bind_r_Inr split: sum.splits)
  obtain t' where f: "f r = (clip_row_of X (g ?d))\<lparr>rc_deleted_at_ms := t'\<rparr>"
    using assms(2) [OF row_wfE(1) [OF wf]] row_wfE(2) [OF wf] by metis
  have h: "hash_wf (c_hash (g ?d))" using row_wfE(1) [OF wf] assms(3) by simp
  show "row_wf X (f r)" unfolding f by (rule row_wf_clip_row_of [OF assms(1) h])
  show "row_clip X (f r) = g ?d" unfolding f row_wf_clip_row_of(2) [OF assms(1) h] using e assms(3) by simp
  show "rc_id (f r) = rc_id r" "rc_hash (f r) = rc_hash r"
    using row_wf_columns [OF wf] assms(3) by (simp_all add: f clip_row_of_def)
  assume "rc_deleted (f r) = 0"
  then show "rc_deleted r = 0" using row_wf_columns [OF wf] assms(3) [of ?d] by (auto simp: f clip_row_of_def)
qed (rule assms(4))

lemma refresh_updates: "crates_ok E \<Longrightarrow> row_updates E (refresh_row E c) (refresh_clip c)"
  by (rule row_updatesI) (auto simp: refresh_row_def refresh_clip_def clip_row_of_def)

lemma pin_updates:
  "crates_ok E \<Longrightarrow> row_updates E (\<lambda>r. (stamp_row E t r)\<lparr>rc_pinned := bool_i64 b\<rparr>)
     (\<lambda>c. c\<lparr>c_pinned := b, c_hlc := t\<rparr>)"
  by (rule row_updatesI) (auto simp: stamp_row_def clip_row_of_def)

lemma delete_updates:
  "crates_ok E \<Longrightarrow> row_updates E (\<lambda>r. (stamp_row E t r)\<lparr>rc_deleted := 1, rc_deleted_at_ms := Some now\<rparr>)
     (\<lambda>c. c\<lparr>c_deleted := True, c_hlc := t\<rparr>)"
  by (rule row_updatesI) (auto simp: stamp_row_def clip_row_of_def bool_i64_def)

section \<open>Inserting\<close>

lemma insort_key_map: "insort_key f (g x) (map g xs) = map g (insort_key (\<lambda>y. f (g y)) x xs)"
  by (induction xs) auto

lemma sort_key_map: "sort_key f (map g xs) = map g (sort_key (\<lambda>y. f (g y)) xs)"
  by (induction xs) (simp_all add: insort_key_map)

lemma used_ids:
  assumes "crates_ok X" "store_ok X st"
  shows "clip_id_to_string X i \<in> set (map rc_id (st_clip st)) \<longleftrightarrow> i \<in> c_id ` set (history X st)"
proof -
  have "clip_id_to_string X i = rc_id r \<longleftrightarrow> i = c_id (abs_clip X st r)" if "r \<in> set (st_clip st)" for r
    using id_column [OF assms that, of i] by (auto simp: eq_commute)
  then show ?thesis by (auto simp: history_def simp del: abs_clip_sel)
qed

lemma fresh_payload_keys:
  assumes "store_ok X st" "i \<notin> set (map rc_id (st_clip st))"
  shows "distinct (map (\<lambda>p. (pr_clip_id p, rp_format_label p)) (st_payload st @ map (payload_row_of X i) ps)) \<longleftrightarrow>
    distinct (map (\<lambda>p. label (p_format p)) ps)"
proof -
  have "pr_clip_id p \<noteq> i" if "p \<in> set (st_payload st)" for p
    using store_okD(5) [OF assms(1) that] assms(2) by auto
  then have "set (map (\<lambda>p. (pr_clip_id p, rp_format_label p)) (st_payload st)) \<inter>
      set (map (\<lambda>p. (i, label (p_format p))) ps) = {}" by auto
  moreover have "distinct (map (\<lambda>p. (i, label (p_format p))) ps) \<longleftrightarrow> distinct (map (\<lambda>p. label (p_format p)) ps)"
    by (auto simp: distinct_map inj_on_def)
  ultimately show ?thesis
    using store_okD(3) [OF assms(1)] by (simp add: payload_row_of_def comp_def)
qed

text \<open>\<open>appended\<close>: the tables after the three \<open>INSERT\<close> statements for a clip with a new id.\<close>

definition appended :: "'x crates_scheme \<Rightarrow> clip \<Rightarrow> store \<Rightarrow> store \<Rightarrow> bool" where
  "appended X c st st' \<longleftrightarrow>
     crates_ok X \<and> store_ok X st \<and> clip_wf c \<and> c_id c \<notin> c_id ` set (history X st) \<and>
     distinct (map (\<lambda>p. label (p_format p)) (c_payloads c)) \<and>
     st_clip st' = st_clip st @ [clip_row_of X c] \<and>
     st_payload st' = st_payload st @ map (payload_row_of X (clip_id_to_string X (c_id c))) (c_payloads c)"

lemma appendedD:
  assumes "appended X c st st'"
  shows "crates_ok X" "store_ok X st" "clip_wf c" "c_id c \<notin> c_id ` set (history X st)"
    "distinct (map (\<lambda>p. label (p_format p)) (c_payloads c))"
    "st_clip st' = st_clip st @ [clip_row_of X c]"
    "st_payload st' = st_payload st @ map (payload_row_of X (clip_id_to_string X (c_id c))) (c_payloads c)"
  using assms by (auto simp: appended_def)

lemma ins_unused:
  assumes A: "appended X c st st'"
  shows "clip_id_to_string X (c_id c) \<notin> set (map rc_id (st_clip st))"
  using appendedD(4) [OF A] used_ids [OF appendedD(1,2) [OF A]] by blast

lemma ins_row:
  assumes A: "appended X c st st'"
  shows "row_wf X (clip_row_of X c)" "row_clip X (clip_row_of X c) = c\<lparr>c_payloads := []\<rparr>"
  using row_wf_clip_row_of [OF appendedD(1) [OF A], of c None] appendedD(3) [OF A] by (simp_all add: clip_wf_def clip_row_of_def)

lemma ins_payload_rows:
  assumes A: "appended X c st st'" and "p \<in> set (c_payloads c)"
  shows "payload_row_wf X (payload_row_of X i p) \<and> row_payload X (payload_row_of X i p) = norm_payload p"
  using payload_row_wf_of [OF appendedD(1) [OF A]] appendedD(3) [OF A] assms(2) by (simp add: clip_wf_def list_all_iff)

lemma ins_old_payloads:
  assumes A: "appended X c st st'" and "i \<noteq> clip_id_to_string X (c_id c)"
  shows "stored_payloads X st' i = stored_payloads X st i"
  using assms(2) by (simp add: stored_payloads_def appendedD(6,7) [OF A] filter_empty_conv payload_row_of_def)

lemma ins_new_payloads:
  assumes A: "appended X c st st'"
  shows "stored_payloads X st' (clip_id_to_string X (c_id c)) = map norm_payload (sort_payloads (c_payloads c))"
proof -
  let ?i = "clip_id_to_string X (c_id c)"
  have "pr_clip_id p \<noteq> ?i" if "p \<in> set (st_payload st)" for p
    using store_okD(5) [OF appendedD(2) [OF A] that] ins_unused [OF A] by auto
  then have "filter (\<lambda>p. pr_clip_id p = ?i) (st_payload st') = map (payload_row_of X ?i) (c_payloads c)"
    by (auto simp: appendedD(6,7) [OF A] filter_empty_conv payload_row_of_def filter_map comp_def)
  moreover have "rp_format_label (payload_row_of X ?i p) = label (p_format p)" for p
    by (simp add: payload_row_of_def)
  ultimately show ?thesis
    by (simp add: stored_payloads_def sort_key_map sort_payloads_def ins_payload_rows [OF A])
qed

lemma ins_history:
  assumes A: "appended X c st st'"
  shows "history X st' = history X st @ [norm_clip c]"
proof -
  have "rc_id r \<noteq> clip_id_to_string X (c_id c)" if "r \<in> set (st_clip st)" for r
    using that ins_unused [OF A] by (metis imageI list.set_map)
  then have "map (abs_clip X st') (st_clip st) = history X st"
    by (simp add: history_def abs_clip_def ins_old_payloads [OF A])
  moreover have "rc_id (clip_row_of X c) = clip_id_to_string X (c_id c)" by (simp add: clip_row_of_def)
  ultimately show ?thesis
    by (simp add: history_def appendedD(6,7) [OF A] abs_clip_def ins_row [OF A] ins_new_payloads [OF A] norm_clip_def)
qed

lemma ins_store_ok:
  assumes A: "appended X c st st'"
    and new: "\<not> c_deleted c \<Longrightarrow> \<forall>d \<in> set (history X st). c_hash d = c_hash c \<longrightarrow> c_deleted d"
  shows "store_ok X st'"
proof -
  have row: "rc_id (clip_row_of X c) = clip_id_to_string X (c_id c)" "rc_hash (clip_row_of X c) = to_hex X (c_hash c)"
    "rc_deleted (clip_row_of X c) = bool_i64 (c_deleted c)" by (simp_all add: clip_row_of_def)
  have "rc_hash r \<noteq> to_hex X (c_hash c)"
    if "\<not> c_deleted c" "r \<in> set (st_clip st)" "rc_deleted r = 0" for r
    using new that hash_column [OF appendedD(1,2) [OF A] that(2)] deleted_column [OF appendedD(2) [OF A] that(2)]
    by (auto simp: history_def simp del: abs_clip_sel)
  then have "\<not> c_deleted c \<Longrightarrow> to_hex X (c_hash c) \<notin> set (map rc_hash (live_rows st))"
    by (force simp: live_rows_def)
  then have "distinct (map rc_hash (live_rows st'))"
    using store_okD(6) [OF appendedD(2) [OF A]] by (auto simp: live_rows_def appendedD(6,7) [OF A] row)
  moreover have "distinct (map rc_id (st_clip st'))"
    using store_okD(1) [OF appendedD(2) [OF A]] ins_unused [OF A] by (simp add: appendedD(6,7) [OF A] row)
  moreover have "list_all (row_wf X) (st_clip st')"
    using appendedD(2) [OF A] ins_row(1) [OF A] by (simp add: appendedD(6,7) [OF A] store_ok_def)
  moreover have "distinct (map (\<lambda>p. (pr_clip_id p, rp_format_label p)) (st_payload st'))"
    using fresh_payload_keys [OF appendedD(2) [OF A] ins_unused [OF A]] appendedD(5) [OF A] by (simp add: appendedD(6,7) [OF A])
  moreover have "list_all (payload_row_wf X) (st_payload st')"
    using appendedD(2) [OF A] ins_payload_rows [OF A] by (auto simp: appendedD(6,7) [OF A] store_ok_def list_all_iff)
  moreover have "list_all (\<lambda>p. pr_clip_id p \<in> set (map rc_id (st_clip st'))) (st_payload st')"
    using appendedD(2) [OF A] by (auto simp: appendedD(6,7) [OF A] store_ok_def list_all_iff payload_row_of_def row)
  ultimately show ?thesis by (simp add: store_ok_def)
qed

lemma insert_fresh:
  assumes "env_ok E" "store_ok E st" "clip_wf c" "hash_matches E c"
    "find (\<lambda>d. c_hash d = c_hash c \<and> \<not> c_deleted d) (history E st) = None"
  shows "if c_id c \<in> c_id ` set (history E st) \<or> \<not> distinct (map (\<lambda>p. label (p_format p)) (c_payloads c))
    then store_insert E c st = (Inl SqliteConstraint, st)
    else \<exists>st'. store_insert E c st = (Inr (Inserted (c_id c)), st') \<and> appended E c st st' \<and> store_ok E st'"
proof -
  note E = env_okD [OF assms(1)]
  let ?i = "clip_id_to_string E (c_id c)" and ?ps = "c_payloads c"
  have none: "find_live E st (to_hex E (c_hash c)) = None"
    using find_live_history [OF assms(1,2), of "c_hash c"] assms(5) by simp
  have bad: "?i \<in> set (map rc_id (st_clip st)) \<or>
      \<not> distinct (map (\<lambda>p. (pr_clip_id p, rp_format_label p)) (st_payload st @ map (payload_row_of E ?i) ?ps))
      \<longleftrightarrow> c_id c \<in> c_id ` set (history E st) \<or> \<not> distinct (map (\<lambda>p. label (p_format p)) ?ps)"
    using used_ids [OF E assms(2)] fresh_payload_keys [OF assms(2)] by blast
  define st' where "st' = st\<lparr>st_clip := st_clip st @ [clip_row_of E c],
    st_payload := st_payload st @ map (payload_row_of E ?i) ?ps, st_fts := st_fts st @ [(?i, body_text c)]\<rparr>"
  have "store_insert E c st = (if c_id c \<in> c_id ` set (history E st) \<or> \<not> distinct (map (\<lambda>p. label (p_format p)) ?ps)
      then (Inl SqliteConstraint, st) else (Inr (Inserted (c_id c)), st'))"
    unfolding store_insert_def none Let_def option.case(1) bad st'_def using assms(4) by simp
  moreover have "appended E c st st' \<and> store_ok E st'"
    if new: "\<not> (c_id c \<in> c_id ` set (history E st) \<or> \<not> distinct (map (\<lambda>p. label (p_format p)) ?ps))"
  proof -
    have A: "appended E c st st'" using new assms(2,3) E by (simp add: appended_def st'_def)
    moreover have "\<forall>d \<in> set (history E st). c_hash d = c_hash c \<longrightarrow> c_deleted d"
      using assms(5) by (auto simp: find_None_iff)
    ultimately show ?thesis using ins_store_ok by blast
  qed
  ultimately show ?thesis by auto
qed

lemma insert_dedup:
  assumes "env_ok E" "store_ok E st" "hash_matches E c"
    "find (\<lambda>d. c_hash d = c_hash c \<and> \<not> c_deleted d) (history E st) = Some d"
  shows "\<exists>st'. store_insert E c st = (Inr (Deduplicated (c_id d)), st') \<and> store_ok E st' \<and>
    history E st' = map (\<lambda>e. if c_id e = c_id d then refresh_clip c e else e) (history E st)"
proof -
  note E = env_okD [OF assms(1)]
  obtain r where r: "find_live E st (to_hex E (c_hash c)) = Some r" "abs_clip E st r = d"
    using find_live_history [OF assms(1,2), of "c_hash c", unfolded assms(4)] unfolding map_option_eq_Some by blast
  have mem: "r \<in> set (st_clip st)"
    using find_SomeD [OF r(1) [unfolded find_live_row [OF assms(1,2)]]] by blast
  then have rid: "rc_id r = clip_id_to_string E (c_id d)" using id_column [OF E assms(2)] r(2) by blast
  let ?P = "\<lambda>s. rc_id s = rc_id r"
  let ?st = "st\<lparr>st_clip := update_where ?P (refresh_row E c) (st_clip st)\<rparr>"
  have upd: "st_clip ?st = update_where ?P (refresh_row E c) (st_clip st)" "st_payload ?st = st_payload st" by simp_all
  have "?P s \<longleftrightarrow> c_id (abs_clip E st s) = c_id d" if "s \<in> set (st_clip st)" for s
    using id_column [OF E assms(2) that] rid by simp
  from update_history [OF assms(2) refresh_updates [OF E] upd, where Q = "\<lambda>e. c_id e = c_id d", OF this]
    update_store_ok [OF assms(2) refresh_updates [OF E] upd]
  show ?thesis by (auto simp: store_insert_def assms(3) r(1) rid clip_id_roundtrip [OF E])
qed

lemma insert_history:
  assumes "env_ok E" "store_ok E st" "clip_wf c" "store_insert E c st = (res, st')"
  shows "store_ok E st' \<and>
    (if \<not> hash_matches E c then res = Inr Rejected \<and> st' = st
     else case find (\<lambda>d. c_hash d = c_hash c \<and> \<not> c_deleted d) (history E st) of
       Some d \<Rightarrow> res = Inr (Deduplicated (c_id d)) \<and>
         history E st' = map (\<lambda>e. if c_id e = c_id d then refresh_clip c e else e) (history E st)
     | None \<Rightarrow>
         if c_id c \<in> c_id ` set (history E st) \<or> \<not> distinct (map (\<lambda>p. label (p_format p)) (c_payloads c))
         then res = Inl SqliteConstraint \<and> st' = st
         else res = Inr (Inserted (c_id c)) \<and> history E st' = history E st @ [norm_clip c])"
proof (cases "hash_matches E c")
  case False
  with assms show ?thesis by (simp add: store_insert_def)
next
  case True
  show ?thesis
  proof (cases "find (\<lambda>d. c_hash d = c_hash c \<and> \<not> c_deleted d) (history E st)")
    case None
    from insert_fresh [OF assms(1-3) True None] True None assms(2,4) show ?thesis
      by (auto simp: ins_history split: if_splits)
  next
    case (Some d)
    from insert_dedup [OF assms(1,2) True Some] True Some assms(4) show ?thesis by auto
  qed
qed

section \<open>Pinning and deleting\<close>

lemma history_has_id:
  assumes "env_ok E" "store_ok E st"
  shows "filter (\<lambda>r. rc_id r = clip_id_to_string E i) (st_clip st) = [] \<longleftrightarrow> i \<notin> c_id ` set (history E st)"
  using used_ids [OF env_okD [OF assms(1)] assms(2), of i] by (force simp: filter_empty_conv image_iff)

lemma set_pinned_history:
  assumes "env_ok E" "store_ok E st" "set_pinned E i b t st = (res, st')"
  shows "store_ok E st' \<and>
    (if i \<in> c_id ` set (history E st)
     then res = Inr () \<and>
       history E st' = map (\<lambda>c. if c_id c = i then c\<lparr>c_pinned := b, c_hlc := t\<rparr> else c) (history E st)
     else res = Inl (NotFound i) \<and> st' = st)"
proof (cases "i \<in> c_id ` set (history E st)")
  case False
  with assms show ?thesis by (auto simp: set_pinned_def Let_def history_has_id [OF assms(1,2)])
next
  case True
  note E = env_okD [OF assms(1)]
  let ?P = "\<lambda>r. rc_id r = clip_id_to_string E i"
  from True assms(3) have r: "res = Inr ()"
    and upd: "st_clip st' = update_where ?P (\<lambda>r. (stamp_row E t r)\<lparr>rc_pinned := bool_i64 b\<rparr>) (st_clip st)"
      "st_payload st' = st_payload st"
    by (auto simp: set_pinned_def Let_def history_has_id [OF assms(1,2)])
  from update_history [OF assms(2) pin_updates [OF E] upd, where Q = "\<lambda>c. c_id c = i", OF id_column [OF E assms(2)]]
    update_store_ok [OF assms(2) pin_updates [OF E] upd] r True
  show ?thesis by simp
qed

lemma delete_history:
  assumes "env_ok E" "store_ok E st" "store_delete E now i t st = (res, st')"
  shows "store_ok E st' \<and>
    history E st' =
      map (\<lambda>c. if c_id c = i \<and> \<not> c_deleted c then c\<lparr>c_deleted := True, c_hlc := t\<rparr> else c) (history E st) \<and>
    (if i \<in> c_id ` set (history E st) then res = Inr () else res = Inl (NotFound i) \<and> st' = st) \<and>
    ((\<exists>c \<in> set (history E st). c_id c = i \<and> \<not> c_deleted c) \<longrightarrow>
      clip_id_to_string E i \<notin> fst ` set (st_fts st'))"
proof -
  note E = env_okD [OF assms(1)]
  let ?P = "\<lambda>r. rc_id r = clip_id_to_string E i \<and> rc_deleted r = 0"
  let ?Q = "\<lambda>c. c_id c = i \<and> \<not> c_deleted c"
  have PQ: "?P r \<longleftrightarrow> ?Q (abs_clip E st r)" if "r \<in> set (st_clip st)" for r
    using id_column [OF E assms(2) that] deleted_column [OF assms(2) that] by simp
  have none: "filter ?P (st_clip st) = [] \<longleftrightarrow> \<not> (\<exists>c \<in> set (history E st). ?Q c)"
    using PQ by (auto simp: filter_empty_conv history_def simp del: abs_clip_sel)
  show ?thesis
  proof (cases "\<exists>c \<in> set (history E st). ?Q c")
    case True
    with none assms(3) have r: "res = Inr ()" "clip_id_to_string E i \<notin> fst ` set (st_fts st')"
      and upd: "st_clip st' = update_where ?P
        (\<lambda>r. (stamp_row E t r)\<lparr>rc_deleted := 1, rc_deleted_at_ms := Some now\<rparr>) (st_clip st)"
        "st_payload st' = st_payload st"
      by (auto simp: store_delete_def Let_def)
    from update_history [OF assms(2) delete_updates [OF E] upd, where Q = ?Q, OF PQ]
      update_store_ok [OF assms(2) delete_updates [OF E] upd] r True
    show ?thesis by auto
  next
    case False
    then have "map (\<lambda>c. if ?Q c then c\<lparr>c_deleted := True, c_hlc := t\<rparr> else c) (history E st) = history E st"
      by (intro map_idI) auto
    with False none assms show ?thesis
      by (auto simp: store_delete_def Let_def history_has_id [OF assms(1,2)] split: if_splits)
  qed
qed

section \<open>Consequences of the invariant\<close>

lemma insert_keeps_ok:
  assumes "env_ok E" "store_ok E st" "clip_wf c"
  shows "store_ok E (snd (store_insert E c st))"
  using insert_history [OF assms, of "fst (store_insert E c st)" "snd (store_insert E c st)"] by simp

lemma distinct_ids:
  assumes "env_ok E" "store_ok E st"
  shows "distinct (map c_id (history E st))"
proof -
  have "rc_id r = clip_id_to_string E (c_id (abs_clip E st r))" if "r \<in> set (st_clip st)" for r
    using id_column [OF env_okD [OF assms(1)] assms(2) that] by blast
  then have "map rc_id (st_clip st) = map (clip_id_to_string E) (map c_id (history E st))"
    by (simp add: history_def comp_def)
  with store_okD(1) [OF assms(2)] show ?thesis by (metis distinct_map)
qed

lemma distinct_live_hashes:
  assumes "env_ok E" "store_ok E st"
  shows "distinct (map c_hash (filter (\<lambda>c. \<not> c_deleted c) (history E st)))"
proof -
  have "rc_hash r = to_hex E (c_hash (abs_clip E st r))" if "r \<in> set (st_clip st)" for r
    using hash_column [OF env_okD [OF assms(1)] assms(2) that] by blast
  moreover have "live_rows st = filter (\<lambda>r. \<not> c_deleted (abs_clip E st r)) (st_clip st)"
    unfolding live_rows_def using deleted_column [OF assms(2)] by (intro filter_cong refl)
  ultimately have "map rc_hash (live_rows st) = map (to_hex E) (map c_hash (filter (\<lambda>c. \<not> c_deleted c) (history E st)))"
    by (simp add: history_def filter_map comp_def)
  with store_okD(6) [OF assms(2)] show ?thesis by (metis distinct_map)
qed

lemma set_sql_limit: "set (sql_limit n xs) \<subseteq> set xs"
  by (auto simp: sql_limit_def dest: in_set_takeD)

lemma set_page: "set (page q xs) \<subseteq> set xs"
  using set_sql_limit by (fastforce simp: page_def sql_offset_def dest: in_set_dropD)

lemma reads_never_fail:
  assumes "env_ok E" "store_ok E st"
  shows "\<exists>cs. recent E q st = Inr cs" "\<exists>cs. search E s q st = Inr cs" "\<exists>cs. changes_since E cursor limit st = Inr cs"
proof -
  have sub: "set (page q (filter P (sqlite_scan E (st_clip st)))) \<subseteq> set (st_clip st)" for P
    using set_page [of q] set_scan [OF assms(1)] by fastforce
  then show "\<exists>cs. recent E q st = Inr cs" "\<exists>cs. search E s q st = Inr cs"
    by (auto simp: recent_def search_def Let_def rows_to_clips_ok [OF assms(2)] split: option.splits)
  have "set (sql_limit limit (sort_key hlc_key (case cursor of None \<Rightarrow> sqlite_scan E (st_clip st)
      | Some t \<Rightarrow> filter (after_cursor E t) (sqlite_scan E (st_clip st))))) \<subseteq> set (st_clip st)"
    using set_sql_limit set_scan [OF assms(1)] by (fastforce split: option.splits)
  then show "\<exists>cs. changes_since E cursor limit st = Inr cs"
    unfolding changes_since_def by (simp add: rows_to_clips_ok [OF assms(2)])
qed

text \<open>What is read from the tables is in normal form: storing it again would not change it.\<close>

lemma row_payload_canonical:
  assumes "payload_row_wf X p"
  shows "norm_payload (row_payload X p) = row_payload X p" "label (p_format (row_payload X p)) = rp_format_label p"
    "hash_wf (p_digest (row_payload X p))"
  using assms
  by (auto simp: payload_row_wf_def row_payload_def into_payload_def norm_payload_def bind_r_Inr split: sum.splits)

lemma stored_labels:
  assumes "store_ok X st"
  shows "map (\<lambda>p. label (p_format p)) (stored_payloads X st i) =
    map rp_format_label (sort_key rp_format_label (filter (\<lambda>p. pr_clip_id p = i) (st_payload st)))"
  using store_okD(4) [OF assms] by (auto simp: stored_payloads_def row_payload_canonical)

lemma history_clip_normal:
  assumes "store_ok X st" "c \<in> set (history X st)"
  shows "norm_clip c = c" "clip_wf c" "distinct (map (\<lambda>p. label (p_format p)) (c_payloads c))"
proof -
  obtain r where r: "r \<in> set (st_clip st)" "c = abs_clip X st r" using assms(2) by (auto simp: history_def)
  let ?ps = "stored_payloads X st (rc_id r)"
  let ?rows = "filter (\<lambda>p. pr_clip_id p = rc_id r) (st_payload st)"
  have ps: "c_payloads c = ?ps" using r by (simp add: abs_clip_def)
  have "sorted (map (\<lambda>p. label (p_format p)) ?ps)" unfolding stored_labels [OF assms(1)] by simp
  then have "sort_payloads ?ps = ?ps" unfolding sort_payloads_def by (rule sort_key_id_if_sorted)
  moreover have "map norm_payload ?ps = ?ps"
    using store_okD(4) [OF assms(1)] by (auto simp: stored_payloads_def row_payload_canonical)
  ultimately show "norm_clip c = c" by (simp add: norm_clip_def ps)
  show "clip_wf c"
    unfolding clip_wf_def ps
  proof
    show "hash_wf (c_hash c)" using row_wfE(1) [OF store_okD(2) [OF assms(1) r(1)]] r(2) by simp
    show "list_all (\<lambda>p. hash_wf (p_digest p)) ?ps"
      using store_okD(4) [OF assms(1)] by (auto simp: list_all_iff stored_payloads_def row_payload_canonical)
  qed
  have "distinct (map (\<lambda>p. (pr_clip_id p, rp_format_label p)) ?rows)"
    using store_okD(3) [OF assms(1)] by (rule distinct_map_filter)
  then have "distinct (map rp_format_label ?rows)" by (auto simp: distinct_map inj_on_def)
  then show "distinct (map (\<lambda>p. label (p_format p)) (c_payloads c))"
    unfolding ps stored_labels [OF assms(1)] by (simp add: distinct_map)
qed

section \<open>A store to try things on\<close>

definition sample_store :: store where
  "sample_store = snd (store_insert sample_env (sample_clip 5 False False) (fresh_store 100))"

lemma fresh_store_ok: "store_ok X (fresh_store q)" "history X (fresh_store q) = []"
  by (simp_all add: store_ok_def fresh_store_def live_rows_def history_def)

lemma hash_matches_sample_env: "hash_matches sample_env (sample_clip w p d)"
  using hash_matches_sample [of w p d] by (simp add: hash_matches_def compute_hash_def of_parts_def)

lemma clip_wf_sample: "clip_wf (sample_clip w p d)"
  by (simp add: clip_wf_def sample_clip_def clip_new_def Let_def compute_hash_def of_parts_wf sample_crates_ok
      sort_payloads_def payload_new_def)

lemma sample_store_history:
  "store_ok sample_env sample_store" "history sample_env sample_store = [norm_clip (sample_clip 5 False False)]"
proof -
  have "distinct (map (\<lambda>p. label (p_format p)) (c_payloads (sample_clip 5 False False)))"
    by (simp add: sample_clip_def clip_new_def sort_payloads_def Let_def)
  moreover have "store_insert sample_env (sample_clip 5 False False) (fresh_store 100) =
      (fst (store_insert sample_env (sample_clip 5 False False) (fresh_store 100)), sample_store)"
    by (simp add: sample_store_def)
  from insert_history [OF sample_env_ok fresh_store_ok(1) clip_wf_sample this] calculation
  show "store_ok sample_env sample_store" "history sample_env sample_store = [norm_clip (sample_clip 5 False False)]"
    by (simp_all add: fresh_store_ok(2) hash_matches_sample_env)
qed

section \<open>The operations on the history\<close>

text \<open>
  C15. \<open>insert\<close> implements dedup by content on the abstract history. A clip whose hash does not
  verify changes nothing. If a live clip has the same hash, that clip keeps its id, payloads, kind,
  preview and pin and takes over the timestamp, date and source of the new one; no row is added.
  Otherwise the clip is appended (payloads in label order), unless its id is already used or two of
  its payloads share a label, which is an error that changes nothing. The invariant is kept.
\<close>

theorem store_insert_refines:
  assumes "env_ok E" "store_ok E st" "clip_wf c" "store_insert E c st = (res, st')"
  shows "store_ok E st' \<and>
    (if \<not> hash_matches E c then res = Inr Rejected \<and> st' = st
     else case find (\<lambda>d. c_hash d = c_hash c \<and> \<not> c_deleted d) (history E st) of
       Some d \<Rightarrow> res = Inr (Deduplicated (c_id d)) \<and>
         history E st' = map (\<lambda>e. if c_id e = c_id d then refresh_clip c e else e) (history E st)
     | None \<Rightarrow>
         if c_id c \<in> c_id ` set (history E st) \<or> \<not> distinct (map (\<lambda>p. label (p_format p)) (c_payloads c))
         then res = Inl SqliteConstraint \<and> st' = st
         else res = Inr (Inserted (c_id c)) \<and> history E st' = history E st @ [norm_clip c])"
  by (rule insert_history [OF assms])

theorem store_insert_refines_witness:
  "\<exists>st'. store_insert sample_env (sample_clip 7 True False) sample_store = (Inr (Deduplicated (ClipId 1)), st') \<and>
     store_ok sample_env st' \<and>
     history sample_env st' = [refresh_clip (sample_clip 7 True False) (norm_clip (sample_clip 5 False False))]"
proof -
  obtain res st' where r: "store_insert sample_env (sample_clip 7 True False) sample_store = (res, st')" by fastforce
  have "c_hash (norm_clip (sample_clip 5 False False)) = c_hash (sample_clip 7 True False)"
    "\<not> c_deleted (norm_clip (sample_clip 5 False False))" "c_id (norm_clip (sample_clip 5 False False)) = ClipId 1"
    by (simp_all add: norm_clip_def sample_clip_def clip_new_def Let_def)
  with store_insert_refines [OF sample_env_ok sample_store_history(1) clip_wf_sample r] r show ?thesis
    by (simp add: sample_store_history(2) hash_matches_sample_env)
qed

text \<open>
  Pinning a known clip changes its pin and its timestamp and nothing else; an unknown id is
  reported and changes nothing. The invariant is kept.
\<close>

theorem set_pinned_refines:
  assumes "env_ok E" "store_ok E st" "set_pinned E i b t st = (res, st')"
  shows "store_ok E st' \<and>
    (if i \<in> c_id ` set (history E st)
     then res = Inr () \<and>
       history E st' = map (\<lambda>c. if c_id c = i then c\<lparr>c_pinned := b, c_hlc := t\<rparr> else c) (history E st)
     else res = Inl (NotFound i) \<and> st' = st)"
  by (rule set_pinned_history [OF assms])

theorem set_pinned_refines_witness:
  "fst (set_pinned sample_env (ClipId 9) True (Hlc 8 0 (DeviceId 2)) sample_store) = Inl (NotFound (ClipId 9)) \<and>
   fst (set_pinned sample_env (ClipId 1) True (Hlc 8 0 (DeviceId 2)) sample_store) = Inr ()"
proof -
  have "c_id (norm_clip (sample_clip 5 False False)) = ClipId 1"
    by (simp add: norm_clip_def sample_clip_def clip_new_def Let_def)
  with set_pinned_refines [OF sample_env_ok sample_store_history(1) prod.collapse [symmetric],
      of "ClipId 9" True "Hlc 8 0 (DeviceId 2)"]
    set_pinned_refines [OF sample_env_ok sample_store_history(1) prod.collapse [symmetric],
      of "ClipId 1" True "Hlc 8 0 (DeviceId 2)"]
  show ?thesis by (simp add: sample_store_history(2))
qed

text \<open>
  C26. Deleting a live clip leaves a tombstone: the row stays, with its deletion flag set and the
  timestamp of the deletion, and it is gone from the search index. Deleting a tombstone changes
  nothing, and an id the store does not know (also one that was purged) is an error.
\<close>

theorem store_delete_refines:
  assumes "env_ok E" "store_ok E st" "store_delete E now i t st = (res, st')"
  shows "store_ok E st' \<and>
    history E st' =
      map (\<lambda>c. if c_id c = i \<and> \<not> c_deleted c then c\<lparr>c_deleted := True, c_hlc := t\<rparr> else c) (history E st) \<and>
    (if i \<in> c_id ` set (history E st) then res = Inr () else res = Inl (NotFound i) \<and> st' = st) \<and>
    ((\<exists>c \<in> set (history E st). c_id c = i \<and> \<not> c_deleted c) \<longrightarrow>
      clip_id_to_string E i \<notin> fst ` set (st_fts st'))"
  by (rule delete_history [OF assms])

theorem store_delete_refines_witness:
  "history sample_env (snd (store_delete sample_env 9 (ClipId 1) (Hlc 8 0 (DeviceId 2)) sample_store)) =
     [(norm_clip (sample_clip 5 False False))\<lparr>c_deleted := True, c_hlc := Hlc 8 0 (DeviceId 2)\<rparr>]"
proof -
  have "c_id (norm_clip (sample_clip 5 False False)) = ClipId 1" "\<not> c_deleted (norm_clip (sample_clip 5 False False))"
    by (simp_all add: norm_clip_def sample_clip_def clip_new_def Let_def)
  with store_delete_refines [OF sample_env_ok sample_store_history(1) prod.collapse [symmetric],
      of 9 "ClipId 1" "Hlc 8 0 (DeviceId 2)"]
  show ?thesis by (simp add: sample_store_history(2))
qed

end
