(* ===== verification/Store_Reads.thy ===== *)
theory Store_Reads
  imports Store_Spec
begin

text \<open>
  The ordered reads of the history store. SQL compares the timestamp columns as signed integers
  and text; for wall clocks below \<open>2 ^ 63\<close> this is the order of \<open>Hlc\<close>, so the pages of
  \<open>recent\<close>, the deltas of \<open>changes_since\<close> and \<open>max_hlc\<close> are what the order of timestamps says.
\<close>

section \<open>The sort key is the timestamp\<close>

definition sane_wall :: "hlc \<Rightarrow> bool" where
  "sane_wall t \<longleftrightarrow> unat (wall_ms t) < 2 ^ 63"

definition sane_clocks :: "'x crates_scheme \<Rightarrow> store \<Rightarrow> bool" where
  "sane_clocks X st \<longleftrightarrow> list_all (\<lambda>c. sane_wall (c_hlc c)) (history X st)"

lemma sint_uint_small: "unat (w :: i64) < 2 ^ 63 \<Longrightarrow> sint w = uint w"
  unfolding sint_uint
proof (rule signed_take_bit_int_eq_self)
  assume "unat w < 2 ^ 63"
  then have "uint w < int (2 ^ 63)"
    unfolding unat_eq_nat_uint by (rule iffD1 [OF nat_less_iff [OF unsigned_greater_eq]])
  then show "uint w < 2 ^ (LENGTH(64) - Suc 0)" by simp
qed (simp add: order_trans [OF _ unsigned_greater_eq])

lemma uint_counter: "uint (ucast (n :: u32) :: i64) = uint n"
proof -
  have "uint n < 2 ^ 64" using unsigned_less [of n, where 'a = int] by simp
  then show ?thesis by (simp add: unsigned_ucast_eq take_bit_int_eq_self)
qed

lemma sint_counter: "sint (ucast (n :: u32) :: i64) = uint n"
  using sint_uint_small [of "ucast n"] unsigned_less [of n, where 'a = nat] uint_counter [of n] by simp

lemma sint_eq_iff_word: "sint (v :: i64) = sint w \<longleftrightarrow> v = w"
  by (auto intro: signed_word_eqI)

text \<open>The key of a timestamp as the \<open>WHERE\<close> clause of \<open>changes_since\<close> binds it.\<close>

definition cursor_key :: "'x crates_scheme \<Rightarrow> hlc \<Rightarrow> int \<times> int \<times> string" where
  "cursor_key X t = (sint (wall_ms t), uint (counter t), device_to_string X (hlc_device t))"

lemma cursor_key_less:
  assumes "crates_ok X" "sane_wall s" "sane_wall t"
  shows "cursor_key X s < cursor_key X t \<longleftrightarrow> s < t"
  using assms(2,3)
  by (auto simp: cursor_key_def less_hlc_iff less_prod_def' word_less_def word_uint_eq_iff sane_wall_def
      sint_uint_small device_to_string_less [OF assms(1)])

lemma cursor_key_le:
  assumes "crates_ok X" "sane_wall s" "sane_wall t"
  shows "cursor_key X s \<le> cursor_key X t \<longleftrightarrow> s \<le> t"
  using cursor_key_less [OF assms(1,3,2)] by (auto simp: not_less [symmetric])

lemma row_cursor_key:
  assumes "store_ok X st" "r \<in> set (st_clip st)"
  shows "hlc_key r = cursor_key X (c_hlc (abs_clip X st r))"
  using row_wf_columns(4-6) [OF store_okD(2) [OF assms]]
  by (simp add: hlc_key_def cursor_key_def sint_counter)

lemma after_cursor_key:
  assumes "store_ok E st" "r \<in> set (st_clip st)"
  shows "after_cursor E t r \<longleftrightarrow> cursor_key E t < hlc_key r"
  using row_wf_columns(4-6) [OF store_okD(2) [OF assms]]
  unfolding after_cursor_def sint_eq_iff_word [symmetric]
  by (auto simp: cursor_key_def hlc_key_def less_prod_def' sint_counter)

lemma sane_row: "sane_clocks X st \<Longrightarrow> r \<in> set (st_clip st) \<Longrightarrow> sane_wall (c_hlc (abs_clip X st r))"
  by (auto simp: sane_clocks_def history_def list_all_iff)

lemma after_cursor_iff:
  assumes "env_ok E" "store_ok E st" "r \<in> set (st_clip st)" "sane_clocks E st" "sane_wall t"
  shows "after_cursor E t r \<longleftrightarrow> t < c_hlc (abs_clip E st r)"
  unfolding after_cursor_key [OF assms(2,3)] row_cursor_key [OF assms(2,3)]
  by (rule cursor_key_less [OF env_okD [OF assms(1)] assms(5) sane_row [OF assms(4,3)]])

lemma sorted_rows:
  assumes "env_ok E" "store_ok E st" "sane_clocks E st" "set rows \<subseteq> set (st_clip st)"
  shows "sorted (map (\<lambda>r. c_hlc (abs_clip E st r)) (sort_key hlc_key rows))"
proof -
  have "sorted_wrt (\<lambda>r s. hlc_key r \<le> hlc_key s) (sort_key hlc_key rows)"
    using sorted_sort_key [of hlc_key rows] by (simp add: sorted_map)
  then show ?thesis
    unfolding sorted_map
  proof (rule sorted_wrt_mono_rel [rotated])
    fix r s assume "r \<in> set (sort_key hlc_key rows)" "s \<in> set (sort_key hlc_key rows)" and le: "hlc_key r \<le> hlc_key s"
    then have mem: "r \<in> set (st_clip st)" "s \<in> set (st_clip st)" using assms(4) by auto
    from le show "c_hlc (abs_clip E st r) \<le> c_hlc (abs_clip E st s)"
      unfolding row_cursor_key [OF assms(2) mem(1)] row_cursor_key [OF assms(2) mem(2)]
      using cursor_key_le [OF env_okD [OF assms(1)] sane_row [OF assms(3) mem(1)] sane_row [OF assms(3) mem(2)]]
      by blast
  qed
qed

section \<open>Deltas\<close>

text \<open>Selecting rows of the scan and reading them is selecting clips of the history.\<close>

lemma scan_history:
  assumes "env_ok E" "\<And>r. r \<in> set (st_clip st) \<Longrightarrow> P r \<longleftrightarrow> Q (abs_clip E st r)"
  shows "mset (map (abs_clip E st) (sort_key k (filter P (sqlite_scan E (st_clip st))))) =
    mset (filter Q (history E st))"
proof -
  have "mset (filter P (sqlite_scan E (st_clip st))) = mset (filter P (st_clip st))"
    using assms(1) by (simp add: env_ok_def mset_filter)
  moreover have "filter P (st_clip st) = filter (\<lambda>r. Q (abs_clip E st r)) (st_clip st)"
    using assms(2) by (intro filter_cong refl)
  ultimately show ?thesis by (simp add: history_def mset_map filter_map comp_def)
qed

text \<open>The rows of a delta, whatever the timestamps are.\<close>

lemma changes_since_rows:
  assumes "env_ok E" "store_ok E st"
  shows "\<exists>rows. changes_since E cursor limit st = Inr (sql_limit limit (map (abs_clip E st) (sort_key hlc_key rows))) \<and>
    rows = filter (\<lambda>r. \<forall>t. cursor = Some t \<longrightarrow> after_cursor E t r) (sqlite_scan E (st_clip st))"
proof -
  let ?rows = "filter (\<lambda>r. \<forall>t. cursor = Some t \<longrightarrow> after_cursor E t r) (sqlite_scan E (st_clip st))"
  have rows: "(case cursor of None \<Rightarrow> sqlite_scan E (st_clip st)
      | Some t \<Rightarrow> filter (after_cursor E t) (sqlite_scan E (st_clip st))) = ?rows"
    by (cases cursor) simp_all
  have "set ?rows \<subseteq> set (st_clip st)" using set_scan [OF assms(1)] by auto
  then have "set (sql_limit limit (sort_key hlc_key ?rows)) \<subseteq> set (st_clip st)"
    using set_take_subset [of _ "sort_key hlc_key ?rows"] by (auto simp: sql_limit_def simp del: set_filter)
  then show ?thesis
    unfolding changes_since_def rows by (simp add: rows_to_clips_ok [OF assms(2)] sql_limit_def take_map)
qed

lemma changes_since_all:
  assumes "env_ok E" "store_ok E st" "length (history E st) \<le> 100000"
  shows "\<exists>cs. changes_since E None 100000 st = Inr cs \<and> mset cs = mset (history E st)"
proof -
  obtain rows where rows: "changes_since E None 100000 st = Inr (sql_limit 100000 (map (abs_clip E st) (sort_key hlc_key rows)))"
    "rows = filter (\<lambda>r. \<forall>t. None = Some t \<longrightarrow> after_cursor E t r) (sqlite_scan E (st_clip st))"
    using changes_since_rows [OF assms(1,2)] by blast
  let ?cs = "map (abs_clip E st) (sort_key hlc_key rows)"
  have m: "mset ?cs = mset (history E st)"
    unfolding rows(2) using scan_history [OF assms(1), of st "\<lambda>_. True" "\<lambda>_. True"] by simp
  then have "length ?cs = length (history E st)" by (rule mset_eq_length)
  moreover have "sint (100000 :: i64) = 100000" by (simp add: sint_uint signed_take_bit_int_eq_self)
  ultimately have "sql_limit 100000 ?cs = ?cs" using assms(3) by (simp add: sql_limit_def)
  with rows(1) m show ?thesis by simp
qed

lemma sample_store_sane: "sane_clocks sample_env sample_store"
  by (simp add: sane_clocks_def sample_store_history(2) sane_wall_def norm_clip_def sample_clip_def clip_new_def Let_def)

text \<open>
  C25. \<open>changes_since\<close> returns, oldest first, exactly the clips and tombstones stamped after the
  cursor (all of them without one), cut to the limit: nothing before the cursor is repeated,
  nothing after it is left out, and reading never fails.
\<close>

theorem changes_since_exact:
  assumes "env_ok E" "store_ok E st" "sane_clocks E st" "\<forall>t. cursor = Some t \<longrightarrow> sane_wall t"
  shows "\<exists>cs. changes_since E cursor limit st = Inr (sql_limit limit cs) \<and> sorted (map c_hlc cs) \<and>
    mset cs = mset (filter (\<lambda>c. \<forall>t. cursor = Some t \<longrightarrow> t < c_hlc c) (history E st))"
proof -
  let ?P = "\<lambda>r. \<forall>t. cursor = Some t \<longrightarrow> after_cursor E t r"
  let ?rows = "filter ?P (sqlite_scan E (st_clip st))"
  let ?cs = "map (abs_clip E st) (sort_key hlc_key ?rows)"
  have sub: "set ?rows \<subseteq> set (st_clip st)" using set_scan [OF assms(1)] by auto
  have "changes_since E cursor limit st = Inr (sql_limit limit ?cs)"
    using changes_since_rows [OF assms(1,2)] by blast
  moreover have "sorted (map c_hlc ?cs)"
    using sorted_rows [OF assms(1-3) sub] by (simp add: comp_def)
  moreover have "mset ?cs = mset (filter (\<lambda>c. \<forall>t. cursor = Some t \<longrightarrow> t < c_hlc c) (history E st))"
    using assms by (intro scan_history) (auto simp: after_cursor_iff)
  ultimately show ?thesis by blast
qed

theorem changes_since_exact_witness:
  "\<exists>cs. changes_since sample_env (Some (Hlc 5 0 (DeviceId 1))) 10 sample_store = Inr (sql_limit 10 cs) \<and>
     mset cs = {# norm_clip (sample_clip 5 False False) #}"
proof -
  have "\<forall>t. Some (Hlc 5 0 (DeviceId 1)) = Some t \<longrightarrow> sane_wall t" by (simp add: sane_wall_def)
  from changes_since_exact [OF sample_env_ok sample_store_history(1) sample_store_sane this, of 10]
  show ?thesis
    by (auto simp: sample_store_history(2) norm_clip_def sample_clip_def clip_new_def Let_def less_hlc_iff less_device_id_def)
qed

section \<open>Pages\<close>

lemma kind_str_inj: "kind_str k = kind_str l \<longleftrightarrow> k = l"
  by (metis parse_kind_str)

definition query_clip :: "history_query \<Rightarrow> clip \<Rightarrow> bool" where
  "query_clip q c \<longleftrightarrow> \<not> c_deleted c \<and> (\<forall>k. q_kind q = Some k \<longrightarrow> c_kind c = k) \<and>
     (q_pinned_only q \<longrightarrow> c_pinned c)"

lemma query_row_clip:
  assumes "store_ok X st" "r \<in> set (st_clip st)"
  shows "query_row q r \<longleftrightarrow> query_clip q (abs_clip X st r)"
  using row_wf_columns(3,7,8) [OF store_okD(2) [OF assms]]
  by (auto simp: query_row_def query_clip_def kind_str_inj split: option.splits)

definition page_of :: "history_query \<Rightarrow> 'a list \<Rightarrow> 'a list" where
  "page_of q xs = sql_limit (q_limit q) (sql_offset (q_offset q) xs)"

lemma set_page_of: "set (page_of q xs) \<subseteq> set xs"
  unfolding page_of_def sql_limit_def sql_offset_def
  by (auto dest: in_set_takeD in_set_dropD split: if_splits)

lemma page_rows:
  assumes "env_ok E" "store_ok E st" "sane_clocks E st"
    and "\<And>r. r \<in> set (st_clip st) \<Longrightarrow> P r \<longleftrightarrow> Q (abs_clip E st r)"
  shows "\<exists>cs. rows_to_clips E st (page q (filter P (sqlite_scan E (st_clip st)))) = Inr (page_of q cs) \<and>
    sorted_wrt (\<ge>) (map c_hlc cs) \<and> mset cs = mset (filter Q (history E st))"
proof -
  let ?rows = "filter P (sqlite_scan E (st_clip st))"
  let ?cs = "map (abs_clip E st) (rev (sort_key hlc_key ?rows))"
  have sub: "set ?rows \<subseteq> set (st_clip st)" using set_scan [OF assms(1)] by auto
  then have "set (page_of q (rev (sort_key hlc_key ?rows))) \<subseteq> set (st_clip st)"
    using set_page_of [of q "rev (sort_key hlc_key ?rows)"] by simp
  then have "rows_to_clips E st (page q ?rows) = Inr (page_of q ?cs)"
    unfolding page_def page_of_def [symmetric]
    by (simp add: rows_to_clips_ok [OF assms(2)]) (simp add: page_of_def sql_limit_def sql_offset_def take_map drop_map)
  moreover have "sorted_wrt (\<ge>) (map c_hlc ?cs)"
    using sorted_rows [OF assms(1-3) sub] by (simp add: rev_map [symmetric] sorted_wrt_rev comp_def)
  moreover have "mset ?cs = mset (filter Q (history E st))"
    using scan_history [where P = P and Q = Q and k = hlc_key, OF assms(1,4)] by (simp add: rev_map [symmetric])
  ultimately show ?thesis by blast
qed

text \<open>
  \<open>recent\<close> shows the live clips of the requested kind (and pin), newest first, one page of
  them; a tombstone never shows, and reading never fails.
\<close>

theorem recent_exact:
  assumes "env_ok E" "store_ok E st" "sane_clocks E st"
  shows "\<exists>cs. recent E q st = Inr (page_of q cs) \<and> sorted_wrt (\<ge>) (map c_hlc cs) \<and>
    mset cs = mset (filter (query_clip q) (history E st))"
  unfolding recent_def by (intro page_rows assms query_row_clip)

theorem recent_exact_witness:
  "\<exists>cs. recent sample_env default_query sample_store = Inr (page_of default_query cs) \<and>
     mset cs = {# norm_clip (sample_clip 5 False False) #}"
  using recent_exact [OF sample_env_ok sample_store_history(1) sample_store_sane, of default_query]
  by (auto simp: sample_store_history(2) norm_clip_def sample_clip_def clip_new_def Let_def query_clip_def default_query_def)

lemma max_hlc_returns:
  assumes "env_ok E" "store_ok E st"
  shows "\<exists>t. max_hlc E st = Inr t"
proof (cases "rev (sort_key hlc_key (sqlite_scan E (st_clip st)))")
  case (Cons r rs)
  then have "r \<in> set (sqlite_scan E (st_clip st))" by (metis list.set_intros(1) set_rev set_sort)
  then have "r \<in> set (st_clip st)" using set_scan [OF assms(1)] by simp
  then have "rc_hlc_device r = device_to_string E (hlc_device (c_hlc (row_clip E r)))"
    using row_wf_columns(6) [OF store_okD(2) [OF assms(2)]] by blast
  with Cons env_okD [OF assms(1)] show ?thesis by (simp add: max_hlc_def device_roundtrip)
qed (simp add: max_hlc_def)

text \<open>The newest timestamp of the store is the maximum over its clips and tombstones.\<close>

theorem max_hlc_is_maximum:
  assumes "env_ok E" "store_ok E st" "sane_clocks E st"
  shows "max_hlc E st =
    Inr (if history E st = [] then None else Some (Max (c_hlc ` set (history E st))))"
proof (cases "rev (sort_key hlc_key (sqlite_scan E (st_clip st)))")
  case Nil
  then have "set (sqlite_scan E (st_clip st)) = {}" by (metis rev_is_Nil_conv set_empty set_sort)
  then have "history E st = []" using set_scan [OF assms(1), of "st_clip st"] by (simp add: history_def)
  with Nil show ?thesis by (simp add: max_hlc_def)
next
  case (Cons r rs)
  then have sk: "sort_key hlc_key (sqlite_scan E (st_clip st)) = rev rs @ [r]" by (simp add: rev_eq_Cons_iff)
  have scan: "set (sqlite_scan E (st_clip st)) = set (st_clip st)" by (rule set_scan [OF assms(1)])
  have all: "set (st_clip st) = set (rev rs @ [r])" by (metis scan set_sort sk)
  then have r: "r \<in> set (st_clip st)" by simp
  have "sorted (map (\<lambda>r. c_hlc (abs_clip E st r)) (rev rs @ [r]))"
    using sorted_rows [OF assms, of "sqlite_scan E (st_clip st)"] scan sk by simp
  then have "c_hlc (abs_clip E st s) \<le> c_hlc (abs_clip E st r)" if "s \<in> set (st_clip st)" for s
    using that all by (auto simp: sorted_append)
  then have "Max (c_hlc ` set (history E st)) = c_hlc (abs_clip E st r)"
    using r by (intro Max_eqI) (auto simp: history_def simp del: abs_clip_sel)
  moreover have "history E st \<noteq> []" using r by (auto simp: history_def)
  moreover have "max_hlc E st = Inr (Some (c_hlc (abs_clip E st r)))"
    using row_wf_columns(4-6) [OF store_okD(2) [OF assms(2) r]] env_okD [OF assms(1)]
    by (cases "c_hlc (row_clip E r)") (simp add: max_hlc_def Cons device_roundtrip)
  ultimately show ?thesis by simp
qed

theorem max_hlc_is_maximum_witness: "max_hlc sample_env sample_store = Inr (Some (Hlc 5 0 (DeviceId 2)))"
  using max_hlc_is_maximum [OF sample_env_ok sample_store_history(1) sample_store_sane]
  by (simp add: sample_store_history(2) norm_clip_def sample_clip_def clip_new_def Let_def)

section \<open>Search expressions\<close>

text \<open>
  How FTS5 reads a query made of string literals: a literal runs from a double quote to the next
  one that is not doubled, a doubled quote stands for one; literals are separated by blanks. A
  bare word outside a literal (which FTS5 could take for an operator) is no such query.
\<close>

fun unquote :: "ustr \<Rightarrow> (ustr \<times> ustr) option" where
  "unquote (a # b # r) =
     (if a = 34
      then if b = 34 then map_option (apfst ((#) 34)) (unquote r) else Some ([], b # r)
      else map_option (apfst ((#) a)) (unquote (b # r)))"
| "unquote [a] = (if a = 34 then Some ([], []) else None)"
| "unquote [] = None"

lemma unquote_shorter: "unquote s = Some (t, r) \<Longrightarrow> length r < length s"
  by (induction s arbitrary: t r rule: unquote.induct) (fastforce split: if_splits)+

function phrases :: "ustr \<Rightarrow> ustr list option" where
  "phrases [] = Some []"
| "phrases (a # s) =
     (if a = 32 then phrases s
      else if a = 34
      then case unquote s of Some (t, r) \<Rightarrow> map_option ((#) t) (phrases r) | None \<Rightarrow> None
      else None)"
  by pat_completeness auto
termination
  by (relation "measure length") (auto dest: unquote_shorter)

lemma unquote_double: "r = [] \<or> hd r \<noteq> 34 \<Longrightarrow> unquote (double_quotes t @ 34 # r) = Some (t, r)"
proof (induction t)
  case Nil
  then show ?case by (cases r) (simp_all add: double_quotes_def)
next
  case (Cons a t)
  have "double_quotes (a # t) = (if a = 34 then [34, 34] else [a]) @ double_quotes t"
    by (simp add: double_quotes_def)
  moreover obtain b u where "double_quotes t @ 34 # r = b # u" by (cases "double_quotes t") auto
  ultimately show ?case using Cons by (auto simp: apfst_def)
qed

lemma phrases_join: "phrases (join (lit '' '') (map (\<lambda>t. [34] @ double_quotes t @ [34]) ts)) = Some ts"
proof (induction ts)
  case (Cons t ts)
  then show ?case by (cases ts) (simp_all add: unquote_double)
qed simp

text \<open>
  Whatever the user types, the expression handed to FTS5 consists of string literals only,
  one per blank-separated word and each denoting exactly that word, so no quote, operator or
  wildcard of the input is ever read as query syntax; input without a visible character gives no
  query at all.
\<close>

theorem escape_query_is_literal:
  "(escape_query s = None \<longleftrightarrow> (\<forall>c \<in> set s. is_whitespace c)) \<and>
   (\<forall>e. escape_query s = Some e \<longrightarrow> phrases e = Some (split_whitespace s))"
  by (auto simp: escape_query_def Let_def phrases_join [simplified] split_whitespace_empty_iff)

theorem escape_query_is_literal_witness:
  "escape_query (lit ''a OR b'') = Some [34, 97, 34, 32, 34, 79, 82, 34, 32, 34, 98, 34] \<and>
   phrases [34, 97, 34, 32, 34, 79, 82, 34, 32, 34, 98, 34] = Some [lit ''a'', lit ''OR'', lit ''b'']"
proof -
  have w: "split_whitespace (lit ''a OR b'') = [lit ''a'', lit ''OR'', lit ''b'']"
    by (simp add: split_whitespace.simps is_whitespace_def Let_def)
  then have e: "escape_query (lit ''a OR b'') = Some [34, 97, 34, 32, 34, 79, 82, 34, 32, 34, 98, 34]"
    by (simp add: escape_query_def double_quotes_def)
  with escape_query_is_literal [of "lit ''a OR b''"] w show ?thesis by metis
qed

end
