(* ===== verification/Blob_Store.thy ===== *)
theory Blob_Store
  imports Store_Reads
begin

text \<open>
  The blob store of \<open>clipse-store/src/blob.rs\<close>: files addressed by their digest, the LRU
  bookkeeping of the table \<open>blob_meta\<close>, the disk quota, and the purge of old tombstones
  (\<open>Store::purge_tombstones\<close>) that also collects the blobs no payload refers to.

  The write to a temporary file and its rename are one atomic write here. A file removal is not
  part of a database transaction: when the purge fails, the tables are rolled back and the files
  are not.
\<close>

section \<open>Operations\<close>

record quota_report =
  quota_bytes :: u64
  bytes_before :: u64
  bytes_after :: u64
  blobs_evicted :: nat
  bytes_evicted :: u64

definition DEFAULT_BLOB_QUOTA_BYTES :: u64 where
  "DEFAULT_BLOB_QUOTA_BYTES = 2 * 1024 * 1024 * 1024"

definition has_blob :: "env \<Rightarrow> content_hash \<Rightarrow> store \<Rightarrow> bool" where
  "has_blob E digest st \<longleftrightarrow> st_files st (shard_path E digest) \<noteq> None"

definition next_used_seq :: "store \<Rightarrow> i64 \<times> store" where
  "next_used_seq st = (st_used_seq st + 1, st\<lparr>st_used_seq := st_used_seq st + 1\<rparr>)"

definition write_file :: "string \<times> string \<times> string \<Rightarrow> bytes \<Rightarrow> store \<Rightarrow> store" where
  "write_file path bs st =
     (if st_files st path = None then st\<lparr>st_files := (st_files st)(path \<mapsto> bs)\<rparr> else st)"

definition put_blob :: "env \<Rightarrow> content_hash \<Rightarrow> bytes \<Rightarrow> store \<Rightarrow> store" where
  "put_blob E digest bs st =
     (let (seq, st1) = next_used_seq (write_file (shard_path E digest) bs st);
          hex = to_hex E digest
      in if hex \<in> set (map bm_digest (st_blob_meta st1))
         then st1\<lparr>st_blob_meta := update_where (\<lambda>m. bm_digest m = hex) (\<lambda>m. m\<lparr>bm_used_seq := seq\<rparr>) (st_blob_meta st1)\<rparr>
         else st1\<lparr>st_blob_meta := st_blob_meta st1 @
                [\<lparr>bm_digest = hex, bm_size = of_nat (length bs), bm_used_seq = seq\<rparr>]\<rparr>)"

definition read_blob :: "env \<Rightarrow> content_hash \<Rightarrow> store \<Rightarrow> (store_error + bytes) \<times> store" where
  "read_blob E digest st =
     (case st_files st (shard_path E digest) of
        None \<Rightarrow> (Inl (BlobNotFound digest), st)
      | Some bs \<Rightarrow>
          let (seq, st1) = next_used_seq st
          in (Inr bs, st1\<lparr>st_blob_meta := update_where (\<lambda>m. bm_digest m = to_hex E digest)
                (\<lambda>m. m\<lparr>bm_used_seq := seq\<rparr>) (st_blob_meta st1)\<rparr>))"

text \<open>\<open>SELECT COALESCE(SUM(size), 0) FROM blob_meta\<close>: SQLite reports a sum that leaves 64 bits.\<close>

definition sum_blob_sizes :: "store \<Rightarrow> store_error + i64" where
  "sum_blob_sizes st =
     (let total = sum_list (map (\<lambda>m. sint (bm_size m)) (st_blob_meta st))
      in if - (2 ^ 63) \<le> total \<and> total < 2 ^ 63 then Inr (of_int total) else Inl SqliteIntegerOverflow)"

text \<open>\<open>x.max(0) as u64\<close>.\<close>

definition max0 :: "i64 \<Rightarrow> u64" where
  "max0 w = (if sint w < 0 then 0 else w)"

definition blob_bytes :: "store \<Rightarrow> store_error + u64" where
  "blob_bytes st = bind_r (sum_blob_sizes st) (\<lambda>total. Inr (max0 total))"

text \<open>The digests of the payloads of live pinned clips.\<close>

definition pinned_digests :: "store \<Rightarrow> string list" where
  "pinned_digests st =
     [rp_digest p. p \<leftarrow> st_payload st, c \<leftarrow> st_clip st,
        rc_id c = pr_clip_id p \<and> rc_pinned c = 1 \<and> rc_deleted c = 0]"

definition quota_candidates :: "store \<Rightarrow> (string \<times> i64) list" where
  "quota_candidates st =
     map (\<lambda>m. (bm_digest m, bm_size m))
       (sort_key (\<lambda>m. sint (bm_used_seq m))
         (filter (\<lambda>m. bm_digest m \<notin> set (pinned_digests st)) (st_blob_meta st)))"

definition remove_blob :: "string \<Rightarrow> string \<times> string \<times> string \<Rightarrow> store \<Rightarrow> store" where
  "remove_blob hex path st =
     st\<lparr>st_files := (st_files st)(path := None),
        st_blob_meta := filter (\<lambda>m. bm_digest m \<noteq> hex) (st_blob_meta st)\<rparr>"

fun evict :: "env \<Rightarrow> (string \<times> i64) list \<Rightarrow> u64 \<Rightarrow> nat \<Rightarrow> u64 \<Rightarrow> store \<Rightarrow>
    (store_error + u64 \<times> nat \<times> u64) \<times> store" where
  "evict E [] used n freed st = (Inr (used, n, freed), st)"
| "evict E ((hex, sz) # cs) used n freed st =
     (if used \<le> st_quota st then (Inr (used, n, freed), st)
      else case hash_from_str E hex of
        Inl e \<Rightarrow> (Inl (Core e), st)
      | Inr digest \<Rightarrow>
          evict E cs (sat_sub used (max0 sz)) (n + 1) (freed + max0 sz)
            (remove_blob hex (shard_path E digest) st))"

definition enforce_blob_quota :: "env \<Rightarrow> store \<Rightarrow> (store_error + quota_report) \<times> store" where
  "enforce_blob_quota E st =
     (case sum_blob_sizes st of
        Inl e \<Rightarrow> (Inl e, st)
      | Inr before \<Rightarrow>
          let used = max0 before;
              (res, st') = (if used > st_quota st then evict E (quota_candidates st) used 0 0 st
                            else (Inr (used, 0, 0), st))
          in (bind_r res (\<lambda>(left, n, freed).
                Inr \<lparr>quota_bytes = st_quota st, bytes_before = used, bytes_after = left,
                     blobs_evicted = n, bytes_evicted = freed\<rparr>), st'))"

fun prune_list :: "env \<Rightarrow> string list \<Rightarrow> store \<Rightarrow> (store_error + unit) \<times> store" where
  "prune_list E [] st = (Inr (), st)"
| "prune_list E (hex # hs) st =
     (case hash_from_str E hex of
        Inl e \<Rightarrow> (Inl (Core e), st)
      | Inr digest \<Rightarrow> prune_list E hs (remove_blob hex (shard_path E digest) st))"

definition prune_orphan_blobs :: "env \<Rightarrow> store \<Rightarrow> (store_error + unit) \<times> store" where
  "prune_orphan_blobs E st =
     prune_list E (filter (\<lambda>d. d \<notin> set (map rp_digest (st_payload st))) (map bm_digest (st_blob_meta st))) st"

definition purgeable :: "i64 \<Rightarrow> clip_row \<Rightarrow> bool" where
  "purgeable cutoff r \<longleftrightarrow> rc_deleted r = 1 \<and>
     (case rc_deleted_at_ms r of None \<Rightarrow> False | Some t \<Rightarrow> sint t \<le> sint cutoff)"

text \<open>\<open>DELETE FROM clip\<close> with its \<open>ON DELETE CASCADE\<close> into \<open>payload\<close>.\<close>

definition delete_rows :: "(clip_row \<Rightarrow> bool) \<Rightarrow> store \<Rightarrow> store" where
  "delete_rows P st =
     st\<lparr>st_clip := filter (\<lambda>r. \<not> P r) (st_clip st),
        st_payload := filter (\<lambda>p. pr_clip_id p \<notin> rc_id ` set (filter P (st_clip st))) (st_payload st)\<rparr>"

definition purge_tombstones :: "env \<Rightarrow> u64 \<Rightarrow> u64 \<Rightarrow> store \<Rightarrow> (store_error + nat) \<times> store" where
  "purge_tombstones E now older_than_ms st =
     (let cutoff = sat_sub now older_than_ms;
          purged = length (filter (purgeable cutoff) (st_clip st))
      in case prune_orphan_blobs E (delete_rows (purgeable cutoff) st) of
           (Inl e, st') \<Rightarrow> (Inl e, st\<lparr>st_files := st_files st'\<rparr>)
         | (Inr _, st') \<Rightarrow> (Inr purged, st'))"

section \<open>The quota\<close>

definition blob_row_ok :: "'x crates_scheme \<Rightarrow> blob_meta \<Rightarrow> bool" where
  "blob_row_ok X m \<longleftrightarrow> 0 \<le> sint (bm_size m) \<and>
     (case hash_from_str X (bm_digest m) of
        Inr h \<Rightarrow> hash_wf h \<and> to_hex X h = bm_digest m
      | Inl _ \<Rightarrow> False)"

definition blobs_ok :: "'x crates_scheme \<Rightarrow> store \<Rightarrow> bool" where
  "blobs_ok X st \<longleftrightarrow>
     distinct (map bm_digest (st_blob_meta st)) \<and> list_all (blob_row_ok X) (st_blob_meta st) \<and>
     sum_list (map (\<lambda>m. sint (bm_size m)) (st_blob_meta st)) < 2 ^ 63"

lemma blob_row_digest:
  assumes "blobs_ok X st" "m \<in> set (st_blob_meta st)"
  shows "\<exists>h. hash_from_str X (bm_digest m) = Inr h \<and> to_hex X h = bm_digest m"
proof -
  have "blob_row_ok X m" using assms by (simp add: blobs_ok_def list_all_iff)
  then show ?thesis by (cases "hash_from_str X (bm_digest m)") (auto simp: blob_row_ok_def)
qed

definition freed_by :: "(string \<times> i64) list \<Rightarrow> nat" where
  "freed_by cs = sum_list (map (\<lambda>(hex, sz). unat (max0 sz)) cs)"

definition path_of_hex :: "'x crates_scheme \<Rightarrow> string \<Rightarrow> string \<times> string \<times> string" where
  "path_of_hex X hex = shard_path X (projr (hash_from_str X hex))"

definition evicted :: "'x crates_scheme \<Rightarrow> string list \<Rightarrow> store \<Rightarrow> store" where
  "evicted X hexes st =
     st\<lparr>st_files := (\<lambda>p. if p \<in> path_of_hex X ` set hexes then None else st_files st p),
        st_blob_meta := filter (\<lambda>m. bm_digest m \<notin> set hexes) (st_blob_meta st)\<rparr>"

lemma evicted_Nil [simp]: "evicted X [] st = st"
  by (simp add: evicted_def)

lemma evicted_Cons:
  assumes "hash_from_str X hex = Inr h"
  shows "evicted X hexes (remove_blob hex (shard_path X h) st) = evicted X (hex # hexes) st"
  by (auto simp: evicted_def remove_blob_def path_of_hex_def assms fun_eq_iff intro!: filter_cong)

lemma evict_prefix:
  assumes "\<forall>(hex, sz) \<in> set cs. \<exists>h. hash_from_str E hex = Inr h" "freed_by cs \<le> unat used"
  shows "\<exists>k left freed'. evict E cs used n freed st =
      (Inr (left, n + k, freed'), evicted E (map fst (take k cs)) st) \<and> k \<le> length cs \<and>
    unat left = unat used - freed_by (take k cs) \<and>
    (k = length cs \<or> left \<le> st_quota st) \<and>
    (\<forall>j < k. unat (st_quota st) < unat used - freed_by (take j cs))"
  using assms
proof (induction cs arbitrary: used n freed st)
  case Nil
  then show ?case by (simp add: freed_by_def)
next
  case (Cons c cs)
  obtain hex sz where c: "c = (hex, sz)" by (cases c)
  show ?case
  proof (cases "used \<le> st_quota st")
    case True
    then show ?thesis by (intro exI [of _ 0] exI [of _ used] exI [of _ freed]) (simp add: c freed_by_def)
  next
    case False
    obtain h where h: "hash_from_str E hex = Inr h" using Cons.prems(1) by (auto simp: c)
    let ?st = "remove_blob hex (shard_path E h) st" and ?used = "sat_sub used (max0 sz)"
    have "freed_by cs \<le> unat ?used" using Cons.prems(2) by (simp add: c freed_by_def unat_sat_sub)
    from Cons.IH [OF _ this, of "n + 1" "freed + max0 sz" ?st] Cons.prems(1)
    obtain k left freed' where k: "evict E cs ?used (n + 1) (freed + max0 sz) ?st =
        (Inr (left, n + 1 + k, freed'), evicted E (map fst (take k cs)) ?st)" "k \<le> length cs"
      "unat left = unat ?used - freed_by (take k cs)" "k = length cs \<or> left \<le> st_quota ?st"
      "\<forall>j < k. unat (st_quota ?st) < unat ?used - freed_by (take j cs)"
      by auto
    have q: "st_quota ?st = st_quota st" by (simp add: remove_blob_def)
    have f: "unat ?used - freed_by (take j cs) = unat used - freed_by (take (Suc j) ((hex, sz) # cs))" for j
      by (simp add: freed_by_def unat_sat_sub)
    have "\<forall>j < Suc k. unat (st_quota st) < unat used - freed_by (take j ((hex, sz) # cs))"
    proof (intro allI impI)
      fix j assume "j < Suc k"
      then show "unat (st_quota st) < unat used - freed_by (take j ((hex, sz) # cs))"
        using False k(5) f by (cases j) (simp_all add: freed_by_def q word_le_nat_alt)
    qed
    with False k h q show ?thesis
      by (intro exI [of _ "Suc k"] exI [of _ left] exI [of _ freed'])
        (simp add: c f evicted_Cons)
  qed
qed

definition row_bytes :: "blob_meta \<Rightarrow> nat" where
  "row_bytes m = unat (max0 (bm_size m))"

definition held_bytes :: "store \<Rightarrow> nat" where
  "held_bytes st = sum_list (map row_bytes (st_blob_meta st))"

definition lru_rows :: "store \<Rightarrow> blob_meta list" where
  "lru_rows st = sort_key (\<lambda>m. sint (bm_used_seq m))
     (filter (\<lambda>m. bm_digest m \<notin> set (pinned_digests st)) (st_blob_meta st))"

lemma quota_candidates_lru: "quota_candidates st = map (\<lambda>m. (bm_digest m, bm_size m)) (lru_rows st)"
  by (simp add: quota_candidates_def lru_rows_def)

lemma freed_by_rows: "freed_by (map (\<lambda>m. (bm_digest m, bm_size m)) ms) = sum_list (map row_bytes ms)"
  by (simp add: freed_by_def row_bytes_def [abs_def] comp_def)

lemma sint_nonneg: "0 \<le> sint (w :: i64) \<Longrightarrow> sint w = uint w"
proof -
  assume "0 \<le> sint w"
  moreover have "sint w < 2 ^ 64" using sint_lt [of w] by simp
  ultimately show ?thesis using uint_sint [of w] take_bit_int_eq_self [of "sint w" 64] by simp
qed

lemma row_bytes_sint: "0 \<le> sint (bm_size m) \<Longrightarrow> int (row_bytes m) = sint (bm_size m)"
  by (simp add: row_bytes_def max0_def sint_nonneg)

lemma held_bytes_sum:
  assumes "blobs_ok X st"
  shows "\<exists>w. sum_blob_sizes st = Inr w \<and> unat (max0 w) = held_bytes st"
proof -
  let ?t = "sum_list (map (\<lambda>m. sint (bm_size m)) (st_blob_meta st))"
  have nn: "\<forall>m \<in> set (st_blob_meta st). 0 \<le> sint (bm_size m)"
    using assms by (auto simp: blobs_ok_def list_all_iff blob_row_ok_def)
  then have "int (sum_list (map row_bytes ms)) = sum_list (map (\<lambda>m. sint (bm_size m)) ms)"
    if "set ms \<subseteq> set (st_blob_meta st)" for ms
    using that by (induction ms) (auto simp: row_bytes_sint)
  then have t: "?t = int (held_bytes st)" by (simp add: held_bytes_def)
  moreover have "?t < 2 ^ 63" using assms by (simp add: blobs_ok_def)
  ultimately have small: "held_bytes st < 2 ^ 63" by simp
  have "unat (of_nat (held_bytes st) :: i64) = held_bytes st" using small by (simp add: unat_of_nat)
  moreover from this small have "sint (of_nat (held_bytes st) :: i64) \<ge> 0"
    using sint_uint_small [of "of_nat (held_bytes st)"] by simp
  ultimately show ?thesis
    using small by (simp add: sum_blob_sizes_def t max0_def Let_def)
qed

lemma sum_list_remove:
  fixes f :: "'a \<Rightarrow> nat"
  assumes "distinct xs" "distinct ys" "set ys \<subseteq> set xs"
  shows "sum_list (map f (filter (\<lambda>x. x \<notin> set ys) xs)) = sum_list (map f xs) - sum_list (map f ys)"
    and "sum_list (map f ys) \<le> sum_list (map f xs)"
proof -
  have "set (filter (\<lambda>x. x \<notin> set ys) xs) = set xs - set ys" by auto
  moreover have "sum f (set xs - set ys) = sum f (set xs) - sum f (set ys)"
    using assms(3) by (intro sum_diff_nat) auto
  ultimately show "sum_list (map f (filter (\<lambda>x. x \<notin> set ys) xs)) = sum_list (map f xs) - sum_list (map f ys)"
    using assms(1,2) by (simp add: sum_list_distinct_conv_sum_set)
  show "sum_list (map f ys) \<le> sum_list (map f xs)"
    using assms by (simp add: sum_list_distinct_conv_sum_set sum_mono2)
qed

text \<open>The rows and bytes left after the first \<open>k\<close> candidates are gone.\<close>

lemma after_eviction:
  assumes "blobs_ok X st" "st' = evicted X (map fst (take k (quota_candidates st))) st"
  shows "set (st_blob_meta st') = set (st_blob_meta st) - set (take k (lru_rows st))"
    and "held_bytes st' = held_bytes st - freed_by (take k (quota_candidates st))"
    and "set (take k (lru_rows st)) \<subseteq> set (st_blob_meta st)"
proof -
  have d: "distinct (map bm_digest (st_blob_meta st))" using assms(1) by (simp add: blobs_ok_def)
  then have dx: "distinct (st_blob_meta st)" and dy: "distinct (take k (lru_rows st))"
    by (auto simp: distinct_map lru_rows_def intro: distinct_take)
  have lru: "set (lru_rows st) \<subseteq> set (st_blob_meta st)" by (auto simp: lru_rows_def)
  then show tk: "set (take k (lru_rows st)) \<subseteq> set (st_blob_meta st)"
    using set_take_subset [of k "lru_rows st"] by simp
  have hexes: "set (map fst (take k (quota_candidates st))) = bm_digest ` set (take k (lru_rows st))"
    by (simp add: quota_candidates_lru take_map image_image)
  have inj: "inj_on bm_digest (set (st_blob_meta st))" using d by (simp add: distinct_map)
  have "bm_digest m \<in> bm_digest ` set (take k (lru_rows st)) \<longleftrightarrow> m \<in> set (take k (lru_rows st))"
    if "m \<in> set (st_blob_meta st)" for m
    using inj_on_image_mem_iff [OF inj that tk] .
  then have "st_blob_meta st' = filter (\<lambda>m. m \<notin> set (take k (lru_rows st))) (st_blob_meta st)"
    unfolding assms(2) evicted_def hexes by (auto intro!: filter_cong)
  then show rows: "set (st_blob_meta st') = set (st_blob_meta st) - set (take k (lru_rows st))"
    and "held_bytes st' = held_bytes st - freed_by (take k (quota_candidates st))"
    using sum_list_remove(1) [OF dx dy tk, of row_bytes]
    by (auto simp: held_bytes_def quota_candidates_lru take_map freed_by_rows)
qed

lemma freed_by_candidates:
  assumes "blobs_ok X st"
  shows "freed_by (quota_candidates st) \<le> held_bytes st"
proof -
  have "distinct (st_blob_meta st)" using assms by (simp add: blobs_ok_def distinct_map)
  then show ?thesis
    using sum_list_remove(2) [of "st_blob_meta st" "lru_rows st" row_bytes]
    by (auto simp: quota_candidates_lru freed_by_rows held_bytes_def lru_rows_def)
qed

lemma lru_take_drop:
  assumes "m \<in> set (take k (lru_rows st))" "m' \<in> set (drop k (lru_rows st))"
  shows "sint (bm_used_seq m) \<le> sint (bm_used_seq m')"
proof -
  have "sorted (map (\<lambda>m. sint (bm_used_seq m)) (take k (lru_rows st) @ drop k (lru_rows st)))"
    by (simp add: lru_rows_def del: sort_append)
  with assms show ?thesis unfolding map_append sorted_append by auto
qed

lemma evicted_other_file:
  assumes "env_ok E" "blobs_ok E st" "to_hex E h \<in> set (pinned_digests st)"
  shows "st_files (evicted E (map fst (take k (quota_candidates st))) st) (shard_path E h) = st_files st (shard_path E h)"
proof -
  have "shard_path E h \<noteq> path_of_hex E hex" if "hex \<in> set (map fst (take k (quota_candidates st)))" for hex
  proof
    assume eq: "shard_path E h = path_of_hex E hex"
    from that obtain m where m: "m \<in> set (st_blob_meta st)" "bm_digest m = hex" "hex \<notin> set (pinned_digests st)"
      by (auto simp: quota_candidates_def dest!: in_set_takeD)
    then obtain h' where h': "hash_from_str E hex = Inr h'" "to_hex E h' = hex"
      using blob_row_digest [OF assms(2)] by blast
    with eq have "to_hex E h = to_hex E h'" by (simp add: path_of_hex_def shard_path_def Let_def)
    with h' m(3) assms(3) show False by simp
  qed
  then show ?thesis by (auto simp: evicted_def)
qed

definition sample_blobs :: store where
  "sample_blobs = put_blob sample_env (hash_of sample_crates [1]) [1] (sample_store\<lparr>st_quota := 0\<rparr>)"

lemma sample_blobs_ok: "blobs_ok sample_env sample_blobs"
  using hash_roundtrip [OF env_okD [OF sample_env_ok], of "hash_of sample_crates [1]"] sample_crates_ok
  by (simp add: blobs_ok_def sample_blobs_def sample_store_def store_insert_def put_blob_def next_used_seq_def
      write_file_def fresh_store_def blob_row_ok_def Let_def find_live_def hash_matches_sample_env)

text \<open>
  C36. The quota pass never fails, and never touches a clip, a payload or a blob of a live pinned
  clip. Afterwards the blobs fit the quota or only blobs of pinned clips are left; the reported
  sizes are those of the table, and what was evicted was used no later than any evictable blob that
  stays.
\<close>

theorem enforce_blob_quota_sound:
  assumes "env_ok E" "blobs_ok E st"
  shows "\<exists>rep st'. enforce_blob_quota E st = (Inr rep, st') \<and>
    st_clip st' = st_clip st \<and> st_payload st' = st_payload st \<and>
    set (st_blob_meta st') \<subseteq> set (st_blob_meta st) \<and>
    (\<forall>m \<in> set (st_blob_meta st) - set (st_blob_meta st').
       bm_digest m \<notin> set (pinned_digests st) \<and>
       (\<forall>m' \<in> set (st_blob_meta st'). bm_digest m' \<notin> set (pinned_digests st) \<longrightarrow>
          sint (bm_used_seq m) \<le> sint (bm_used_seq m'))) \<and>
    (\<forall>h. to_hex E h \<in> set (pinned_digests st) \<longrightarrow> has_blob E h st' = has_blob E h st) \<and>
    unat (bytes_before rep) = held_bytes st \<and> unat (bytes_after rep) = held_bytes st' \<and>
    (bytes_after rep \<le> st_quota st \<or>
     (\<forall>m \<in> set (st_blob_meta st'). bm_digest m \<in> set (pinned_digests st)))"
proof -
  obtain w where w: "sum_blob_sizes st = Inr w" "unat (max0 w) = held_bytes st"
    using held_bytes_sum [OF assms(2)] by blast
  show ?thesis
  proof (cases "max0 w > st_quota st")
    case False
    then show ?thesis by (auto simp: enforce_blob_quota_def w Let_def)
  next
    case True
    let ?cs = "quota_candidates st"
    have "\<forall>(hex, sz) \<in> set ?cs. \<exists>h. hash_from_str E hex = Inr h"
      using blob_row_digest [OF assms(2)] by (fastforce simp: quota_candidates_def)
    from evict_prefix [OF this, of "max0 w" 0 0 st] freed_by_candidates [OF assms(2)] w(2)
    obtain k left freed where ev: "evict E ?cs (max0 w) 0 0 st =
        (Inr (left, k, freed), evicted E (map fst (take k ?cs)) st)" "k \<le> length ?cs"
      "unat left = held_bytes st - freed_by (take k ?cs)" "k = length ?cs \<or> left \<le> st_quota st"
      by auto
    let ?st = "evicted E (map fst (take k ?cs)) st"
    note after = after_eviction [OF assms(2) refl, of k]
    have split: "set (lru_rows st) = set (take k (lru_rows st)) \<union> set (drop k (lru_rows st))"
      by (metis append_take_drop_id set_append)
    have lru: "m \<in> set (lru_rows st) \<longleftrightarrow> m \<in> set (st_blob_meta st) \<and> bm_digest m \<notin> set (pinned_digests st)" for m
      by (auto simp: lru_rows_def)
    have res: "enforce_blob_quota E st = (Inr \<lparr>quota_bytes = st_quota st, bytes_before = max0 w,
        bytes_after = left, blobs_evicted = k, bytes_evicted = freed\<rparr>, ?st)"
      using True by (simp add: enforce_blob_quota_def w(1) Let_def ev(1))
    have gone: "m \<in> set (take k (lru_rows st))" if "m \<in> set (st_blob_meta st) - set (st_blob_meta ?st)" for m
      using that after(1) by auto
    have stay: "m' \<in> set (drop k (lru_rows st))"
      if "m' \<in> set (st_blob_meta ?st)" "bm_digest m' \<notin> set (pinned_digests st)" for m'
      using that after(1) lru split by auto
    have files: "has_blob E h ?st = has_blob E h st" if "to_hex E h \<in> set (pinned_digests st)" for h
      using evicted_other_file [OF assms that, of k] by (simp add: has_blob_def)
    have "k = length ?cs \<Longrightarrow> set (st_blob_meta ?st) \<inter> set (lru_rows st) = {}"
      using after(1) by (auto simp: quota_candidates_lru)
    then have "left \<le> st_quota st \<or> (\<forall>m \<in> set (st_blob_meta ?st). bm_digest m \<in> set (pinned_digests st))"
      using ev(4) lru after(1) by blast
    moreover have "bm_digest m \<notin> set (pinned_digests st)" if "m \<in> set (st_blob_meta st) - set (st_blob_meta ?st)" for m
      using gone [OF that] split lru by blast
    moreover have "st_clip ?st = st_clip st" "st_payload ?st = st_payload st" by (simp_all add: evicted_def)
    moreover have "set (st_blob_meta ?st) \<subseteq> set (st_blob_meta st)" using after(1) by blast
    moreover have "unat left = held_bytes ?st" using ev(3) after(2) by simp
    ultimately show ?thesis
      using lru_take_drop [OF gone stay] files
      by - (rule exI, rule exI [of _ ?st], intro conjI, rule res, simp_all add: w(2) del: Diff_iff)
  qed
qed

theorem enforce_blob_quota_sound_witness:
  "\<exists>rep st'. enforce_blob_quota sample_env sample_blobs = (Inr rep, st') \<and> st_clip st' = st_clip sample_blobs"
  using enforce_blob_quota_sound [OF sample_env_ok sample_blobs_ok] by blast

section \<open>Purging tombstones\<close>

lemma prune_list_evicts:
  "\<forall>hex \<in> set hs. \<exists>h. hash_from_str E hex = Inr h \<Longrightarrow> prune_list E hs st = (Inr (), evicted E hs st)"
  by (induction hs arbitrary: st) (auto simp: evicted_Cons)

lemma stored_payloads_delete:
  assumes "i \<notin> rc_id ` set (filter P (st_clip st))"
  shows "stored_payloads X (delete_rows P st) i = stored_payloads X st i"
  using assms unfolding stored_payloads_def delete_rows_def
  by (auto intro!: arg_cong [where f = "\<lambda>ps. map (row_payload X) (sort_key rp_format_label ps)"] filter_cong simp: conj_commute)

lemma delete_rows_history:
  assumes "store_ok X st"
  shows "history X (delete_rows P st) = map (abs_clip X st) (filter (\<lambda>r. \<not> P r) (st_clip st))"
proof -
  have "abs_clip X (delete_rows P st) r = abs_clip X st r" if "r \<in> set (st_clip st)" "\<not> P r" for r
  proof -
    have "rc_id r \<notin> rc_id ` set (filter P (st_clip st))"
      using that rows_unique [OF assms that(1)] by auto
    then show ?thesis by (simp add: abs_clip_def stored_payloads_delete)
  qed
  then show ?thesis by (simp add: history_def) (simp add: delete_rows_def)
qed

lemma delete_rows_ok:
  assumes "store_ok X st"
  shows "store_ok X (delete_rows P st)"
proof -
  let ?keep = "filter (\<lambda>r. \<not> P r) (st_clip st)"
  have "distinct (map rc_id ?keep)" using store_okD(1) [OF assms] by (simp add: distinct_map_filter)
  moreover have "distinct (map rc_hash (filter (\<lambda>r. rc_deleted r = 0) ?keep))"
    using store_okD(6) [OF assms] distinct_map_filter [of rc_hash "live_rows st" "\<lambda>r. \<not> P r"]
    by (simp add: live_rows_def conj_commute)
  moreover have "distinct (map (\<lambda>p. (pr_clip_id p, rp_format_label p)) (st_payload (delete_rows P st)))"
    using store_okD(3) [OF assms] by (simp add: delete_rows_def distinct_map_filter)
  moreover have "pr_clip_id p \<in> rc_id ` set ?keep"
    if "p \<in> set (st_payload st)" "pr_clip_id p \<notin> rc_id ` set (filter P (st_clip st))" for p
    using store_okD(5) [OF assms that(1)] that(2) by auto
  ultimately show ?thesis
    using store_okD(2,4) [OF assms] by (auto simp: store_ok_def live_rows_def delete_rows_def list_all_iff)
qed

text \<open>
  Purging removes exactly the tombstones that a local delete dated at or before the cutoff,
  reports their number, and leaves every other clip as it was; a tombstone that arrived from
  another device carries no such date and stays. A blob is collected exactly when no remaining
  payload refers to it.
\<close>

theorem purge_tombstones_exact:
  assumes "env_ok E" "store_ok E st" "blobs_ok E st"
  shows "\<exists>st'. purge_tombstones E now age st = (Inr (length (filter (purgeable (sat_sub now age)) (st_clip st))), st') \<and>
    store_ok E st' \<and> st_clip st' = filter (\<lambda>r. \<not> purgeable (sat_sub now age) r) (st_clip st) \<and>
    history E st' = map (abs_clip E st) (st_clip st') \<and>
    (\<forall>r \<in> set (st_clip st). rc_deleted_at_ms r = None \<longrightarrow> r \<in> set (st_clip st')) \<and>
    st_blob_meta st' = filter (\<lambda>m. bm_digest m \<in> rp_digest ` set (st_payload st')) (st_blob_meta st)"
proof -
  let ?P = "purgeable (sat_sub now age)"
  let ?st = "delete_rows ?P st"
  let ?hs = "filter (\<lambda>d. d \<notin> set (map rp_digest (st_payload ?st))) (map bm_digest (st_blob_meta ?st))"
  let ?st' = "evicted E ?hs ?st"
  have "\<forall>hex \<in> set ?hs. \<exists>h. hash_from_str E hex = Inr h"
    using blob_row_digest [OF assms(3)] by (auto simp: delete_rows_def)
  then have "purge_tombstones E now age st = (Inr (length (filter ?P (st_clip st))), ?st')"
    by (simp add: purge_tombstones_def Let_def prune_orphan_blobs_def prune_list_evicts)
  moreover have "store_ok E ?st'"
    using delete_rows_ok [OF assms(2), of ?P] by (simp add: store_ok_def live_rows_def evicted_def)
  moreover have clip: "st_clip ?st' = filter (\<lambda>r. \<not> ?P r) (st_clip st)"
    by (simp add: evicted_def delete_rows_def)
  moreover have "history E ?st' = map (abs_clip E st) (st_clip ?st')"
    unfolding clip delete_rows_history [OF assms(2), symmetric]
    by (simp add: history_def abs_clip_def [abs_def] stored_payloads_def [abs_def] evicted_def)
  moreover have "\<forall>r \<in> set (st_clip st). rc_deleted_at_ms r = None \<longrightarrow> r \<in> set (st_clip ?st')"
    unfolding clip by (simp add: purgeable_def)
  moreover have "st_blob_meta ?st' = filter (\<lambda>m. bm_digest m \<in> rp_digest ` set (st_payload ?st')) (st_blob_meta st)"
    by (auto simp: evicted_def delete_rows_def intro!: filter_cong)
  ultimately show ?thesis by blast
qed

theorem purge_tombstones_exact_witness:
  "\<exists>n st'. purge_tombstones sample_env 10 1 sample_blobs = (Inr n, st') \<and> store_ok sample_env st'"
proof -
  have "store_ok sample_env sample_blobs"
    using sample_store_history(1)
    by (simp add: sample_blobs_def store_ok_def live_rows_def put_blob_def next_used_seq_def write_file_def Let_def)
  from purge_tombstones_exact [OF sample_env_ok this sample_blobs_ok] show ?thesis by blast
qed

end
