(* ===== verification/Store_Open.thy ===== *)
theory Store_Open
  imports Blob_Store
begin

text \<open>
  Opening a store (\<open>clipse-store/src/schema.rs\<close>, \<open>Store::open\<close>) and the states a store can reach.
  The migration is the list of SQL statements it issues. None of them is inside a transaction, so
  a crash leaves the database as it was after some prefix of them.
\<close>

section \<open>Schema migrations\<close>

datatype statement = CreateIfNotExists string | Create string | InsertVersion i64 | UpdateVersion i64

record database =
  db_objects :: "string list"
  db_versions :: "i64 list"

definition CURRENT_SCHEMA_VERSION :: i64 where
  "CURRENT_SCHEMA_VERSION = 1"

definition migrate_v1 :: "statement list" where
  "migrate_v1 = map Create [''clip'', ''clip_hash_idx'', ''clip_hlc_idx'', ''clip_recent_idx'', ''payload'',
     ''payload_digest_idx'', ''blob_meta'', ''blob_meta_used_idx'', ''clip_fts'']"

definition MIGRATIONS :: "(i64 \<times> statement list) list" where
  "MIGRATIONS = [(1, migrate_v1)]"

fun exec :: "statement \<Rightarrow> database \<Rightarrow> (store_error + unit) \<times> database" where
  "exec (CreateIfNotExists n) db =
     (Inr (), if n \<in> set (db_objects db) then db else db\<lparr>db_objects := db_objects db @ [n]\<rparr>)"
| "exec (Create n) db =
     (if n \<in> set (db_objects db) then (Inl (SqliteObjectExists n), db)
      else (Inr (), db\<lparr>db_objects := db_objects db @ [n]\<rparr>))"
| "exec (InsertVersion v) db = (Inr (), db\<lparr>db_versions := db_versions db @ [v]\<rparr>)"
| "exec (UpdateVersion v) db = (Inr (), db\<lparr>db_versions := map (\<lambda>_. v) (db_versions db)\<rparr>)"

fun exec_batch :: "statement list \<Rightarrow> database \<Rightarrow> (store_error + unit) \<times> database" where
  "exec_batch [] db = (Inr (), db)"
| "exec_batch (s # ss) db =
     (case exec s db of (Inl e, db') \<Rightarrow> (Inl e, db') | (Inr _, db') \<Rightarrow> exec_batch ss db')"

definition schema_version :: "database \<Rightarrow> i64" where
  "schema_version db = (case db_versions db of [] \<Rightarrow> 0 | v # _ \<Rightarrow> v)"

fun migrations_from :: "i64 \<Rightarrow> (i64 \<times> statement list) list \<Rightarrow> statement list" where
  "migrations_from version [] = []"
| "migrations_from version ((target, migrate) # ms) =
     (if sint target > sint version then migrate @ [UpdateVersion target] @ migrations_from target ms
      else migrations_from version ms)"

text \<open>The statements of one \<open>open_and_migrate\<close>, decided by the version row it reads.\<close>

definition open_statements :: "database \<Rightarrow> statement list" where
  "open_statements db =
     (let version = schema_version db
      in [CreateIfNotExists ''schema_version''] @ (if version = 0 then [InsertVersion 0] else []) @
         (if sint version > sint CURRENT_SCHEMA_VERSION then [] else migrations_from version MIGRATIONS))"

definition open_and_migrate :: "database \<Rightarrow> (store_error + unit) \<times> database" where
  "open_and_migrate db =
     (let (res, db') = exec_batch (open_statements db) db
      in if sint (schema_version db) > sint CURRENT_SCHEMA_VERSION
         then (Inl (SchemaTooNew (sint (schema_version db)) (sint CURRENT_SCHEMA_VERSION)), db')
         else (res, db'))"

text \<open>What a crash after the first \<open>k\<close> statements leaves on disk.\<close>

definition crashed_open :: "nat \<Rightarrow> database \<Rightarrow> database" where
  "crashed_open k db = snd (exec_batch (take k (open_statements db)) db)"

definition empty_database :: database where
  "empty_database = \<lparr>db_objects = [], db_versions = []\<rparr>"

lemmas schema_defs = open_and_migrate_def open_statements_def schema_version_def MIGRATIONS_def
  migrate_v1_def CURRENT_SCHEMA_VERSION_def empty_database_def crashed_open_def

lemma sint_i64_1: "sint (1 :: i64) = 1"
  by (simp add: sint_uint signed_take_bit_int_eq_self)

text \<open>
  Opening a fresh database creates every table and index and records version 1; opening it
  again changes nothing; and a database of a newer version is refused with the two versions named.
\<close>

theorem open_and_migrate_idempotent:
  "fst (open_and_migrate empty_database) = Inr () \<and>
   schema_version (snd (open_and_migrate empty_database)) = CURRENT_SCHEMA_VERSION \<and>
   open_and_migrate (snd (open_and_migrate empty_database)) = (Inr (), snd (open_and_migrate empty_database)) \<and>
   (\<forall>db. sint (schema_version db) > 1 \<longrightarrow>
      fst (open_and_migrate db) = Inl (SchemaTooNew (sint (schema_version db)) 1) \<and>
      db_versions (snd (open_and_migrate db)) = db_versions db)"
proof (intro conjI allI impI)
  show "fst (open_and_migrate empty_database) = Inr ()"
    "schema_version (snd (open_and_migrate empty_database)) = CURRENT_SCHEMA_VERSION"
    "open_and_migrate (snd (open_and_migrate empty_database)) = (Inr (), snd (open_and_migrate empty_database))"
    by (simp_all add: schema_defs sint_i64_1 Let_def)
next
  fix db assume new: "sint (schema_version db) > 1"
  then have "schema_version db \<noteq> 0" by auto
  with new show "fst (open_and_migrate db) = Inl (SchemaTooNew (sint (schema_version db)) 1)"
    "db_versions (snd (open_and_migrate db)) = db_versions db"
    by (simp_all add: open_and_migrate_def open_statements_def Let_def CURRENT_SCHEMA_VERSION_def sint_i64_1)
qed

theorem open_and_migrate_idempotent_witness:
  "fst (open_and_migrate \<lparr>db_objects = [''schema_version''], db_versions = [2]\<rparr>) = Inl (SchemaTooNew 2 1)"
proof -
  have "sint (2 :: i64) = 2" by (simp add: sint_uint signed_take_bit_int_eq_self)
  with open_and_migrate_idempotent show ?thesis by (simp add: schema_version_def)
qed

text \<open>
  The migration is not atomic: a crash after the first table is created and before the
  version is recorded leaves a database that can never be opened again, because the next open
  runs the migration from the start and finds the table already there.
\<close>

theorem crashed_migration_is_stuck:
  "k \<in> {3..11} \<Longrightarrow> fst (open_and_migrate (crashed_open k empty_database)) = Inl (SqliteObjectExists ''clip'')"
proof -
  assume "k \<in> {3..11}"
  then have "k = 3 \<or> k = 4 \<or> k = 5 \<or> k = 6 \<or> k = 7 \<or> k = 8 \<or> k = 9 \<or> k = 10 \<or> k = 11" by auto
  then show ?thesis by (elim disjE) (simp_all add: schema_defs sint_i64_1 Let_def)
qed

theorem crashed_migration_is_stuck_witness:
  "fst (open_and_migrate (crashed_open 3 empty_database)) = Inl (SqliteObjectExists ''clip'')"
  by (rule crashed_migration_is_stuck) simp

section \<open>Opening the tables\<close>

text \<open>\<open>SELECT COALESCE(MAX(used_seq), 0) FROM blob_meta\<close>.\<close>

definition used_seq_seed :: "store \<Rightarrow> int" where
  "used_seq_seed st =
     (case map (\<lambda>m. sint (bm_used_seq m)) (st_blob_meta st) of [] \<Rightarrow> 0 | s # ss \<Rightarrow> fold max ss s)"

text \<open>\<open>Store::open\<close> on the tables and files an earlier process left behind.\<close>

definition store_open :: "u64 \<Rightarrow> store \<Rightarrow> store" where
  "store_open quota st = st\<lparr>st_quota := quota, st_used_seq := of_int (max (used_seq_seed st) 0)\<rparr>"

section \<open>Recency\<close>

text \<open>The counter behind the LRU order is ahead of every recorded use.\<close>

definition seq_ok :: "store \<Rightarrow> bool" where
  "seq_ok st \<longleftrightarrow> 0 \<le> sint (st_used_seq st) \<and>
     list_all (\<lambda>m. sint (bm_used_seq m) \<le> sint (st_used_seq st)) (st_blob_meta st)"

lemma fold_max_ge: "x \<in> set (s # ss) \<Longrightarrow> x \<le> fold max ss (s :: int)"
  by (metis Max.set_eq_fold Max_ge List.finite_set)

lemma fold_max_in: "fold max ss (s :: int) \<in> set (s # ss)"
  by (metis Max.set_eq_fold Max_in List.finite_set list.distinct(1) set_empty)

lemma used_seq_seed_bounds:
  "\<forall>m \<in> set (st_blob_meta st). sint (bm_used_seq m) \<le> used_seq_seed st"
  "\<exists>w :: i64. used_seq_seed st = sint w"
proof -
  let ?xs = "map (\<lambda>m. sint (bm_used_seq m)) (st_blob_meta st)"
  have "\<exists>w :: i64. x = sint w" if "x \<in> set ?xs" for x using that by auto
  then have "(\<forall>x \<in> set ?xs. x \<le> used_seq_seed st) \<and> (\<exists>w :: i64. used_seq_seed st = sint w)"
  proof (cases ?xs)
    case Nil
    then show ?thesis by (auto simp: used_seq_seed_def intro: exI [of _ 0])
  next
    case (Cons s ss)
    with fold_max_ge fold_max_in [of ss s] \<open>\<And>x. x \<in> set ?xs \<Longrightarrow> \<exists>w. x = sint w\<close>
    show ?thesis by (simp add: used_seq_seed_def)
  qed
  then show "\<forall>m \<in> set (st_blob_meta st). sint (bm_used_seq m) \<le> used_seq_seed st"
    "\<exists>w :: i64. used_seq_seed st = sint w" by auto
qed

lemma store_open_seq_ok: "seq_ok (store_open quota st)"
proof -
  obtain w :: i64 where w: "used_seq_seed st = sint w" using used_seq_seed_bounds(2) by blast
  then have "sint (of_int (max (used_seq_seed st) 0) :: i64) = max (used_seq_seed st) 0"
    by (simp add: max_def)
  with used_seq_seed_bounds(1) [of st] show ?thesis
    by (fastforce simp: seq_ok_def store_open_def list_all_iff)
qed

lemma sint_succ: "sint v < 2 ^ 63 - 1 \<Longrightarrow> sint (v + 1 :: i64) = sint v + 1"
  using sint_ge [of v] by (simp add: signed_take_bit_int_eq_self sint_word_ariths)

lemma map_update_where: "(\<And>r. g (f r) = g r) \<Longrightarrow> map g (update_where P f rs) = map g rs"
  by (simp add: update_where_def)

definition blob_row :: "'x crates_scheme \<Rightarrow> content_hash \<Rightarrow> store \<Rightarrow> blob_meta option" where
  "blob_row X h st = find (\<lambda>m. bm_digest m = to_hex X h) (st_blob_meta st)"

text \<open>
  A blob that was put can be read back: the bytes of the first write stay, whatever is put
  under the same digest later, other digests are unaffected, and reading or writing a blob makes it
  the most recently used one. The LRU counter of a reopened store is ahead of all recorded uses.
\<close>

theorem put_blob_read_blob:
  assumes "env_ok E" "seq_ok st" "sint (st_used_seq st) < 2 ^ 63 - 2" "st' = put_blob E h bs st"
  shows "has_blob E h st' \<and> seq_ok st' \<and> seq_ok (snd (read_blob E h st')) \<and>
    fst (read_blob E h st') = Inr (case st_files st (shard_path E h) of None \<Rightarrow> bs | Some old \<Rightarrow> old) \<and>
    (\<forall>g. g \<noteq> h \<longrightarrow> has_blob E g st' = has_blob E g st \<and> fst (read_blob E g st') = fst (read_blob E g st)) \<and>
    (\<exists>m. blob_row E h st' = Some m \<and>
       (\<forall>m' \<in> set (st_blob_meta st'). bm_digest m' \<noteq> bm_digest m \<longrightarrow> sint (bm_used_seq m') < sint (bm_used_seq m)))"
proof -
  have files: "st_files st' (shard_path E h) = Some (case st_files st (shard_path E h) of None \<Rightarrow> bs | Some old \<Rightarrow> old)"
    by (auto simp: assms(4) put_blob_def write_file_def next_used_seq_def Let_def split: option.splits)
  have seq: "st_used_seq st' = st_used_seq st + 1"
    by (simp add: assms(4) put_blob_def write_file_def next_used_seq_def Let_def)
  have other: "st_files st' (shard_path E g) = st_files st (shard_path E g)" if "g \<noteq> h" for g
  proof -
    have "shard_path E g \<noteq> shard_path E h"
      using that to_hex_inj [OF env_okD [OF assms(1)]] by (auto simp: shard_path_def Let_def)
    then show ?thesis by (simp add: assms(4) put_blob_def write_file_def next_used_seq_def Let_def)
  qed
  have meta: "st_blob_meta st' = (if to_hex E h \<in> set (map bm_digest (st_blob_meta st))
      then update_where (\<lambda>m. bm_digest m = to_hex E h) (\<lambda>m. m\<lparr>bm_used_seq := st_used_seq st + 1\<rparr>) (st_blob_meta st)
      else st_blob_meta st @ [\<lparr>bm_digest = to_hex E h, bm_size = of_nat (length bs), bm_used_seq = st_used_seq st + 1\<rparr>])"
    by (simp add: assms(4) put_blob_def write_file_def next_used_seq_def Let_def)
  have old: "sint (bm_used_seq m) \<le> sint (st_used_seq st)" if "m \<in> set (st_blob_meta st)" for m
    using assms(2) that by (simp add: seq_ok_def list_all_iff)
  have s1: "sint (st_used_seq st + 1) = sint (st_used_seq st) + 1" using assms(3) by (intro sint_succ) simp
  have s2: "sint (st_used_seq st + 1 + 1) = sint (st_used_seq st) + 2"
    using sint_succ [of "st_used_seq st + 1"] s1 assms(3) by simp
  have rows: "sint (bm_used_seq m) \<le> sint (st_used_seq st) \<or> bm_digest m = to_hex E h \<and> bm_used_seq m = st_used_seq st + 1"
    "bm_digest m = to_hex E h \<longrightarrow> bm_used_seq m = st_used_seq st + 1"
    if "m \<in> set (st_blob_meta st')" for m
    using that old unfolding meta update_where_def by (fastforce simp: image_iff split: if_splits)+
  have ok': "seq_ok st'"
    using rows assms(2) s1 unfolding seq_ok_def list_all_iff seq by fastforce
  have "to_hex E h \<in> set (map bm_digest (st_blob_meta st'))"
    unfolding meta by (simp add: map_update_where del: set_map)
  then have "\<exists>m \<in> set (st_blob_meta st'). bm_digest m = to_hex E h" by auto
  then obtain m where m: "blob_row E h st' = Some m"
    unfolding blob_row_def by (metis (mono_tags, lifting) find_None_iff not_None_eq)
  have "m \<in> set (st_blob_meta st')" "bm_digest m = to_hex E h"
    using find_SomeD [OF m [unfolded blob_row_def]] by blast+
  then have "\<forall>m' \<in> set (st_blob_meta st'). bm_digest m' \<noteq> bm_digest m \<longrightarrow> sint (bm_used_seq m') < sint (bm_used_seq m)"
    using rows s1 by fastforce
  moreover have "seq_ok (snd (read_blob E h st'))"
    using ok' s1 s2 assms(2) unfolding read_blob_def seq_ok_def list_all_iff files
    by (auto simp: next_used_seq_def update_where_def seq)
  ultimately show ?thesis
    using files other ok' m by (auto simp: has_blob_def read_blob_def next_used_seq_def Let_def split: option.splits)
qed

theorem put_blob_read_blob_witness:
  "fst (read_blob sample_env (hash_of sample_crates [1]) (put_blob sample_env (hash_of sample_crates [1]) [1] (fresh_store 100))) = Inr [1]"
proof -
  have "seq_ok (fresh_store 100)" "sint (st_used_seq (fresh_store 100)) < 2 ^ 63 - 2"
    by (simp_all add: seq_ok_def fresh_store_def)
  from put_blob_read_blob [OF sample_env_ok this refl, of "hash_of sample_crates [1]" "[1]"]
  show ?thesis by (simp add: fresh_store_def)
qed

section \<open>Reachable stores\<close>

inductive store_step :: "env \<Rightarrow> store \<Rightarrow> store \<Rightarrow> bool" for E where
  step_insert: "clip_wf c \<Longrightarrow> store_step E st (snd (store_insert E c st))"
| step_pin: "store_step E st (snd (set_pinned E i b t st))"
| step_delete: "store_step E st (snd (store_delete E now i t st))"
| step_purge: "store_step E st (snd (purge_tombstones E now age st))"
| step_quota: "store_step E st (snd (enforce_blob_quota E st))"
| step_put: "store_step E st (put_blob E h bs st)"
| step_read: "store_step E st (snd (read_blob E h st))"
| step_reopen: "store_step E st (store_open quota st)"

inductive reachable_store :: "env \<Rightarrow> store \<Rightarrow> bool" for E where
  init: "reachable_store E (fresh_store quota)"
| step: "reachable_store E st \<Longrightarrow> store_step E st st' \<Longrightarrow> reachable_store E st'"

inductive_cases store_stepE: "store_step E st st'"

lemma store_ok_cong:
  "st_clip st' = st_clip st \<Longrightarrow> st_payload st' = st_payload st \<Longrightarrow> store_ok X st' = store_ok X st"
  by (simp add: store_ok_def live_rows_def)

lemma evict_keeps_rows:
  "st_clip (snd (evict E cs used n freed st)) = st_clip st \<and> st_payload (snd (evict E cs used n freed st)) = st_payload st"
  by (induction E cs used n freed st rule: evict.induct) (simp_all add: remove_blob_def split: sum.split)

lemma prune_keeps_rows:
  "st_clip (snd (prune_list E hs st)) = st_clip st \<and> st_payload (snd (prune_list E hs st)) = st_payload st"
  by (induction E hs st rule: prune_list.induct) (simp_all add: remove_blob_def split: sum.split)

lemma quota_keeps_rows:
  "st_clip (snd (enforce_blob_quota E st)) = st_clip st \<and> st_payload (snd (enforce_blob_quota E st)) = st_payload st"
  using evict_keeps_rows [of E]
  by (auto simp: enforce_blob_quota_def Let_def split: sum.splits prod.splits) (metis snd_conv)+

lemma purge_store_ok: "store_ok E st \<Longrightarrow> store_ok E (snd (purge_tombstones E now age st))"
proof -
  assume ok: "store_ok E st"
  let ?st = "delete_rows (purgeable (sat_sub now age)) st"
  obtain res st' where p: "prune_orphan_blobs E ?st = (res, st')" by fastforce
  then have rows: "st_clip st' = st_clip ?st" "st_payload st' = st_payload ?st"
    unfolding prune_orphan_blobs_def using prune_keeps_rows by (metis snd_conv)+
  show ?thesis
  proof (cases res)
    case (Inl e)
    then show ?thesis using ok p by (simp add: purge_tombstones_def Let_def store_ok_def live_rows_def)
  next
    case (Inr u)
    then have "snd (purge_tombstones E now age st) = st'" using p by (simp add: purge_tombstones_def Let_def)
    then show ?thesis using iffD2 [OF store_ok_cong [OF rows] delete_rows_ok [OF ok]] by simp
  qed
qed

lemma blob_ops_keep_rows:
  "st_clip (put_blob E h bs st) = st_clip st" "st_payload (put_blob E h bs st) = st_payload st"
  "st_clip (snd (read_blob E h st)) = st_clip st" "st_payload (snd (read_blob E h st)) = st_payload st"
  "st_clip (store_open quota st) = st_clip st" "st_payload (store_open quota st) = st_payload st"
  by (auto simp: put_blob_def read_blob_def write_file_def next_used_seq_def store_open_def Let_def split: option.splits)

lemma store_step_ok:
  assumes "env_ok E" "store_step E st st'" "store_ok E st"
  shows "store_ok E st'"
  using assms(2)
proof cases
  case (step_insert c)
  then show ?thesis using insert_keeps_ok [OF assms(1,3)] by simp
next
  case (step_pin i b t)
  then show ?thesis using set_pinned_history [OF assms(1,3)] by (metis prod.collapse)
next
  case (step_delete now i t)
  then show ?thesis using delete_history [OF assms(1,3)] by (metis prod.collapse)
next
  case step_purge
  then show ?thesis using purge_store_ok [OF assms(3)] by simp
next
  case step_quota
  then show ?thesis using assms(3) quota_keeps_rows by (metis store_ok_cong)
qed (use assms(3) blob_ops_keep_rows in \<open>metis store_ok_cong\<close>)+

lemma reachable_store_ok: "reachable_store E st \<Longrightarrow> env_ok E \<Longrightarrow> store_ok E st"
proof (induction rule: reachable_store.induct)
  case (init quota)
  show ?case by (simp add: store_ok_def fresh_store_def live_rows_def)
next
  case (step st st')
  then show ?case using store_step_ok by blast
qed

text \<open>
  C19. No sequence of store operations, with any clips, timestamps, clock readings and
  reopenings, breaks the invariant of the tables: ids are unique, at most one live clip has a given
  content hash, every payload belongs to a clip. So no read of the history ever fails.
\<close>

theorem reachable_store_reads:
  assumes "env_ok E" "reachable_store E st"
  shows "distinct (map c_id (history E st)) \<and>
    distinct (map c_hash (filter (\<lambda>c. \<not> c_deleted c) (history E st))) \<and>
    (\<exists>cs. recent E q st = Inr cs) \<and> (\<exists>cs. search E s q st = Inr cs) \<and>
    (\<exists>cs. changes_since E cursor limit st = Inr cs) \<and>
    store_get E i st = Inr (find (\<lambda>c. c_id c = i) (history E st)) \<and>
    by_hash E h st = Inr (find (\<lambda>c. c_hash c = h \<and> \<not> c_deleted c) (history E st))"
proof (intro conjI)
  note ok = reachable_store_ok [OF assms(2,1)]
  show "distinct (map c_id (history E st))" by (rule distinct_ids [OF assms(1) ok])
  show "distinct (map c_hash (filter (\<lambda>c. \<not> c_deleted c) (history E st)))" by (rule distinct_live_hashes [OF assms(1) ok])
  show "\<exists>cs. recent E q st = Inr cs" "\<exists>cs. search E s q st = Inr cs" "\<exists>cs. changes_since E cursor limit st = Inr cs"
    using reads_never_fail [OF assms(1) ok] by blast+
  show "store_get E i st = Inr (find (\<lambda>c. c_id c = i) (history E st))" by (rule store_get_history [OF assms(1) ok])
  show "by_hash E h st = Inr (find (\<lambda>c. c_hash c = h \<and> \<not> c_deleted c) (history E st))"
    by (rule by_hash_history [OF assms(1) ok])
qed

theorem reachable_store_reads_witness:
  "reachable_store sample_env (snd (store_delete sample_env 9 (ClipId 1) (Hlc 8 0 (DeviceId 2)) sample_store)) \<and>
   by_hash sample_env (c_hash (sample_clip 5 False False)) sample_store = Inr (Some (norm_clip (sample_clip 5 False False)))"
proof -
  have r: "reachable_store sample_env sample_store"
    unfolding sample_store_def by (rule reachable_store.step [OF reachable_store.init step_insert [OF clip_wf_sample]])
  then have "reachable_store sample_env (snd (store_delete sample_env 9 (ClipId 1) (Hlc 8 0 (DeviceId 2)) sample_store))"
    by (rule reachable_store.step [OF _ step_delete])
  moreover have "c_hash (norm_clip (sample_clip 5 False False)) = c_hash (sample_clip 5 False False)"
    "\<not> c_deleted (norm_clip (sample_clip 5 False False))"
    by (simp_all add: norm_clip_def sample_clip_def clip_new_def Let_def)
  ultimately show ?thesis
    using reachable_store_reads [OF sample_env_ok r] by (simp add: sample_store_history(2))
qed

end
