(* ===== verification/Ipc_Protocol.thy ===== *)
theory Ipc_Protocol
  imports Clip_Model
begin

text \<open>
  The messages between the daemon and its user interfaces (\<open>clipse-ipc/src/protocol.rs\<close>): one type
  per Rust type, with a prefix on the constructors of the enums whose names overlap. An error response
  carries its code; the sentence for the log that goes with it is left out.
\<close>

record settings =
  s_hotkey :: ustr
  s_apply_incoming_to_clipboard :: bool
  s_blob_quota_bytes :: u64
  s_blocked_apps :: "ustr list"
  s_detect_secrets :: bool
  s_sync_enabled :: bool
  s_announce_on_network :: bool
  s_start_at_login :: bool
  s_device_label :: ustr

text \<open>\<open>Settings::default()\<close>; the label is what the environment variables say.\<close>

definition default_device_label :: "ustr option \<Rightarrow> ustr option \<Rightarrow> ustr" where
  "default_device_label computername hostname =
     (case computername of Some n \<Rightarrow> n
      | None \<Rightarrow> (case hostname of Some n \<Rightarrow> n | None \<Rightarrow> lit ''This device''))"

definition default_settings :: "ustr \<Rightarrow> settings" where
  "default_settings label_text =
     \<lparr>s_hotkey = lit ''CmdOrCtrl+Shift+V'', s_apply_incoming_to_clipboard = True,
      s_blob_quota_bytes = 2 * 1024 * 1024 * 1024, s_blocked_apps = [], s_detect_secrets = True,
      s_sync_enabled = True, s_announce_on_network = True, s_start_at_login = True,
      s_device_label = label_text\<rparr>"

datatype capture_mode = Automatic | ManualPush ustr

datatype connectivity = Lan | Tailnet | Offline

record daemon_status =
  ds_device :: device_id
  ds_device_label :: ustr
  ds_daemon_version :: ustr
  ds_paused :: bool
  ds_capture_mode :: capture_mode
  ds_clip_count :: nat
  ds_blob_bytes :: u64
  ds_blob_quota_bytes :: u64
  ds_peers_online :: nat
  ds_peers_total :: nat
  ds_secrets_refused :: nat

record peer_info =
  pi_device :: device_id
  pi_label :: ustr
  pi_platform :: ustr
  pi_connectivity :: connectivity
  pi_last_seen_ms :: "u64 option"

datatype error_code = VersionMismatch | NotFoundCode | BadRequest | Unsupported | Internal

fun error_code_str :: "error_code \<Rightarrow> string" where
  "error_code_str VersionMismatch = ''version_mismatch''"
| "error_code_str NotFoundCode = ''not_found''"
| "error_code_str BadRequest = ''bad_request''"
| "error_code_str Unsupported = ''unsupported''"
| "error_code_str Internal = ''internal''"

record ipc_query =
  iq_limit :: u32
  iq_offset :: u32
  iq_kind :: "clip_kind option"
  iq_pinned_only :: bool

definition ipc_query_page :: "u32 \<Rightarrow> ipc_query" where
  "ipc_query_page n = \<lparr>iq_limit = n, iq_offset = 0, iq_kind = None, iq_pinned_only = False\<rparr>"

datatype request =
    ReqHello ustr u16
  | ReqHistory ipc_query
  | ReqSearch ustr ipc_query
  | ReqGetClip clip_id
  | ReqGetPayload clip_id clip_format
  | ReqApply clip_id
  | ReqPaste clip_id
  | ReqSetPinned clip_id bool
  | ReqDelete clip_id
  | ReqStatus
  | ReqSetPaused bool
  | ReqDevices
  | ReqForgetDevice device_id
  | ReqGetSettings
  | ReqUpdateSettings settings
  | ReqBeginPairing
  | ReqPairWithCode ustr
  | ReqCancelPairing
  | ReqSubscribe

datatype response =
    RespHello ustr u16 device_id
  | RespClips "clip list"
  | RespClip "clip option"
  | RespPayloadBytes "bytes option"
  | RespStatus daemon_status
  | RespDevices "peer_info list"
  | RespSettings settings
  | RespPairingCode ustr u64
  | RespPaired ustr
  | RespOk
  | RespError error_code

datatype event =
    ClipAdded clip
  | ClipUpdated clip
  | ClipRemoved clip_id
  | StatusChanged daemon_status
  | DeviceChanged peer_info
  | Suppressed ustr
  | PairingSucceeded ustr
  | PairingEnded ustr

datatype frame_body = FrameRequest request | FrameResponse response | FrameEvent event

record frame =
  fr_id :: u64
  fr_body :: frame_body

definition frame_request :: "u64 \<Rightarrow> request \<Rightarrow> frame" where
  "frame_request i r = \<lparr>fr_id = i, fr_body = FrameRequest r\<rparr>"

definition frame_response :: "u64 \<Rightarrow> response \<Rightarrow> frame" where
  "frame_response i r = \<lparr>fr_id = i, fr_body = FrameResponse r\<rparr>"

definition frame_event :: "event \<Rightarrow> frame" where
  "frame_event e = \<lparr>fr_id = 0, fr_body = FrameEvent e\<rparr>"

end
