(* ===== verification/Sync_Session.thy ===== *)
theory Sync_Session
  imports Store_Open Merge Echo_Guards Hlc_Clock Ipc_Protocol
begin

text \<open>
  One sync session between two daemons (\<open>clipsed/src/sync.rs\<close>, messages of
  \<open>clipse-sync/src/message.rs\<close>). The session code is translated into a process: what it does next
  is to send or receive a message on the control stream, to send or receive a blob stream, to act
  on the state of its own daemon, or to return. The continuation after a receive is a function of
  what arrives, so the process is the code itself, read as a tree of its interactions.

  A process is coinductive because the code that reads summary pages loops until the peer says that
  a page was the last one; a peer that never says so keeps it reading for ever.

  An error of the link ends the session at the operation that met it, with no further effect: it
  is the same as stopping the process there. The store calls that merge one clip are one atomic
  action here.
\<close>

section \<open>Messages\<close>

record clip_summary =
  cs_hash :: content_hash
  cs_hlc :: hlc
  cs_kind :: clip_kind
  cs_pinned :: bool
  cs_deleted :: bool
  cs_total_size :: u64

definition summary_of :: "clip \<Rightarrow> clip_summary" where
  "summary_of c = \<lparr>cs_hash = c_hash c, cs_hlc = c_hlc c, cs_kind = c_kind c, cs_pinned = c_pinned c,
     cs_deleted = c_deleted c, cs_total_size = total_size c\<rparr>"

datatype sync_message =
    Hello device_id u64 u16 "hlc option" ustr ustr
  | Summary "clip_summary list" bool
  | Want "content_hash list"
  | Push clip
  | BlobOffer content_hash u64 u32
  | BlobWant content_hash u32
  | BlobChunk content_hash u32 bytes
  | BlobEnd content_hash
  | Ack hlc
  | Bye ustr

fun variant_name :: "sync_message \<Rightarrow> string" where
  "variant_name (Hello _ _ _ _ _ _) = ''Hello''"
| "variant_name (Summary _ _) = ''Summary''"
| "variant_name (Want _) = ''Want''"
| "variant_name (Push _) = ''Push''"
| "variant_name (BlobOffer _ _ _) = ''BlobOffer''"
| "variant_name (BlobWant _ _) = ''BlobWant''"
| "variant_name (BlobChunk _ _ _) = ''BlobChunk''"
| "variant_name (BlobEnd _) = ''BlobEnd''"
| "variant_name (Ack _) = ''Ack''"
| "variant_name (Bye _) = ''Bye''"

definition PROTOCOL_VERSION :: u16 where
  "PROTOCOL_VERSION = 1"

section \<open>State and outcome\<close>

datatype role = Dialler | Responder

datatype sync_error =
    StoreE store_error
  | ProtocolMismatch u16 u16
  | Unexpected string string
  | IdentityMismatch device_id device_id

record sync_outcome =
  so_sent :: nat
  so_received :: nat
  so_rejected :: nat
  so_blobs_sent :: nat
  so_blobs_received :: nat
  so_blobs_rejected :: nat
  so_newest_received :: "clip_id option"

definition default_outcome :: sync_outcome where
  "default_outcome = \<lparr>so_sent = 0, so_received = 0, so_rejected = 0, so_blobs_sent = 0,
     so_blobs_received = 0, so_blobs_rejected = 0, so_newest_received = None\<rparr>"

text \<open>What a session can reach of its daemon, with the readings of the system clock.\<close>

record sync_context =
  sx_store :: store
  sx_clock :: hlc_clock
  sx_loop_guard :: loop_guard
  sx_events :: "event list"
  sx_label :: ustr
  sx_platform :: ustr
  sx_now_ms :: u64

record peer_link =
  remote_device :: device_id
  link_epoch :: u64

codatatype 'r proc =
    Done 'r
  | SendMsg sync_message "'r proc"
  | RecvMsg "sync_message \<Rightarrow> 'r proc"
  | SendBlob bytes "'r proc"
  | RecvBlob "bytes \<Rightarrow> 'r proc"
  | Act "sync_context \<Rightarrow> sync_context \<times> 'r proc"

type_synonym session = "(sync_error + sync_outcome) proc"

definition fail :: "sync_error \<Rightarrow> session" where
  "fail e = Done (Inl e)"

text \<open>A store call that only reads, with the \<open>?\<close> on its result.\<close>

definition read_store :: "(store \<Rightarrow> store_error + 'a) \<Rightarrow> ('a \<Rightarrow> session) \<Rightarrow> session" where
  "read_store f k = Act (\<lambda>x. (x, case f (sx_store x) of Inl e \<Rightarrow> fail (StoreE e) | Inr a \<Rightarrow> k a))"

section \<open>Hello\<close>

definition send_hello :: "env \<Rightarrow> peer_link \<Rightarrow> session \<Rightarrow> session" where
  "send_hello E l k =
     Act (\<lambda>x. (x, case max_hlc E (sx_store x) of
        Inl e \<Rightarrow> fail (StoreE e)
      | Inr newest \<Rightarrow>
          SendMsg (Hello (clk_device (sx_clock x)) (link_epoch l) PROTOCOL_VERSION newest
            (sx_label x) (sx_platform x)) k))"

definition receive_hello :: "peer_link \<Rightarrow> (hlc option \<Rightarrow> session) \<Rightarrow> session" where
  "receive_hello l k =
     RecvMsg (\<lambda>m. case m of
        Hello device _ protocol newest _ _ \<Rightarrow>
          if protocol \<noteq> PROTOCOL_VERSION then fail (ProtocolMismatch protocol PROTOCOL_VERSION)
          else if device \<noteq> remote_device l then fail (IdentityMismatch device (remote_device l))
          else k newest
      | other \<Rightarrow> fail (Unexpected ''Hello'' (variant_name other)))"

section \<open>Our turn\<close>

definition SUMMARY_PAGE :: nat where
  "SUMMARY_PAGE = 200"

text \<open>The pages of a summary; only the last one is marked complete.\<close>

definition summary_messages :: "clip_summary list \<Rightarrow> sync_message list" where
  "summary_messages summaries =
     (if summaries = [] then [Summary [] True]
      else let pages = chunks SUMMARY_PAGE summaries
           in map (\<lambda>(i, p). Summary p (i + 1 = length pages)) (enumerate 0 pages))"

fun send_all :: "sync_message list \<Rightarrow> session \<Rightarrow> session" where
  "send_all [] k = k"
| "send_all (m # ms) k = SendMsg m (send_all ms k)"

fun push_found :: "clip option list \<Rightarrow> sync_outcome \<Rightarrow> (sync_outcome \<Rightarrow> session) \<Rightarrow> session" where
  "push_found [] r k = k r"
| "push_found (Some c # cs) r k = SendMsg (Push c) (push_found cs (r\<lparr>so_sent := so_sent r + 1\<rparr>) k)"
| "push_found (None # cs) r k = push_found cs r k"

fun send_blobs :: "env \<Rightarrow> content_hash list \<Rightarrow> sync_outcome \<Rightarrow> (sync_outcome \<Rightarrow> session) \<Rightarrow> session" where
  "send_blobs E [] r k = k r"
| "send_blobs E (d # ds) r k =
     Act (\<lambda>x. case read_blob E d (sx_store x) of
        (Inr bs, st) \<Rightarrow>
          (x\<lparr>sx_store := st\<rparr>, SendBlob bs (send_blobs E ds (r\<lparr>so_blobs_sent := so_blobs_sent r + 1\<rparr>) k))
      | (Inl _, st) \<Rightarrow> (x\<lparr>sx_store := st\<rparr>, SendBlob [] (send_blobs E ds r k)))"

definition await_ack :: "(sync_outcome \<Rightarrow> session) \<Rightarrow> sync_outcome \<Rightarrow> session" where
  "await_ack k r =
     RecvMsg (\<lambda>m. case m of
        Ack _ \<Rightarrow> k r
      | other \<Rightarrow> fail (Unexpected ''Ack'' (variant_name other)))"

definition serve_blobs :: "env \<Rightarrow> (sync_outcome \<Rightarrow> session) \<Rightarrow> sync_outcome \<Rightarrow> session" where
  "serve_blobs E k r =
     RecvMsg (\<lambda>m. case m of
        Want digests \<Rightarrow> send_blobs E digests r (await_ack k)
      | other \<Rightarrow> fail (Unexpected ''Want (blobs)'' (variant_name other)))"

definition serve_clips :: "env \<Rightarrow> (sync_outcome \<Rightarrow> session) \<Rightarrow> sync_outcome \<Rightarrow> session" where
  "serve_clips E k r =
     RecvMsg (\<lambda>m. case m of
        Want wanted \<Rightarrow>
          read_store (\<lambda>st. mapM_r (\<lambda>h. by_hash_including_deleted E h st) wanted)
            (\<lambda>found. push_found found r (serve_blobs E k))
      | other \<Rightarrow> fail (Unexpected ''Want'' (variant_name other)))"

definition offer_our_history :: "env \<Rightarrow> (sync_outcome \<Rightarrow> session) \<Rightarrow> sync_outcome \<Rightarrow> session" where
  "offer_our_history E k r =
     read_store (changes_since E None 100000)
       (\<lambda>clips. send_all (summary_messages (map summary_of clips)) (serve_clips E k r))"

section \<open>Merging one clip\<close>

datatype applied = AppliedInserted clip_id | AppliedUpdated | Refused

definition emit :: "event \<Rightarrow> sync_context \<Rightarrow> sync_context" where
  "emit ev x = x\<lparr>sx_events := sx_events x @ [ev]\<rparr>"

definition note_received :: "clip \<Rightarrow> sync_context \<Rightarrow> sync_context" where
  "note_received c x =
     x\<lparr>sx_loop_guard := record_received (sx_now_ms x) (c_hash c) (hlc_device (c_hlc c)) (sx_loop_guard x)\<rparr>"

definition apply_update :: "env \<Rightarrow> clip_id \<Rightarrow> bool \<Rightarrow> bool \<Rightarrow> hlc \<Rightarrow> sync_context \<Rightarrow>
    (store_error + unit) \<times> sync_context" where
  "apply_update E i pinned deleted t x =
     (case set_pinned E i pinned t (sx_store x) of
        (Inl e, st) \<Rightarrow> (Inl e, x\<lparr>sx_store := st\<rparr>)
      | (Inr _, st) \<Rightarrow>
          if deleted
          then case store_delete E (sx_now_ms x) i t st of
                 (Inl e, st') \<Rightarrow> (Inl e, x\<lparr>sx_store := st'\<rparr>)
               | (Inr _, st') \<Rightarrow> (Inr (), emit (ClipRemoved i) (x\<lparr>sx_store := st'\<rparr>))
          else (Inr (), case store_get E i st of
                          Inr (Some c) \<Rightarrow> emit (ClipUpdated c) (x\<lparr>sx_store := st\<rparr>)
                        | _ \<Rightarrow> x\<lparr>sx_store := st\<rparr>))"

definition apply_clip :: "env \<Rightarrow> clip \<Rightarrow> sync_context \<Rightarrow> (sync_error + applied) \<times> sync_context" where
  "apply_clip E c x =
     (case by_hash_including_deleted E (c_hash c) (sx_store x) of
        Inl e \<Rightarrow> (Inl (StoreE e), x)
      | Inr local \<Rightarrow>
          (case merge E local c of
             Reject \<Rightarrow> (Inr Refused, x)
           | Ignore \<Rightarrow> (Inr Refused, x)
           | Insert \<Rightarrow>
               (case store_insert E c (sx_store x) of
                  (Inl e, st) \<Rightarrow> (Inl (StoreE e), x\<lparr>sx_store := st\<rparr>)
                | (Inr _, st) \<Rightarrow>
                    (Inr (AppliedInserted (c_id c)), note_received c (emit (ClipAdded c) (x\<lparr>sx_store := st\<rparr>))))
           | UpdateMetadata pinned deleted \<Rightarrow>
               (case apply_update E (c_id (the local)) pinned deleted (c_hlc c) x of
                  (Inl e, x') \<Rightarrow> (Inl (StoreE e), x')
                | (Inr _, x') \<Rightarrow> (Inr AppliedUpdated, note_received c x'))))"

section \<open>Their turn\<close>

text \<open>
  The loop that reads summary pages. Its state is the entries read so far (\<open>Inr\<close>) or, once the
  loop is over, the rest of the session (\<open>Inl\<close>), which is then followed step by step;
  \<open>recv_summaries_loop\<close> below is the loop as the code writes it.
\<close>

definition next_page ::
    "(clip_summary list \<Rightarrow> session) \<Rightarrow> clip_summary list \<Rightarrow> sync_message \<Rightarrow> session + clip_summary list" where
  "next_page k acc m =
     (case m of
        Summary es complete \<Rightarrow> if complete then Inl (k (acc @ es)) else Inr (acc @ es)
      | other \<Rightarrow> Inl (fail (Unexpected ''Summary'' (variant_name other))))"

primcorec summary_loop ::
    "(clip_summary list \<Rightarrow> session) \<Rightarrow> session + clip_summary list \<Rightarrow> session" where
  "summary_loop k s =
     (case s of
        Inr acc \<Rightarrow> RecvMsg (\<lambda>m. summary_loop k (next_page k acc m))
      | Inl p \<Rightarrow>
          (case p of
             Done r \<Rightarrow> Done r
           | SendMsg m q \<Rightarrow> SendMsg m (summary_loop k (Inl q))
           | RecvMsg f \<Rightarrow> RecvMsg (\<lambda>m. summary_loop k (Inl (f m)))
           | SendBlob b q \<Rightarrow> SendBlob b (summary_loop k (Inl q))
           | RecvBlob f \<Rightarrow> RecvBlob (\<lambda>b. summary_loop k (Inl (f b)))
           | Act f \<Rightarrow> Act (\<lambda>x. map_prod id (\<lambda>q. summary_loop k (Inl q)) (f x))))"

definition recv_summaries :: "clip_summary list \<Rightarrow> (clip_summary list \<Rightarrow> session) \<Rightarrow> session" where
  "recv_summaries acc k = summary_loop k (Inr acc)"

definition wanted_of :: "env \<Rightarrow> clip_summary list \<Rightarrow> store \<Rightarrow> store_error + content_hash list" where
  "wanted_of E entries st =
     bind_r (mapM_r (\<lambda>s. bind_r (by_hash_including_deleted E (cs_hash s) st) (\<lambda>found.
               Inr (case found of None \<Rightarrow> True | Some existing \<Rightarrow> cs_hlc s > c_hlc existing))) entries)
       (\<lambda>takes. Inr (map (cs_hash \<circ> fst) (filter snd (zip entries takes))))"

type_synonym progress = "content_hash list \<times> (hlc \<times> clip_id) option \<times> sync_outcome"

fun count_push :: "clip \<Rightarrow> applied \<Rightarrow> progress \<Rightarrow> progress" where
  "count_push c (AppliedInserted i) (missing, newest, r) =
     (missing @ map p_digest (filter is_blob (c_payloads c)),
      (case newest of
         None \<Rightarrow> Some (c_hlc c, i)
       | Some (seen, j) \<Rightarrow> if c_hlc c > seen then Some (c_hlc c, i) else newest),
      r\<lparr>so_received := so_received r + 1\<rparr>)"
| "count_push c AppliedUpdated (missing, newest, r) =
     (missing @ map p_digest (filter is_blob (c_payloads c)), newest, r\<lparr>so_received := so_received r + 1\<rparr>)"
| "count_push c Refused (missing, newest, r) = (missing, newest, r\<lparr>so_rejected := so_rejected r + 1\<rparr>)"

fun recv_pushes :: "env \<Rightarrow> nat \<Rightarrow> progress \<Rightarrow> (progress \<Rightarrow> session) \<Rightarrow> session" where
  "recv_pushes E 0 g k = k g"
| "recv_pushes E (Suc n) g k =
     RecvMsg (\<lambda>m. case m of
        Push c \<Rightarrow>
          Act (\<lambda>x. case apply_clip E c x of
             (Inl e, x') \<Rightarrow> (x', fail e)
           | (Inr a, x') \<Rightarrow> (x', recv_pushes E n (count_push c a g) k))
      | other \<Rightarrow> fail (Unexpected ''Push'' (variant_name other)))"

fun needed_blobs :: "(content_hash \<Rightarrow> bool) \<Rightarrow> content_hash list \<Rightarrow> content_hash list \<Rightarrow> content_hash list" where
  "needed_blobs has [] needed = needed"
| "needed_blobs has (d # ds) needed =
     needed_blobs has ds (if \<not> has d \<and> d \<notin> set needed then needed @ [d] else needed)"

fun recv_blobs :: "env \<Rightarrow> content_hash list \<Rightarrow> sync_outcome \<Rightarrow> (sync_outcome \<Rightarrow> session) \<Rightarrow> session" where
  "recv_blobs E [] r k = k r"
| "recv_blobs E (d # ds) r k =
     RecvBlob (\<lambda>bs.
       if hash_of E bs \<noteq> d
       then recv_blobs E ds (r\<lparr>so_blobs_rejected := so_blobs_rejected r + 1\<rparr>) k
       else Act (\<lambda>x. (x\<lparr>sx_store := put_blob E d bs (sx_store x)\<rparr>,
              recv_blobs E ds (r\<lparr>so_blobs_received := so_blobs_received r + 1\<rparr>) k)))"

definition send_ack :: "env \<Rightarrow> session \<Rightarrow> session" where
  "send_ack E k =
     Act (\<lambda>x. case max_hlc E (sx_store x) of
        Inl e \<Rightarrow> (x, fail (StoreE e))
      | Inr (Some t) \<Rightarrow> (x, SendMsg (Ack t) k)
      | Inr None \<Rightarrow>
          (case clock_now (sx_now_ms x) (sx_clock x) of
             (t, clk) \<Rightarrow> (x\<lparr>sx_clock := clk\<rparr>, SendMsg (Ack t) k)))"

definition fetch_blobs :: "env \<Rightarrow> (sync_outcome \<Rightarrow> session) \<Rightarrow> progress \<Rightarrow> session" where
  "fetch_blobs E k g =
     (case g of (missing, newest, r) \<Rightarrow>
        Act (\<lambda>x. (x,
          let needed = needed_blobs (\<lambda>d. has_blob E d (sx_store x)) missing []
          in SendMsg (Want needed)
               (recv_blobs E needed r
                 (\<lambda>r. send_ack E (k (r\<lparr>so_newest_received := map_option snd newest\<rparr>)))))))"

definition fetch_clips :: "env \<Rightarrow> (sync_outcome \<Rightarrow> session) \<Rightarrow> sync_outcome \<Rightarrow> clip_summary list \<Rightarrow> session" where
  "fetch_clips E k r entries =
     read_store (wanted_of E entries)
       (\<lambda>wanted. SendMsg (Want wanted) (recv_pushes E (length wanted) ([], None, r) (fetch_blobs E k)))"

definition take_their_history :: "env \<Rightarrow> (sync_outcome \<Rightarrow> session) \<Rightarrow> sync_outcome \<Rightarrow> session" where
  "take_their_history E k r = recv_summaries [] (fetch_clips E k r)"

section \<open>The session\<close>

definition run_session :: "env \<Rightarrow> peer_link \<Rightarrow> role \<Rightarrow> session" where
  "run_session E l ro =
     (case ro of
        Dialler \<Rightarrow>
          send_hello E l (receive_hello l (\<lambda>_.
          offer_our_history E (take_their_history E (\<lambda>r. Done (Inr r))) default_outcome))
      | Responder \<Rightarrow>
          receive_hello l (\<lambda>_. send_hello E l (
          take_their_history E (offer_our_history E (\<lambda>r. Done (Inr r))) default_outcome)))"

section \<open>The loop as written\<close>

lemma summary_loop_done: "summary_loop k (Inl p) = p"
  by (coinduction arbitrary: p rule: proc.coinduct_strong)
    (auto split: proc.splits simp: rel_fun_def rel_prod_conv prod.map_comp split_beta)

lemma recv_summaries_loop:
  "recv_summaries acc k =
     RecvMsg (\<lambda>m. case m of
        Summary es complete \<Rightarrow> if complete then k (acc @ es) else recv_summaries (acc @ es) k
      | other \<Rightarrow> fail (Unexpected ''Summary'' (variant_name other)))"
  unfolding recv_summaries_def
  by (subst summary_loop.code) (auto simp: next_page_def summary_loop_done fun_eq_iff split: sync_message.split)

end
