(* ===== verification/Sync_Run.thy ===== *)
theory Sync_Run
  imports Sync_Session
begin

text \<open>
  Running two sessions against each other. Each direction has a control stream and a queue of blob
  streams, both bounded by a capacity (the flow-control window of the transport): a send waits
  while the peer's queue is full, a receive while the own queue is empty. The two sides run in any
  interleaving.

  Steps of the two sides commute, so the interleaving does not matter: if one schedule brings the
  pair to an end, every schedule does, in the same number of steps and with the same result.
\<close>

section \<open>Steps\<close>

record side =
  sd_proc :: session
  sd_ctx :: sync_context
  sd_ctl :: "sync_message list"
  sd_blobs :: "bytes list"

fun local_step :: "side \<Rightarrow> (side \<times> sync_message list \<times> bytes list) option" where
  "local_step s =
     (case sd_proc s of
        Done _ \<Rightarrow> None
      | SendMsg m p \<Rightarrow> Some (s\<lparr>sd_proc := p\<rparr>, [m], [])
      | RecvMsg f \<Rightarrow>
          (case sd_ctl s of [] \<Rightarrow> None | m # ms \<Rightarrow> Some (s\<lparr>sd_proc := f m, sd_ctl := ms\<rparr>, [], []))
      | SendBlob b p \<Rightarrow> Some (s\<lparr>sd_proc := p\<rparr>, [], [b])
      | RecvBlob f \<Rightarrow>
          (case sd_blobs s of [] \<Rightarrow> None | b # bs \<Rightarrow> Some (s\<lparr>sd_proc := f b, sd_blobs := bs\<rparr>, [], []))
      | Act f \<Rightarrow> (case f (sd_ctx s) of (x, p) \<Rightarrow> Some (s\<lparr>sd_ctx := x, sd_proc := p\<rparr>, [], [])))"

declare local_step.simps [simp del]

definition room :: "nat \<Rightarrow> sync_message list \<Rightarrow> bytes list \<Rightarrow> side \<Rightarrow> bool" where
  "room cap ms bs s \<longleftrightarrow> (ms = [] \<or> length (sd_ctl s) < cap) \<and> (bs = [] \<or> length (sd_blobs s) < cap)"

definition enqueue :: "sync_message list \<Rightarrow> bytes list \<Rightarrow> side \<Rightarrow> side" where
  "enqueue ms bs s = s\<lparr>sd_ctl := sd_ctl s @ ms, sd_blobs := sd_blobs s @ bs\<rparr>"

inductive net_step :: "nat \<Rightarrow> side \<times> side \<Rightarrow> side \<times> side \<Rightarrow> bool" for cap where
  left: "local_step a = Some (a', ms, bs) \<Longrightarrow> room cap ms bs b \<Longrightarrow> net_step cap (a, b) (a', enqueue ms bs b)"
| right: "local_step b = Some (b', ms, bs) \<Longrightarrow> room cap ms bs a \<Longrightarrow> net_step cap (a, b) (enqueue ms bs a, b')"

inductive_cases net_stepE: "net_step cap c d"

section \<open>Commuting steps\<close>

text \<open>What arrives in the meantime does not change what a side does next.\<close>

lemma local_step_enqueue:
  "local_step s = Some (s', ms, bs) \<Longrightarrow> local_step (enqueue ms' bs' s) = Some (enqueue ms' bs' s', ms, bs)"
  by (cases s) (auto simp: local_step.simps enqueue_def split: proc.splits list.splits prod.splits)

lemma local_step_room:
  "local_step s = Some (s', ms, bs) \<Longrightarrow> room cap ms' bs' s \<Longrightarrow> room cap ms' bs' s'"
  by (cases s) (auto simp: local_step.simps room_def split: proc.splits list.splits prod.splits)

lemma enqueue_commute:
  assumes a: "local_step a = Some (a', ms, bs)" and b: "local_step b = Some (b', ms', bs')"
    and ra: "room cap ms bs b" and rb: "room cap ms' bs' a"
  shows "net_step cap (a', enqueue ms bs b) (enqueue ms' bs' a', enqueue ms bs b') \<and>
    net_step cap (enqueue ms' bs' a, b') (enqueue ms' bs' a', enqueue ms bs b')"
proof
  show "net_step cap (a', enqueue ms bs b) (enqueue ms' bs' a', enqueue ms bs b')"
    by (rule net_step.right [OF local_step_enqueue [OF b] local_step_room [OF a rb]])
  show "net_step cap (enqueue ms' bs' a, b') (enqueue ms' bs' a', enqueue ms bs b')"
    by (rule net_step.left [OF local_step_enqueue [OF a] local_step_room [OF b ra]])
qed

lemma net_step_diamond:
  assumes "net_step cap c d" "net_step cap c e" "d \<noteq> e"
  shows "\<exists>f. net_step cap d f \<and> net_step cap e f"
  using assms(1)
proof cases
  case (left a a' ms bs b)
  note l = left
  from assms(2) show ?thesis
  proof cases
    case (right b' b'' ms' bs' a'')
    with l show ?thesis using enqueue_commute [of a a' ms bs b b'' ms' bs' cap] by auto
  qed (use l assms(3) in auto)
next
  case (right b b' ms bs a)
  note r = right
  from assms(2) show ?thesis
  proof cases
    case (left a'' a' ms' bs' b'')
    with r show ?thesis using enqueue_commute [of a a' ms' bs' b b' ms bs cap] by auto
  qed (use r assms(3) in auto)
qed

section \<open>Schedules do not matter\<close>

text \<open>Contract of a step relation whose diverging steps meet again in one step.\<close>

locale diamond =
  fixes R :: "'c \<Rightarrow> 'c \<Rightarrow> bool"
  assumes meet: "R c d \<Longrightarrow> R c e \<Longrightarrow> d \<noteq> e \<Longrightarrow> \<exists>f. R d f \<and> R e f"
begin

lemma first_step:
  assumes "(R ^^ Suc n) c f" "\<nexists>g. R f g" "R c d"
  shows "(R ^^ n) d f"
  using assms
proof (induction n arbitrary: c d)
  case 0
  then have "R c f" by (auto simp: OO_def)
  with 0 meet [of c f d] show ?case by auto
next
  case (Suc n)
  from Suc.prems(1) obtain e where e: "R c e" "(R ^^ Suc n) e f" by (meson relpowp_Suc_D2)
  show ?case
  proof (cases "d = e")
    case False
    with meet [OF Suc.prems(3) e(1)] obtain g where g: "R d g" "R e g" by blast
    have "(R ^^ n) g f" by (rule Suc.IH [OF e(2) Suc.prems(2) g(2)])
    with g(1) show ?thesis by (rule relpowp_Suc_I2)
  qed (use e in simp)
qed

text \<open>Every schedule leads to the same end, and none is longer.\<close>

lemma every_schedule:
  assumes "(R ^^ n) c f" "\<nexists>g. R f g" "(R ^^ m) c d"
  shows "m \<le> n \<and> (R ^^ (n - m)) d f"
  using assms
proof (induction m arbitrary: c n)
  case (Suc m)
  from Suc.prems(3) obtain e where e: "R c e" "(R ^^ m) e d" by (meson relpowp_Suc_D2)
  obtain n' where n: "n = Suc n'"
    using Suc.prems(1,2) e(1) by (cases n) auto
  have "(R ^^ n') e f" using first_step [of n' c f e] Suc.prems(1,2) e(1) n by blast
  from Suc.IH [OF this Suc.prems(2) e(2)] n show ?case by simp
qed simp

end

interpretation net: diamond "net_step cap" for cap
  by unfold_locales (rule net_step_diamond)

end
