(* ===== verification/Sync_Turn.thy ===== *)
theory Sync_Turn
  imports Sync_Run
begin

text \<open>
  What one turn of a session does when the other side runs the same code: the exchange of messages
  computes a function of the two daemon states. The side that listens ends with the merge of the
  pushed clips, and the interleaving and the capacity of the streams play no part.
\<close>

section \<open>Exchanges\<close>

definition conf :: "session \<Rightarrow> sync_context \<Rightarrow> session \<Rightarrow> sync_context \<Rightarrow> side \<times> side" where
  "conf p x q y =
     (\<lparr>sd_proc = p, sd_ctx = x, sd_ctl = [], sd_blobs = []\<rparr>,
      \<lparr>sd_proc = q, sd_ctx = y, sd_ctl = [], sd_blobs = []\<rparr>)"

abbreviation runs :: "nat \<Rightarrow> side \<times> side \<Rightarrow> side \<times> side \<Rightarrow> bool" where
  "runs cap \<equiv> (net_step cap)\<^sup>*\<^sup>*"

lemma net_step_swap: "net_step cap (a, b) (c, d) \<Longrightarrow> net_step cap (b, a) (d, c)"
  by (auto elim!: net_stepE intro: net_step.intros)

lemma runs_swap: "runs cap c d \<Longrightarrow> runs cap (prod.swap c) (prod.swap d)"
proof (induction rule: rtranclp_induct)
  case (step d e)
  then have "net_step cap (prod.swap d) (prod.swap e)"
    by (cases d; cases e) (simp add: net_step_swap)
  with step.IH show ?case by (rule rtranclp.rtrancl_into_rtrancl)
qed simp

lemma swap_conf [simp]: "prod.swap (conf p x q y) = conf q y p x"
  by (simp add: conf_def)

lemma exchange_msg:
  assumes "0 < cap"
  shows "runs cap (conf (SendMsg m p) x (RecvMsg f) y) (conf p x (f m) y)"
proof -
  let ?a = "\<lparr>sd_proc = p, sd_ctx = x, sd_ctl = [], sd_blobs = []\<rparr>"
  let ?b = "\<lparr>sd_proc = RecvMsg f, sd_ctx = y, sd_ctl = [m], sd_blobs = []\<rparr>"
  have "net_step cap (conf (SendMsg m p) x (RecvMsg f) y) (?a, ?b)"
    using net_step.left [of "fst (conf (SendMsg m p) x (RecvMsg f) y)" ?a "[m]" "[]" cap
      "snd (conf (SendMsg m p) x (RecvMsg f) y)"] assms
    by (simp add: conf_def local_step.simps room_def enqueue_def)
  moreover have "net_step cap (?a, ?b) (conf p x (f m) y)"
    using net_step.right [of ?b "snd (conf p x (f m) y)" "[]" "[]" cap ?a]
    by (simp add: conf_def local_step.simps room_def enqueue_def)
  ultimately show ?thesis by (meson converse_rtranclp_into_rtranclp rtranclp.rtrancl_refl)
qed

lemma exchange_blob:
  assumes "0 < cap"
  shows "runs cap (conf (SendBlob m p) x (RecvBlob f) y) (conf p x (f m) y)"
proof -
  let ?a = "\<lparr>sd_proc = p, sd_ctx = x, sd_ctl = [], sd_blobs = []\<rparr>"
  let ?b = "\<lparr>sd_proc = RecvBlob f, sd_ctx = y, sd_ctl = [], sd_blobs = [m]\<rparr>"
  have "net_step cap (conf (SendBlob m p) x (RecvBlob f) y) (?a, ?b)"
    using net_step.left [of "fst (conf (SendBlob m p) x (RecvBlob f) y)" ?a "[]" "[m]" cap
      "snd (conf (SendBlob m p) x (RecvBlob f) y)"] assms
    by (simp add: conf_def local_step.simps room_def enqueue_def)
  moreover have "net_step cap (?a, ?b) (conf p x (f m) y)"
    using net_step.right [of ?b "snd (conf p x (f m) y)" "[]" "[]" cap ?a]
    by (simp add: conf_def local_step.simps room_def enqueue_def)
  ultimately show ?thesis by (meson converse_rtranclp_into_rtranclp rtranclp.rtrancl_refl)
qed

lemma act_left: "f x = (x', p) \<Longrightarrow> runs cap (conf (Act f) x q y) (conf p x' q y)"
  using net_step.left [of "fst (conf (Act f) x q y)" "fst (conf p x' q y)" "[]" "[]" cap "snd (conf p x' q y)"]
  by (simp add: conf_def local_step.simps room_def enqueue_def r_into_rtranclp)

lemma exchange_msg_to: "0 < cap \<Longrightarrow> f m = q \<Longrightarrow> runs cap (conf (SendMsg m p) x (RecvMsg f) y) (conf p x q y)"
  using exchange_msg by blast

lemma exchange_blob_to: "0 < cap \<Longrightarrow> f m = q \<Longrightarrow> runs cap (conf (SendBlob m p) x (RecvBlob f) y) (conf p x q y)"
  using exchange_blob by blast

text \<open>The same with the sides exchanged.\<close>

lemma exchange_msg_back:
  "0 < cap \<Longrightarrow> f m = q \<Longrightarrow> runs cap (conf (RecvMsg f) x (SendMsg m p) y) (conf q x p y)"
  using runs_swap [OF exchange_msg_to] by (metis swap_conf)

lemma act_right: "f y = (y', q) \<Longrightarrow> runs cap (conf p x (Act f) y) (conf p x q y')"
  using runs_swap [OF act_left] by (metis swap_conf)

lemma read_store_left: "g (sx_store x) = Inr a \<Longrightarrow> runs cap (conf (read_store g k) x q y) (conf (k a) x q y)"
  by (simp add: read_store_def act_left)

lemma read_store_right: "g (sx_store y) = Inr a \<Longrightarrow> runs cap (conf p x (read_store g k) y) (conf p x (k a) y)"
  by (simp add: read_store_def act_right)

section \<open>Summaries\<close>

lemma summary_messages_pages:
  "\<exists>ps q. summary_messages ss = map (\<lambda>p. Summary p False) ps @ [Summary q True] \<and> concat ps @ q = ss"
proof (cases "ss = []")
  case False
  let ?pages = "chunks SUMMARY_PAGE ss"
  have "?pages \<noteq> []" using False by (subst chunks.simps) (simp add: SUMMARY_PAGE_def)
  then obtain ps q where pq: "?pages = ps @ [q]" by (metis append_butlast_last_id)
  have "concat ps @ q = ss" using concat_chunks [of SUMMARY_PAGE ss] pq by (simp add: SUMMARY_PAGE_def)
  moreover have "map (\<lambda>(i, p). Summary p (i + 1 = length ?pages)) (enumerate 0 ?pages) =
      map (\<lambda>p. Summary p False) ps @ [Summary q True]"
    by (rule nth_equalityI) (auto simp: pq nth_enumerate_eq nth_append)
  ultimately show ?thesis using False by (auto simp: summary_messages_def Let_def)
qed (auto simp: summary_messages_def intro!: exI [of _ "[]"])

lemma run_pages:
  assumes "0 < cap"
  shows "runs cap (conf (send_all (map (\<lambda>p. Summary p False) ps @ [Summary q True]) k) x (recv_summaries acc k') y)
    (conf k x (k' (acc @ concat ps @ q)) y)"
proof (induction ps arbitrary: acc)
  case Nil
  show ?case
    by (subst recv_summaries_loop) (simp add: exchange_msg_to [OF assms])
next
  case (Cons p ps)
  have "runs cap (conf (send_all (map (\<lambda>p. Summary p False) (p # ps) @ [Summary q True]) k) x (recv_summaries acc k') y)
      (conf (send_all (map (\<lambda>p. Summary p False) ps @ [Summary q True]) k) x (recv_summaries (acc @ p) k') y)"
    by (subst recv_summaries_loop) (simp add: exchange_msg_to [OF assms])
  also note Cons.IH
  finally show ?case by simp
qed

lemma run_summary:
  assumes "0 < cap"
  shows "runs cap (conf (send_all (summary_messages ss) k) x (recv_summaries [] k') y) (conf k x (k' ss) y)"
proof -
  obtain ps q where "summary_messages ss = map (\<lambda>p. Summary p False) ps @ [Summary q True]" "concat ps @ q = ss"
    using summary_messages_pages by blast
  with run_pages [OF assms, of ps q k x "[]" k' y] show ?thesis by simp
qed

section \<open>Pushes\<close>

fun apply_all :: "env \<Rightarrow> clip list \<Rightarrow> progress \<Rightarrow> sync_context \<Rightarrow> (sync_error + progress) \<times> sync_context" where
  "apply_all E [] g y = (Inr g, y)"
| "apply_all E (c # cs) g y =
     (case apply_clip E c y of
        (Inl e, y') \<Rightarrow> (Inl e, y')
      | (Inr a, y') \<Rightarrow> apply_all E cs (count_push c a g) y')"

lemma run_pushes:
  assumes "0 < cap" "apply_all E cs g y = (Inr g', y')"
  shows "runs cap (conf (push_found (map Some cs) r k) x (recv_pushes E (length cs) g k') y)
    (conf (k (r\<lparr>so_sent := so_sent r + length cs\<rparr>)) x (k' g') y')"
  using assms(2)
proof (induction cs arbitrary: g y r)
  case (Cons c cs)
  obtain a y1 where a: "apply_clip E c y = (Inr a, y1)" "apply_all E cs (count_push c a g) y1 = (Inr g', y')"
    using Cons.prems by (auto split: prod.splits sum.splits)
  let ?p = "push_found (map Some cs) (r\<lparr>so_sent := so_sent r + 1\<rparr>) k"
  have "runs cap (conf (push_found (map Some (c # cs)) r k) x (recv_pushes E (length (c # cs)) g k') y)
      (conf ?p x (Act (\<lambda>x. case apply_clip E c x of (Inl e, x') \<Rightarrow> (x', fail e)
           | (Inr a, x') \<Rightarrow> (x', recv_pushes E (length cs) (count_push c a g) k'))) y)"
    by (simp add: exchange_msg_to [OF assms(1)])
  also have "runs cap \<dots> (conf ?p x (recv_pushes E (length cs) (count_push c a g) k') y1)"
    by (rule act_right) (simp add: a)
  also have "runs cap \<dots> (conf (k (r\<lparr>so_sent := so_sent r + 1 + length cs\<rparr>)) x (k' g') y')"
    using Cons.IH [OF a(2), of "r\<lparr>so_sent := so_sent r + 1\<rparr>"] by simp
  finally show ?case by simp
qed simp

section \<open>Blobs\<close>

fun transfer_blobs :: "env \<Rightarrow> content_hash list \<Rightarrow> sync_context \<times> sync_outcome \<Rightarrow> sync_context \<times> sync_outcome \<Rightarrow>
    (sync_context \<times> sync_outcome) \<times> (sync_context \<times> sync_outcome)" where
  "transfer_blobs E [] a b = (a, b)"
| "transfer_blobs E (d # ds) (x, r) (y, r') =
     (case read_blob E d (sx_store x) of
        (res, st) \<Rightarrow>
          let bs = (case res of Inr bs \<Rightarrow> bs | Inl _ \<Rightarrow> []);
              r1 = (case res of Inr _ \<Rightarrow> r\<lparr>so_blobs_sent := so_blobs_sent r + 1\<rparr> | Inl _ \<Rightarrow> r)
          in transfer_blobs E ds (x\<lparr>sx_store := st\<rparr>, r1)
               (if hash_of E bs \<noteq> d then (y, r'\<lparr>so_blobs_rejected := so_blobs_rejected r' + 1\<rparr>)
                else (y\<lparr>sx_store := put_blob E d bs (sx_store y)\<rparr>,
                      r'\<lparr>so_blobs_received := so_blobs_received r' + 1\<rparr>)))"

lemma run_blobs:
  assumes "0 < cap" "transfer_blobs E ds (x, r) (y, r') = ((x2, r2), (y2, r2'))"
  shows "runs cap (conf (send_blobs E ds r k) x (recv_blobs E ds r' k') y) (conf (k r2) x2 (k' r2') y2)"
  using assms(2)
proof (induction ds arbitrary: x r y r')
  case (Cons d ds)
  obtain res st where rb: "read_blob E d (sx_store x) = (res, st)" by fastforce
  define bs where "bs = (case res of Inr bs \<Rightarrow> bs | Inl _ \<Rightarrow> [])"
  define r1 where "r1 = (case res of Inr _ \<Rightarrow> r\<lparr>so_blobs_sent := so_blobs_sent r + 1\<rparr> | Inl _ \<Rightarrow> r)"
  define y1 where "y1 = (if hash_of E bs \<noteq> d then y else y\<lparr>sx_store := put_blob E d bs (sx_store y)\<rparr>)"
  define r1' where "r1' = (if hash_of E bs \<noteq> d then r'\<lparr>so_blobs_rejected := so_blobs_rejected r' + 1\<rparr>
    else r'\<lparr>so_blobs_received := so_blobs_received r' + 1\<rparr>)"
  let ?x = "x\<lparr>sx_store := st\<rparr>" and ?q = "recv_blobs E (d # ds) r' k'"
  have tr: "transfer_blobs E ds (?x, r1) (y1, r1') = ((x2, r2), (y2, r2'))"
    using Cons.prems by (simp add: rb bs_def [symmetric] r1_def [symmetric] y1_def r1'_def Let_def split: if_splits)
  have "runs cap (conf (send_blobs E (d # ds) r k) x ?q y) (conf (SendBlob bs (send_blobs E ds r1 k)) ?x ?q y)"
    unfolding send_blobs.simps by (rule act_left) (auto simp: rb bs_def r1_def split: sum.split)
  also have "runs cap \<dots> (conf (send_blobs E ds r1 k) ?x (recv_blobs E ds r1' k') y1)"
  proof (cases "hash_of E bs = d")
    case False
    then show ?thesis by (simp add: exchange_blob_to [OF assms(1)] y1_def r1'_def)
  next
    case True
    have "runs cap (conf (SendBlob bs (send_blobs E ds r1 k)) ?x ?q y)
        (conf (send_blobs E ds r1 k) ?x (Act (\<lambda>x. (x\<lparr>sx_store := put_blob E d bs (sx_store x)\<rparr>, recv_blobs E ds r1' k'))) y)"
      using True by (simp add: exchange_blob_to [OF assms(1)] r1'_def)
    also have "runs cap \<dots> (conf (send_blobs E ds r1 k) ?x (recv_blobs E ds r1' k') y1)"
      by (rule act_right) (simp add: y1_def True)
    finally show ?thesis .
  qed
  also note Cons.IH [OF tr]
  finally show ?case .
qed simp

section \<open>A turn\<close>

definition ack_context :: "hlc option \<Rightarrow> sync_context \<Rightarrow> sync_context" where
  "ack_context newest y =
     (case newest of Some _ \<Rightarrow> y
      | None \<Rightarrow> y\<lparr>sx_clock := snd (clock_now (sx_now_ms y) (sx_clock y))\<rparr>)"

lemma run_ack:
  assumes "0 < cap" "max_hlc E (sx_store y) = Inr newest"
  shows "runs cap (conf (await_ack k r) x (send_ack E q) y) (conf (k r) x q (ack_context newest y))"
proof -
  obtain t clk where c: "clock_now (sx_now_ms y) (sx_clock y) = (t, clk)" by fastforce
  let ?t = "case newest of Some t \<Rightarrow> t | None \<Rightarrow> t"
  have s1: "runs cap (conf (await_ack k r) x (send_ack E q) y)
      (conf (await_ack k r) x (SendMsg (Ack ?t) q) (ack_context newest y))"
    unfolding send_ack_def using assms(2) c
    by (intro act_right) (auto simp: ack_context_def split: option.split)
  have s2: "runs cap (conf (await_ack k r) x (SendMsg (Ack ?t) q) (ack_context newest y))
      (conf (k r) x q (ack_context newest y))"
    unfolding await_ack_def by (rule exchange_msg_back [OF assms(1)]) simp
  show ?thesis by (rule rtranclp_trans [OF s1 s2])
qed

lemma run_serve_blobs:
  assumes cap: "0 < cap"
    and blobs: "transfer_blobs E (needed_blobs (\<lambda>d. has_blob E d (sx_store y)) missing []) (x, r) (y, r') =
      ((x2, r2), (y2, r2'))"
    and ack: "max_hlc E (sx_store y2) = Inr high"
  shows "runs cap (conf (serve_blobs E k r) x (fetch_blobs E k' (missing, newest, r')) y)
    (conf (k r2) x2 (k' (r2'\<lparr>so_newest_received := map_option snd newest\<rparr>)) (ack_context high y2))"
proof -
  let ?needed = "needed_blobs (\<lambda>d. has_blob E d (sx_store y)) missing []"
  let ?q = "\<lambda>r. send_ack E (k' (r\<lparr>so_newest_received := map_option snd newest\<rparr>))"
  have s1: "runs cap (conf (serve_blobs E k r) x (fetch_blobs E k' (missing, newest, r')) y)
      (conf (serve_blobs E k r) x (SendMsg (Want ?needed) (recv_blobs E ?needed r' ?q)) y)"
    unfolding fetch_blobs_def prod.case by (rule act_right) (simp add: Let_def)
  have s2: "runs cap (conf (serve_blobs E k r) x (SendMsg (Want ?needed) (recv_blobs E ?needed r' ?q)) y)
      (conf (send_blobs E ?needed r (await_ack k)) x (recv_blobs E ?needed r' ?q) y)"
    unfolding serve_blobs_def by (rule exchange_msg_back [OF cap]) simp
  have s3: "runs cap (conf (send_blobs E ?needed r (await_ack k)) x (recv_blobs E ?needed r' ?q) y)
      (conf (await_ack k r2) x2 (?q r2') y2)"
    by (rule run_blobs [OF cap blobs])
  show ?thesis by (rule rtranclp_trans [OF s1 rtranclp_trans [OF s2 rtranclp_trans [OF s3 run_ack [OF cap ack]]]])
qed

lemma length_mapM_r: "mapM_r f xs = Inr ys \<Longrightarrow> length ys = length xs"
  by (induction xs arbitrary: ys) (auto simp: bind_r_Inr)

lemma run_turn:
  assumes cap: "0 < cap"
    and clips: "changes_since E None 100000 (sx_store x) = Inr clips"
    and wanted: "wanted_of E (map summary_of clips) (sx_store y) = Inr wanted"
    and found: "mapM_r (\<lambda>h. by_hash_including_deleted E h (sx_store x)) wanted = Inr (map Some cs)"
    and pushed: "apply_all E cs ([], None, r') y = (Inr (missing, newest, r1'), y1)"
    and blobs: "transfer_blobs E (needed_blobs (\<lambda>d. has_blob E d (sx_store y1)) missing [])
      (x, r\<lparr>so_sent := so_sent r + length cs\<rparr>) (y1, r1') = ((x2, r2), (y2, r2'))"
    and ack: "max_hlc E (sx_store y2) = Inr high"
  shows "runs cap (conf (offer_our_history E k r) x (take_their_history E k' r') y)
    (conf (k r2) x2 (k' (r2'\<lparr>so_newest_received := map_option snd newest\<rparr>)) (ack_context high y2))"
proof -
  let ?p = "serve_clips E k r" and ?q = "fetch_clips E k' r'"
  let ?served = "\<lambda>found. push_found found r (serve_blobs E k)"
  let ?pushes = "recv_pushes E (length cs) ([], None, r') (fetch_blobs E k')"
  have len: "length wanted = length cs" using length_mapM_r [OF found] by simp
  have s1: "runs cap (conf (offer_our_history E k r) x (take_their_history E k' r') y)
      (conf (send_all (summary_messages (map summary_of clips)) ?p) x (recv_summaries [] ?q) y)"
    unfolding offer_our_history_def take_their_history_def by (rule read_store_left) (rule clips)
  have s2: "runs cap (conf (send_all (summary_messages (map summary_of clips)) ?p) x (recv_summaries [] ?q) y)
      (conf ?p x (?q (map summary_of clips)) y)"
    by (rule run_summary [OF cap])
  have s3: "runs cap (conf ?p x (?q (map summary_of clips)) y) (conf ?p x (SendMsg (Want wanted) ?pushes) y)"
    unfolding fetch_clips_def len [symmetric] by (rule read_store_right) (rule wanted)
  have s4: "runs cap (conf ?p x (SendMsg (Want wanted) ?pushes) y)
      (conf (read_store (\<lambda>st. mapM_r (\<lambda>h. by_hash_including_deleted E h st) wanted) ?served) x ?pushes y)"
    unfolding serve_clips_def by (rule exchange_msg_back [OF cap]) simp
  have s5: "runs cap (conf (read_store (\<lambda>st. mapM_r (\<lambda>h. by_hash_including_deleted E h st) wanted) ?served) x ?pushes y)
      (conf (?served (map Some cs)) x ?pushes y)"
    by (rule read_store_left) (rule found)
  have s6: "runs cap (conf (?served (map Some cs)) x ?pushes y)
      (conf (serve_blobs E k (r\<lparr>so_sent := so_sent r + length cs\<rparr>)) x (fetch_blobs E k' (missing, newest, r1')) y1)"
    by (rule run_pushes [OF cap pushed])
  note s7 = run_serve_blobs [OF cap blobs ack, of k k' newest]
  show ?thesis
    by (rule rtranclp_trans [OF s1 rtranclp_trans [OF s2 rtranclp_trans [OF s3
          rtranclp_trans [OF s4 rtranclp_trans [OF s5 rtranclp_trans [OF s6 s7]]]]]])
qed

end
