(* ===== verification/Sync_Convergence.thy ===== *)
theory Sync_Convergence
  imports Sync_Turn
begin

text \<open>
  What a complete session achieves. Under the contract of the store, merging a pushed clip is a
  simple function of the history; a turn folds it over the clips the listener asked for, and a
  session of two turns leaves both devices with the same timestamp, pin and deletion flag for every
  content hash. The hypotheses say where this is true: one row per content hash, and no content that
  is deleted on one side and newer and live on the other.
\<close>

section \<open>Contract of the store\<close>

text \<open>What the merge of metadata relies on: pinning and deleting touch one clip of the history.\<close>

locale clip_store =
  fixes ok :: "'s \<Rightarrow> bool"
    and hist :: "'s \<Rightarrow> clip list"
    and pin :: "clip_id \<Rightarrow> bool \<Rightarrow> hlc \<Rightarrow> 's \<Rightarrow> 's"
    and del :: "u64 \<Rightarrow> clip_id \<Rightarrow> hlc \<Rightarrow> 's \<Rightarrow> 's"
  assumes pin_ok: "ok s \<Longrightarrow> ok (pin i b t s)"
    and pin_hist: "ok s \<Longrightarrow> i \<in> c_id ` set (hist s) \<Longrightarrow>
      hist (pin i b t s) = map (\<lambda>c. if c_id c = i then c\<lparr>c_pinned := b, c_hlc := t\<rparr> else c) (hist s)"
    and del_ok: "ok s \<Longrightarrow> ok (del now i t s)"
    and del_hist: "ok s \<Longrightarrow> hist (del now i t s) =
      map (\<lambda>c. if c_id c = i \<and> \<not> c_deleted c then c\<lparr>c_deleted := True, c_hlc := t\<rparr> else c) (hist s)"
begin

definition update :: "u64 \<Rightarrow> clip_id \<Rightarrow> bool \<Rightarrow> bool \<Rightarrow> hlc \<Rightarrow> 's \<Rightarrow> 's" where
  "update now i b d t s = (if d then del now i t (pin i b t s) else pin i b t s)"

lemma update_ok: "ok s \<Longrightarrow> ok (update now i b d t s)"
  by (simp add: update_def pin_ok del_ok)

text \<open>A deletion flag that is set stays set.\<close>

lemma update_hist:
  assumes "ok s" "i \<in> c_id ` set (hist s)"
  shows "hist (update now i b d t s) =
    map (\<lambda>c. if c_id c = i then c\<lparr>c_pinned := b, c_deleted := c_deleted c \<or> d, c_hlc := t\<rparr> else c) (hist s)"
  using assms by (auto simp: update_def del_hist pin_ok pin_hist)

end

interpretation sqlite: clip_store "\<lambda>st. env_ok E \<and> store_ok E st" "history E"
  "\<lambda>i b t st. snd (set_pinned E i b t st)" "\<lambda>now i t st. snd (store_delete E now i t st)" for E
proof
  fix st i b t now
  assume ok: "env_ok E \<and> store_ok E st"
  note p = set_pinned_history [OF conjunct1 [OF ok] conjunct2 [OF ok] surjective_pairing, of i b t]
  note d = delete_history [OF conjunct1 [OF ok] conjunct2 [OF ok] surjective_pairing, of now i t]
  show "env_ok E \<and> store_ok E (snd (set_pinned E i b t st))" using ok p by blast
  show "i \<in> c_id ` set (history E st) \<Longrightarrow> history E (snd (set_pinned E i b t st)) =
      map (\<lambda>c. if c_id c = i then c\<lparr>c_pinned := b, c_hlc := t\<rparr> else c) (history E st)"
    using p by simp
  show "env_ok E \<and> store_ok E (snd (store_delete E now i t st))" using ok d by blast
  show "history E (snd (store_delete E now i t st)) =
      map (\<lambda>c. if c_id c = i \<and> \<not> c_deleted c then c\<lparr>c_deleted := True, c_hlc := t\<rparr> else c) (history E st)"
    using d by blast
qed

section \<open>Merging into a history\<close>

definition lookup :: "content_hash \<Rightarrow> clip list \<Rightarrow> clip option" where
  "lookup h H = find (\<lambda>c. c_hash c = h) H"

definition take_meta :: "clip \<Rightarrow> clip \<Rightarrow> clip" where
  "take_meta c d = d\<lparr>c_pinned := c_pinned c, c_deleted := c_deleted d \<or> c_deleted c, c_hlc := c_hlc c\<rparr>"

definition hist_apply :: "clip \<Rightarrow> clip list \<Rightarrow> clip list" where
  "hist_apply c H =
     (case lookup (c_hash c) H of
        None \<Rightarrow> H @ [norm_clip c]
      | Some l \<Rightarrow>
          if c_hlc l < c_hlc c then map (\<lambda>d. if c_id d = c_id l then take_meta c d else d) H else H)"

lemma lookup_SomeD: "lookup h H = Some c \<Longrightarrow> c \<in> set H \<and> c_hash c = h"
  unfolding lookup_def by (rule find_SomeD)

lemma lookup_None_iff: "lookup h H = None \<longleftrightarrow> h \<notin> c_hash ` set H"
  by (auto simp: lookup_def find_None_iff)

lemma lookup_unique: "distinct (map c_hash H) \<Longrightarrow> c \<in> set H \<Longrightarrow> lookup (c_hash c) H = Some c"
  unfolding lookup_def by (rule find_unique) (auto simp: distinct_map dest: inj_onD)

text \<open>The lookup of the sync engine finds a row of the history whenever there is one for the hash.\<close>

lemma by_hash_including_deleted_cases:
  assumes "env_ok E" "store_ok E st"
  obtains "by_hash_including_deleted E h st = Inr None" "h \<notin> c_hash ` set (history E st)"
    | l where "by_hash_including_deleted E h st = Inr (Some l)" "l \<in> set (history E st)" "c_hash l = h"
proof (cases "sort_key (\<lambda>r. sint (rc_deleted r)) (filter (\<lambda>r. rc_hash r = to_hex E h) (sqlite_scan E (st_clip st)))")
  case Nil
  then have "filter (\<lambda>r. rc_hash r = to_hex E h) (sqlite_scan E (st_clip st)) = []"
    by (metis set_empty2 set_sort set_empty)
  then have "c_hash (abs_clip E st r) \<noteq> h" if "r \<in> set (st_clip st)" for r
    using hash_column [OF env_okD [OF assms(1)] assms(2) that] set_scan [OF assms(1)] that by (auto simp: filter_empty_conv)
  then have "h \<notin> c_hash ` set (history E st)" by (auto simp: history_def simp del: abs_clip_sel)
  with Nil that(1) show ?thesis by (simp add: by_hash_including_deleted_def lookup_by_hash_def)
next
  case (Cons r rs)
  then have "r \<in> set (filter (\<lambda>r. rc_hash r = to_hex E h) (sqlite_scan E (st_clip st)))"
    by (metis list.set_intros(1) set_sort)
  then have r: "r \<in> set (st_clip st)" "rc_hash r = to_hex E h" using set_scan [OF assms(1)] by auto
  then have "c_hash (abs_clip E st r) = h" using hash_column [OF env_okD [OF assms(1)] assms(2)] by blast
  moreover have "abs_clip E st r \<in> set (history E st)" using r(1) by (simp add: history_def)
  ultimately show ?thesis
    using Cons that(2) by (simp add: by_hash_including_deleted_def lookup_by_hash_def load_clip_row [OF assms(2) r(1)])
qed

text \<open>With one row per hash, it is the lookup in the history.\<close>

lemma by_hash_including_deleted_history:
  assumes "env_ok E" "store_ok E st" "distinct (map c_hash (history E st))"
  shows "by_hash_including_deleted E h st = Inr (lookup h (history E st))"
  using by_hash_including_deleted_cases [OF assms(1,2), of h] lookup_unique [OF assms(3)]
  by cases (auto simp: lookup_None_iff [symmetric])

text \<open>The clips that can be merged into a history without an error of the store.\<close>

definition mergeable :: "env \<Rightarrow> clip list \<Rightarrow> clip \<Rightarrow> bool" where
  "mergeable E H c \<longleftrightarrow> hash_matches E c \<and> clip_wf c \<and> distinct (map (\<lambda>p. label (p_format p)) (c_payloads c)) \<and>
     (\<forall>d \<in> set H. c_id d = c_id c \<longrightarrow> c_hash d = c_hash c)"

definition store_state :: "env \<Rightarrow> store \<Rightarrow> bool" where
  "store_state E st \<longleftrightarrow> env_ok E \<and> store_ok E st \<and> distinct (map c_hash (history E st))"

lemma store_stateD:
  assumes "store_state E st"
  shows "env_ok E" "store_ok E st" "distinct (map c_hash (history E st))" "distinct (map c_id (history E st))"
  using assms distinct_ids by (auto simp: store_state_def)

lemma apply_update_store:
  assumes "env_ok E" "store_ok E (sx_store x)" "i \<in> c_id ` set (history E (sx_store x))"
  shows "\<exists>x'. apply_update E i b d t x = (Inr (), x') \<and>
    sx_store x' = sqlite.update E (sx_now_ms x) i b d t (sx_store x)"
proof -
  let ?st = "sx_store x"
  obtain res1 st1 where sp: "set_pinned E i b t ?st = (res1, st1)" by fastforce
  from set_pinned_history [OF assms(1,2) this] assms(3)
  have p: "res1 = Inr ()" "store_ok E st1"
    and h: "history E st1 = map (\<lambda>c. if c_id c = i then c\<lparr>c_pinned := b, c_hlc := t\<rparr> else c) (history E ?st)"
    by simp_all
  have "map c_id (history E st1) = map c_id (history E ?st)" unfolding h by simp
  then have mem: "i \<in> c_id ` set (history E st1)" using assms(3) by (metis set_map)
  obtain res2 st2 where sd: "store_delete E (sx_now_ms x) i t st1 = (res2, st2)" by fastforce
  from delete_history [OF assms(1) p(2) this] mem have d: "res2 = Inr ()" by simp
  show ?thesis
    unfolding apply_update_def sqlite.update_def
    by (auto simp: sp sd p d emit_def split: sum.split option.split)
qed

lemma apply_clip_history:
  assumes "store_state E (sx_store x)" "mergeable E (history E (sx_store x)) c"
  shows "\<exists>a x'. apply_clip E c x = (Inr a, x') \<and> store_ok E (sx_store x') \<and>
    history E (sx_store x') = hist_apply c (history E (sx_store x))"
proof -
  let ?st = "sx_store x"
  note st = store_stateD [OF assms(1)]
  have m: "hash_matches E c" "clip_wf c" "distinct (map (\<lambda>p. label (p_format p)) (c_payloads c))"
    "\<And>d. d \<in> set (history E ?st) \<Longrightarrow> c_id d = c_id c \<Longrightarrow> c_hash d = c_hash c"
    using assms(2) by (auto simp: mergeable_def)
  note found = by_hash_including_deleted_history [OF st(1-3), of "c_hash c"]
  show ?thesis
  proof (cases "lookup (c_hash c) (history E ?st)")
    case None
    then have no: "c_hash d \<noteq> c_hash c" if "d \<in> set (history E ?st)" for d
      using that unfolding lookup_None_iff by (metis imageI)
    then have none: "find (\<lambda>d. c_hash d = c_hash c \<and> \<not> c_deleted d) (history E ?st) = None"
      unfolding find_None_iff by blast
    have new: "c_id c \<notin> c_id ` set (history E ?st)"
    proof
      assume "c_id c \<in> c_id ` set (history E ?st)"
      then obtain d where "d \<in> set (history E ?st)" "c_id d = c_id c" by auto
      with m(4) no show False by blast
    qed
    from insert_fresh [OF st(1,2) m(2,1) none] new m(3) obtain st' where
      ins: "store_insert E c ?st = (Inr (Inserted (c_id c)), st')" "appended E c ?st st'" "store_ok E st'" by auto
    from ins_history [OF ins(2)] ins None found m(1) show ?thesis
      by (auto simp: apply_clip_def merge_def hist_apply_def note_received_def emit_def)
  next
    case (Some l)
    have l: "l \<in> set (history E ?st)" using lookup_SomeD [OF Some] by simp
    show ?thesis
    proof (cases "c_hlc l < c_hlc c")
      case False
      with Some found m(1) st(2) show ?thesis by (auto simp: apply_clip_def merge_def hist_apply_def)
    next
      case True
      from l have i: "c_id l \<in> c_id ` set (history E ?st)" by simp
      from apply_update_store [OF st(1,2) i, of "c_pinned c" "c_deleted c" "c_hlc c"]
      obtain x' where x': "apply_update E (c_id l) (c_pinned c) (c_deleted c) (c_hlc c) x = (Inr (), x')"
        "sx_store x' = sqlite.update E (sx_now_ms x) (c_id l) (c_pinned c) (c_deleted c) (c_hlc c) ?st" by blast
      have ok: "env_ok E \<and> store_ok E ?st" using st by blast
      have "store_ok E (sx_store x')" unfolding x'(2) using sqlite.update_ok [OF ok] by blast
      moreover have "history E (sx_store x') = hist_apply c (history E ?st)"
        unfolding x'(2) sqlite.update_hist [OF ok i] using Some True by (simp add: hist_apply_def take_meta_def)
      ultimately show ?thesis
        using Some True found m(1) x'(1) by (auto simp: apply_clip_def merge_def note_received_def)
    qed
  qed
qed

section \<open>Merging several clips\<close>

lemma norm_clip_sel [simp]:
  "c_hash (norm_clip c) = c_hash c" "c_id (norm_clip c) = c_id c" "c_hlc (norm_clip c) = c_hlc c"
  "c_pinned (norm_clip c) = c_pinned c" "c_deleted (norm_clip c) = c_deleted c"
  by (simp_all add: norm_clip_def)

lemma take_meta_sel [simp]:
  "c_hash (take_meta c d) = c_hash d" "c_id (take_meta c d) = c_id d" "c_hlc (take_meta c d) = c_hlc c"
  "c_pinned (take_meta c d) = c_pinned c" "c_deleted (take_meta c d) = (c_deleted d \<or> c_deleted c)"
  by (simp_all add: take_meta_def)

lemma hist_apply_ids:
  "map c_id (hist_apply c H) = map c_id H @ (if lookup (c_hash c) H = None then [c_id c] else [])"
  "map c_hash (hist_apply c H) = map c_hash H @ (if lookup (c_hash c) H = None then [c_hash c] else [])"
  by (auto simp: hist_apply_def split: option.splits)

lemma lookup_append: "lookup h (xs @ ys) = (case lookup h xs of None \<Rightarrow> lookup h ys | Some c \<Rightarrow> Some c)"
  unfolding lookup_def by (induction xs) auto

lemma lookup_map:
  "(\<And>d. c_hash (f d) = c_hash d) \<Longrightarrow> lookup h (map f H) = map_option f (lookup h H)"
  unfolding lookup_def by (induction H) auto

definition merge_entry :: "clip \<Rightarrow> clip option \<Rightarrow> clip" where
  "merge_entry c local = (case local of None \<Rightarrow> norm_clip c | Some l \<Rightarrow> if c_hlc l < c_hlc c then take_meta c l else l)"

lemma lookup_hist_apply:
  assumes "distinct (map c_id H)"
  shows "lookup h (hist_apply c H) =
    (if h = c_hash c then Some (merge_entry c (lookup h H)) else lookup h H)"
proof (cases "lookup (c_hash c) H")
  case None
  then show ?thesis
    by (auto simp: hist_apply_def lookup_append merge_entry_def split: option.split) (auto simp: lookup_def)
next
  case (Some l)
  have id: "map_option (\<lambda>d. if c_id d = c_id l then take_meta c d else d) (lookup h H) = lookup h H" if "h \<noteq> c_hash c"
  proof (cases "lookup h H")
    case (Some d)
    then have "c_id d \<noteq> c_id l"
      using assms lookup_SomeD [OF Some] lookup_SomeD [OF \<open>lookup (c_hash c) H = Some l\<close>] that
      by (metis distinct_map inj_onD)
    with Some show ?thesis by simp
  qed simp
  show ?thesis
    using Some id
    by (auto simp: hist_apply_def merge_entry_def lookup_map)
qed

lemma hist_apply_keys:
  "d \<in> set (hist_apply c H) \<Longrightarrow>
     (\<exists>e \<in> set H. c_id e = c_id d \<and> c_hash e = c_hash d) \<or> c_id d = c_id c \<and> c_hash d = c_hash c"
  by (auto simp: hist_apply_def split: option.splits if_splits)

lemma mergeable_hist_apply:
  assumes "mergeable E H c" "mergeable E H d" "c_id c = c_id d \<Longrightarrow> c_hash c = c_hash d"
  shows "mergeable E (hist_apply c H) d"
proof -
  have "c_hash e = c_hash d" if "e \<in> set (hist_apply c H)" "c_id e = c_id d" for e
    using hist_apply_keys [OF that(1)] that(2) assms by (auto simp: mergeable_def)
  with assms(2) show ?thesis by (auto simp: mergeable_def)
qed

lemma apply_all_history:
  assumes "store_state E (sx_store y)" "\<forall>c \<in> set cs. mergeable E (history E (sx_store y)) c"
    "\<forall>c \<in> set cs. \<forall>d \<in> set cs. c_id c = c_id d \<longrightarrow> c_hash c = c_hash d"
  shows "\<exists>g' y'. apply_all E cs g y = (Inr g', y') \<and> store_state E (sx_store y') \<and>
    history E (sx_store y') = fold hist_apply cs (history E (sx_store y))"
  using assms
proof (induction cs arbitrary: g y)
  case (Cons c cs)
  let ?H = "history E (sx_store y)"
  have mc: "mergeable E ?H c" using Cons.prems(2) by simp
  from apply_clip_history [OF Cons.prems(1) mc]
  obtain a y1 where a: "apply_clip E c y = (Inr a, y1)" "store_ok E (sx_store y1)"
    "history E (sx_store y1) = hist_apply c ?H" by blast
  have "distinct (map c_hash (hist_apply c ?H))"
    unfolding hist_apply_ids using store_stateD(3) [OF Cons.prems(1)] by (auto simp: lookup_None_iff)
  with a(2,3) store_stateD(1) [OF Cons.prems(1)] have st: "store_state E (sx_store y1)" by (simp add: store_state_def)
  have "\<forall>d \<in> set cs. mergeable E (history E (sx_store y1)) d"
    unfolding a(3) using Cons.prems(2,3) mc by (auto intro: mergeable_hist_apply)
  moreover have "\<forall>c \<in> set cs. \<forall>d \<in> set cs. c_id c = c_id d \<longrightarrow> c_hash c = c_hash d"
    using Cons.prems(3) by (meson list.set_intros(2))
  ultimately obtain g' y' where "apply_all E cs (count_push c a g) y1 = (Inr g', y')" "store_state E (sx_store y')"
    "history E (sx_store y') = fold hist_apply cs (history E (sx_store y1))"
    using Cons.IH [OF st] by blast
  then show ?case by (intro exI [of _ g'] exI [of _ y']) (simp add: a(1,3))
qed auto

lemma lookup_fold_apply:
  assumes "distinct (map c_id H)" "distinct (map c_hash cs)"
    "\<forall>c \<in> set cs. \<forall>d \<in> set H. c_id d = c_id c \<longrightarrow> c_hash d = c_hash c"
    "\<forall>c \<in> set cs. \<forall>d \<in> set cs. c_id c = c_id d \<longrightarrow> c_hash c = c_hash d"
  shows "lookup h (fold hist_apply cs H) =
    (case lookup h cs of None \<Rightarrow> lookup h H | Some c \<Rightarrow> Some (merge_entry c (lookup h H)))"
  using assms
proof (induction cs arbitrary: H)
  case Nil
  show ?case by (simp add: lookup_def)
next
  case (Cons c cs)
  have ids: "distinct (map c_id (hist_apply c H))"
  proof -
    have "c_id c \<notin> c_id ` set H" if "lookup (c_hash c) H = None"
    proof
      assume "c_id c \<in> c_id ` set H"
      then obtain d where "d \<in> set H" "c_id d = c_id c" by auto
      with Cons.prems(3) have "c_hash d = c_hash c" by simp
      with that \<open>d \<in> set H\<close> show False unfolding lookup_None_iff by (metis imageI)
    qed
    then show ?thesis unfolding hist_apply_ids using Cons.prems(1) by (cases "lookup (c_hash c) H") simp_all
  qed
  have "\<forall>e \<in> set cs. \<forall>d \<in> set (hist_apply c H). c_id d = c_id e \<longrightarrow> c_hash d = c_hash e"
  proof (intro ballI impI)
    fix e d assume e: "e \<in> set cs" and d: "d \<in> set (hist_apply c H)" and i: "c_id d = c_id e"
    from hist_apply_keys [OF d] show "c_hash d = c_hash e"
    proof
      assume "\<exists>f \<in> set H. c_id f = c_id d \<and> c_hash f = c_hash d"
      with Cons.prems(3) e i show ?thesis by (metis list.set_intros(2))
    next
      assume "c_id d = c_id c \<and> c_hash d = c_hash c"
      with Cons.prems(4) e i show ?thesis by (metis list.set_intros)
    qed
  qed
  moreover have "distinct (map c_hash cs)" using Cons.prems(2) by simp
  moreover have "\<forall>c \<in> set cs. \<forall>d \<in> set cs. c_id c = c_id d \<longrightarrow> c_hash c = c_hash d"
    using Cons.prems(4) by (meson list.set_intros(2))
  ultimately have IH: "lookup h (fold hist_apply cs (hist_apply c H)) =
    (case lookup h cs of None \<Rightarrow> lookup h (hist_apply c H) | Some d \<Rightarrow> Some (merge_entry d (lookup h (hist_apply c H))))"
    using Cons.IH [OF ids] by blast
  have "lookup (c_hash c) cs = None" using Cons.prems(2) by (simp add: lookup_None_iff)
  with IH lookup_hist_apply [OF Cons.prems(1), of h c] show ?case
    by (auto simp: lookup_def split: option.splits)
qed

section \<open>A turn between two daemons\<close>

definition newer_than :: "clip option \<Rightarrow> clip \<Rightarrow> bool" where
  "newer_than local c \<longleftrightarrow> (case local of None \<Rightarrow> True | Some l \<Rightarrow> c_hlc l < c_hlc c)"

lemma filter_zip_map: "filter snd (zip (map g xs) (map f xs)) = map (\<lambda>x. (g x, f x)) (filter f xs)"
  by (induction xs) auto

lemma wanted_of_history:
  assumes "store_state E st"
  shows "wanted_of E (map summary_of cs) st =
    Inr (map c_hash (filter (\<lambda>c. newer_than (lookup (c_hash c) (history E st)) c) cs))"
proof -
  let ?take = "\<lambda>s. case lookup (cs_hash s) (history E st) of None \<Rightarrow> True | Some l \<Rightarrow> cs_hlc s > c_hlc l"
  have "mapM_r (\<lambda>s. bind_r (by_hash_including_deleted E (cs_hash s) st) (\<lambda>found.
      Inr (case found of None \<Rightarrow> True | Some existing \<Rightarrow> cs_hlc s > c_hlc existing))) (map summary_of cs) =
      Inr (map ?take (map summary_of cs))"
    by (intro mapM_r_all) (simp add: by_hash_including_deleted_history [OF store_stateD(1-3) [OF assms]])
  moreover have "?take (summary_of c) = newer_than (lookup (c_hash c) (history E st)) c" for c
    by (simp add: newer_than_def summary_of_def split: option.split)
  moreover have "cs_hash (summary_of c) = c_hash c" for c by (simp add: summary_of_def)
  ultimately show ?thesis
    unfolding wanted_of_def by (simp only: bind_r.simps filter_zip_map filter_map map_map comp_def fst_conv)
qed

lemma transfer_blobs_rows:
  assumes "transfer_blobs E ds (x, r) (y, r') = ((x2, r2), (y2, r2'))"
  shows "st_clip (sx_store x2) = st_clip (sx_store x) \<and> st_payload (sx_store x2) = st_payload (sx_store x) \<and>
    st_clip (sx_store y2) = st_clip (sx_store y) \<and> st_payload (sx_store y2) = st_payload (sx_store y)"
  using assms
proof (induction ds arbitrary: x r y r')
  case (Cons d ds)
  obtain res st where rb: "read_blob E d (sx_store x) = (res, st)" by fastforce
  then have "st_clip st = st_clip (sx_store x)" "st_payload st = st_payload (sx_store x)"
    using blob_ops_keep_rows(3,4) [of E d "sx_store x"] by simp_all
  with Cons.IH Cons.prems rb show ?case
    by (fastforce simp: Let_def blob_ops_keep_rows split: if_splits)
qed simp

lemma same_rows:
  assumes "st_clip st' = st_clip st" "st_payload st' = st_payload st"
  shows "history E st' = history E st" "store_state E st' = store_state E st"
proof -
  show h: "history E st' = history E st"
    using assms by (simp add: history_def abs_clip_def [abs_def] stored_payloads_def [abs_def])
  show "store_state E st' = store_state E st"
    unfolding store_state_def h store_ok_cong [OF assms] ..
qed

lemma ack_context_store [simp]: "sx_store (ack_context t y) = sx_store y"
  by (simp add: ack_context_def split: option.split)

text \<open>What two histories that are to be exchanged have to satisfy.\<close>

definition offerable :: "env \<Rightarrow> clip list \<Rightarrow> clip list \<Rightarrow> bool" where
  "offerable E H G \<longleftrightarrow> list_all (hash_matches E) H \<and> length H \<le> 100000 \<and>
     (\<forall>c \<in> set H. \<forall>d \<in> set G. c_id c = c_id d \<longrightarrow> c_hash c = c_hash d)"

lemma run_turn_honest:
  assumes cap: "0 < cap" and x: "store_state E (sx_store x)" and y: "store_state E (sx_store y)"
    and off: "offerable E (history E (sx_store x)) (history E (sx_store y))"
  shows "\<exists>r2 x2 r2' y2 cs. runs cap (conf (offer_our_history E k r) x (take_their_history E k' r') y)
      (conf (k r2) x2 (k' r2') y2) \<and>
    history E (sx_store x2) = history E (sx_store x) \<and> store_state E (sx_store x2) \<and> store_state E (sx_store y2) \<and>
    history E (sx_store y2) = fold hist_apply cs (history E (sx_store y)) \<and>
    distinct (map c_hash cs) \<and> set cs = {c \<in> set (history E (sx_store x)).
      newer_than (lookup (c_hash c) (history E (sx_store y))) c}"
proof -
  let ?H = "history E (sx_store x)" and ?G = "history E (sx_store y)"
  obtain clips where clips: "changes_since E None 100000 (sx_store x) = Inr clips" "mset clips = mset ?H"
    using changes_since_all [OF store_stateD(1,2) [OF x]] off by (auto simp: offerable_def)
  have set: "set clips = set ?H" using clips(2) by (rule mset_eq_setD)
  have dist: "distinct (map c_hash clips)"
    using store_stateD(3) [OF x] clips(2) by (metis distinct_map mset_eq_imp_distinct_iff set)
  define cs where "cs = filter (\<lambda>c. newer_than (lookup (c_hash c) ?G) c) clips"
  have sub: "set cs \<subseteq> set ?H" by (auto simp: cs_def set)
  have found: "mapM_r (\<lambda>h. by_hash_including_deleted E h (sx_store x)) (map c_hash cs) = Inr (map Some cs)"
  proof -
    have "mapM_r (\<lambda>h. by_hash_including_deleted E h (sx_store x)) (map c_hash cs) =
        Inr (map (\<lambda>h. lookup h ?H) (map c_hash cs))"
      by (intro mapM_r_all by_hash_including_deleted_history store_stateD [OF x])
    moreover have "map (\<lambda>h. lookup h ?H) (map c_hash cs) = map Some cs"
      using sub lookup_unique [OF store_stateD(3) [OF x]] by auto
    ultimately show ?thesis by simp
  qed
  have merge: "\<forall>c \<in> set cs. mergeable E ?G c"
    using sub off history_clip_normal [OF store_stateD(2) [OF x]]
    by (auto simp: mergeable_def offerable_def list_all_iff subset_iff)
  have ids: "\<forall>c \<in> set cs. \<forall>d \<in> set cs. c_id c = c_id d \<longrightarrow> c_hash c = c_hash d"
    using sub store_stateD(4) [OF x] by (auto simp: distinct_map dest: inj_onD)
  from apply_all_history [OF y merge ids, of "([], None, r')"]
  obtain missing newest r1' y1 where app: "apply_all E cs ([], None, r') y = (Inr (missing, newest, r1'), y1)"
    and y1: "store_state E (sx_store y1)" "history E (sx_store y1) = fold hist_apply cs ?G" by auto
  obtain x2 r2 y2 r2' where tr: "transfer_blobs E (needed_blobs (\<lambda>d. has_blob E d (sx_store y1)) missing [])
      (x, r\<lparr>so_sent := so_sent r + length cs\<rparr>) (y1, r1') = ((x2, r2), (y2, r2'))" by (metis surj_pair)
  note rows = transfer_blobs_rows [OF tr]
  have x2: "history E (sx_store x2) = ?H" "store_state E (sx_store x2)"
    using same_rows [of "sx_store x2" "sx_store x"] rows x by simp_all
  have y2: "history E (sx_store y2) = fold hist_apply cs ?G" "store_state E (sx_store y2)"
    using same_rows [of "sx_store y2" "sx_store y1"] rows y1 by simp_all
  obtain t where "max_hlc E (sx_store y2) = Inr t" using max_hlc_returns store_stateD(1,2) [OF y2(2)] by blast
  from run_turn [OF cap clips(1) wanted_of_history [OF y] found [unfolded cs_def] app [unfolded cs_def] tr [unfolded cs_def] this]
  have "runs cap (conf (offer_our_history E k r) x (take_their_history E k' r') y)
      (conf (k r2) x2 (k' (r2'\<lparr>so_newest_received := map_option snd newest\<rparr>)) (ack_context t y2))" .
  moreover have "distinct (map c_hash cs)" using dist by (simp add: cs_def distinct_map_filter)
  moreover have "set cs = {c \<in> set ?H. newer_than (lookup (c_hash c) ?G) c}" by (auto simp: cs_def set)
  ultimately show ?thesis
    using x2 y2 by (intro exI conjI) (assumption | simp)+
qed

section \<open>Histories after a turn\<close>

definition pull :: "clip option \<Rightarrow> clip option \<Rightarrow> clip option" where
  "pull offered held = (case offered of None \<Rightarrow> held | Some c \<Rightarrow> Some (merge_entry c held))"

lemma lookup_after_turn:
  assumes "distinct (map c_id G)" "distinct (map c_hash H)" "distinct (map c_id H)"
    "\<forall>c \<in> set H. \<forall>d \<in> set G. c_id c = c_id d \<longrightarrow> c_hash c = c_hash d"
    "distinct (map c_hash cs)" "set cs = {c \<in> set H. newer_than (lookup (c_hash c) G) c}"
  shows "lookup h (fold hist_apply cs G) = pull (lookup h H) (lookup h G)"
proof -
  have sub: "set cs \<subseteq> set H" using assms(6) by blast
  have ids: "\<forall>c \<in> set cs. \<forall>d \<in> set cs. c_id c = c_id d \<longrightarrow> c_hash c = c_hash d"
    using sub assms(3) by (metis distinct_map inj_onD subsetD)
  have compat: "\<forall>c \<in> set cs. \<forall>d \<in> set G. c_id d = c_id c \<longrightarrow> c_hash d = c_hash c"
    using sub assms(4) by (metis subsetD)
  note after = lookup_fold_apply [OF assms(1,5) compat ids, of h]
  show ?thesis
  proof (cases "lookup h cs")
    case (Some c)
    then have "c \<in> set H" "c_hash c = h" using lookup_SomeD [OF Some] sub by auto
    then have "lookup h H = Some c" using lookup_unique [OF assms(2)] by blast
    with Some after show ?thesis by (simp add: pull_def)
  next
    case None
    have "merge_entry c (lookup h G) = the (lookup h G) \<and> lookup h G \<noteq> None" if c: "lookup h H = Some c" for c
    proof -
      have "c \<in> set H" "c_hash c = h" using lookup_SomeD [OF c] by auto
      moreover have "c \<notin> set cs" using None \<open>c_hash c = h\<close> by (auto simp: lookup_None_iff)
      ultimately have "\<not> newer_than (lookup h G) c" using assms(6) by blast
      then show ?thesis by (auto simp: newer_than_def merge_entry_def split: option.splits)
    qed
    with None after show ?thesis by (auto simp: pull_def split: option.split)
  qed
qed

text \<open>Every clip of the new history has its content from one of the two old ones.\<close>

lemma fold_apply_content:
  "d \<in> set (fold hist_apply cs G) \<Longrightarrow>
     \<exists>e \<in> set G \<union> norm_clip ` set cs. c_id e = c_id d \<and> c_hash e = c_hash d \<and> c_payloads e = c_payloads d"
proof (induction cs arbitrary: G)
  case (Cons c cs)
  then obtain e where e: "e \<in> set (hist_apply c G) \<union> norm_clip ` set cs"
    "c_id e = c_id d" "c_hash e = c_hash d" "c_payloads e = c_payloads d" by fastforce
  have "\<exists>f \<in> set G \<union> {norm_clip c}. c_id f = c_id e \<and> c_hash f = c_hash e \<and> c_payloads f = c_payloads e"
    if "e \<in> set (hist_apply c G)"
    using that by (auto simp: hist_apply_def take_meta_def split: option.splits if_splits)
  with e show ?case by fastforce
qed auto

lemma length_fold_apply: "length (fold hist_apply cs G) \<le> length G + length cs"
proof (induction cs arbitrary: G)
  case (Cons c cs)
  have "length (hist_apply c G) \<le> length G + 1" by (simp add: hist_apply_def split: option.split)
  with Cons [of "hist_apply c G"] show ?case by simp
qed simp

lemma hash_matches_content:
  "c_hash c = c_hash d \<Longrightarrow> c_payloads c = c_payloads d \<Longrightarrow> hash_matches E c = hash_matches E d"
  by (simp add: hash_matches_def)

lemma offerable_back:
  assumes "store_ok E st" "history E st = H" "distinct (map c_hash H)" "distinct (map c_id H)"
    "list_all (hash_matches E) H" "list_all (hash_matches E) G"
    "length H + length G \<le> 100000" "\<forall>c \<in> set H. \<forall>d \<in> set G. c_id c = c_id d \<longrightarrow> c_hash c = c_hash d"
    "distinct (map c_hash cs)" "set cs \<subseteq> set H"
  shows "offerable E (fold hist_apply cs G) H"
  unfolding offerable_def
proof (intro conjI ballI impI)
  have norm: "norm_clip c = c" if "c \<in> set cs" for c
    using history_clip_normal(1) [OF assms(1)] that assms(2,10) by auto
  have src: "\<exists>e \<in> set G \<union> set H. c_id e = c_id d \<and> c_hash e = c_hash d \<and> c_payloads e = c_payloads d"
    if "d \<in> set (fold hist_apply cs G)" for d
    using fold_apply_content [OF that] norm assms(10) by fastforce
  show "list_all (hash_matches E) (fold hist_apply cs G)"
    unfolding list_all_iff
  proof
    fix d assume "d \<in> set (fold hist_apply cs G)"
    from src [OF this] obtain e where "e \<in> set G \<union> set H" "c_hash e = c_hash d" "c_payloads e = c_payloads d" by blast
    with assms(5,6) show "hash_matches E d" using hash_matches_content [of e d E] by (auto simp: list_all_iff)
  qed
  have "length cs = card (set cs)" using assms(9) by (metis distinct_card distinct_map)
  also have "\<dots> \<le> card (set H)" using assms(10) by (intro card_mono) auto
  also have "\<dots> \<le> length H" by (rule card_length)
  finally show "length (fold hist_apply cs G) \<le> 100000" using length_fold_apply [of cs G] assms(7) by simp
  fix c d assume c: "c \<in> set (fold hist_apply cs G)" and d: "d \<in> set H" and i: "c_id c = c_id d"
  from src [OF c] obtain e where e: "e \<in> set G \<union> set H" "c_id e = c_id c" "c_hash e = c_hash c" by blast
  have "c_hash d = c_hash e" if "e \<in> set G" using assms(8) d that e(2) i by metis
  moreover have "c_hash d = c_hash e" if "e \<in> set H" using assms(4) d that e(2) i by (metis distinct_map inj_onD)
  ultimately show "c_hash c = c_hash d" using e by auto
qed

section \<open>The whole session\<close>

lemma run_hello:
  assumes "0 < cap" "env_ok E" "store_ok E (sx_store x)" "store_ok E (sx_store y)"
    "remote_device la = clk_device (sx_clock y)" "remote_device lb = clk_device (sx_clock x)"
  shows "runs cap (conf (run_session E la Dialler) x (run_session E lb Responder) y)
    (conf (offer_our_history E (take_their_history E (\<lambda>r. Done (Inr r))) default_outcome) x
      (take_their_history E (offer_our_history E (\<lambda>r. Done (Inr r))) default_outcome) y)"
proof -
  let ?pa = "offer_our_history E (take_their_history E (\<lambda>r. Done (Inr r))) default_outcome"
  let ?pb = "take_their_history E (offer_our_history E (\<lambda>r. Done (Inr r))) default_outcome"
  obtain ta tb where t: "max_hlc E (sx_store x) = Inr ta" "max_hlc E (sx_store y) = Inr tb"
    using max_hlc_returns assms(2-4) by metis
  let ?ha = "Hello (clk_device (sx_clock x)) (link_epoch la) PROTOCOL_VERSION ta (sx_label x) (sx_platform x)"
  let ?hb = "Hello (clk_device (sx_clock y)) (link_epoch lb) PROTOCOL_VERSION tb (sx_label y) (sx_platform y)"
  have s1: "runs cap (conf (run_session E la Dialler) x (run_session E lb Responder) y)
      (conf (SendMsg ?ha (receive_hello la (\<lambda>_. ?pa))) x (run_session E lb Responder) y)"
    unfolding run_session_def role.case send_hello_def by (rule act_left) (simp add: t)
  have s2: "runs cap (conf (SendMsg ?ha (receive_hello la (\<lambda>_. ?pa))) x (run_session E lb Responder) y)
      (conf (receive_hello la (\<lambda>_. ?pa)) x (send_hello E lb ?pb) y)"
    unfolding run_session_def role.case receive_hello_def [of lb]
    by (rule exchange_msg_to [OF assms(1)]) (simp add: assms(6))
  have s3: "runs cap (conf (receive_hello la (\<lambda>_. ?pa)) x (send_hello E lb ?pb) y)
      (conf (receive_hello la (\<lambda>_. ?pa)) x (SendMsg ?hb ?pb) y)"
    unfolding send_hello_def by (rule act_right) (simp add: t)
  have s4: "runs cap (conf (receive_hello la (\<lambda>_. ?pa)) x (SendMsg ?hb ?pb) y) (conf ?pa x ?pb y)"
    unfolding receive_hello_def by (rule exchange_msg_back [OF assms(1)]) (simp add: assms(5))
  show ?thesis by (rule rtranclp_trans [OF s1 rtranclp_trans [OF s2 rtranclp_trans [OF s3 s4]]])
qed

text \<open>Two daemons that can sync: what the theorem below assumes of their histories.\<close>

definition syncable :: "env \<Rightarrow> clip list \<Rightarrow> clip list \<Rightarrow> bool" where
  "syncable E H G \<longleftrightarrow>
     list_all (hash_matches E) H \<and> list_all (hash_matches E) G \<and> length H + length G \<le> 100000 \<and>
     (\<forall>c \<in> set H. \<forall>d \<in> set G. c_id c = c_id d \<longrightarrow> c_hash c = c_hash d)"

lemma run_session_honest:
  assumes cap: "0 < cap" and x: "store_state E (sx_store x)" and y: "store_state E (sx_store y)"
    and sync: "syncable E (history E (sx_store x)) (history E (sx_store y))"
    and dev: "remote_device la = clk_device (sx_clock y)" "remote_device lb = clk_device (sx_clock x)"
  shows "\<exists>ra x' rb y'. runs cap (conf (run_session E la Dialler) x (run_session E lb Responder) y)
      (conf (Done (Inr ra)) x' (Done (Inr rb)) y') \<and>
    (\<forall>h. lookup h (history E (sx_store y')) =
       pull (lookup h (history E (sx_store x))) (lookup h (history E (sx_store y)))) \<and>
    (\<forall>h. lookup h (history E (sx_store x')) =
       pull (lookup h (history E (sx_store y'))) (lookup h (history E (sx_store x)))) \<and>
    store_state E (sx_store x') \<and> store_state E (sx_store y')"
proof -
  let ?H = "history E (sx_store x)" and ?G = "history E (sx_store y)"
  note sx = store_stateD [OF x] and sy = store_stateD [OF y]
  have ids: "\<forall>c \<in> set ?H. \<forall>d \<in> set ?G. c_id c = c_id d \<longrightarrow> c_hash c = c_hash d" using sync by (simp add: syncable_def)
  have "offerable E ?H ?G" using sync by (simp add: syncable_def offerable_def)
  from run_turn_honest [OF cap x y this,
      of "take_their_history E (\<lambda>r. Done (Inr r))" default_outcome "offer_our_history E (\<lambda>r. Done (Inr r))" default_outcome]
  obtain r2 x2 r2' y2 cs where t1:
    "runs cap (conf (offer_our_history E (take_their_history E (\<lambda>r. Done (Inr r))) default_outcome) x
        (take_their_history E (offer_our_history E (\<lambda>r. Done (Inr r))) default_outcome) y)
      (conf (take_their_history E (\<lambda>r. Done (Inr r)) r2) x2 (offer_our_history E (\<lambda>r. Done (Inr r)) r2') y2)"
    and x2: "history E (sx_store x2) = ?H" "store_state E (sx_store x2)"
    and y2: "store_state E (sx_store y2)" "history E (sx_store y2) = fold hist_apply cs ?G"
    and cs: "distinct (map c_hash cs)" "set cs = {c \<in> set ?H. newer_than (lookup (c_hash c) ?G) c}" by blast
  let ?G' = "history E (sx_store y2)"
  have "set cs \<subseteq> set ?H" using cs(2) by blast
  then have off: "offerable E ?G' (history E (sx_store x2))"
    unfolding x2(1) y2(2) using sync sx cs(1) ids
    by (intro offerable_back [of E "sx_store x"]) (simp_all add: syncable_def)
  from run_turn_honest [OF cap y2(1) x2(2) off, of "\<lambda>r. Done (Inr r)" r2' "\<lambda>r. Done (Inr r)" r2]
  obtain r3 y3 r3' x3 ds where t2:
    "runs cap (conf (offer_our_history E (\<lambda>r. Done (Inr r)) r2') y2 (take_their_history E (\<lambda>r. Done (Inr r)) r2) x2)
      (conf (Done (Inr r3)) y3 (Done (Inr r3')) x3)"
    and y3: "history E (sx_store y3) = ?G'" and st: "store_state E (sx_store y3)" "store_state E (sx_store x3)"
    and x3: "history E (sx_store x3) = fold hist_apply ds ?H"
    and ds: "distinct (map c_hash ds)" "set ds = {c \<in> set ?G'. newer_than (lookup (c_hash c) ?H) c}"
    unfolding x2(1) by blast
  have t2': "runs cap (conf (take_their_history E (\<lambda>r. Done (Inr r)) r2) x2 (offer_our_history E (\<lambda>r. Done (Inr r)) r2') y2)
      (conf (Done (Inr r3')) x3 (Done (Inr r3)) y3)"
    using runs_swap [OF t2] by simp
  have run: "runs cap (conf (run_session E la Dialler) x (run_session E lb Responder) y)
      (conf (Done (Inr r3')) x3 (Done (Inr r3)) y3)"
    by (rule rtranclp_trans [OF run_hello [OF cap sx(1,2) sy(2) dev] rtranclp_trans [OF t1 t2']])
  have b: "lookup h (history E (sx_store y3)) = pull (lookup h ?H) (lookup h ?G)" for h
    unfolding y3 y2(2) by (rule lookup_after_turn [OF sy(4) sx(3,4) ids cs])
  have ids': "\<forall>c \<in> set ?G'. \<forall>d \<in> set ?H. c_id c = c_id d \<longrightarrow> c_hash c = c_hash d"
    using off unfolding offerable_def x2(1) by blast
  have a: "lookup h (history E (sx_store x3)) = pull (lookup h (history E (sx_store y3))) (lookup h ?H)" for h
    unfolding y3 x3 by (rule lookup_after_turn [OF sx(4) store_stateD(3,4) [OF y2(1)] ids' ds])
  from run a b st show ?thesis by blast
qed

text \<open>No content is deleted on one side and newer and live on the other, and stamps are unique.\<close>

definition no_revival :: "clip list \<Rightarrow> clip list \<Rightarrow> bool" where
  "no_revival H G \<longleftrightarrow>
     (\<forall>c \<in> set H. \<forall>d \<in> set G. c_hash c = c_hash d \<longrightarrow>
        (c_hlc c = c_hlc d \<longrightarrow> clip_meta c = clip_meta d) \<and>
        (c_hlc c < c_hlc d \<longrightarrow> c_deleted c \<longrightarrow> c_deleted d) \<and>
        (c_hlc d < c_hlc c \<longrightarrow> c_deleted d \<longrightarrow> c_deleted c))"

lemma pull_back_agrees:
  assumes "\<And>c d. a = Some c \<Longrightarrow> b = Some d \<Longrightarrow>
      (c_hlc c = c_hlc d \<longrightarrow> clip_meta c = clip_meta d) \<and>
      (c_hlc c < c_hlc d \<longrightarrow> c_deleted c \<longrightarrow> c_deleted d) \<and> (c_hlc d < c_hlc c \<longrightarrow> c_deleted d \<longrightarrow> c_deleted c)"
  shows "map_option clip_meta (pull (pull a b) a) = map_option clip_meta (pull a b)"
proof (cases a)
  case (Some c)
  show ?thesis
  proof (cases b)
    case (Some d)
    with \<open>a = Some c\<close> assms [of c d] show ?thesis
      by (cases "c_hlc c" "c_hlc d" rule: linorder_cases) (auto simp: pull_def merge_entry_def clip_meta_def)
  qed (simp add: pull_def merge_entry_def \<open>a = Some c\<close> clip_meta_def)
qed (cases b; simp add: pull_def merge_entry_def clip_meta_def)

lemma done_is_final: "\<nexists>g. net_step cap (conf (Done ra) x (Done rb) y) g"
  by (auto simp: conf_def local_step.simps elim!: net_stepE)

text \<open>A session that can come to an end does so under every schedule.\<close>

lemma session_schedules:
  assumes "runs cap c (conf (Done ra) x (Done rb) y)"
  shows "\<exists>n. \<forall>m d. (net_step cap ^^ m) c d \<longrightarrow> m \<le> n \<and> (net_step cap ^^ (n - m)) d (conf (Done ra) x (Done rb) y)"
  using net.every_schedule [OF _ done_is_final] rtranclp_imp_relpowp [OF assms] by blast


section \<open>A session to try things on\<close>

definition sample_context :: "uuid \<Rightarrow> store \<Rightarrow> sync_context" where
  "sample_context d st = \<lparr>sx_store = st, sx_clock = clock_new (DeviceId d), sx_loop_guard = loop_guard_new DEFAULT_ECHO_WINDOW,
     sx_events = [], sx_label = lit ''dev'', sx_platform = lit ''linux'', sx_now_ms = 9\<rparr>"

lemma fresh_store_state: "store_state sample_env (fresh_store q)" "history sample_env (fresh_store q) = []"
  by (simp_all add: store_state_def sample_env_ok store_ok_def fresh_store_def live_rows_def history_def)

lemma sample_store_state: "store_state sample_env sample_store"
  by (simp add: store_state_def sample_env_ok sample_store_history)

lemma sample_syncable: "syncable sample_env (history sample_env sample_store) []"
  using hash_matches_sample_env [of 5 False False]
  by (simp add: syncable_def sample_store_history norm_clip_def hash_matches_def compute_hash_def norm_payload_def
      sample_clip_def clip_new_def Let_def payload_new_def sort_payloads_def INLINE_MAX_BYTES_def)


end
