(* ===== verification/Sync_Safety.thy ===== *)
theory Sync_Safety
  imports Sync_Convergence
begin

text \<open>
  A session against an arbitrary peer. Here only one side runs the code of
  \<open>clipsed/src/sync.rs\<close>; what arrives on the link is any sequence of well-typed messages and blobs,
  and the peer may stop at any moment. Whatever it does, the tables stay consistent, no clip is
  lost, no content is exchanged for other content, no deletion is taken back, no timestamp goes
  down, and only clips that verify and blobs that hash to their digest are added.

  The second half records two limits of the protocol between honest daemons.
\<close>

section \<open>One side and an arbitrary peer\<close>

text \<open>In the code a content hash has 32 bytes by its type, so a decoded message has only such hashes.\<close>

fun message_wf :: "sync_message \<Rightarrow> bool" where
  "message_wf (Summary es _) = list_all (\<lambda>s. hash_wf (cs_hash s)) es"
| "message_wf (Want hs) = list_all hash_wf hs"
| "message_wf (Push c) = clip_wf c"
| "message_wf _ = True"

inductive peer_step :: "session \<times> sync_context \<Rightarrow> session \<times> sync_context \<Rightarrow> bool" where
  peer_send: "peer_step (SendMsg m p, x) (p, x)"
| peer_recv: "message_wf m \<Longrightarrow> peer_step (RecvMsg f, x) (f m, x)"
| peer_send_blob: "peer_step (SendBlob b p, x) (p, x)"
| peer_recv_blob: "peer_step (RecvBlob g, x) (g b, x)"
| peer_act: "f x = (x', p) \<Longrightarrow> peer_step (Act f, x) (p, x')"

text \<open>A process all of whose actions respect a relation between the state before and after.\<close>

coinductive guarded :: "(sync_context \<Rightarrow> sync_context \<Rightarrow> bool) \<Rightarrow> session \<Rightarrow> bool" for R where
  guarded_done: "guarded R (Done r)"
| guarded_send: "guarded R p \<Longrightarrow> guarded R (SendMsg m p)"
| guarded_recv: "(\<And>m. message_wf m \<Longrightarrow> guarded R (f m)) \<Longrightarrow> guarded R (RecvMsg f)"
| guarded_send_blob: "guarded R p \<Longrightarrow> guarded R (SendBlob b p)"
| guarded_recv_blob: "(\<And>b. guarded R (g b)) \<Longrightarrow> guarded R (RecvBlob g)"
| guarded_act: "(\<And>x. R x (fst (h x)) \<and> guarded R (snd (h x))) \<Longrightarrow> guarded R (Act h)"

inductive_cases guarded_cases:
  "guarded R (SendMsg m p)" "guarded R (RecvMsg f)" "guarded R (SendBlob b p)" "guarded R (RecvBlob g)" "guarded R (Act h)"

lemma guarded_step:
  assumes "peer_step (p, x) (p', x')" "guarded R p" "\<And>y. R y y"
  shows "guarded R p' \<and> R x x'"
  using assms by cases (auto elim!: guarded_cases simp: assms(3), (metis fst_conv snd_conv)+)

lemma guarded_run:
  assumes "peer_step\<^sup>*\<^sup>* (p, x) (p', x')" "guarded R p" "\<And>y. R y y" "\<And>y z w. R y z \<Longrightarrow> R z w \<Longrightarrow> R y w"
  shows "guarded R p' \<and> R x x'"
  using assms(1)
proof (induction rule: rtranclp_induct2)
  case refl
  show ?case using assms(2,3) by blast
next
  case (step q y q' y')
  with guarded_step [OF step.hyps(2) conjunct1 [OF step.IH] assms(3)] assms(4) show ?case by blast
qed

section \<open>What a session may change\<close>

definition same_content :: "clip \<Rightarrow> clip \<Rightarrow> bool" where
  "same_content c d \<longleftrightarrow> c_id c = c_id d \<and> c_hash c = c_hash d \<and> c_payloads c = c_payloads d"

definition files_verified :: "env \<Rightarrow> store \<Rightarrow> bool" where
  "files_verified E st \<longleftrightarrow> (\<forall>path bs. st_files st path = Some bs \<longrightarrow> path = shard_path E (hash_of E bs))"

definition history_grows :: "env \<Rightarrow> clip list \<Rightarrow> clip list \<Rightarrow> bool" where
  "history_grows E H G \<longleftrightarrow>
     (\<forall>c \<in> set H. \<exists>d \<in> set G. same_content c d \<and> c_hlc c \<le> c_hlc d \<and> (c_deleted c \<longrightarrow> c_deleted d)) \<and>
     (\<forall>d \<in> set G. (\<exists>c \<in> set H. same_content c d) \<or> (\<exists>c. hash_matches E c \<and> same_content (norm_clip c) d))"

definition store_grows :: "env \<Rightarrow> store \<Rightarrow> store \<Rightarrow> bool" where
  "store_grows E st st' \<longleftrightarrow> store_ok E st \<and> files_verified E st \<longrightarrow>
     store_ok E st' \<and> files_verified E st' \<and> history_grows E (history E st) (history E st')"

abbreviation ctx_grows :: "env \<Rightarrow> sync_context \<Rightarrow> sync_context \<Rightarrow> bool" where
  "ctx_grows E x y \<equiv> store_grows E (sx_store x) (sx_store y)"

lemma history_grows_refl: "history_grows E H H"
  by (auto simp: history_grows_def same_content_def)

lemma same_content_trans: "same_content c d \<Longrightarrow> same_content d e \<Longrightarrow> same_content c e"
  by (simp add: same_content_def)

lemma history_grows_trans:
  assumes "history_grows E H G" "history_grows E G K"
  shows "history_grows E H K"
proof -
  have "\<exists>d \<in> set K. same_content c d \<and> c_hlc c \<le> c_hlc d \<and> (c_deleted c \<longrightarrow> c_deleted d)" if "c \<in> set H" for c
  proof -
    from assms(1) that obtain d where d: "d \<in> set G" "same_content c d" "c_hlc c \<le> c_hlc d" "c_deleted c \<longrightarrow> c_deleted d"
      unfolding history_grows_def by blast
    from assms(2) d(1) obtain e where "e \<in> set K" "same_content d e" "c_hlc d \<le> c_hlc e" "c_deleted d \<longrightarrow> c_deleted e"
      unfolding history_grows_def by blast
    with d show ?thesis by (meson order_trans same_content_trans)
  qed
  moreover have "(\<exists>c \<in> set H. same_content c d) \<or> (\<exists>c. hash_matches E c \<and> same_content (norm_clip c) d)" if "d \<in> set K" for d
    using assms that unfolding history_grows_def by (meson same_content_trans)
  ultimately show ?thesis unfolding history_grows_def by blast
qed

lemma store_grows_refl: "store_grows E st st"
  by (simp add: store_grows_def history_grows_refl)

lemma store_grows_trans: "store_grows E a b \<Longrightarrow> store_grows E b c \<Longrightarrow> store_grows E a c"
  unfolding store_grows_def by (meson history_grows_trans)

lemma store_grows_cong:
  assumes "st_clip st' = st_clip st" "st_payload st' = st_payload st" "files_verified E st \<Longrightarrow> files_verified E st'"
  shows "store_grows E st st'"
  using assms(3) store_ok_cong [OF assms(1,2), of E] same_rows [OF assms(1,2), of E] by (simp add: store_grows_def history_grows_refl)

lemma put_blob_grows: "hash_of E bs = d \<Longrightarrow> store_grows E st (put_blob E d bs st)"
  by (rule store_grows_cong)
    (auto simp: blob_ops_keep_rows put_blob_def write_file_def next_used_seq_def files_verified_def Let_def)

lemma read_blob_grows: "store_grows E st (snd (read_blob E d st))"
  by (rule store_grows_cong)
    (auto simp: blob_ops_keep_rows read_blob_def next_used_seq_def files_verified_def Let_def split: option.split)

section \<open>Merging a clip from anybody\<close>

lemma map_keeps:
  assumes "\<And>c. c \<in> set H \<Longrightarrow> same_content c (f c) \<and> c_hlc c \<le> c_hlc (f c) \<and> (c_deleted c \<longrightarrow> c_deleted (f c))"
  shows "history_grows E H (map f H)"
  unfolding history_grows_def
proof (intro conjI ballI)
  fix c assume "c \<in> set H"
  then show "\<exists>d \<in> set (map f H). same_content c d \<and> c_hlc c \<le> c_hlc d \<and> (c_deleted c \<longrightarrow> c_deleted d)"
    using assms by (metis image_eqI set_map)
next
  fix d assume "d \<in> set (map f H)"
  then obtain c where "c \<in> set H" "d = f c" by auto
  then show "(\<exists>c \<in> set H. same_content c d) \<or> (\<exists>c. hash_matches E c \<and> same_content (norm_clip c) d)"
    using assms by blast
qed

lemma append_grows: "hash_matches E c \<Longrightarrow> history_grows E H (H @ [norm_clip c])"
  by (auto simp: history_grows_def same_content_def)

lemma insert_files: "st_files (snd (store_insert E c st)) = st_files st"
  by (auto simp: store_insert_def Let_def split: option.splits)

lemma update_files:
  "st_files (snd (set_pinned E i b t st)) = st_files st" "st_files (snd (store_delete E now i t st)) = st_files st"
  by (auto simp: set_pinned_def store_delete_def Let_def)

lemma insert_grows:
  assumes "env_ok E" "clip_wf c" "c_hash c \<notin> c_hash ` set (history E st)"
  shows "store_grows E st (snd (store_insert E c st))"
  unfolding store_grows_def
proof (intro impI)
  assume ok: "store_ok E st \<and> files_verified E st"
  have none: "find (\<lambda>d. c_hash d = c_hash c \<and> \<not> c_deleted d) (history E st) = None"
    using assms(3) unfolding find_None_iff by (metis imageI)
  have h: "history E (snd (store_insert E c st)) = history E st \<or>
      hash_matches E c \<and> history E (snd (store_insert E c st)) = history E st @ [norm_clip c]"
    using insert_history [OF assms(1) conjunct1 [OF ok] assms(2) surjective_pairing]
    by (auto simp: none split: if_splits)
  then have "history_grows E (history E st) (history E (snd (store_insert E c st)))"
    using append_grows history_grows_refl by metis
  moreover have "store_ok E (snd (store_insert E c st))" using insert_keeps_ok [OF assms(1) conjunct1 [OF ok] assms(2)] .
  moreover have "files_verified E (snd (store_insert E c st))" using ok by (simp add: files_verified_def insert_files)
  ultimately show "store_ok E (snd (store_insert E c st)) \<and> files_verified E (snd (store_insert E c st)) \<and>
      history_grows E (history E st) (history E (snd (store_insert E c st)))" by blast
qed

lemma update_grows:
  assumes "env_ok E" "l \<in> set (history E st)" "c_hlc l < t"
  shows "store_grows E st (sqlite.update E now (c_id l) b d t st)"
  unfolding store_grows_def
proof (intro impI)
  assume ok: "store_ok E st \<and> files_verified E st"
  let ?st = "sqlite.update E now (c_id l) b d t st"
  have s: "env_ok E \<and> store_ok E st" and i: "c_id l \<in> c_id ` set (history E st)" using ok assms by auto
  have only: "c = l" if "c \<in> set (history E st)" "c_id c = c_id l" for c
    using distinct_ids [OF assms(1) conjunct1 [OF ok]] that assms(2) by (auto simp: distinct_map dest: inj_onD)
  have "history_grows E (history E st) (history E ?st)"
    unfolding sqlite.update_hist [OF s i]
  proof (rule map_keeps)
    fix c assume "c \<in> set (history E st)"
    then show "same_content c (if c_id c = c_id l then c\<lparr>c_pinned := b, c_deleted := c_deleted c \<or> d, c_hlc := t\<rparr> else c) \<and>
      c_hlc c \<le> c_hlc (if c_id c = c_id l then c\<lparr>c_pinned := b, c_deleted := c_deleted c \<or> d, c_hlc := t\<rparr> else c) \<and>
      (c_deleted c \<longrightarrow> c_deleted (if c_id c = c_id l then c\<lparr>c_pinned := b, c_deleted := c_deleted c \<or> d, c_hlc := t\<rparr> else c))"
      using only [of c] assms(3) by (cases "c_id c = c_id l") (auto simp: same_content_def)
  qed
  moreover have "store_ok E ?st" using sqlite.update_ok [OF s] by blast
  moreover have "files_verified E ?st" using ok by (simp add: files_verified_def sqlite.update_def update_files)
  ultimately show "store_ok E ?st \<and> files_verified E ?st \<and> history_grows E (history E st) (history E ?st)" by blast
qed

lemma sx_store_update [simp]: "sx_store (emit ev x) = sx_store x" "sx_store (note_received c x) = sx_store x"
  by (simp_all add: emit_def note_received_def)

lemma apply_clip_grows:
  assumes "env_ok E" "clip_wf c"
  shows "ctx_grows E x (snd (apply_clip E c x))"
proof (cases "store_ok E (sx_store x)")
  case False
  then show ?thesis by (simp add: store_grows_def)
next
  case True
  show ?thesis
    using assms(1) True
  proof (cases rule: by_hash_including_deleted_cases [where h = "c_hash c"])
    case 1
    then show ?thesis
      using insert_grows [OF assms 1(2)] store_grows_refl
      by (auto simp: apply_clip_def merge_def split: sum.split prod.split)
  next
    case (2 l)
    show ?thesis
    proof (cases "hash_matches E c \<and> c_hlc l < c_hlc c")
      case False
      with 2 show ?thesis by (auto simp: apply_clip_def merge_def store_grows_refl)
    next
      case newer: True
      have "c_id l \<in> c_id ` set (history E (sx_store x))" using 2(2) by simp
      from apply_update_store [OF assms(1) True this, of "c_pinned c" "c_deleted c" "c_hlc c"] obtain x' where
        x': "apply_update E (c_id l) (c_pinned c) (c_deleted c) (c_hlc c) x = (Inr (), x')"
          "sx_store x' = sqlite.update E (sx_now_ms x) (c_id l) (c_pinned c) (c_deleted c) (c_hlc c) (sx_store x)" by blast
      with 2 newer update_grows [OF assms(1) 2(2)] show ?thesis by (simp add: apply_clip_def merge_def)
    qed
  qed
qed

section \<open>Every action of a session\<close>

lemma guarded_fail [simp]: "guarded R (fail e)"
  by (simp add: fail_def guarded_done)

lemma guarded_read: "(\<And>a. guarded (ctx_grows E) (k a)) \<Longrightarrow> guarded (ctx_grows E) (read_store g k)"
  unfolding read_store_def by (rule guarded_act) (simp add: store_grows_refl split: sum.split)

lemma guarded_send_all: "guarded R k \<Longrightarrow> guarded R (send_all ms k)"
  by (induction ms) (auto intro: guarded_send)

lemma guarded_pushes: "(\<And>r. guarded R (k r)) \<Longrightarrow> guarded R (push_found cs r k)"
  by (induction cs r k rule: push_found.induct) (auto intro: guarded_send)

lemma guarded_send_blobs: "(\<And>r. guarded (ctx_grows E) (k r)) \<Longrightarrow> guarded (ctx_grows E) (send_blobs E ds r k)"
proof (induction ds arbitrary: r)
  case (Cons d ds)
  then show ?case
    using read_blob_grows [of E _ d]
    by (auto intro!: guarded_act guarded_send_blob split: prod.split sum.split) (metis snd_conv)+
qed simp

lemma guarded_offer:
  assumes "\<And>r. guarded (ctx_grows E) (k r)"
  shows "guarded (ctx_grows E) (offer_our_history E k r)"
proof -
  have "guarded (ctx_grows E) (await_ack k r)" for r
    unfolding await_ack_def by (rule guarded_recv) (simp add: assms split: sync_message.split)
  then have "guarded (ctx_grows E) (serve_blobs E k r)" for r
    unfolding serve_blobs_def by (intro guarded_recv) (simp add: guarded_send_blobs split: sync_message.split)
  then have "guarded (ctx_grows E) (serve_clips E k r)" for r
    unfolding serve_clips_def by (intro guarded_recv) (simp add: guarded_read guarded_pushes split: sync_message.split)
  then show ?thesis unfolding offer_our_history_def by (intro guarded_read guarded_send_all)
qed

lemma guarded_summaries:
  assumes "\<And>es. guarded R (k es)"
  shows "guarded R (recv_summaries acc k)"
proof (coinduction arbitrary: acc rule: guarded.coinduct)
  case guarded
  let ?f = "\<lambda>m. case m of Summary es complete \<Rightarrow> if complete then k (acc @ es) else recv_summaries (acc @ es) k
        | other \<Rightarrow> fail (Unexpected ''Summary'' (variant_name other))"
  have "(\<exists>acc'. ?f m = recv_summaries acc' k) \<or> guarded R (?f m)" for m
    using assms by (auto split: sync_message.split)
  moreover have "recv_summaries acc k = RecvMsg ?f" by (rule recv_summaries_loop)
  ultimately show ?case by blast
qed

lemma guarded_recv_pushes:
  assumes "env_ok E" "\<And>g. guarded (ctx_grows E) (k g)"
  shows "guarded (ctx_grows E) (recv_pushes E n g k)"
proof (induction n arbitrary: g)
  case (Suc n)
  have "guarded (ctx_grows E) (Act (\<lambda>x. case apply_clip E c x of (Inl e, x') \<Rightarrow> (x', fail e)
      | (Inr a, x') \<Rightarrow> (x', recv_pushes E n (count_push c a g) k)))" if "clip_wf c" for c
  proof (rule guarded_act)
    fix x
    show "ctx_grows E x (fst (case apply_clip E c x of (Inl e, x') \<Rightarrow> (x', fail e)
          | (Inr a, x') \<Rightarrow> (x', recv_pushes E n (count_push c a g) k))) \<and>
        guarded (ctx_grows E) (snd (case apply_clip E c x of (Inl e, x') \<Rightarrow> (x', fail e)
          | (Inr a, x') \<Rightarrow> (x', recv_pushes E n (count_push c a g) k)))"
      using apply_clip_grows [OF assms(1) that, of x] Suc by (auto split: prod.split sum.split)
  qed
  then show ?case by (auto intro!: guarded_recv split: sync_message.split)
qed (simp add: assms(2))

lemma guarded_recv_blobs:
  "(\<And>r. guarded (ctx_grows E) (k r)) \<Longrightarrow> guarded (ctx_grows E) (recv_blobs E ds r k)"
proof (induction ds arbitrary: r)
  case (Cons d ds)
  then show ?case by (auto intro!: guarded_recv_blob guarded_act simp: put_blob_grows)
qed simp

lemma guarded_take:
  assumes "env_ok E" "\<And>r. guarded (ctx_grows E) (k r)"
  shows "guarded (ctx_grows E) (take_their_history E k r)"
proof -
  have "guarded (ctx_grows E) (send_ack E (k r))" for r
    unfolding send_ack_def
    by (rule guarded_act) (auto simp: store_grows_refl assms(2) intro: guarded_send split: sum.split option.split prod.split)
  then have "guarded (ctx_grows E) (fetch_blobs E k g)" for g
    unfolding fetch_blobs_def Let_def
    by (auto simp: store_grows_refl intro!: guarded_act guarded_send guarded_recv_blobs split: prod.split)
  then have "guarded (ctx_grows E) (fetch_clips E k r es)" for r es
    unfolding fetch_clips_def by (intro guarded_read guarded_send guarded_recv_pushes [OF assms(1)])
  then show ?thesis unfolding take_their_history_def by (rule guarded_summaries)
qed

lemma guarded_send_hello: "guarded (ctx_grows E) k \<Longrightarrow> guarded (ctx_grows E) (send_hello E l k)"
  unfolding send_hello_def by (rule guarded_act) (auto simp: store_grows_refl intro: guarded_send split: sum.split)

lemma guarded_receive_hello: "(\<And>t. guarded R (k t)) \<Longrightarrow> guarded R (receive_hello l k)"
  unfolding receive_hello_def by (rule guarded_recv) (auto split: sync_message.split)

lemma guarded_session: "env_ok E \<Longrightarrow> guarded (ctx_grows E) (run_session E l ro)"
  unfolding run_session_def
  by (auto split: role.split intro!: guarded_send_hello guarded_receive_hello guarded_offer guarded_take guarded_done)

text \<open>
  C3. Whatever a paired peer sends, and wherever the session stops, the store of this device stays
  consistent: every clip it had is still there with the same payloads, a timestamp that is not lower
  and no deletion taken back; every clip that was added verifies against its hash; and every blob
  file holds bytes that hash to its name.
\<close>

theorem session_safe_against_any_peer:
  assumes "env_ok E" "store_ok E (sx_store x)" "files_verified E (sx_store x)"
    "peer_step\<^sup>*\<^sup>* (run_session E l ro, x) (p, x')"
  shows "store_ok E (sx_store x') \<and> files_verified E (sx_store x') \<and>
    history_grows E (history E (sx_store x)) (history E (sx_store x'))"
proof -
  have "ctx_grows E x x'"
    using guarded_run [OF assms(4) guarded_session [OF assms(1)] store_grows_refl] store_grows_trans by blast
  with assms(2,3) show ?thesis by (simp add: store_grows_def)
qed

text \<open>A peer that says hello, offers one clip and pushes it.\<close>

lemma peer_recv_to: "message_wf m \<Longrightarrow> f m = p \<Longrightarrow> peer_step (RecvMsg f, x) (p, x)"
  using peer_recv by blast

lemma peer_pushes:
  assumes "max_hlc E (sx_store x) = Inr t" "by_hash_including_deleted E (c_hash c) (sx_store x) = Inr None"
    "message_wf (Summary [summary_of c] True)" "message_wf (Push c)" "apply_clip E c x = (Inr a, x')"
  shows "peer_step\<^sup>*\<^sup>* (run_session E l Responder, x)
    (fetch_blobs E (offer_our_history E (\<lambda>r. Done (Inr r))) (count_push c a ([], None, default_outcome)), x')"
proof -
  let ?k = "offer_our_history E (\<lambda>r. Done (Inr r))" and ?g = "([], None, default_outcome)"
  let ?take = "take_their_history E ?k default_outcome"
  let ?hello = "Hello (clk_device (sx_clock x)) (link_epoch l) PROTOCOL_VERSION t (sx_label x) (sx_platform x)"
  have want: "wanted_of E [summary_of c] (sx_store x) = Inr [c_hash c]"
    using assms(2) by (simp add: wanted_of_def summary_of_def)
  have 1: "peer_step (run_session E l Responder, x) (send_hello E l ?take, x)"
    unfolding run_session_def receive_hello_def role.case
    by (rule peer_recv_to [of "Hello (remote_device l) 0 PROTOCOL_VERSION None [] []"]) simp_all
  have 2: "peer_step (send_hello E l ?take, x) (SendMsg ?hello ?take, x)"
    unfolding send_hello_def by (rule peer_act) (simp add: assms(1))
  have 3: "peer_step (SendMsg ?hello ?take, x) (?take, x)" by (rule peer_send)
  have 4: "peer_step (?take, x) (fetch_clips E ?k default_outcome [summary_of c], x)"
    unfolding take_their_history_def
    by (subst recv_summaries_loop) (rule peer_recv_to [OF assms(3)], simp)
  have 5: "peer_step (fetch_clips E ?k default_outcome [summary_of c], x)
      (SendMsg (Want [c_hash c]) (recv_pushes E 1 ?g (fetch_blobs E ?k)), x)"
    unfolding fetch_clips_def read_store_def by (rule peer_act) (simp add: want)
  have 6: "peer_step (SendMsg (Want [c_hash c]) (recv_pushes E 1 ?g (fetch_blobs E ?k)), x)
      (recv_pushes E 1 ?g (fetch_blobs E ?k), x)" by (rule peer_send)
  let ?act = "Act (\<lambda>x. case apply_clip E c x of (Inl e, x') \<Rightarrow> (x', fail e)
      | (Inr a, x') \<Rightarrow> (x', recv_pushes E 0 (count_push c a ?g) (fetch_blobs E ?k)))"
  have 7: "peer_step (recv_pushes E 1 ?g (fetch_blobs E ?k), x) (?act, x)"
    unfolding One_nat_def recv_pushes.simps by (rule peer_recv_to [OF assms(4)]) simp
  have 8: "peer_step (?act, x) (fetch_blobs E ?k (count_push c a ?g), x')"
    by (rule peer_act) (simp add: assms(5))
  show ?thesis
    using 1 2 3 4 5 6 7 8 by (meson converse_rtranclp_into_rtranclp rtranclp.rtrancl_refl)
qed

lemma mergeable_sample: "mergeable sample_env [] (sample_clip 5 False False)"
  using hash_matches_sample_env clip_wf_sample
  by (simp add: mergeable_def) (simp add: sample_clip_def clip_new_def Let_def sort_payloads_def)

lemma fresh_store_reads:
  "by_hash_including_deleted sample_env h (fresh_store q) = Inr None" "\<exists>t. max_hlc sample_env (fresh_store q) = Inr t"
proof -
  note ok = store_stateD [OF fresh_store_state(1) [of q]]
  show "by_hash_including_deleted sample_env h (fresh_store q) = Inr None"
    using by_hash_including_deleted_cases [OF ok(1,2), of h] by cases (simp_all add: fresh_store_state(2))
  show "\<exists>t. max_hlc sample_env (fresh_store q) = Inr t" using max_hlc_returns [OF ok(1,2)] by blast
qed

theorem session_safe_against_any_peer_witness:
  "\<exists>p x'. peer_step\<^sup>*\<^sup>* (run_session sample_env \<lparr>remote_device = DeviceId 3, link_epoch = 0\<rparr> Responder, sample_context 2 (fresh_store 100)) (p, x') \<and>
     store_ok sample_env (sx_store x') \<and> files_verified sample_env (sx_store x') \<and>
     history sample_env (sx_store x') = [norm_clip (sample_clip 5 False False)]"
proof -
  let ?x = "sample_context 2 (fresh_store 100)" and ?c = "sample_clip 5 False False"
  have st: "sx_store ?x = fresh_store 100" by (simp add: sample_context_def)
  have m: "mergeable sample_env (history sample_env (sx_store ?x)) ?c" using mergeable_sample by (simp add: st fresh_store_state(2))
  have "store_state sample_env (sx_store ?x)" by (simp add: st fresh_store_state(1))
  from apply_clip_history [OF this m] obtain a x' where
    x': "apply_clip sample_env ?c ?x = (Inr a, x')" "history sample_env (sx_store x') = [norm_clip ?c]"
    by (auto simp: st fresh_store_state(2) hist_apply_def lookup_def)
  obtain t where t: "max_hlc sample_env (sx_store ?x) = Inr t" using fresh_store_reads(2) st by metis
  have "by_hash_including_deleted sample_env (c_hash ?c) (sx_store ?x) = Inr None" by (simp add: st fresh_store_reads(1))
  moreover have "message_wf (Summary [summary_of ?c] True)" "message_wf (Push ?c)"
    using clip_wf_sample by (simp_all add: summary_of_def clip_wf_def)
  ultimately obtain p where run: "peer_step\<^sup>*\<^sup>*
      (run_session sample_env \<lparr>remote_device = DeviceId 3, link_epoch = 0\<rparr> Responder, ?x) (p, x')"
    using peer_pushes [OF t _ _ _ x'(1)] by metis
  have "files_verified sample_env (sx_store ?x)" unfolding st by (simp add: files_verified_def fresh_store_def)
  with session_safe_against_any_peer [OF sample_env_ok _ _ run] run x'(2) st fresh_store_ok(1) show ?thesis by metis
qed

section \<open>Limits\<close>

text \<open>
  A live clip with a newer timestamp does not bring back content that is deleted here: the row
  takes the timestamp and stays a tombstone. The documented rule would make it live, and since the
  timestamps are now equal, no later session repairs the difference.
\<close>

theorem undelete_is_lost:
  assumes "store_state E (sx_store x)" "mergeable E (history E (sx_store x)) c"
    "lookup (c_hash c) (history E (sx_store x)) = Some l" "c_deleted l" "\<not> c_deleted c" "c_hlc l < c_hlc c"
  shows "\<exists>x' l'. snd (apply_clip E c x) = x' \<and> lookup (c_hash c) (history E (sx_store x')) = Some l' \<and>
    c_deleted l' \<and> c_hlc l' = c_hlc c \<and> merge E (Some l') c = Ignore \<and>
    map_option c_deleted (merged E c (Some l)) = Some False"
proof -
  note st = store_stateD [OF assms(1)]
  from apply_clip_history [OF assms(1,2)] obtain a x' where x': "apply_clip E c x = (Inr a, x')"
    "history E (sx_store x') = hist_apply c (history E (sx_store x))" by blast
  have "lookup (c_hash c) (history E (sx_store x')) = Some (take_meta c l)"
    using assms(3,6) by (simp add: x'(2) lookup_hist_apply [OF st(4)] merge_entry_def)
  moreover have "hash_matches E c" using assms(2) by (simp add: mergeable_def)
  ultimately show ?thesis
    using assms(3-6) x'(1) by (intro exI [of _ x'] exI [of _ "take_meta c l"]) (simp add: take_meta_def merge_def merged_def)
qed

text \<open>A device that has deleted the sample clip, and the clip copied again elsewhere.\<close>

definition deleted_store :: store where
  "deleted_store = snd (store_delete sample_env 9 (ClipId 1) (Hlc 6 0 (DeviceId 2)) sample_store)"

lemma deleted_store_history:
  "store_state sample_env deleted_store"
  "history sample_env deleted_store = [(norm_clip (sample_clip 5 False False))\<lparr>c_deleted := True, c_hlc := Hlc 6 0 (DeviceId 2)\<rparr>]"
proof -
  note d = delete_history [OF sample_env_ok sample_store_history(1) surjective_pairing, of 9 "ClipId 1" "Hlc 6 0 (DeviceId 2)"]
  have "c_id (norm_clip (sample_clip 5 False False)) = ClipId 1" "\<not> c_deleted (norm_clip (sample_clip 5 False False))"
    by (simp_all add: sample_clip_def clip_new_def Let_def)
  with d show h: "history sample_env deleted_store = [(norm_clip (sample_clip 5 False False))\<lparr>c_deleted := True, c_hlc := Hlc 6 0 (DeviceId 2)\<rparr>]"
    by (simp add: deleted_store_def sample_store_history(2))
  show "store_state sample_env deleted_store"
    using d unfolding store_state_def h by (simp add: sample_env_ok deleted_store_def)
qed

theorem undelete_is_lost_witness:
  "\<exists>l'. lookup (c_hash (sample_clip 7 False False))
      (history sample_env (sx_store (snd (apply_clip sample_env (sample_clip 7 False False) (sample_context 3 deleted_store))))) = Some l' \<and>
     c_deleted l'"
proof -
  let ?c = "sample_clip 7 False False" and ?x = "sample_context 3 deleted_store"
  let ?l = "(norm_clip (sample_clip 5 False False))\<lparr>c_deleted := True, c_hlc := Hlc 6 0 (DeviceId 2)\<rparr>"
  have st: "sx_store ?x = deleted_store" by (simp add: sample_context_def)
  have hash: "c_hash (sample_clip 5 False False) = c_hash ?c" "c_id (sample_clip 5 False False) = c_id ?c"
    "\<not> c_deleted ?c" "Hlc 6 0 (DeviceId 2) < c_hlc ?c"
    "distinct (map (\<lambda>p. label (p_format p)) (c_payloads ?c))"
    by (simp_all add: sample_clip_def clip_new_def Let_def sort_payloads_def less_hlc_iff)
  have "mergeable sample_env (history sample_env (sx_store ?x)) ?c"
    using hash_matches_sample_env clip_wf_sample hash by (simp add: mergeable_def st deleted_store_history)
  moreover have "lookup (c_hash ?c) (history sample_env (sx_store ?x)) = Some ?l"
    by (simp add: st deleted_store_history lookup_def hash)
  moreover have "store_state sample_env (sx_store ?x)" by (simp add: st deleted_store_history)
  ultimately show ?thesis using undelete_is_lost [of sample_env ?x ?c ?l] hash by auto
qed

text \<open>
  A tombstone for content this device has never held counts as new content: the session announces
  it as an added clip and reports it as the newest clip received, although it is deleted.
\<close>

theorem unknown_tombstone_is_new_content:
  assumes "store_state E (sx_store x)" "mergeable E (history E (sx_store x)) c"
    "lookup (c_hash c) (history E (sx_store x)) = None" "c_deleted c"
  shows "\<exists>x'. apply_clip E c x = (Inr (AppliedInserted (c_id c)), x') \<and>
    sx_events x' = sx_events x @ [ClipAdded c] \<and>
    map_option snd (fst (snd (count_push c (AppliedInserted (c_id c)) ([], None, default_outcome)))) = Some (c_id c)"
proof -
  note st = store_stateD [OF assms(1)]
  have m: "hash_matches E c" "clip_wf c" "distinct (map (\<lambda>p. label (p_format p)) (c_payloads c))"
    "\<forall>d \<in> set (history E (sx_store x)). c_id d = c_id c \<longrightarrow> c_hash d = c_hash c"
    using assms(2) by (simp_all add: mergeable_def)
  have no: "c_hash c \<notin> c_hash ` set (history E (sx_store x))" using assms(3) by (simp add: lookup_None_iff)
  have new: "c_id c \<notin> c_id ` set (history E (sx_store x))"
  proof
    assume "c_id c \<in> c_id ` set (history E (sx_store x))"
    then obtain d where "d \<in> set (history E (sx_store x))" "c_id d = c_id c" by auto
    with m(4) have "c_hash c \<in> c_hash ` set (history E (sx_store x))" by (metis imageI)
    with no show False by simp
  qed
  have none: "find (\<lambda>d. c_hash d = c_hash c \<and> \<not> c_deleted d) (history E (sx_store x)) = None"
    using no unfolding find_None_iff by (metis imageI)
  from insert_fresh [OF st(1,2) m(2,1) none] new m(3) obtain st' where
    "store_insert E c (sx_store x) = (Inr (Inserted (c_id c)), st')" by auto
  then show ?thesis
    using by_hash_including_deleted_history [OF st(1-3), of "c_hash c"] assms(3) m(1)
    by (simp add: apply_clip_def merge_def emit_def note_received_def)
qed

theorem unknown_tombstone_is_new_content_witness:
  "\<exists>x'. apply_clip sample_env (sample_clip 5 False True) (sample_context 3 (fresh_store 100)) = (Inr (AppliedInserted (ClipId 1)), x') \<and>
     sx_events x' = [ClipAdded (sample_clip 5 False True)]"
proof -
  let ?c = "sample_clip 5 False True" and ?x = "sample_context 3 (fresh_store 100)"
  have st: "sx_store ?x = fresh_store 100" by (simp add: sample_context_def)
  have "mergeable sample_env (history sample_env (sx_store ?x)) ?c"
    using hash_matches_sample_env clip_wf_sample
    by (simp add: st fresh_store_state(2) mergeable_def) (simp add: sample_clip_def clip_new_def Let_def sort_payloads_def)
  moreover have "c_deleted ?c" "c_id ?c = ClipId 1" by (simp_all add: sample_clip_def clip_new_def Let_def)
  ultimately show ?thesis
    using unknown_tombstone_is_new_content [of sample_env ?x ?c]
    by (auto simp: st fresh_store_state lookup_def) (simp add: sample_context_def)
qed

end
