(* ===== verification/Sync_Gaps.thy ===== *)
theory Sync_Gaps
  imports Sync_Safety
begin

text \<open>
  What a session leaves open (\<open>take_their_history\<close> of \<open>clipsed/src/sync.rs\<close>). A clip is stored when it
  is pushed, and its large payloads follow; the session asks for the payloads of the clips that were
  pushed to it. If they do not arrive (the connection breaks, the sender cannot read the blob, the
  bytes do not have the digest), the clip is there without them, and later sessions with a peer that
  has it at the same stamp neither ask for the clip nor for its payloads.
\<close>

lemma wanted_none:
  assumes "store_state E st"
    "\<And>s. s \<in> set entries \<Longrightarrow> \<exists>c. lookup (cs_hash s) (history E st) = Some c \<and> cs_hlc s \<le> c_hlc c"
  shows "wanted_of E entries st = Inr []"
proof -
  note st = store_stateD [OF assms(1)]
  let ?f = "\<lambda>s. bind_r (by_hash_including_deleted E (cs_hash s) st) (\<lambda>found.
      Inr (case found of None \<Rightarrow> True | Some existing \<Rightarrow> cs_hlc s > c_hlc existing)) :: store_error + bool"
  have "?f s = Inr ((\<lambda>_. False) s)" if s: "s \<in> set entries" for s
    using assms(2) [OF s] by (auto simp: by_hash_including_deleted_history [OF st(1-3)])
  then have "mapM_r ?f entries = Inr (map (\<lambda>_. False) entries)" by (rule mapM_r_all)
  moreover have "filter snd (zip xs (map (\<lambda>_. False) xs)) = []" for xs :: "clip_summary list"
    by (induction xs) simp_all
  ultimately show ?thesis by (simp add: wanted_of_def)
qed

text \<open>
  Payloads that went missing are not asked for again: against a peer that offers nothing newer, a
  device asks for no clip and then for no blob, whichever blobs of its clips it lacks.
\<close>

theorem missing_blobs_stay_missing:
  assumes "store_state E (sx_store x)"
    "\<And>s. s \<in> set entries \<Longrightarrow> \<exists>c. lookup (cs_hash s) (history E (sx_store x)) = Some c \<and> cs_hlc s \<le> c_hlc c"
  shows "\<exists>f g. fetch_clips E k r entries = Act f \<and> f x = (x, SendMsg (Want []) (Act g)) \<and>
    (\<forall>y. g y = (y, SendMsg (Want []) (send_ack E (k (r\<lparr>so_newest_received := None\<rparr>)))))"
  using wanted_none [OF assms]
  by (simp add: fetch_clips_def read_store_def fetch_blobs_def)

theorem missing_blobs_stay_missing_witness:
  "\<exists>f g. fetch_clips sample_env (\<lambda>r. Done (Inr r)) default_outcome
      [summary_of (norm_clip (sample_clip 5 False False))] = Act f \<and>
    f (sample_context 3 sample_store) = (sample_context 3 sample_store, SendMsg (Want []) (Act g))"
proof -
  let ?c = "norm_clip (sample_clip 5 False False)"
  have st: "store_state sample_env (sx_store (sample_context 3 sample_store))"
    by (simp add: sample_context_def store_state_def sample_env_ok sample_store_history)
  have "lookup (cs_hash (summary_of ?c)) (history sample_env (sx_store (sample_context 3 sample_store))) = Some ?c"
    by (simp add: sample_context_def sample_store_history lookup_def summary_of_def)
  then have "\<exists>c. lookup (cs_hash s) (history sample_env (sx_store (sample_context 3 sample_store))) = Some c \<and> cs_hlc s \<le> c_hlc c"
    if "s \<in> set [summary_of ?c]" for s
    using that by (simp add: summary_of_def)
  from missing_blobs_stay_missing [OF st this] show ?thesis by blast
qed

end
