(* ===== verification/Secrets.thy ===== *)
theory Secrets
  imports Text
begin

unbundle bit_operations_syntax

text \<open>
  The detectors that keep credentials out of the history: secrets in text
  (\<open>clipse-clipboard/src/sensitive/secrets.rs\<close>) and blocked applications
  (\<open>clipse-clipboard/src/sensitive/apps.rs\<close>).

  The regular expressions are matched by the crate \<open>regex\<close>. They are the fields of the record
  \<open>patterns\<close>, an argument of the definitions that use them: for the key formats whether a text has
  a match, for the JWT shape the list of matches. The rest of the detection, the base64url decoder,
  the card number scan with its issuer ranges and the Luhn checksum, is modelled in full.

  Shown: the decoder inverts the encoder and rejects exactly the texts that are no encoding of
  whole bytes; the Luhn check detects every wrong digit; the card scan, a loop with a buffer, is the
  search over the maximal runs of digits, blanks and dashes.
\<close>

section \<open>Lossy decoding\<close>

text \<open>
  \<open>String::from_utf8_lossy\<close>: each maximal prefix of an ill-formed sequence becomes U+FFFD.
\<close>

fun utf8_lossy :: "nat list \<Rightarrow> ustr" where
  "utf8_lossy [] = []"
| "utf8_lossy (n0 # bs) =
     (if n0 < 128 then n0 # utf8_lossy bs
      else if 194 \<le> n0 \<and> n0 \<le> 223 then
        (case bs of
           n1 # bs' \<Rightarrow>
             if is_cont n1 then ((n0 - 192) * 64 + (n1 - 128)) # utf8_lossy bs' else 65533 # utf8_lossy bs
         | [] \<Rightarrow> [65533])
      else if 224 \<le> n0 \<and> n0 \<le> 239 then
        (case bs of
           n1 # bs' \<Rightarrow>
             if second_ok n0 n1
             then (case bs' of
                     n2 # bs'' \<Rightarrow>
                       if is_cont n2
                       then ((n0 - 224) * 4096 + (n1 - 128) * 64 + (n2 - 128)) # utf8_lossy bs''
                       else 65533 # utf8_lossy bs'
                   | [] \<Rightarrow> [65533])
             else 65533 # utf8_lossy bs
         | [] \<Rightarrow> [65533])
      else if 240 \<le> n0 \<and> n0 \<le> 244 then
        (case bs of
           n1 # bs' \<Rightarrow>
             if second_ok n0 n1
             then (case bs' of
                     n2 # bs'' \<Rightarrow>
                       if is_cont n2
                       then (case bs'' of
                               n3 # bs3 \<Rightarrow>
                                 if is_cont n3
                                 then ((n0 - 240) * 262144 + (n1 - 128) * 4096 + (n2 - 128) * 64 + (n3 - 128)) #
                                      utf8_lossy bs3
                                 else 65533 # utf8_lossy bs''
                             | [] \<Rightarrow> [65533])
                       else 65533 # utf8_lossy bs'
                   | [] \<Rightarrow> [65533])
             else 65533 # utf8_lossy bs
         | [] \<Rightarrow> [65533])
      else 65533 # utf8_lossy bs)"

definition from_utf8_lossy :: "bytes \<Rightarrow> ustr" where
  "from_utf8_lossy bs = utf8_lossy (map unat bs)"

declare utf8_lossy.simps(2) [simp del]

lemma utf8_lossy_valid: "utf8_decode bs = Some s \<Longrightarrow> utf8_lossy bs = s"
proof (induction bs arbitrary: s rule: utf8_decode.induct)
  case (2 n0 bs)
  note IH = 2(1-4) and step = 2(5)
  consider "n0 < 128" | "194 \<le> n0" "n0 \<le> 223" | "224 \<le> n0" "n0 \<le> 239" | "240 \<le> n0" "n0 \<le> 244"
    using step by (fastforce simp: utf8_decode.simps(2) split: if_split_asm)
  then show ?case
  proof cases
    case 1
    with step IH(1) show ?thesis by (auto simp: utf8_lossy.simps(2))
  next
    case 2
    with step obtain n1 bs' t where "bs = n1 # bs'" "is_cont n1" "utf8_decode bs' = Some t"
      "s = ((n0 - 192) * 64 + (n1 - 128)) # t"
      by (auto split: list.split_asm if_split_asm)
    with 2 IH(2) show ?thesis by (simp add: utf8_lossy.simps(2))
  next
    case 3
    with step obtain n1 n2 bs' t where "bs = n1 # n2 # bs'" "second_ok n0 n1" "is_cont n2" "utf8_decode bs' = Some t"
      "s = ((n0 - 224) * 4096 + (n1 - 128) * 64 + (n2 - 128)) # t"
      by (auto split: list.split_asm if_split_asm)
    with 3 IH(3) show ?thesis by (simp add: utf8_lossy.simps(2))
  next
    case 4
    with step obtain n1 n2 n3 bs' t where "bs = n1 # n2 # n3 # bs'" "second_ok n0 n1" "is_cont n2" "is_cont n3"
      "utf8_decode bs' = Some t" "s = ((n0 - 240) * 262144 + (n1 - 128) * 4096 + (n2 - 128) * 64 + (n3 - 128)) # t"
      by (auto split: list.split_asm if_split_asm)
    with 4 IH(4) show ?thesis by (simp add: utf8_lossy.simps(2))
  qed
qed simp

section \<open>Base64url\<close>

definition base64url_value :: "u8 \<Rightarrow> u8 option" where
  "base64url_value c =
     (if 65 \<le> c \<and> c \<le> 90 then Some (c - 65)
      else if 97 \<le> c \<and> c \<le> 122 then Some (c - 97 + 26)
      else if 48 \<le> c \<and> c \<le> 57 then Some (c - 48 + 52)
      else if c = 45 then Some 62
      else if c = 95 then Some 63
      else None)"

definition byte0 :: "u8 \<Rightarrow> u8 \<Rightarrow> u8" where
  "byte0 a b = push_bit 2 a OR drop_bit 4 b"

definition byte1 :: "u8 \<Rightarrow> u8 \<Rightarrow> u8" where
  "byte1 b c = push_bit 4 b OR drop_bit 2 c"

definition byte2 :: "u8 \<Rightarrow> u8 \<Rightarrow> u8" where
  "byte2 c d = push_bit 6 c OR d"

text \<open>The symbols of the current group are \<open>chunk\<close>; the decoded bytes are \<open>out\<close>.\<close>

definition decode_tail :: "u8 list \<Rightarrow> bytes \<Rightarrow> bytes option" where
  "decode_tail chunk out =
     (case chunk of
        [] \<Rightarrow> Some out
      | [a] \<Rightarrow> None
      | [a, b] \<Rightarrow> Some (out @ [byte0 a b])
      | a # b # c # _ \<Rightarrow> Some (out @ [byte0 a b, byte1 b c]))"

fun decode_loop :: "bytes \<Rightarrow> u8 list \<Rightarrow> bytes \<Rightarrow> bytes option" where
  "decode_loop [] chunk out = decode_tail chunk out"
| "decode_loop (s # ss) chunk out =
     (case base64url_value s of
        None \<Rightarrow> None
      | Some v \<Rightarrow>
          (case chunk @ [v] of
             [a, b, c, d] \<Rightarrow> decode_loop ss [] (out @ [byte0 a b, byte1 b c, byte2 c d])
           | chunk' \<Rightarrow> decode_loop ss chunk' out))"

definition base64url_decode :: "bytes \<Rightarrow> bytes option" where
  "base64url_decode s = decode_loop s [] []"

section \<open>Card numbers\<close>

definition is_ascii_digit :: "nat \<Rightarrow> bool" where
  "is_ascii_digit c \<longleftrightarrow> 48 \<le> c \<and> c \<le> 57"

text \<open>\<open>parse::<u32>()\<close> of a short list of digits.\<close>

definition digits_value :: "ustr \<Rightarrow> nat" where
  "digits_value ds = foldl (\<lambda>v c. 10 * v + (c - 48)) 0 ds"

definition has_card_issuer_prefix :: "ustr \<Rightarrow> bool" where
  "has_card_issuer_prefix digits \<longleftrightarrow>
     (let two = digits_value (take 2 digits);
          four = (if length digits < 4 then 0 else digits_value (take 4 digits))
      in take 1 digits = [52] \<or> (51 \<le> two \<and> two \<le> 55) \<or> (2221 \<le> four \<and> four \<le> 2720) \<or>
         two = 34 \<or> two = 37 \<or> two = 65 \<or> four = 6011 \<or> (644 \<le> four div 10 \<and> four div 10 \<le> 649) \<or>
         two = 62 \<or> two = 35 \<or> two = 30 \<or> two = 36 \<or> two = 38)"

text \<open>The sum stays far below \<open>2 ^ 32\<close>: the caller passes at most 19 digits.\<close>

definition luhn_digit :: "nat \<Rightarrow> nat \<Rightarrow> nat" where
  "luhn_digit i c = (let d = c - 48 in if i mod 2 = 1 then (if d * 2 > 9 then d * 2 - 9 else d * 2) else d)"

definition luhn_valid :: "ustr \<Rightarrow> bool" where
  "luhn_valid digits \<longleftrightarrow> sum_list (map (\<lambda>(i, c). luhn_digit i c) (enumerate 0 (rev digits))) mod 10 = 0"

definition check_run :: "ustr \<Rightarrow> bool" where
  "check_run run =
     (let digits = filter is_ascii_digit run
      in 13 \<le> length digits \<and> length digits \<le> 19 \<and> has_card_issuer_prefix digits \<and> luhn_valid digits)"

fun scan_cards :: "ustr \<Rightarrow> ustr \<Rightarrow> bool" where
  "scan_cards run [] = (run \<noteq> [] \<and> check_run run)"
| "scan_cards run (c # cs) =
     (if is_ascii_digit c \<or> c = 32 \<or> c = 45 then scan_cards (run @ [c]) cs
      else if run \<noteq> [] then (if check_run run then True else scan_cards [] cs)
      else scan_cards [] cs)"

definition contains_luhn_valid_card_number :: "ustr \<Rightarrow> bool" where
  "contains_luhn_valid_card_number str = scan_cards [] str"

section \<open>Detection\<close>

datatype secret_kind =
    Jwt | AwsAccessKey | GitHubToken | SlackToken | StripeKey | OpenAiKey | GoogleApiKey | PrivateKeyPem | CreditCard

record patterns =
  jwt_re :: "ustr \<Rightarrow> ustr list"
  aws_key_re :: "ustr \<Rightarrow> bool"
  github_token_re :: "ustr \<Rightarrow> bool"
  slack_token_re :: "ustr \<Rightarrow> bool"
  stripe_key_re :: "ustr \<Rightarrow> bool"
  openai_key_re :: "ustr \<Rightarrow> bool"
  google_api_key_re :: "ustr \<Rightarrow> bool"
  pem_header_re :: "ustr \<Rightarrow> bool"

text \<open>
  The patterns of the source. The regex engine is a parameter: whether a pattern matches somewhere
  in a text, and the matches it finds there.
\<close>

definition source_patterns :: "(string \<Rightarrow> ustr \<Rightarrow> bool) \<Rightarrow> (string \<Rightarrow> ustr \<Rightarrow> ustr list) \<Rightarrow> patterns" where
  "source_patterns is_match find_iter =
     (let dot = [CHR 0x5C, CHR ''.'']; word = [CHR 0x5C, CHR ''b'']
      in \<lparr>jwt_re = find_iter (''[A-Za-z0-9_-]{10,}'' @ dot @ ''[A-Za-z0-9_-]{10,}'' @ dot @ ''[A-Za-z0-9_-]{10,}''),
          aws_key_re = is_match (word @ ''AKIA[0-9A-Z]{16}'' @ word),
          github_token_re = is_match (word @ ''(?:ghp|gho|ghs)_[A-Za-z0-9]{36,}'' @ word @ ''|'' @
            word @ ''github_pat_[A-Za-z0-9_]{22,}'' @ word),
          slack_token_re = is_match (word @ ''xox[baprs]-[A-Za-z0-9-]{10,}'' @ word),
          stripe_key_re = is_match (word @ ''(?:sk|rk)_live_[A-Za-z0-9]{16,}'' @ word),
          openai_key_re = is_match (word @ ''sk-[A-Za-z0-9_-]{20,}'' @ word),
          google_api_key_re = is_match (word @ ''AIza[0-9A-Za-z_-]{35}'' @ word),
          pem_header_re = is_match ''-----BEGIN [A-Z ]*PRIVATE KEY-----''\<rparr>)"

fun is_infix :: "'a list \<Rightarrow> 'a list \<Rightarrow> bool" where
  "is_infix needle [] = (needle = [])"
| "is_infix needle (x # xs) = (take (length needle) (x # xs) = needle \<or> is_infix needle xs)"

definition looks_like_jwt :: "patterns \<Rightarrow> ustr \<Rightarrow> bool" where
  "looks_like_jwt R str \<longleftrightarrow>
     list_ex (\<lambda>m. let header = takeWhile (\<lambda>c. c \<noteq> 46) m
                  in case base64url_decode (utf8_encode header) of
                       None \<Rightarrow> False
                     | Some decoded \<Rightarrow>
                         (case from_utf8 decoded of
                            None \<Rightarrow> False | Some s \<Rightarrow> is_infix (lit [CHR 0x22, CHR ''a'', CHR ''l'', CHR ''g'', CHR 0x22]) s))
       (jwt_re R str)"

definition detect_secret :: "patterns \<Rightarrow> ustr \<Rightarrow> secret_kind option" where
  "detect_secret R str =
     (if pem_header_re R str then Some PrivateKeyPem
      else if aws_key_re R str then Some AwsAccessKey
      else if github_token_re R str then Some GitHubToken
      else if slack_token_re R str then Some SlackToken
      else if stripe_key_re R str then Some StripeKey
      else if openai_key_re R str then Some OpenAiKey
      else if google_api_key_re R str then Some GoogleApiKey
      else if looks_like_jwt R str then Some Jwt
      else if contains_luhn_valid_card_number str then Some CreditCard
      else None)"

section \<open>Blocked applications\<close>

definition DEFAULT_BLOCKED_APPS :: "ustr list" where
  "DEFAULT_BLOCKED_APPS =
     [lit ''1Password'', lit ''Bitwarden'', lit ''KeePassXC'', lit ''LastPass'', lit ''Dashlane'',
      lit ''Proton Pass'', lit ''Keeper'', lit ''Enpass'', lit ''Keychain Access'']"

definition is_ascii_alphanumeric :: "nat \<Rightarrow> bool" where
  "is_ascii_alphanumeric c \<longleftrightarrow> is_ascii_digit c \<or> 65 \<le> c \<and> c \<le> 90 \<or> 97 \<le> c \<and> c \<le> 122"

definition to_ascii_lowercase :: "nat \<Rightarrow> nat" where
  "to_ascii_lowercase c = (if 65 \<le> c \<and> c \<le> 90 then c + 32 else c)"

definition normalize :: "ustr \<Rightarrow> ustr" where
  "normalize s = map to_ascii_lowercase (filter is_ascii_alphanumeric s)"

record app_blocklist =
  ab_normalized :: "ustr list"

definition blocklist_new :: "ustr list \<Rightarrow> app_blocklist" where
  "blocklist_new entries = \<lparr>ab_normalized = map normalize entries\<rparr>"

definition with_extra :: "ustr list \<Rightarrow> app_blocklist \<Rightarrow> app_blocklist" where
  "with_extra entries b = b\<lparr>ab_normalized := ab_normalized b @ map normalize entries\<rparr>"

definition blocklist_defaults :: app_blocklist where
  "blocklist_defaults = blocklist_new DEFAULT_BLOCKED_APPS"

definition is_blocked :: "app_blocklist \<Rightarrow> ustr \<Rightarrow> bool" where
  "is_blocked b app_name \<longleftrightarrow>
     (let app = normalize app_name in app \<noteq> [] \<and> list_ex (\<lambda>entry. is_infix entry app) (ab_normalized b))"

section \<open>The decoder\<close>

text \<open>The encoder the decoder is to invert: the alphabet, and three bytes as four symbols.\<close>

definition b64_symbol :: "u8 \<Rightarrow> u8" where
  "b64_symbol v = (if v < 26 then v + 65 else if v < 52 then v - 26 + 97 else if v < 62 then v - 52 + 48
     else if v = 62 then 45 else 95)"

fun base64url_encode :: "bytes \<Rightarrow> bytes" where
  "base64url_encode [] = []"
| "base64url_encode [a] = map b64_symbol [drop_bit 2 a, push_bit 4 a AND 48]"
| "base64url_encode [a, b] =
     map b64_symbol [drop_bit 2 a, (push_bit 4 a AND 48) OR drop_bit 4 b, push_bit 2 b AND 60]"
| "base64url_encode (a # b # c # bs) =
     map b64_symbol [drop_bit 2 a, (push_bit 4 a AND 48) OR drop_bit 4 b, (push_bit 2 b AND 60) OR drop_bit 6 c, c AND 63] @
     base64url_encode bs"

lemma value_symbol: "v < 64 \<Longrightarrow> base64url_value (b64_symbol v) = Some v"
proof -
  assume "v < 64"
  then have "unat v < 64" by (simp add: word_less_nat_alt)
  then have "unat v \<in> set [0..<64]" by simp
  then have "of_nat (unat v) \<in> set (map of_nat [0..<64] :: u8 list)" by (metis image_eqI set_map)
  then have "v \<in> set (map of_nat [0..<64])" by simp
  moreover have "list_all (\<lambda>w. base64url_value (b64_symbol w) = Some w) (map of_nat [0..<64] :: u8 list)" by code_simp
  ultimately show ?thesis unfolding list_all_iff by blast
qed

lemma u8_eqI:
  assumes "\<And>n. n \<in> {0, 1, 2, 3, 4, 5, 6, 7} \<Longrightarrow> bit (a :: u8) n = bit b n"
  shows "a = b"
proof (rule bit_word_eqI)
  fix n :: nat assume "n < LENGTH(8)"
  then have "n < 8" by simp
  then have "n = 0 \<or> n = 1 \<or> n = 2 \<or> n = 3 \<or> n = 4 \<or> n = 5 \<or> n = 6 \<or> n = 7" by linarith
  then show "bit a n = bit b n" by (intro assms) blast
qed

lemma not_bit_beyond: "8 \<le> n \<Longrightarrow> \<not> bit (a :: u8) n"
  by (auto dest: bit_imp_le_length)

lemma sextets_small:
  "drop_bit 2 (a :: u8) < 64" "(push_bit 4 a AND 48) OR drop_bit 4 (b :: u8) < 64"
  "(push_bit 2 b AND 60) OR drop_bit 6 (c :: u8) < 64" "c AND 63 < 64" "push_bit 4 a AND 48 < 64" "push_bit 2 b AND 60 < 64"
proof -
  have small: "w < 64" if "\<not> bit w 6" "\<not> bit w 7" for w :: u8
  proof -
    have "take_bit 6 w = w" by (rule u8_eqI) (use that in \<open>auto simp: bit_take_bit_iff\<close>)
    then have "w AND mask 6 = w" by (simp add: take_bit_eq_mask)
    then have "w \<le> mask 6" by (metis word_and_le1)
    then show ?thesis by (simp add: mask_eq_exp_minus_1 word_le_nat_alt word_less_nat_alt)
  qed
  show "drop_bit 2 a < 64" by (rule small) (simp_all add: bit_simps not_bit_beyond)
  show "(push_bit 4 a AND 48) OR drop_bit 4 b < 64" by (rule small) (simp_all add: bit_simps not_bit_beyond)
  show "(push_bit 2 b AND 60) OR drop_bit 6 c < 64" by (rule small) (simp_all add: bit_simps not_bit_beyond)
  show "c AND 63 < 64" by (rule small) (simp_all add: bit_simps not_bit_beyond)
  show "push_bit 4 a AND 48 < 64" by (rule small) (simp_all add: bit_simps not_bit_beyond)
  show "push_bit 2 b AND 60 < 64" by (rule small) (simp_all add: bit_simps not_bit_beyond)
qed

lemma bytes_of_sextets:
  "byte0 (drop_bit 2 a) ((push_bit 4 a AND 48) OR drop_bit 4 b) = a"
  "byte0 (drop_bit 2 a) (push_bit 4 a AND 48) = a"
  "byte1 ((push_bit 4 a AND 48) OR drop_bit 4 b) ((push_bit 2 b AND 60) OR drop_bit 6 c) = b"
  "byte1 ((push_bit 4 a AND 48) OR drop_bit 4 b) (push_bit 2 b AND 60) = b"
  "byte2 ((push_bit 2 b AND 60) OR drop_bit 6 c) (c AND 63) = c"
  unfolding byte0_def byte1_def byte2_def
  by (rule u8_eqI; auto simp: bit_simps not_bit_beyond simp flip: numeral_2_eq_2 numeral_3_eq_3)+


lemma decode_loop_encode: "decode_loop (base64url_encode bs) [] out = Some (out @ bs)"
proof (induction bs arbitrary: out rule: base64url_encode.induct)
  case (2 a)
  show ?case by (simp add: value_symbol sextets_small decode_tail_def bytes_of_sextets)
next
  case (3 a b)
  show ?case by (simp add: value_symbol sextets_small decode_tail_def bytes_of_sextets)
next
  case (4 a b c bs)
  then show ?case by (simp add: value_symbol sextets_small bytes_of_sextets)
qed (simp add: decode_tail_def)

lemma decode_loop_None:
  "length chunk < 4 \<Longrightarrow> decode_loop ss chunk out = None \<longleftrightarrow>
     (\<exists>s \<in> set ss. base64url_value s = None) \<or> (length chunk + length ss) mod 4 = 1"
proof (induction ss arbitrary: chunk out)
  case Nil
  then show ?case by (auto simp: decode_tail_def split: list.split)
next
  case (Cons s ss)
  show ?case
  proof (cases "base64url_value s")
    case (Some v)
    show ?thesis
    proof (cases "length chunk = 3")
      case True
      then obtain a b c where "chunk = [a, b, c]" by (auto simp: numeral_3_eq_3 length_Suc_conv)
      with Some Cons.IH [of "[]" "out @ [byte0 a b, byte1 b c, byte2 c v]"] show ?thesis by simp
    next
      case False
      with Cons.prems have short: "length (chunk @ [v]) < 4" by simp
      then have "(case chunk @ [v] of [a, b, c, d] \<Rightarrow> decode_loop ss [] (out @ [byte0 a b, byte1 b c, byte2 c d])
           | chunk' \<Rightarrow> decode_loop ss chunk' out) = decode_loop ss (chunk @ [v]) out"
        by (auto split: list.split)
      with Some Cons.IH [OF short] show ?thesis by simp
    qed
  qed simp
qed

text \<open>
  Decoding inverts encoding, and the decoder refuses exactly the inputs with a symbol outside
  the alphabet or with a lone symbol at the end.
\<close>

theorem base64url_decode_correct:
  "base64url_decode (base64url_encode bs) = Some bs \<and>
   (base64url_decode s = None \<longleftrightarrow> (\<exists>c \<in> set s. base64url_value c = None) \<or> length s mod 4 = 1)"
  by (simp add: base64url_decode_def decode_loop_encode decode_loop_None)

section \<open>The Luhn checksum\<close>

lemma luhn_digit_inj:
  assumes "is_ascii_digit c" "is_ascii_digit d" "c \<noteq> d"
  shows "luhn_digit i c < 10" "luhn_digit i c \<noteq> luhn_digit i d"
proof -
  define m n where "m = c - 48" and "n = d - 48"
  with assms have mn: "m < 10" "n < 10" "m \<noteq> n" by (auto simp: is_ascii_digit_def)
  show "luhn_digit i c < 10" using mn by (auto simp: luhn_digit_def Let_def m_def [symmetric])
  show "luhn_digit i c \<noteq> luhn_digit i d"
    unfolding luhn_digit_def Let_def m_def [symmetric] n_def [symmetric] using mn by presburger
qed

lemma luhn_sum:
  "sum_list (map (\<lambda>(i, c). luhn_digit i c) (enumerate 0 ds)) = (\<Sum>i < length ds. luhn_digit i (ds ! i))"
proof -
  have "map (\<lambda>(i, c). luhn_digit i c) (enumerate 0 ds) = map (\<lambda>i. luhn_digit i (ds ! i)) [0..<length ds]"
    by (rule nth_equalityI) (simp_all add: nth_enumerate_eq)
  then show ?thesis by (simp add: interv_sum_list_conv_sum_set_nat atLeast0LessThan)
qed

text \<open>
  The checksum notices every wrong digit: a valid number stops being valid when one of its
  digits is replaced by another.
\<close>

theorem luhn_detects_wrong_digit:
  assumes "luhn_valid ds" "list_all is_ascii_digit ds" "k < length ds" "is_ascii_digit c" "c \<noteq> ds ! k"
  shows "\<not> luhn_valid (ds[k := c])"
proof
  assume bad: "luhn_valid (ds[k := c])"
  let ?j = "length ds - Suc k" and ?r = "rev ds"
  have j: "?j < length ds" using assms(3) by simp
  have upd: "rev (ds[k := c]) = ?r[?j := c]" using assms(3) by (simp add: rev_update)
  have split: "(\<Sum>i < length ds. f i) = f ?j + (\<Sum>i \<in> {..<length ds} - {?j}. f i)" for f :: "nat \<Rightarrow> nat"
    using j by (simp add: sum.remove)
  let ?rest = "\<Sum>i \<in> {..<length ds} - {?j}. luhn_digit i (?r ! i)"
  have "(\<Sum>i \<in> {..<length ds} - {?j}. luhn_digit i (?r[?j := c] ! i)) = ?rest"
    by (rule sum.cong) auto
  then have "(luhn_digit ?j c + ?rest) mod 10 = 0"
    using bad split [of "\<lambda>i. luhn_digit i (?r[?j := c] ! i)"] j by (simp add: luhn_valid_def luhn_sum upd)
  moreover have "(luhn_digit ?j (ds ! k) + ?rest) mod 10 = 0"
    using assms(1,3) split [of "\<lambda>i. luhn_digit i (?r ! i)"] j by (simp add: luhn_valid_def luhn_sum rev_nth Suc_diff_Suc)
  moreover have "is_ascii_digit (ds ! k)" using assms(2,3) by (simp add: list_all_length)
  then have "luhn_digit ?j c < 10" "luhn_digit ?j (ds ! k) < 10" "luhn_digit ?j c \<noteq> luhn_digit ?j (ds ! k)"
    using luhn_digit_inj assms(4,5) by metis+
  ultimately show False by presburger
qed

theorem luhn_detects_wrong_digit_witness:
  "luhn_valid (lit ''4111111111111111'') \<and> \<not> luhn_valid ((lit ''4111111111111111'')[3 := 50])"
proof -
  have v: "luhn_valid (lit ''4111111111111111'')" by code_simp
  moreover have "\<not> luhn_valid ((lit ''4111111111111111'')[3 := 50])"
    by (rule luhn_detects_wrong_digit [OF v]) (simp_all add: is_ascii_digit_def)
  ultimately show ?thesis ..
qed

section \<open>The card scan\<close>

definition run_char :: "nat \<Rightarrow> bool" where
  "run_char c \<longleftrightarrow> is_ascii_digit c \<or> c = 32 \<or> c = 45"

definition maximal_run :: "ustr \<Rightarrow> ustr \<Rightarrow> bool" where
  "maximal_run s r \<longleftrightarrow> (\<exists>pre post. s = pre @ r @ post \<and> r \<noteq> [] \<and> (\<forall>c \<in> set r. run_char c) \<and>
     (pre = [] \<or> \<not> run_char (last pre)) \<and> (post = [] \<or> \<not> run_char (hd post)))"

lemma takeWhile_run: "\<forall>c \<in> set r. P c \<Longrightarrow> post = [] \<or> \<not> P (hd post) \<Longrightarrow> takeWhile P (r @ post) = r"
  by (cases post) auto

lemma maximal_run_end: "\<forall>c \<in> set run. run_char c \<Longrightarrow> maximal_run run r \<longleftrightarrow> r = run \<and> run \<noteq> []"
proof
  assume all: "\<forall>c \<in> set run. run_char c" and "maximal_run run r"
  then obtain pre post where d: "run = pre @ r @ post" "r \<noteq> []" "pre = [] \<or> \<not> run_char (last pre)" "post = [] \<or> \<not> run_char (hd post)"
    unfolding maximal_run_def by blast
  with all have "pre = []" "post = []" by (metis Un_iff last_in_set set_append, metis Un_iff list.set_sel(1) set_append)
  with d show "r = run \<and> run \<noteq> []" by simp
qed (auto simp: maximal_run_def intro!: exI [of _ "[]"])

lemma maximal_run_break:
  assumes "\<forall>c \<in> set run. run_char c" "\<not> run_char c"
  shows "maximal_run (run @ c # cs) r \<longleftrightarrow> r = run \<and> run \<noteq> [] \<or> maximal_run cs r"
proof
  assume "maximal_run (run @ c # cs) r"
  then obtain pre post where d: "run @ c # cs = pre @ r @ post" "r \<noteq> []" "\<forall>c \<in> set r. run_char c"
    "pre = [] \<or> \<not> run_char (last pre)" "post = [] \<or> \<not> run_char (hd post)" unfolding maximal_run_def by blast
  show "r = run \<and> run \<noteq> [] \<or> maximal_run cs r"
  proof (cases "pre = []")
    case True
    have "r = takeWhile run_char (r @ post)" using takeWhile_run d(3,5) by metis
    also have "\<dots> = takeWhile run_char (run @ c # cs)" using d(1) True by simp
    also have "\<dots> = run" using assms by (intro takeWhile_run) auto
    finally show ?thesis using d(2) by simp
  next
    case False
    then have "length run < length pre"
      using d(1,4) assms(1) by (metis Un_iff append_eq_append_conv_if append_take_drop_id last_in_set linorder_not_less set_append take_all_iff)
    then obtain pre' where pre: "pre = run @ c # pre'" "cs = pre' @ r @ post"
      using d(1) by (auto simp: append_eq_append_conv2 Cons_eq_append_conv)
    then have "pre' = [] \<or> \<not> run_char (last pre')" using d(4) by auto
    then show ?thesis using pre(2) d unfolding maximal_run_def by blast
  qed
next
  assume "r = run \<and> run \<noteq> [] \<or> maximal_run cs r"
  then show "maximal_run (run @ c # cs) r"
  proof
    assume "r = run \<and> run \<noteq> []"
    with assms show ?thesis unfolding maximal_run_def by (intro exI [of _ "[]"] exI [of _ "c # cs"]) simp
  next
    assume "maximal_run cs r"
    then obtain pre post where d: "cs = pre @ r @ post" "r \<noteq> []" "\<forall>c \<in> set r. run_char c"
      "pre = [] \<or> \<not> run_char (last pre)" "post = [] \<or> \<not> run_char (hd post)" unfolding maximal_run_def by blast
    then show ?thesis
      using assms(2) unfolding maximal_run_def by (intro exI [of _ "run @ c # pre"] exI [of _ post]) auto
  qed
qed

lemma scan_cards_runs:
  "\<forall>c \<in> set run. run_char c \<Longrightarrow> scan_cards run cs \<longleftrightarrow> (\<exists>r. maximal_run (run @ cs) r \<and> check_run r)"
proof (induction run cs rule: scan_cards.induct)
  case (1 run)
  then show ?case by (auto simp: maximal_run_end)
next
  case (2 run c cs)
  show ?case
  proof (cases "run_char c")
    case True
    with 2 show ?thesis by (auto simp: run_char_def)
  next
    case False
    then have c: "\<not> (is_ascii_digit c \<or> c = 32 \<or> c = 45)" by (simp add: run_char_def)
    have "scan_cards run (c # cs) \<longleftrightarrow> run \<noteq> [] \<and> check_run run \<or> scan_cards [] cs" using c by auto
    moreover have "scan_cards [] cs \<longleftrightarrow> (\<exists>r. maximal_run cs r \<and> check_run r)" if "\<not> (run \<noteq> [] \<and> check_run run)"
      using 2(2,3) c that by auto
    ultimately show ?thesis using maximal_run_break [OF 2(4) False, of cs] by auto
  qed
qed

text \<open>
  The scan, one pass with a buffer, reports a card number exactly if some maximal run of digits,
  blanks and dashes in the text has 13 to 19 digits, an issuer prefix and a valid checksum.
\<close>

theorem card_scan_is_run_search:
  "contains_luhn_valid_card_number str \<longleftrightarrow> (\<exists>r. maximal_run str r \<and> check_run r)"
  by (simp add: contains_luhn_valid_card_number_def scan_cards_runs)

section \<open>The blocklist\<close>

lemma is_infix_iff: "is_infix needle s \<longleftrightarrow> (\<exists>pre post. s = pre @ needle @ post)"
proof (induction s)
  case (Cons x xs)
  have "take (length needle) (x # xs) = needle \<longleftrightarrow> (\<exists>post. x # xs = needle @ post)"
    by (metis append_eq_conv_conj append_take_drop_id)
  then show ?case
    using Cons by (auto simp: Cons_eq_append_conv)
qed simp

lemma with_extra_blocks:
  "is_blocked (with_extra es b) app \<longleftrightarrow>
     is_blocked b app \<or> normalize app \<noteq> [] \<and> (\<exists>e \<in> set es. \<exists>pre post. normalize app = pre @ normalize e @ post)"
  by (auto simp: is_blocked_def with_extra_def list_ex_iff is_infix_iff Let_def)

text \<open>
  A blocklist entry without ASCII letters or digits (a name in another script, say) blocks every
  application whose name has one.
\<close>

theorem unnormalisable_entry_blocks_all:
  assumes "\<forall>c \<in> set e. \<not> is_ascii_alphanumeric c" "\<exists>c \<in> set app. is_ascii_alphanumeric c"
  shows "is_blocked (with_extra [e] b) app"
proof -
  have "normalize e = []" "normalize app \<noteq> []" using assms by (auto simp: normalize_def filter_empty_conv)
  then show ?thesis by (auto simp: with_extra_blocks)
qed

theorem unnormalisable_entry_blocks_all_witness:
  "is_blocked (with_extra [[24494, 20449]] blocklist_defaults) (lit ''notepad.exe'') \<and>
   \<not> is_blocked blocklist_defaults (lit ''notepad.exe'')"
proof -
  have "is_blocked (with_extra [[24494, 20449]] blocklist_defaults) (lit ''notepad.exe'')"
    by (rule unnormalisable_entry_blocks_all) (simp_all add: is_ascii_alphanumeric_def is_ascii_digit_def)
  moreover have "\<not> is_blocked blocklist_defaults (lit ''notepad.exe'')" by code_simp
  ultimately show ?thesis ..
qed

end
