(* ===== verification/Capture_Pipeline.thy ===== *)
theory Capture_Pipeline
  imports Secrets Clip_Model Echo_Guards
begin

text \<open>
  From a reading of the clipboard to a capture event (\<open>clipse-clipboard/src/capture.rs\<close> and
  \<open>watch.rs\<close>): every platform backend hands what it read to \<open>classify\<close>, which applies the privacy
  rules in order, and the event to \<open>deliver\<close>, which offers it to the daemon's bounded channel.

  Shown: what \<open>classify\<close> lets through is exactly the non-empty, not too large captures of
  applications that are not blocked, that are no echo of an own write and in which no detector
  finds a secret; delivery ends at the first moment the channel or the shutdown flag allows.
\<close>

section \<open>Captures\<close>

record capture =
  cap_payloads :: "(clip_format \<times> bytes) list"
  cap_app :: "ustr option"

definition total_bytes :: "capture \<Rightarrow> u64" where
  "total_bytes c = sum_list (map (\<lambda>(_, b). of_nat (length b)) (cap_payloads c))"

definition hash_payloads :: "'x crates_scheme \<Rightarrow> (clip_format \<times> bytes) list \<Rightarrow> content_hash" where
  "hash_payloads X ps =
     of_parts X (map (\<lambda>(fmt, b). (label fmt, b)) (sort_key (\<lambda>(fmt, _). label fmt) ps))"

definition capture_hash :: "'x crates_scheme \<Rightarrow> capture \<Rightarrow> content_hash" where
  "capture_hash X c = hash_payloads X (cap_payloads c)"

section \<open>Classification\<close>

datatype suppression_reason =
    ConcealedFormat
  | BlockedApp ustr
  | DetectedSecret secret_kind
  | EmptyClipboard
  | TooLarge u64
  | OwnWrite

datatype capture_event = Captured capture | SuppressedCapture suppression_reason

datatype watch_mode = WatchAutomatic | WatchManualPush ustr

record watch_config =
  wc_app_blocklist :: app_blocklist
  wc_max_payload_bytes :: u64
  wc_detect_secrets :: bool
  wc_own_write_ttl :: nat
  wc_channel_capacity :: nat

definition DEFAULT_MAX_PAYLOAD_BYTES :: u64 where
  "DEFAULT_MAX_PAYLOAD_BYTES = 64 * 1024 * 1024"

definition default_watch_config :: watch_config where
  "default_watch_config =
     \<lparr>wc_app_blocklist = blocklist_defaults, wc_max_payload_bytes = DEFAULT_MAX_PAYLOAD_BYTES,
      wc_detect_secrets = True, wc_own_write_ttl = DEFAULT_OWN_WRITE_TTL, wc_channel_capacity = 16\<rparr>"

datatype raw_poll = PollConcealed | PollEmpty | PollData capture

definition is_text_like :: "clip_format \<Rightarrow> bool" where
  "is_text_like f \<longleftrightarrow> f = Text \<or> f = Html \<or> f = Rtf"

fun detect_secret_in_payloads :: "patterns \<Rightarrow> (clip_format \<times> bytes) list \<Rightarrow> secret_kind option" where
  "detect_secret_in_payloads R [] = None"
| "detect_secret_in_payloads R ((fmt, bs) # ps) =
     (case (if is_text_like fmt then detect_secret R (from_utf8_lossy bs) else None) of
        Some k \<Rightarrow> Some k
      | None \<Rightarrow> detect_secret_in_payloads R ps)"

definition classify :: "'x crates_scheme \<Rightarrow> patterns \<Rightarrow> nat \<Rightarrow> watch_config \<Rightarrow> raw_poll \<Rightarrow> own_write_guard \<Rightarrow>
    capture_event \<times> own_write_guard" where
  "classify X R now cfg poll guard =
     (case poll of
        PollConcealed \<Rightarrow> (SuppressedCapture ConcealedFormat, guard)
      | PollEmpty \<Rightarrow> (SuppressedCapture EmptyClipboard, guard)
      | PollData c \<Rightarrow>
          if cap_payloads c = [] then (SuppressedCapture EmptyClipboard, guard)
          else if total_bytes c > wc_max_payload_bytes cfg then (SuppressedCapture (TooLarge (total_bytes c)), guard)
          else (case (case cap_app c of None \<Rightarrow> None
                      | Some app \<Rightarrow> if is_blocked (wc_app_blocklist cfg) app then Some app else None) of
                  Some app \<Rightarrow> (SuppressedCapture (BlockedApp app), guard)
                | None \<Rightarrow>
                    (case own_check now (capture_hash X c) guard of
                       (True, g) \<Rightarrow> (SuppressedCapture OwnWrite, g)
                     | (False, g) \<Rightarrow>
                         (case (if wc_detect_secrets cfg then detect_secret_in_payloads R (cap_payloads c) else None) of
                            Some k \<Rightarrow> (SuppressedCapture (DetectedSecret k), g)
                          | None \<Rightarrow> (Captured c, g)))))"

section \<open>Delivery\<close>

datatype try_send = SentOk | ChannelClosed | ChannelFull

text \<open>
  The loop of \<open>deliver\<close> against what it observes in each round: the shutdown flag, and what
  \<open>try_send\<close> says. \<open>None\<close> is a loop that is still waiting.
\<close>

fun deliver :: "(bool \<times> try_send) list \<Rightarrow> bool option" where
  "deliver [] = None"
| "deliver ((stopping, r) # rounds) =
     (if stopping then Some False
      else case r of SentOk \<Rightarrow> Some True | ChannelClosed \<Rightarrow> Some False | ChannelFull \<Rightarrow> deliver rounds)"

text \<open>
  Delivery never hangs once it can end: it waits exactly while the channel is full and nobody
  asked for shutdown, sends only if it was not asked to stop, and returns at the first round that
  differs, whatever comes later.
\<close>

theorem deliver_terminates:
  "(deliver rounds = None \<longleftrightarrow> (\<forall>r \<in> set rounds. r = (False, ChannelFull))) \<and>
   (deliver rounds = Some True \<longleftrightarrow> (\<exists>n post. rounds = replicate n (False, ChannelFull) @ (False, SentOk) # post))"
proof (induction rounds)
  case (Cons r rounds)
  obtain stopping t where r: "r = (stopping, t)" by force
  have ex: "(\<exists>n. P n) \<longleftrightarrow> P 0 \<or> (\<exists>m. P (Suc m))" for P :: "nat \<Rightarrow> bool" by (metis not0_implies_Suc)
  have sent: "(\<exists>n post. r # rounds = replicate n (False, ChannelFull) @ (False, SentOk) # post) \<longleftrightarrow>
      r = (False, SentOk) \<or> r = (False, ChannelFull) \<and> deliver rounds = Some True"
    unfolding conjunct2 [OF Cons] by (subst ex) auto
  show ?case unfolding sent using Cons by (cases t) (auto simp: r)
qed simp

theorem deliver_terminates_witness:
  "deliver [(False, ChannelFull), (False, SentOk)] = Some True \<and> deliver [(False, ChannelFull), (True, SentOk)] \<noteq> None"
proof
  have "\<exists>n post. [(False, ChannelFull), (False, SentOk)] = replicate n (False, ChannelFull) @ (False, SentOk) # post"
    by (intro exI [of _ 1] exI [of _ "[]"]) simp
  then show "deliver [(False, ChannelFull), (False, SentOk)] = Some True" using deliver_terminates by blast
  show "deliver [(False, ChannelFull), (True, SentOk)] \<noteq> None"
    using deliver_terminates [of "[(False, ChannelFull), (True, SentOk)]"] by simp
qed

section \<open>What passes\<close>

definition clean_text :: "patterns \<Rightarrow> ustr \<Rightarrow> bool" where
  "clean_text R s \<longleftrightarrow>
     \<not> pem_header_re R s \<and> \<not> aws_key_re R s \<and> \<not> github_token_re R s \<and> \<not> slack_token_re R s \<and> \<not> stripe_key_re R s \<and>
     \<not> openai_key_re R s \<and> \<not> google_api_key_re R s \<and> \<not> looks_like_jwt R s \<and> \<not> (\<exists>r. maximal_run s r \<and> check_run r)"

lemma detect_secret_None: "detect_secret R s = None \<longleftrightarrow> clean_text R s"
  by (simp add: detect_secret_def clean_text_def contains_luhn_valid_card_number_def scan_cards_runs)

lemma no_secret_in_payloads:
  "detect_secret_in_payloads R ps = None \<longleftrightarrow>
     (\<forall>(fmt, bs) \<in> set ps. is_text_like fmt \<longrightarrow> clean_text R (from_utf8_lossy bs))"
  by (induction R ps rule: detect_secret_in_payloads.induct)
    (auto simp: detect_secret_None [symmetric] split: option.splits)

lemma classify_captured:
  "fst (classify X R now cfg poll guard) = Captured c \<longleftrightarrow>
     poll = PollData c \<and> cap_payloads c \<noteq> [] \<and> total_bytes c \<le> wc_max_payload_bytes cfg \<and>
     (\<forall>app. cap_app c = Some app \<longrightarrow> \<not> is_blocked (wc_app_blocklist cfg) app) \<and>
     \<not> fst (own_check now (capture_hash X c) guard) \<and>
     (wc_detect_secrets cfg \<longrightarrow> detect_secret_in_payloads R (cap_payloads c) = None)"
  by (cases poll) (auto simp: classify_def not_less split: option.splits prod.splits bool.splits if_splits)

text \<open>
  C18. A capture is let through exactly if the clipboard was not marked as concealed, has content
  within the size limit, comes from no blocked application, is not the echo of the daemon's own
  write, and, with detection on, no text, HTML or RTF representation contains a key, a token or a
  card number. Nothing else about the clipboard matters.
\<close>

theorem captured_iff_clean:
  "fst (classify X R now cfg poll guard) = Captured c \<longleftrightarrow>
     poll = PollData c \<and> cap_payloads c \<noteq> [] \<and> total_bytes c \<le> wc_max_payload_bytes cfg \<and>
     (\<forall>app. cap_app c = Some app \<longrightarrow> \<not> is_blocked (wc_app_blocklist cfg) app) \<and>
     \<not> fst (own_check now (capture_hash X c) guard) \<and>
     (wc_detect_secrets cfg \<longrightarrow>
       (\<forall>(fmt, bs) \<in> set (cap_payloads c). is_text_like fmt \<longrightarrow> clean_text R (from_utf8_lossy bs)))"
  by (simp add: classify_captured no_secret_in_payloads)

definition no_patterns :: patterns where
  "no_patterns = \<lparr>jwt_re = \<lambda>_. [], aws_key_re = \<lambda>_. False, github_token_re = \<lambda>_. False, slack_token_re = \<lambda>_. False,
     stripe_key_re = \<lambda>_. False, openai_key_re = \<lambda>_. False, google_api_key_re = \<lambda>_. False, pem_header_re = \<lambda>_. False\<rparr>"

theorem captured_iff_clean_witness:
  "fst (classify sample_crates no_patterns 0 default_watch_config
     (PollData \<lparr>cap_payloads = [(Text, str_bytes ''hello'')], cap_app = Some (lit ''notepad.exe'')\<rparr>) (own_guard_new 1)) =
   Captured \<lparr>cap_payloads = [(Text, str_bytes ''hello'')], cap_app = Some (lit ''notepad.exe'')\<rparr>"
proof -
  have "\<not> is_blocked blocklist_defaults (lit ''notepad.exe'')" by code_simp
  moreover have "detect_secret no_patterns (from_utf8_lossy (str_bytes ''hello'')) = None" by code_simp
  ultimately show ?thesis
    unfolding captured_iff_clean
    by (simp add: detect_secret_None default_watch_config_def total_bytes_def DEFAULT_MAX_PAYLOAD_BYTES_def own_check_def
        own_guard_new_def)
qed

text \<open>
  The own-write guard sees through the order of formats: the hash armed at a write is the hash of
  the capture that echoes it, in whatever order the platform enumerates the formats.
\<close>

lemma echo_in_any_order:
  assumes "mset ps = mset (cap_payloads c)" "distinct (map (\<lambda>(fmt, _). label fmt) ps)" "cap_payloads c \<noteq> []"
    "total_bytes c \<le> wc_max_payload_bytes cfg" "cap_app c = None" "now - t \<le> og_ttl g"
  shows "fst (classify X R now cfg (PollData c) (record_write t (hash_payloads X ps) g)) = SuppressedCapture OwnWrite"
proof -
  have "sort_key (\<lambda>(fmt, _). label fmt) ps = sort_key (\<lambda>(fmt, _). label fmt) (cap_payloads c)"
    by (rule sort_key_perm_eq [OF assms(1,2)])
  then have "hash_payloads X ps = capture_hash X c" by (simp add: capture_hash_def hash_payloads_def)
  with assms show ?thesis
    by (simp add: classify_def not_less own_check_def record_write_def leD)
qed

end
