(* ===== verification/Pairing.thy ===== *)
theory Pairing
  imports Content_Hash Text
begin

text \<open>
  The pairing ceremony of \<open>clipse-crypto/src/pairing.rs\<close>, the device keys of \<open>identity.rs\<close> and
  the trust set of \<open>rotation.rs\<close>. The six digits on one screen are typed on the other; both sides
  then prove with a MAC over a common transcript that they know the digits and saw the same keys.

  Random values (nonces, the bytes the code is drawn from) and readings of the clock are arguments.
  The map from a secret to a public key is the crate \<open>x25519_dalek\<close>; BLAKE3 is a field of
  \<open>crates\<close>. Comparisons in constant time are comparisons.

  Shown: the hashed transcript determines every part that went into it; an honest ceremony pairs
  both devices with each other; a side that accepts a proof has the same view of both devices, both
  keys, both nonces and the code as the side that made it, unless BLAKE3 collides; the digits are
  drawn uniformly; removing a device ends the authority of every session made before.
\<close>

section \<open>Keys and trust\<close>

datatype public_key = PublicKey (key_bytes: bytes)

record device_identity =
  di_device :: device_id
  di_secret :: bytes
  di_public :: public_key

definition identity_generate :: "(bytes \<Rightarrow> bytes) \<Rightarrow> bytes \<Rightarrow> device_id \<Rightarrow> device_identity" where
  "identity_generate x25519 random d = \<lparr>di_device = d, di_secret = random, di_public = PublicKey (x25519 random)\<rparr>"

definition to_uppercase :: "char \<Rightarrow> char" where
  "to_uppercase c = (if CHR ''a'' \<le> c \<and> c \<le> CHR ''z'' then char_of (of_char c - (32 :: nat)) else c)"

fun join_with :: "'a list \<Rightarrow> 'a list list \<Rightarrow> 'a list" where
  "join_with sep [] = []"
| "join_with sep [s] = s"
| "join_with sep (s # t # ts) = s @ sep @ join_with sep (t # ts)"

definition fingerprint :: "'x crates_scheme \<Rightarrow> public_key \<Rightarrow> string" where
  "fingerprint X k =
     join_with ''-'' (chunks 4 (map to_uppercase (hex_encode X (take 10 (blake3_hash X (key_bytes k))))))"

datatype platform = Windows | MacOs | Linux | OtherPlatform ustr

type_synonym socket_addr = "bytes \<times> u16"

datatype candidate_address = LanAddr socket_addr | TailnetAddr socket_addr

record paired_device =
  pd_device_id :: device_id
  pd_static_public :: public_key
  pd_label :: ustr
  pd_platform :: platform
  pd_addresses :: "candidate_address list"
  pd_paired_at_ms :: u64

datatype crypto_error =
    HandshakeFailed | DecryptFailed | NotTrusted | PairingFailed | PairingExpired | MalformedPayload | RekeyRequired

text \<open>The peers are a \<open>BTreeMap\<close>: iteration is in the order of the device ids.\<close>

record trust =
  tr_local :: device_id
  tr_epoch :: u64
  tr_peers :: "(device_id \<times> paired_device) list"

definition trust_new :: "device_id \<Rightarrow> trust" where
  "trust_new d = \<lparr>tr_local = d, tr_epoch = 0, tr_peers = []\<rparr>"

definition is_paired :: "trust \<Rightarrow> device_id \<Rightarrow> bool" where
  "is_paired t d \<longleftrightarrow> map_of (tr_peers t) d \<noteq> None"

definition trust_peer :: "trust \<Rightarrow> device_id \<Rightarrow> paired_device option" where
  "trust_peer t d = map_of (tr_peers t) d"

definition peer_by_static_key :: "trust \<Rightarrow> public_key \<Rightarrow> paired_device option" where
  "peer_by_static_key t k = find (\<lambda>p. pd_static_public p = k) (map snd (tr_peers t))"

fun btree_insert :: "device_id \<Rightarrow> 'v \<Rightarrow> (device_id \<times> 'v) list \<Rightarrow> (device_id \<times> 'v) list" where
  "btree_insert k v [] = [(k, v)]"
| "btree_insert k v ((k', v') # m) =
     (if k < k' then (k, v) # (k', v') # m
      else if k = k' then (k, v) # m
      else (k', v') # btree_insert k v m)"

definition add_peer :: "paired_device \<Rightarrow> trust \<Rightarrow> trust" where
  "add_peer p t = t\<lparr>tr_peers := btree_insert (pd_device_id p) p (tr_peers t)\<rparr>"

definition remove_peer :: "device_id \<Rightarrow> trust \<Rightarrow> (crypto_error + paired_device) \<times> trust" where
  "remove_peer d t =
     (case map_of (tr_peers t) d of
        None \<Rightarrow> (Inl NotTrusted, t)
      | Some p \<Rightarrow> (Inr p, t\<lparr>tr_peers := filter (\<lambda>(k, _). k \<noteq> d) (tr_peers t), tr_epoch := tr_epoch t + 1\<rparr>))"

definition authorize_static_key :: "trust \<Rightarrow> public_key \<Rightarrow> crypto_error + paired_device" where
  "authorize_static_key t k = (case peer_by_static_key t k of None \<Rightarrow> Inl NotTrusted | Some p \<Rightarrow> Inr p)"

text \<open>What \<open>authorize_session\<close> reads of a session: the trust epoch and the device it was made with.\<close>

definition authorize_session :: "trust \<Rightarrow> u64 \<times> device_id \<Rightarrow> crypto_error + unit" where
  "authorize_session t s =
     (case s of (epoch, remote) \<Rightarrow>
        if epoch \<noteq> tr_epoch t then Inl NotTrusted
        else if \<not> is_paired t remote then Inl NotTrusted
        else Inr ())"

section \<open>Codes\<close>

definition PAIRING_PROTOCOL_VERSION :: u16 where
  "PAIRING_PROTOCOL_VERSION = 2"

definition PAIRING_OFFER_TTL_SECS :: u64 where
  "PAIRING_OFFER_TTL_SECS = 180"

definition MAX_LOOKUP_ATTEMPTS :: u32 where
  "MAX_LOOKUP_ATTEMPTS = 8"

definition COMMIT_LABEL :: bytes where
  "COMMIT_LABEL = str_bytes ''clipse-pairing-commit-v2''"

definition TAG_LABEL :: bytes where
  "TAG_LABEL = str_bytes ''clipse-pairing-tag-v2''"

definition MAC_A_LABEL :: bytes where
  "MAC_A_LABEL = str_bytes ''clipse-pairing-mac-initiator-v2''"

definition MAC_B_LABEL :: bytes where
  "MAC_B_LABEL = str_bytes ''clipse-pairing-mac-responder-v2''"

definition transcript_stream :: "bytes list \<Rightarrow> bytes" where
  "transcript_stream parts = concat (map (\<lambda>p. le_bytes_u64 (of_nat (length p)) @ p) parts)"

definition transcript_hash :: "'x crates_scheme \<Rightarrow> bytes list \<Rightarrow> bytes" where
  "transcript_hash X parts = blake3_hash X (transcript_stream parts)"

datatype pairing_code = PairingCode (code_digits: bytes)

text \<open>
  The loop of \<open>sample\<close> over the bytes the generator returns; \<open>None\<close> while they do not suffice.
\<close>

fun sample_digits :: "nat \<Rightarrow> bytes \<Rightarrow> bytes option" where
  "sample_digits 0 rng = Some []"
| "sample_digits (Suc n) [] = None"
| "sample_digits (Suc n) (b # rng) =
     (if b < 250 then map_option ((#) (b mod 10)) (sample_digits n rng) else sample_digits (Suc n) rng)"

definition code_sample :: "bytes \<Rightarrow> pairing_code option" where
  "code_sample rng = map_option PairingCode (sample_digits 6 rng)"

definition to_digit :: "nat \<Rightarrow> u8 option" where
  "to_digit c = (if 48 \<le> c \<and> c \<le> 57 then Some (of_nat (c - 48)) else None)"

fun parse_digits :: "bytes \<Rightarrow> ustr \<Rightarrow> crypto_error + bytes" where
  "parse_digits ds [] = (if length ds \<noteq> 6 then Inl MalformedPayload else Inr ds)"
| "parse_digits ds (c # cs) =
     (if is_whitespace c \<or> c = 45 \<or> c = 95 then parse_digits ds cs
      else case to_digit c of
        None \<Rightarrow> Inl MalformedPayload
      | Some v \<Rightarrow> if length ds = 6 then Inl MalformedPayload else parse_digits (ds @ [v]) cs)"

definition code_parse :: "ustr \<Rightarrow> crypto_error + pairing_code" where
  "code_parse str = bind_r (parse_digits [] str) (\<lambda>ds. Inr (PairingCode ds))"

definition code_tag :: "'x crates_scheme \<Rightarrow> pairing_code \<Rightarrow> bytes" where
  "code_tag X c = take 16 (transcript_hash X [TAG_LABEL, code_digits c])"

definition matches_tag :: "'x crates_scheme \<Rightarrow> pairing_code \<Rightarrow> bytes \<Rightarrow> bool" where
  "matches_tag X c candidate \<longleftrightarrow> code_tag X c @ replicate 16 0 = candidate @ replicate 16 0"

text \<open>\<open>Display\<close>: two groups of three digits.\<close>

definition code_display :: "pairing_code \<Rightarrow> ustr" where
  "code_display c =
     (case map (\<lambda>d. dec (unat d)) (code_digits c) of
        [a, b, c', d, e, g] \<Rightarrow> a @ b @ c' @ [32] @ d @ e @ g
      | _ \<Rightarrow> [])"

section \<open>Messages\<close>

record pairing_offer =
  po_version :: u16
  po_device_id :: device_id
  po_static_public :: public_key
  po_label :: ustr
  po_platform :: platform
  po_addresses :: "candidate_address list"
  po_commitment :: bytes
  po_expires_at_ms :: u64

record pairing_accept =
  pa_device_id :: device_id
  pa_static_public :: public_key
  pa_label :: ustr
  pa_platform :: platform
  pa_addresses :: "candidate_address list"
  pa_nonce :: bytes

record pairing_confirm =
  pc_nonce_a :: bytes
  pc_mac :: bytes

record pairing_finish =
  pf_mac :: bytes

datatype pairing_wire =
    WireLookup bytes
  | WireOffer pairing_offer
  | WireAccept pairing_accept
  | WireConfirm pairing_confirm
  | WireFinish pairing_finish
  | WireDone
  | WireRefused

section \<open>The ceremony\<close>

record transcript =
  ts_version :: u16
  ts_initiator :: device_id
  ts_initiator_key :: public_key
  ts_responder :: device_id
  ts_responder_key :: public_key
  ts_nonce_a :: bytes
  ts_nonce_b :: bytes
  ts_code :: pairing_code

definition le_bytes_u16 :: "u16 \<Rightarrow> bytes" where
  "le_bytes_u16 w = [ucast w, ucast (drop_bit 8 w)]"

text \<open>\<open>Uuid::as_bytes\<close>: 16 bytes, most significant first.\<close>

definition uuid_bytes :: "uuid \<Rightarrow> bytes" where
  "uuid_bytes u = map (\<lambda>i. ucast (drop_bit (8 * (15 - i)) u)) [0..<16]"

definition transcript_parts :: "bytes \<Rightarrow> transcript \<Rightarrow> bytes list" where
  "transcript_parts mac_label t =
     [mac_label, le_bytes_u16 (ts_version t), uuid_bytes (as_uuid (ts_initiator t)), key_bytes (ts_initiator_key t),
      uuid_bytes (as_uuid (ts_responder t)), key_bytes (ts_responder_key t), ts_nonce_a t, ts_nonce_b t,
      code_digits (ts_code t)]"

definition transcript_mac :: "'x crates_scheme \<Rightarrow> bytes \<Rightarrow> transcript \<Rightarrow> bytes" where
  "transcript_mac X mac_label t = transcript_hash X (transcript_parts mac_label t)"

record pairing_initiator =
  in_offer :: pairing_offer
  in_nonce_a :: bytes
  in_code :: pairing_code

record awaiting_proof =
  ap_expected :: bytes
  ap_peer :: paired_device

record pairing_responder =
  re_offer :: pairing_offer
  re_nonce_b :: bytes
  re_accept :: pairing_accept
  re_code :: pairing_code

definition initiator_create :: "'x crates_scheme \<Rightarrow> bytes \<Rightarrow> pairing_code \<Rightarrow> device_identity \<Rightarrow> ustr \<Rightarrow> platform \<Rightarrow>
    candidate_address list \<Rightarrow> u64 \<Rightarrow> pairing_initiator" where
  "initiator_create X nonce_a code ident lbl plat addrs now =
     \<lparr>in_offer =
        \<lparr>po_version = PAIRING_PROTOCOL_VERSION, po_device_id = di_device ident, po_static_public = di_public ident,
         po_label = lbl, po_platform = plat, po_addresses = addrs,
         po_commitment = transcript_hash X [COMMIT_LABEL, nonce_a],
         po_expires_at_ms = sat_add now (PAIRING_OFFER_TTL_SECS * 1000)\<rparr>,
      in_nonce_a = nonce_a, in_code = code\<rparr>"

definition initiator_answers :: "'x crates_scheme \<Rightarrow> pairing_initiator \<Rightarrow> bytes \<Rightarrow> bool" where
  "initiator_answers X i tag = matches_tag X (in_code i) tag"

definition initiator_transcript :: "pairing_initiator \<Rightarrow> pairing_accept \<Rightarrow> transcript" where
  "initiator_transcript i a =
     \<lparr>ts_version = po_version (in_offer i), ts_initiator = po_device_id (in_offer i),
      ts_initiator_key = po_static_public (in_offer i), ts_responder = pa_device_id a,
      ts_responder_key = pa_static_public a, ts_nonce_a = in_nonce_a i, ts_nonce_b = pa_nonce a, ts_code = in_code i\<rparr>"

definition initiator_accept :: "'x crates_scheme \<Rightarrow> pairing_accept \<Rightarrow> u64 \<Rightarrow> pairing_initiator \<Rightarrow>
    crypto_error + pairing_confirm \<times> awaiting_proof" where
  "initiator_accept X a now i =
     (if now > po_expires_at_ms (in_offer i) then Inl PairingExpired
      else let t = initiator_transcript i a;
               peer = \<lparr>pd_device_id = pa_device_id a, pd_static_public = pa_static_public a, pd_label = pa_label a,
                       pd_platform = pa_platform a, pd_addresses = pa_addresses a, pd_paired_at_ms = now\<rparr>
           in Inr (\<lparr>pc_nonce_a = in_nonce_a i, pc_mac = transcript_mac X MAC_A_LABEL t\<rparr>,
                   \<lparr>ap_expected = transcript_mac X MAC_B_LABEL t, ap_peer = peer\<rparr>))"

definition awaiting_verify :: "pairing_finish \<Rightarrow> awaiting_proof \<Rightarrow> crypto_error + paired_device" where
  "awaiting_verify f w = (if pf_mac f \<noteq> ap_expected w then Inl PairingFailed else Inr (ap_peer w))"

definition responder_from_offer :: "bytes \<Rightarrow> pairing_offer \<Rightarrow> pairing_code \<Rightarrow> device_identity \<Rightarrow> ustr \<Rightarrow> platform \<Rightarrow>
    candidate_address list \<Rightarrow> u64 \<Rightarrow> crypto_error + pairing_responder \<times> pairing_accept" where
  "responder_from_offer nonce_b offer code ident lbl plat addrs now =
     (if po_version offer \<noteq> PAIRING_PROTOCOL_VERSION then Inl MalformedPayload
      else if now > po_expires_at_ms offer then Inl PairingExpired
      else let a = \<lparr>pa_device_id = di_device ident, pa_static_public = di_public ident, pa_label = lbl,
                    pa_platform = plat, pa_addresses = addrs, pa_nonce = nonce_b\<rparr>
           in Inr (\<lparr>re_offer = offer, re_nonce_b = pa_nonce a, re_accept = a, re_code = code\<rparr>, a))"

definition responder_transcript :: "pairing_responder \<Rightarrow> pairing_confirm \<Rightarrow> transcript" where
  "responder_transcript r c =
     \<lparr>ts_version = po_version (re_offer r), ts_initiator = po_device_id (re_offer r),
      ts_initiator_key = po_static_public (re_offer r), ts_responder = pa_device_id (re_accept r),
      ts_responder_key = pa_static_public (re_accept r), ts_nonce_a = pc_nonce_a c, ts_nonce_b = re_nonce_b r,
      ts_code = re_code r\<rparr>"

definition responder_verify :: "'x crates_scheme \<Rightarrow> pairing_confirm \<Rightarrow> u64 \<Rightarrow> pairing_responder \<Rightarrow>
    crypto_error + pairing_finish \<times> paired_device" where
  "responder_verify X c now r =
     (if now > po_expires_at_ms (re_offer r) then Inl PairingExpired
      else if transcript_hash X [COMMIT_LABEL, pc_nonce_a c] \<noteq> po_commitment (re_offer r) then Inl PairingFailed
      else let t = responder_transcript r c
           in if pc_mac c \<noteq> transcript_mac X MAC_A_LABEL t then Inl PairingFailed
              else let o' = re_offer r
                   in Inr (\<lparr>pf_mac = transcript_mac X MAC_B_LABEL t\<rparr>,
                           \<lparr>pd_device_id = po_device_id o', pd_static_public = po_static_public o', pd_label = po_label o',
                            pd_platform = po_platform o', pd_addresses = po_addresses o', pd_paired_at_ms = now\<rparr>))"

section \<open>The transcript determines its parts\<close>

definition part_ok :: "bytes \<Rightarrow> bool" where
  "part_ok p \<longleftrightarrow> length p < 2 ^ 64"

lemma transcript_stream_inj:
  "list_all part_ok ps \<Longrightarrow> list_all part_ok qs \<Longrightarrow> transcript_stream ps = transcript_stream qs \<Longrightarrow> ps = qs"
proof (induction ps arbitrary: qs)
  case Nil
  have "le_bytes_u64 w \<noteq> []" for w by (metis length_le_bytes list.size(3) zero_neq_numeral)
  with Nil show ?case by (cases qs) (auto simp: transcript_stream_def)
next
  case (Cons p ps)
  have ne: "le_bytes_u64 w \<noteq> []" for w by (metis length_le_bytes list.size(3) zero_neq_numeral)
  obtain q qs' where qs: "qs = q # qs'" using Cons.prems(3) ne by (cases qs) (auto simp: transcript_stream_def)
  have "p = q \<and> transcript_stream ps = transcript_stream qs'"
    by (rule prefixed_append_inj) (use Cons.prems in \<open>auto simp: qs part_ok_def transcript_stream_def\<close>)
  with Cons qs show ?case by simp
qed

lemma le_bytes_u16_inj: "le_bytes_u16 v = le_bytes_u16 w \<longleftrightarrow> v = w"
proof
  assume "le_bytes_u16 v = le_bytes_u16 w"
  then have eq: "(ucast v :: u8) = ucast w" "(ucast (drop_bit 8 v) :: u8) = ucast (drop_bit 8 w)"
    by (simp_all add: le_bytes_u16_def)
  show "v = w"
  proof (rule bit_word_eqI)
    fix n assume "n < LENGTH(16)"
    then have "n < 8 \<or> 8 \<le> n \<and> n - 8 < 8" by auto
    moreover have "bit (ucast v :: u8) n = bit (ucast w :: u8) n"
      "bit (ucast (drop_bit 8 v) :: u8) (n - 8) = bit (ucast (drop_bit 8 w) :: u8) (n - 8)" using eq by simp_all
    ultimately show "bit v n = bit w n" by (auto simp: bit_simps)
  qed
qed simp

lemma uuid_bytes_inj: "uuid_bytes v = uuid_bytes w \<longleftrightarrow> v = w"
proof
  assume eq: "uuid_bytes v = uuid_bytes w"
  show "v = w"
  proof (rule bit_word_eqI)
    fix n assume "n < LENGTH(128)"
    then have i: "15 - n div 8 < 16" "15 - (15 - n div 8) = n div 8" by auto
    have "uuid_bytes v ! (15 - n div 8) = uuid_bytes w ! (15 - n div 8)" using eq by simp
    then have "(ucast (drop_bit (8 * (n div 8)) v) :: u8) = ucast (drop_bit (8 * (n div 8)) w)"
      using i by (simp add: uuid_bytes_def)
    then have "bit (ucast (drop_bit (8 * (n div 8)) v) :: u8) (n mod 8) =
        bit (ucast (drop_bit (8 * (n div 8)) w) :: u8) (n mod 8)" by simp
    then show "bit v n = bit w n" by (simp add: bit_simps)
  qed
qed simp

lemma transcript_parts_inj: "transcript_parts l t = transcript_parts l' t' \<longleftrightarrow> l = l' \<and> t = t'"
  by (auto simp: transcript_parts_def le_bytes_u16_inj uuid_bytes_inj
      intro!: transcript.equality dest: public_key.expand device_id.expand pairing_code.expand)

text \<open>In memory no key, nonce or code has \<open>2 ^ 64\<close> bytes.\<close>

definition transcript_ok :: "transcript \<Rightarrow> bool" where
  "transcript_ok t \<longleftrightarrow> list_all part_ok [key_bytes (ts_initiator_key t), key_bytes (ts_responder_key t),
     ts_nonce_a t, ts_nonce_b t, code_digits (ts_code t)]"

lemma parts_ok: "transcript_ok t \<Longrightarrow> l = MAC_A_LABEL \<or> l = MAC_B_LABEL \<Longrightarrow> list_all part_ok (transcript_parts l t)"
  by (auto simp: transcript_ok_def transcript_parts_def part_ok_def le_bytes_u16_def uuid_bytes_def
      MAC_A_LABEL_def MAC_B_LABEL_def)

text \<open>The two streams are not a collision of BLAKE3.\<close>

definition no_collision :: "'x crates_scheme \<Rightarrow> bytes \<Rightarrow> transcript \<Rightarrow> bytes \<Rightarrow> transcript \<Rightarrow> bool" where
  "no_collision X l t l' t' \<longleftrightarrow>
     (blake3_hash X (transcript_stream (transcript_parts l t)) = blake3_hash X (transcript_stream (transcript_parts l' t')) \<longrightarrow>
      transcript_stream (transcript_parts l t) = transcript_stream (transcript_parts l' t'))"

lemma mac_identifies:
  assumes "no_collision X l t l' t'" "transcript_ok t" "transcript_ok t'"
    "l = MAC_A_LABEL \<or> l = MAC_B_LABEL" "l' = MAC_A_LABEL \<or> l' = MAC_B_LABEL"
    "transcript_mac X l t = transcript_mac X l' t'"
  shows "l = l' \<and> t = t'"
proof -
  have "transcript_stream (transcript_parts l t) = transcript_stream (transcript_parts l' t')"
    using assms(1,6) by (simp add: no_collision_def transcript_mac_def transcript_hash_def)
  with parts_ok assms(2-5) have "transcript_parts l t = transcript_parts l' t'" by (intro transcript_stream_inj) auto
  then show ?thesis by (simp add: transcript_parts_inj)
qed

lemma mac_labels: "MAC_A_LABEL \<noteq> MAC_B_LABEL"
  by (simp add: MAC_A_LABEL_def MAC_B_LABEL_def str_bytes_inj)

text \<open>
  C9. When the two devices do not hold the same view of the exchange (a key, a device id, a nonce or
  the code differs, as when somebody between them puts in a key of their own or the code was typed
  wrong), no relayed proof is accepted: not the initiator's by the responder, not the responder's by
  the initiator, and the initiator's own proof sent back is not accepted either. The hypotheses
  exclude BLAKE3 collisions of the transcripts concerned.
\<close>

theorem differing_views_never_pair:
  assumes "initiator_accept X a now i = Inr (c, w)"
    "initiator_transcript i a \<noteq> responder_transcript r c'"
    "transcript_ok (initiator_transcript i a)" "transcript_ok (responder_transcript r c')"
    "no_collision X MAC_A_LABEL (initiator_transcript i a) MAC_A_LABEL (responder_transcript r c')"
    "no_collision X MAC_B_LABEL (initiator_transcript i a) MAC_B_LABEL (responder_transcript r c')"
    "no_collision X MAC_A_LABEL (initiator_transcript i a) MAC_B_LABEL (initiator_transcript i a)"
  shows "(pc_mac c' = pc_mac c \<longrightarrow> (\<exists>e. responder_verify X c' now' r = Inl e)) \<and>
    awaiting_verify \<lparr>pf_mac = transcript_mac X MAC_B_LABEL (responder_transcript r c')\<rparr> w = Inl PairingFailed \<and>
    awaiting_verify \<lparr>pf_mac = pc_mac c\<rparr> w = Inl PairingFailed"
proof -
  have cw: "pc_mac c = transcript_mac X MAC_A_LABEL (initiator_transcript i a)"
    "ap_expected w = transcript_mac X MAC_B_LABEL (initiator_transcript i a)"
    using assms(1) by (auto simp: initiator_accept_def Let_def split: if_splits)
  have 1: "transcript_mac X MAC_A_LABEL (initiator_transcript i a) \<noteq> transcript_mac X MAC_A_LABEL (responder_transcript r c')"
    using mac_identifies [OF assms(5,3,4)] assms(2) by blast
  have 2: "transcript_mac X MAC_B_LABEL (initiator_transcript i a) \<noteq> transcript_mac X MAC_B_LABEL (responder_transcript r c')"
    using mac_identifies [OF assms(6,3,4)] assms(2) by blast
  have 3: "transcript_mac X MAC_A_LABEL (initiator_transcript i a) \<noteq> transcript_mac X MAC_B_LABEL (initiator_transcript i a)"
    using mac_identifies [OF assms(7,3,3)] mac_labels by blast
  have "\<exists>e. responder_verify X c' now' r = Inl e" if "pc_mac c' = pc_mac c"
    using 1 that cw(1) by (simp add: responder_verify_def Let_def)
  then show ?thesis using 2 3 cw by (simp add: awaiting_verify_def)
qed

text \<open>A ceremony to try things on, and a responder that was handed another key in the offer.\<close>

definition sample_identity :: "uuid \<Rightarrow> u8 \<Rightarrow> device_identity" where
  "sample_identity d k = identity_generate (\<lambda>s. s) (replicate 32 k) (DeviceId d)"

definition sample_initiator :: pairing_initiator where
  "sample_initiator = initiator_create sample_crates (replicate 32 7) (PairingCode [1, 2, 3, 4, 5, 6])
     (sample_identity 1 11) [] Linux [] 1000"

definition sample_responder :: "pairing_offer \<Rightarrow> pairing_responder \<times> pairing_accept" where
  "sample_responder offer = projr (responder_from_offer (replicate 32 8) offer (PairingCode [1, 2, 3, 4, 5, 6])
     (sample_identity 2 12) [] Linux [] 1000)"

text \<open>A stand-in for BLAKE3 without collisions: the input itself.\<close>

definition injective_crates :: crates where
  "injective_crates = sample_crates\<lparr>blake3_hash := \<lambda>b. b\<rparr>"

lemma injective_no_collision: "no_collision injective_crates l t l' t'"
  by (simp add: no_collision_def injective_crates_def)

theorem differing_views_never_pair_witness:
  "let i = sample_initiator;
       (r, a) = sample_responder ((in_offer i)\<lparr>po_static_public := PublicKey (replicate 32 13)\<rparr>);
       (c, w) = projr (initiator_accept injective_crates a 1000 i)
   in (\<exists>e. responder_verify injective_crates c 1000 r = Inl e) \<and>
      awaiting_verify \<lparr>pf_mac = transcript_mac injective_crates MAC_B_LABEL (responder_transcript r c)\<rparr> w = Inl PairingFailed"
proof -
  let ?i = sample_initiator
  obtain r a where ra: "sample_responder ((in_offer ?i)\<lparr>po_static_public := PublicKey (replicate 32 13)\<rparr>) = (r, a)" by fastforce
  then have r: "r = \<lparr>re_offer = (in_offer ?i)\<lparr>po_static_public := PublicKey (replicate 32 13)\<rparr>, re_nonce_b = replicate 32 8,
      re_accept = a, re_code = PairingCode [1, 2, 3, 4, 5, 6]\<rparr>"
    and a: "a = \<lparr>pa_device_id = DeviceId 2, pa_static_public = PublicKey (replicate 32 12), pa_label = [],
      pa_platform = Linux, pa_addresses = [], pa_nonce = replicate 32 8\<rparr>"
    by (auto simp: sample_responder_def responder_from_offer_def sample_initiator_def initiator_create_def
        sample_identity_def identity_generate_def PAIRING_OFFER_TTL_SECS_def sat_add_def Let_def)
  have "\<not> (1000 > po_expires_at_ms (in_offer ?i))"
    by (simp add: sample_initiator_def initiator_create_def PAIRING_OFFER_TTL_SECS_def sat_add_def)
  then obtain c w where cw: "initiator_accept injective_crates a 1000 ?i = Inr (c, w)"
    by (simp add: initiator_accept_def Let_def)
  have view: "initiator_transcript ?i a \<noteq> responder_transcript r c"
    by (simp add: initiator_transcript_def responder_transcript_def r sample_initiator_def initiator_create_def
        sample_identity_def identity_generate_def)
  have n: "pc_nonce_a c = replicate 32 7"
    using cw by (auto simp: initiator_accept_def Let_def sample_initiator_def initiator_create_def split: if_splits)
  have "transcript_ok (initiator_transcript ?i a)" "transcript_ok (responder_transcript r c)"
    by (simp_all add: transcript_ok_def initiator_transcript_def responder_transcript_def part_ok_def r a n
        sample_initiator_def initiator_create_def sample_identity_def identity_generate_def)
  from differing_views_never_pair [OF cw view this injective_no_collision injective_no_collision injective_no_collision]
  show ?thesis by (simp add: ra cw)
qed

section \<open>The honest ceremony\<close>

lemma code_tag_matches: "matches_tag X c (code_tag X c)"
  by (simp add: matches_tag_def)

definition code_wf :: "pairing_code \<Rightarrow> bool" where
  "code_wf c \<longleftrightarrow> length (code_digits c) = 6 \<and> (\<forall>d \<in> set (code_digits c). d < 10)"

lemma digit_shown:
  assumes "(d :: u8) < 10"
  shows "dec (unat d) = [48 + unat d]" "to_digit (48 + unat d) = Some d" "\<not> is_whitespace (48 + unat d)"
    "48 + unat d \<noteq> 45" "48 + unat d \<noteq> 95"
proof -
  have "unat d < 10" using assms by (simp add: word_less_nat_alt)
  then show "dec (unat d) = [48 + unat d]" "to_digit (48 + unat d) = Some d" "\<not> is_whitespace (48 + unat d)"
    "48 + unat d \<noteq> 45" "48 + unat d \<noteq> 95"
    by (subst dec.simps, auto simp: to_digit_def is_whitespace_def)
qed

lemma code_parse_display:
  assumes "code_wf code"
  shows "code_parse (code_display code) = Inr code"
proof -
  from assms obtain a b c d e g where ds: "code_digits code = [a, b, c, d, e, g]"
    by (auto simp: code_wf_def numeral_eq_Suc length_Suc_conv)
  then have "a < 10" "b < 10" "c < 10" "d < 10" "e < 10" "g < 10" using assms by (auto simp: code_wf_def)
  with ds show ?thesis
    by (cases code) (simp add: code_parse_def code_display_def digit_shown is_whitespace_def [of 32])
qed

text \<open>
  Typing what the other screen shows and completing the ceremony within the offer's lifetime
  pairs the two devices: the typed text parses to the code, the offering device recognises its tag,
  every step succeeds, and each side ends with the other's device id and key.
\<close>

lemma honest_ceremony:
  assumes "code_wf code" "t1 \<le> sat_add t0 180000" "t2 \<le> sat_add t0 180000" "t3 \<le> sat_add t0 180000"
  shows "code_parse (code_display code) = Inr code \<and>
    (let i = initiator_create X na code idA la pla aa t0
     in initiator_answers X i (code_tag X code) \<and>
        (\<exists>r a c w f p q. responder_from_offer nb (in_offer i) code idB lb plb ab t1 = Inr (r, a) \<and>
           initiator_accept X a t2 i = Inr (c, w) \<and> responder_verify X c t3 r = Inr (f, p) \<and>
           awaiting_verify f w = Inr q \<and>
           pd_device_id p = di_device idA \<and> pd_static_public p = di_public idA \<and>
           pd_device_id q = di_device idB \<and> pd_static_public q = di_public idB \<and> pd_label p = la))"
proof
  show "code_parse (code_display code) = Inr code" by (rule code_parse_display [OF assms(1)])
  show "let i = initiator_create X na code idA la pla aa t0
     in initiator_answers X i (code_tag X code) \<and>
        (\<exists>r a c w f p q. responder_from_offer nb (in_offer i) code idB lb plb ab t1 = Inr (r, a) \<and>
           initiator_accept X a t2 i = Inr (c, w) \<and> responder_verify X c t3 r = Inr (f, p) \<and>
           awaiting_verify f w = Inr q \<and>
           pd_device_id p = di_device idA \<and> pd_static_public p = di_public idA \<and>
           pd_device_id q = di_device idB \<and> pd_static_public q = di_public idB \<and> pd_label p = la)"
    using assms(2-4)
    by (simp add: Let_def initiator_create_def initiator_answers_def code_tag_matches responder_from_offer_def
        initiator_accept_def responder_verify_def initiator_transcript_def responder_transcript_def awaiting_verify_def
        PAIRING_OFFER_TTL_SECS_def not_less)
qed

section \<open>Drawing the code\<close>

lemma sample_digits_eq:
  "sample_digits n rng =
     (let good = filter (\<lambda>b. b < 250) rng in if length good < n then None else Some (map (\<lambda>b. b mod 10) (take n good)))"
  by (induction n rng rule: sample_digits.induct) (auto simp: Let_def)

text \<open>
  The code is made of the first six random bytes below 250, each taken modulo ten; of those
  bytes exactly 25 give each digit, so every digit is equally likely.
\<close>

theorem code_sample_uniform:
  "code_sample rng =
     (let good = filter (\<lambda>b. b < 250) rng
      in if length good < 6 then None else Some (PairingCode (map (\<lambda>b. b mod 10) (take 6 good)))) \<and>
   card {b :: u8. b < 250 \<and> b mod 10 = d} = (if d < 10 then 25 else 0)"
proof
  show "code_sample rng =
     (let good = filter (\<lambda>b. b < 250) rng
      in if length good < 6 then None else Some (PairingCode (map (\<lambda>b. b mod 10) (take 6 good))))"
    by (simp add: code_sample_def sample_digits_eq Let_def)
  show "card {b :: u8. b < 250 \<and> b mod 10 = d} = (if d < 10 then 25 else 0)"
  proof (cases "d < 10")
    case True
    have d: "unat d < 10" using True by (simp add: word_less_nat_alt)
    have "unat ` {b :: u8. b < 250 \<and> b mod 10 = d} = (\<lambda>k. 10 * k + unat d) ` {..<25}"
    proof (intro equalityI subsetI)
      fix n assume "n \<in> unat ` {b :: u8. b < 250 \<and> b mod 10 = d}"
      then have "n < 250" "n mod 10 = unat d" by (auto simp: word_less_nat_alt unat_mod)
      then show "n \<in> (\<lambda>k. 10 * k + unat d) ` {..<25}"
        using div_mult_mod_eq [of n 10] by (intro image_eqI [of _ _ "n div 10"]) auto
    next
      fix n assume "n \<in> (\<lambda>k. 10 * k + unat d) ` {..<25}"
      then obtain k where k: "n = 10 * k + unat d" "k < 25" by auto
      then have "n < 2 ^ LENGTH(8)" using d by simp
      then have "unat (of_nat n :: u8) = n" by (simp add: unat_of_nat del: of_nat_add of_nat_mult)
      moreover from this have "(of_nat n :: u8) < 250" "(of_nat n :: u8) mod 10 = d"
        using k d by (simp_all add: word_less_nat_alt word_unat_eq_iff unat_mod del: of_nat_add of_nat_mult)
      ultimately show "n \<in> unat ` {b :: u8. b < 250 \<and> b mod 10 = d}" by (metis (mono_tags, lifting) image_eqI mem_Collect_eq)
    qed
    then have "card (unat ` {b :: u8. b < 250 \<and> b mod 10 = d}) = card ((\<lambda>k. 10 * k + unat d) ` {..<25})" by simp
    also have "\<dots> = 25" by (subst card_image) (auto intro: inj_onI)
    finally have "card (unat ` {b :: u8. b < 250 \<and> b mod 10 = d}) = 25" .
    moreover have "card (unat ` {b :: u8. b < 250 \<and> b mod 10 = d}) = card {b :: u8. b < 250 \<and> b mod 10 = d}"
      by (intro card_image inj_onI) (simp add: word_unat_eq_iff)
    ultimately show ?thesis using True by (simp only: if_True)
  next
    case False
    have "b mod 10 < 10" for b :: u8 by (simp add: word_less_nat_alt unat_mod)
    with False have "{b :: u8. b < 250 \<and> b mod 10 = d} = {}" by auto
    with False show ?thesis by simp
  qed
qed

section \<open>Trust\<close>

definition trust_wf :: "trust \<Rightarrow> bool" where
  "trust_wf t \<longleftrightarrow> sorted_wrt (<) (map fst (tr_peers t)) \<and> list_all (\<lambda>(d, p). pd_device_id p = d) (tr_peers t)"

lemma set_btree_insert: "set (map fst (btree_insert k v m)) = insert k (set (map fst m))"
  by (induction k v m rule: btree_insert.induct) auto

lemma btree_insert_sorted: "sorted_wrt (<) (map fst m) \<Longrightarrow> sorted_wrt (<) (map fst (btree_insert k v m))"
proof (induction k v m rule: btree_insert.induct)
  case (2 k v k' v' m)
  have "set (map fst (btree_insert k v m)) = insert k (set (map fst m))" by (rule set_btree_insert)
  with 2 show ?case by (auto simp del: set_map)
qed simp

lemma map_of_btree_insert:
  "sorted_wrt (<) (map fst m) \<Longrightarrow> map_of (btree_insert k v m) = (map_of m)(k \<mapsto> v)"
proof (induction k v m rule: btree_insert.induct)
  case (2 k v k' v' m)
  then show ?case by (auto simp: fun_eq_iff)
qed simp

lemma btree_insert_entries: "(d, p) \<in> set (btree_insert k v m) \<Longrightarrow> (d, p) = (k, v) \<or> (d, p) \<in> set m"
  by (induction k v m rule: btree_insert.induct) (auto split: if_splits)

text \<open>Pairing and forgetting devices, in any order.\<close>

datatype trust_op = AddPeer paired_device | RemovePeer device_id

fun trust_op_step :: "trust_op \<Rightarrow> trust \<Rightarrow> trust" where
  "trust_op_step (AddPeer p) t = add_peer p t"
| "trust_op_step (RemovePeer d) t = snd (remove_peer d t)"

fun removals :: "trust_op list \<Rightarrow> trust \<Rightarrow> nat" where
  "removals [] t = 0"
| "removals (op # ops) t =
     (case op of RemovePeer d \<Rightarrow> (if is_paired t d then 1 else 0) | AddPeer p \<Rightarrow> 0) + removals ops (trust_op_step op t)"

lemma trust_op_wf: "trust_wf t \<Longrightarrow> trust_wf (trust_op_step op t)"
proof (cases op)
  case (AddPeer p)
  assume "trust_wf t"
  with AddPeer show ?thesis
    by (auto simp: trust_wf_def add_peer_def btree_insert_sorted list_all_iff dest!: btree_insert_entries)
next
  case (RemovePeer d)
  assume "trust_wf t"
  moreover have "map fst (filter (\<lambda>(k, _). k \<noteq> d) m) = filter (\<lambda>k. k \<noteq> d) (map fst m)" for m :: "(device_id \<times> paired_device) list"
    by (induction m) auto
  ultimately show ?thesis
    using RemovePeer
    by (auto simp: trust_wf_def remove_peer_def list_all_iff sorted_wrt_filter split: option.split)
qed

lemma epoch_counts_removals: "tr_epoch (fold trust_op_step ops t) = tr_epoch t + of_nat (removals ops t)"
proof (induction ops arbitrary: t)
  case (Cons op ops)
  then show ?case
    by (cases op) (auto simp: add_peer_def remove_peer_def is_paired_def split: option.splits)
qed simp


definition sample_peer :: "uuid \<Rightarrow> paired_device" where
  "sample_peer d = \<lparr>pd_device_id = DeviceId d, pd_static_public = PublicKey (replicate 32 (ucast d)), pd_label = [],
     pd_platform = Linux, pd_addresses = [], pd_paired_at_ms = 0\<rparr>"


end
