(* ===== verification/Candidates.thy ===== *)
theory Candidates
  imports Pairing "HOL-Library.Product_Lexorder"
begin

text \<open>
  How one peer is reached (\<open>clipse-net/src/candidate.rs\<close>, and \<open>Backoff\<close> and \<open>DialError\<close> of
  \<open>clipse-net/src/transport.rs\<close>): the list of known addresses, the order in which they are dialled,
  and the delays between attempts.

  Shown: every operation keeps one entry per address; a refresh keeps at most six LAN addresses,
  drops only addresses seen no later than those it keeps, and never touches the tailnet ones; the
  delays are the powers of two times the base, cut at the maximum, without overflow.
\<close>

section \<open>Candidates\<close>

datatype reachability = ReachLan | ReachTailnet

definition reach_rank :: "reachability \<Rightarrow> nat" where
  "reach_rank r = (case r of ReachLan \<Rightarrow> 0 | ReachTailnet \<Rightarrow> 1)"

definition reach_min :: "reachability \<Rightarrow> reachability \<Rightarrow> reachability" where
  "reach_min a b = (if reach_rank b < reach_rank a then b else a)"

record candidate =
  cd_addr :: socket_addr
  cd_reachability :: reachability
  cd_last_seen_ms :: "u64 option"

definition candidate_lan :: "socket_addr \<Rightarrow> candidate" where
  "candidate_lan a = \<lparr>cd_addr = a, cd_reachability = ReachLan, cd_last_seen_ms = None\<rparr>"

definition candidate_tailnet :: "socket_addr \<Rightarrow> candidate" where
  "candidate_tailnet a = \<lparr>cd_addr = a, cd_reachability = ReachTailnet, cd_last_seen_ms = None\<rparr>"

definition seen_at :: "u64 \<Rightarrow> candidate \<Rightarrow> candidate" where
  "seen_at ms c = c\<lparr>cd_last_seen_ms := Some ms\<rparr>"

text \<open>The order of \<open>Option<u64>\<close>: \<open>None\<close> is least.\<close>

definition seen_value :: "u64 option \<Rightarrow> int" where
  "seen_value s = (case s of None \<Rightarrow> - 1 | Some ms \<Rightarrow> uint ms)"

definition refresh_candidate :: "candidate \<Rightarrow> candidate \<Rightarrow> candidate" where
  "refresh_candidate new existing =
     existing\<lparr>cd_last_seen_ms := (if seen_value (cd_last_seen_ms new) > seen_value (cd_last_seen_ms existing)
                                  then cd_last_seen_ms new else cd_last_seen_ms existing),
              cd_reachability := reach_min (cd_reachability existing) (cd_reachability new)\<rparr>"

fun upsert :: "candidate \<Rightarrow> candidate list \<Rightarrow> candidate list" where
  "upsert c [] = [c]"
| "upsert c (d # ds) = (if cd_addr d = cd_addr c then refresh_candidate c d # ds else d # upsert c ds)"

definition candidates_new :: "candidate list \<Rightarrow> candidate list" where
  "candidates_new cs = fold upsert cs []"

definition MAX_LAN_CANDIDATES :: nat where
  "MAX_LAN_CANDIDATES = 6"

definition is_lan :: "candidate \<Rightarrow> bool" where
  "is_lan c \<longleftrightarrow> cd_reachability c = ReachLan"

definition prune_lan :: "candidate list \<Rightarrow> candidate list" where
  "prune_lan cs =
     (if length (filter is_lan cs) \<le> MAX_LAN_CANDIDATES then cs
      else let by_age = sort_key (\<lambda>(_, seen). - seen_value seen)
                 (map (\<lambda>(i, c). (i, cd_last_seen_ms c)) (filter (\<lambda>(_, c). is_lan c) (enumerate 0 cs)));
               doomed = map fst (drop MAX_LAN_CANDIDATES by_age)
           in map snd (filter (\<lambda>(i, _). i \<notin> set doomed) (enumerate 0 cs)))"

definition refresh_lan :: "socket_addr list \<Rightarrow> u64 \<Rightarrow> candidate list \<Rightarrow> candidate list" where
  "refresh_lan discovered now cs =
     prune_lan (fold (\<lambda>a. upsert (seen_at now (candidate_lan a))) discovered cs)"

definition set_tailnet :: "socket_addr option \<Rightarrow> u64 \<Rightarrow> candidate list \<Rightarrow> candidate list" where
  "set_tailnet addr now cs =
     (let rest = filter is_lan cs
      in case addr of None \<Rightarrow> rest | Some a \<Rightarrow> upsert (seen_at now (candidate_tailnet a)) rest)"

definition dial_order :: "candidate list \<Rightarrow> candidate list" where
  "dial_order cs = sort_key (\<lambda>c. (reach_rank (cd_reachability c), - seen_value (cd_last_seen_ms c))) cs"

section \<open>Backoff\<close>

record backoff =
  bo_base_ms :: u64
  bo_max_ms :: u64
  bo_attempt :: u32

definition backoff_new :: "u64 \<Rightarrow> u64 \<Rightarrow> backoff" where
  "backoff_new base maximum = \<lparr>bo_base_ms = base, bo_max_ms = maximum, bo_attempt = 0\<rparr>"

definition backoff_default :: backoff where
  "backoff_default = backoff_new 500 60000"

text \<open>\<open>1u64.checked_shl(n).unwrap_or(u64::MAX)\<close> and \<open>saturating_mul\<close>.\<close>

definition shift_factor :: "u32 \<Rightarrow> u64" where
  "shift_factor n = (if unat n < 64 then push_bit (unat n) 1 else - 1)"

definition sat_mul :: "u64 \<Rightarrow> u64 \<Rightarrow> u64" where
  "sat_mul a b = (if unat a * unat b < 2 ^ 64 then a * b else - 1)"

definition next_delay_ms :: "backoff \<Rightarrow> u64 \<times> backoff" where
  "next_delay_ms b =
     (min (sat_mul (bo_base_ms b) (shift_factor (bo_attempt b))) (bo_max_ms b),
      b\<lparr>bo_attempt := sat_add (bo_attempt b) 1\<rparr>)"

definition backoff_reset :: "backoff \<Rightarrow> backoff" where
  "backoff_reset b = b\<lparr>bo_attempt := 0\<rparr>"

datatype dial_error = Unreachable "(socket_addr \<times> reachability) list" | Rejected crypto_error | NotPaired | NoCandidates

definition is_retryable :: "dial_error \<Rightarrow> bool" where
  "is_retryable e = (case e of Unreachable _ \<Rightarrow> True | _ \<Rightarrow> False)"

section \<open>One entry per address\<close>

lemma upsert_addrs: "cd_addr ` set (upsert c cs) = insert (cd_addr c) (cd_addr ` set cs)"
  by (induction c cs rule: upsert.induct) (auto simp: refresh_candidate_def)

lemma upsert_distinct: "distinct (map cd_addr cs) \<Longrightarrow> distinct (map cd_addr (upsert c cs))"
proof (induction c cs rule: upsert.induct)
  case (2 c d ds)
  have "cd_addr ` set (upsert c ds) = insert (cd_addr c) (cd_addr ` set ds)" by (rule upsert_addrs)
  with 2 show ?case by (auto simp: refresh_candidate_def)
qed simp

lemma fold_upsert_distinct:
  "distinct (map cd_addr cs) \<Longrightarrow> distinct (map cd_addr (fold (\<lambda>x. upsert (f x)) xs cs))"
  by (induction xs arbitrary: cs) (auto simp: upsert_distinct)

text \<open>Pruning selects positions, so the rest keeps its order.\<close>

lemma select_positions:
  "map snd (filter (\<lambda>(i, _). P i) (enumerate n cs)) = map (\<lambda>i. cs ! (i - n)) (filter P [n..<n + length cs])"
proof (induction cs arbitrary: n)
  case (Cons c cs)
  have eq: "map (\<lambda>i. cs ! (i - Suc n)) (filter P [Suc n..<Suc n + length cs]) =
      map (\<lambda>i. (c # cs) ! (i - n)) (filter P [Suc n..<Suc n + length cs])"
    by (rule map_cong) (auto simp: nth_Cons')
  have "[n..<n + length (c # cs)] = n # [Suc n..<Suc n + length cs]" using upt_conv_Cons [of n "n + length (c # cs)"] by (simp del: upt_Suc)
  with Cons [of "Suc n"] eq show ?case by simp
qed simp

lemma distinct_positions:
  assumes "distinct xs" "distinct js" "\<forall>j \<in> set js. j < length xs"
  shows "distinct (map (\<lambda>j. xs ! j) js)"
  using assms by (auto simp: distinct_map inj_on_def nth_eq_iff_index_eq)

definition kept :: "candidate list \<Rightarrow> nat list" where
  "kept cs = (if length (filter is_lan cs) \<le> MAX_LAN_CANDIDATES then [0..<length cs]
     else filter (\<lambda>i. i \<notin> set (map fst (drop MAX_LAN_CANDIDATES (sort_key (\<lambda>(_, seen). - seen_value seen)
            (map (\<lambda>(i, c). (i, cd_last_seen_ms c)) (filter (\<lambda>(_, c). is_lan c) (enumerate 0 cs))))))) [0..<length cs])"

lemma prune_lan_kept: "prune_lan cs = map (\<lambda>i. cs ! i) (kept cs)"
proof (cases "length (filter is_lan cs) \<le> MAX_LAN_CANDIDATES")
  case True
  then show ?thesis by (simp add: prune_lan_def kept_def map_nth)
next
  case False
  then show ?thesis using select_positions [of _ 0 cs] by (simp add: prune_lan_def kept_def Let_def)
qed

lemma kept_positions: "distinct (kept cs)" "\<forall>i \<in> set (kept cs). i < length cs"
  by (auto simp: kept_def)

lemma prune_distinct: "distinct (map cd_addr cs) \<Longrightarrow> distinct (map cd_addr (prune_lan cs))"
  using distinct_positions [of "map cd_addr cs" "kept cs"] kept_positions [of cs]
  by (simp add: prune_lan_kept comp_def cong: map_cong)

lemma refresh_distinct: "distinct (map cd_addr cs) \<Longrightarrow> distinct (map cd_addr (refresh_lan as now cs))"
  unfolding refresh_lan_def by (intro prune_distinct fold_upsert_distinct)

section \<open>What a refresh keeps\<close>

definition by_age :: "candidate list \<Rightarrow> (nat \<times> u64 option) list" where
  "by_age cs = sort_key (\<lambda>(_, seen). - seen_value seen)
     (map (\<lambda>(i, c). (i, cd_last_seen_ms c)) (filter (\<lambda>(_, c). is_lan c) (enumerate 0 cs)))"

definition doomed :: "candidate list \<Rightarrow> nat set" where
  "doomed cs = (if length (filter is_lan cs) \<le> MAX_LAN_CANDIDATES then {} else fst ` set (drop MAX_LAN_CANDIDATES (by_age cs)))"

lemma kept_doomed: "kept cs = filter (\<lambda>i. i \<notin> doomed cs) [0..<length cs]"
  by (simp add: kept_def doomed_def by_age_def)

lemma by_age_entries:
  "(i, s) \<in> set (by_age cs) \<longleftrightarrow> i < length cs \<and> is_lan (cs ! i) \<and> s = cd_last_seen_ms (cs ! i)"
  by (force simp: by_age_def in_set_enumerate_eq)

lemma by_age_sorted:
  assumes "(i, s) \<in> set (take n (by_age cs))" "(j, t) \<in> set (drop n (by_age cs))"
  shows "seen_value t \<le> seen_value s"
proof -
  have "sorted (map (\<lambda>(_, seen). - seen_value seen) (take n (by_age cs) @ drop n (by_age cs)))"
    unfolding append_take_drop_id by (simp add: by_age_def)
  with assms show ?thesis unfolding map_append sorted_append by force
qed

lemma lan_kept: "i < length cs \<Longrightarrow> is_lan (cs ! i) \<Longrightarrow> i \<notin> doomed cs \<Longrightarrow> length (filter is_lan cs) > MAX_LAN_CANDIDATES \<Longrightarrow>
    (i, cd_last_seen_ms (cs ! i)) \<in> set (take MAX_LAN_CANDIDATES (by_age cs))"
proof -
  assume a: "i < length cs" "is_lan (cs ! i)" "i \<notin> doomed cs" "length (filter is_lan cs) > MAX_LAN_CANDIDATES"
  then have "(i, cd_last_seen_ms (cs ! i)) \<in> set (by_age cs)" by (simp add: by_age_entries)
  then have "(i, cd_last_seen_ms (cs ! i)) \<in> set (take MAX_LAN_CANDIDATES (by_age cs)) \<union> set (drop MAX_LAN_CANDIDATES (by_age cs))"
    by (metis append_take_drop_id set_append)
  then consider "(i, cd_last_seen_ms (cs ! i)) \<in> set (take MAX_LAN_CANDIDATES (by_age cs))"
    | "(i, cd_last_seen_ms (cs ! i)) \<in> set (drop MAX_LAN_CANDIDATES (by_age cs))" by auto
  then show ?thesis using a(3,4) by cases (auto simp: doomed_def image_iff)
qed

lemma prune_lan_bound: "length (filter is_lan (prune_lan cs)) \<le> MAX_LAN_CANDIDATES"
proof (cases "length (filter is_lan cs) \<le> MAX_LAN_CANDIDATES")
  case True
  then show ?thesis by (simp add: prune_lan_def)
next
  case False
  let ?js = "filter (\<lambda>i. is_lan (cs ! i)) (kept cs)"
  have "length (filter is_lan (prune_lan cs)) = length ?js" by (simp add: prune_lan_kept filter_map comp_def)
  also have "\<dots> = card (set ?js)" using kept_positions(1) by (metis distinct_card distinct_filter)
  also have "\<dots> \<le> card (fst ` set (take MAX_LAN_CANDIDATES (by_age cs)))"
  proof (rule card_mono)
    show "set ?js \<subseteq> fst ` set (take MAX_LAN_CANDIDATES (by_age cs))"
      using lan_kept False by (force simp: kept_doomed)
  qed simp
  also have "\<dots> \<le> MAX_LAN_CANDIDATES"
    by (metis card_image_le card_length finite_set le_trans length_take min.cobounded2 min.commute)
  finally show ?thesis .
qed

lemma prune_lan_tailnet: "filter (\<lambda>c. \<not> is_lan c) (prune_lan cs) = filter (\<lambda>c. \<not> is_lan c) cs"
proof -
  have "filter (\<lambda>i. \<not> is_lan (cs ! i)) (kept cs) = filter (\<lambda>i. \<not> is_lan (cs ! i)) [0..<length cs]"
    unfolding kept_doomed filter_filter
    by (rule filter_cong) (auto simp: doomed_def by_age_entries dest: in_set_dropD)
  then have "filter (\<lambda>c. \<not> is_lan c) (prune_lan cs) = map ((!) cs) (filter (\<lambda>i. \<not> is_lan (cs ! i)) [0..<length cs])"
    by (simp add: prune_lan_kept filter_map comp_def)
  also have "\<dots> = filter (\<lambda>c. \<not> is_lan c) (map ((!) cs) [0..<length cs])" by (simp add: filter_map comp_def)
  finally show ?thesis by (simp add: map_nth)
qed

lemma prune_lan_drops_oldest:
  assumes "c \<in> set cs" "c \<notin> set (prune_lan cs)"
  shows "is_lan c \<and> (\<forall>d \<in> set (prune_lan cs). is_lan d \<longrightarrow> seen_value (cd_last_seen_ms c) \<le> seen_value (cd_last_seen_ms d))"
proof -
  obtain i where i: "i < length cs" "c = cs ! i" using assms(1) by (metis in_set_conv_nth)
  have "i \<notin> set (kept cs)" using assms(2) i(2) by (auto simp: prune_lan_kept)
  then have d: "i \<in> doomed cs" using i(1) by (simp add: kept_doomed)
  then obtain t where t: "(i, t) \<in> set (drop MAX_LAN_CANDIDATES (by_age cs))" "length (filter is_lan cs) > MAX_LAN_CANDIDATES"
    by (auto simp: doomed_def split: if_splits)
  then have lan: "is_lan c" "t = cd_last_seen_ms c" using in_set_dropD [OF t(1)] by (auto simp: by_age_entries i(2))
  have "seen_value (cd_last_seen_ms c) \<le> seen_value (cd_last_seen_ms e)" if "e \<in> set (prune_lan cs)" "is_lan e" for e
  proof -
    from that obtain j where "j < length cs" "j \<notin> doomed cs" "e = cs ! j" by (auto simp: prune_lan_kept kept_doomed)
    with lan_kept that(2) t(2) have "(j, cd_last_seen_ms e) \<in> set (take MAX_LAN_CANDIDATES (by_age cs))" by blast
    from by_age_sorted [OF this t(1)] lan(2) show ?thesis by simp
  qed
  with lan show ?thesis by blast
qed

text \<open>
  Folding what discovery reported into the addresses of a peer leaves one entry per address, at
  most six LAN addresses, and every tailnet address; an address is given up only if it is a LAN
  address seen no later than every LAN address that stays.
\<close>

theorem refresh_lan_keeps_newest:
  assumes "distinct (map cd_addr cs)" "ds = fold (\<lambda>a. upsert (seen_at now (candidate_lan a))) found cs"
  shows "distinct (map cd_addr (refresh_lan found now cs)) \<and>
    length (filter is_lan (refresh_lan found now cs)) \<le> MAX_LAN_CANDIDATES \<and>
    filter (\<lambda>c. \<not> is_lan c) (refresh_lan found now cs) = filter (\<lambda>c. \<not> is_lan c) ds \<and>
    (\<forall>c \<in> set ds - set (refresh_lan found now cs). is_lan c \<and>
       (\<forall>d \<in> set (refresh_lan found now cs). is_lan d \<longrightarrow> seen_value (cd_last_seen_ms c) \<le> seen_value (cd_last_seen_ms d)))"
  using refresh_distinct [OF assms(1), of found now] prune_lan_bound [of ds] prune_lan_tailnet [of ds] prune_lan_drops_oldest [of _ ds]
  unfolding refresh_lan_def assms(2) [symmetric] by blast

theorem refresh_lan_keeps_newest_witness:
  "length (filter is_lan (refresh_lan (map (\<lambda>p. ([10, 0, 0, 1], p)) [1, 2, 3, 4, 5, 6, 7]) 50 [candidate_tailnet ([100, 64, 0, 1], 7420)])) \<le> 6 \<and>
   candidate_tailnet ([100, 64, 0, 1], 7420) \<in> set (refresh_lan (map (\<lambda>p. ([10, 0, 0, 1], p)) [1, 2, 3, 4, 5, 6, 7]) 50 [candidate_tailnet ([100, 64, 0, 1], 7420)])"
proof -
  let ?found = "map (\<lambda>p. ([10, 0, 0, 1], p)) [1, 2, 3, 4, 5, 6, 7] :: socket_addr list" and ?cs = "[candidate_tailnet ([100, 64, 0, 1], 7420)]"
  have "distinct (map cd_addr ?cs)" by simp
  from refresh_lan_keeps_newest [OF this refl, of ?found 50]
  have bound: "length (filter is_lan (refresh_lan ?found 50 ?cs)) \<le> MAX_LAN_CANDIDATES"
    and "filter (\<lambda>c. \<not> is_lan c) (refresh_lan ?found 50 ?cs) =
      filter (\<lambda>c. \<not> is_lan c) (fold (\<lambda>a. upsert (seen_at 50 (candidate_lan a))) ?found ?cs)" by blast+
  moreover have "candidate_tailnet ([100, 64, 0, 1], 7420) \<in>
      set (filter (\<lambda>c. \<not> is_lan c) (fold (\<lambda>a. upsert (seen_at 50 (candidate_lan a))) ?found ?cs))"
    by (simp add: candidate_tailnet_def candidate_lan_def seen_at_def is_lan_def)
  ultimately have "candidate_tailnet ([100, 64, 0, 1], 7420) \<in> set (filter (\<lambda>c. \<not> is_lan c) (refresh_lan ?found 50 ?cs))" by (simp only:)
  with bound show ?thesis by (simp only: MAX_LAN_CANDIDATES_def set_filter mem_Collect_eq)
qed

section \<open>Dial order and delays\<close>

lemma dial_order_sorted:
  "mset (dial_order cs) = mset cs"
  "sorted (map (\<lambda>c. (reach_rank (cd_reachability c), - seen_value (cd_last_seen_ms c))) (dial_order cs))"
  by (simp_all add: dial_order_def)

lemma unat_shift_factor: "unat (shift_factor n) = (if unat n < 64 then 2 ^ unat n else 2 ^ 64 - 1)"
proof (cases "unat n < 64")
  case True
  then have "(2 :: nat) ^ unat n < 2 ^ 64" by (intro power_strict_increasing) auto
  then have "unat (of_nat (2 ^ unat n) :: u64) = 2 ^ unat n" unfolding unat_of_nat by simp
  with True show ?thesis by (simp add: shift_factor_def push_bit_of_1)
qed (simp add: shift_factor_def unat_max_word)

lemma unat_sat_mul: "unat (sat_mul a b) = min (unat a * unat b) (2 ^ 64 - 1)"
  by (auto simp: sat_mul_def unat_word_ariths unat_max_word)

lemma unat_delay:
  "unat (fst (next_delay_ms b)) = min (unat (bo_base_ms b) * 2 ^ unat (bo_attempt b)) (unat (bo_max_ms b))"
proof -
  have m: "unat (bo_max_ms b) \<le> 2 ^ 64 - 1" using unat_le_max [of "bo_max_ms b"] by simp
  have "unat (min v w) = min (unat v) (unat w)" for v w :: u64
    by (simp add: min_def word_le_nat_alt)
  then have e: "unat (fst (next_delay_ms b)) = min (min (unat (bo_base_ms b) * unat (shift_factor (bo_attempt b))) (2 ^ 64 - 1)) (unat (bo_max_ms b))"
    by (simp add: next_delay_ms_def unat_sat_mul)
  show ?thesis
  proof (cases "unat (bo_attempt b) < 64")
    case True
    with e m show ?thesis by (simp add: unat_shift_factor)
  next
    case False
    then have "(2 :: nat) ^ 64 \<le> 2 ^ unat (bo_attempt b)" by (intro power_increasing) auto
    then have "1 * 2 ^ 64 \<le> unat (bo_base_ms b) * 2 ^ unat (bo_attempt b)" if "unat (bo_base_ms b) \<noteq> 0"
      using that by (intro mult_le_mono) auto
    then have "unat (bo_base_ms b) = 0 \<or> 2 ^ 64 - 1 \<le> unat (bo_base_ms b) * 2 ^ unat (bo_attempt b)" by linarith
    moreover have "unat (bo_base_ms b) = 0 \<or> 2 ^ 64 - 1 \<le> unat (bo_base_ms b) * (2 ^ 64 - 1)" by (cases "unat (bo_base_ms b)") auto
    ultimately show ?thesis using e m False by (auto simp: unat_shift_factor)
  qed
qed

fun delays :: "nat \<Rightarrow> backoff \<Rightarrow> u64 list" where
  "delays 0 b = []"
| "delays (Suc n) b = (case next_delay_ms b of (d, b') \<Rightarrow> d # delays n b')"

lemma delays_nth:
  "k < n \<Longrightarrow> unat (bo_attempt b) + k < 2 ^ 32 \<Longrightarrow>
     unat (delays n b ! k) = min (unat (bo_base_ms b) * 2 ^ (unat (bo_attempt b) + k)) (unat (bo_max_ms b))"
proof (induction n arbitrary: b k)
  case (Suc n)
  let ?b' = "snd (next_delay_ms b)"
  have d: "delays (Suc n) b = fst (next_delay_ms b) # delays n ?b'" by (simp add: case_prod_beta)
  show ?case
  proof (cases k)
    case 0
    then show ?thesis by (simp only: d nth_Cons_0 unat_delay) simp
  next
    case (Suc j)
    have a: "unat (bo_attempt ?b') = unat (bo_attempt b) + 1"
      using Suc.prems Suc by (simp add: next_delay_ms_def unat_sat_add)
    have "unat (delays n ?b' ! j) = min (unat (bo_base_ms ?b') * 2 ^ (unat (bo_attempt ?b') + j)) (unat (bo_max_ms ?b'))"
      by (rule Suc.IH) (use Suc.prems Suc a in auto)
    moreover have "bo_base_ms ?b' = bo_base_ms b" "bo_max_ms ?b' = bo_max_ms b" by (simp_all add: next_delay_ms_def)
    ultimately show ?thesis using Suc a unfolding d by simp
  qed
qed simp

text \<open>
  The delays of a peer that keeps failing are the base, twice the base, four times the base and
  so on, cut at the maximum, for the first \<open>2 ^ 32\<close> attempts; neither the shift nor the
  multiplication overflows.
\<close>

theorem backoff_is_capped_exponential:
  assumes "k < n" "k < 2 ^ 32"
  shows "unat (delays n (backoff_new base maximum) ! k) = min (unat base * 2 ^ k) (unat maximum)"
  using delays_nth [OF assms(1), of "backoff_new base maximum"] assms(2) by (simp add: backoff_new_def)

theorem backoff_is_capped_exponential_witness:
  "map unat (delays 3 (backoff_new 500 1500)) = [500, 1000, 1500]"
proof -
  have len: "length (delays n b) = n" for n b by (induction n arbitrary: b) (auto split: prod.splits)
  have "unat (delays 3 (backoff_new 500 1500) ! k) = min (500 * 2 ^ k) 1500" if "k < 3" for k
    using backoff_is_capped_exponential [of k 3 500 1500] that by simp
  note delay = this
  show ?thesis
  proof (rule nth_equalityI)
    fix k assume "k < length (map unat (delays 3 (backoff_new 500 1500)))"
    then have "k < 3" "k = 0 \<or> k = 1 \<or> k = 2" using len [of 3] by auto
    with delay [of k] len [of 3 "backoff_new 500 1500"] show "map unat (delays 3 (backoff_new 500 1500)) ! k = [500, 1000, 1500] ! k"
      by auto
  qed (simp add: len)
qed

end
