(* ===== verification/Discovery.thy ===== *)
theory Discovery
  imports Pairing
begin

text \<open>
  Finding devices on the local network: the record a device advertises
  (\<open>clipse-net/src/mdns.rs\<close>) and what browsing makes of the records of others
  (\<open>clipse-net/src/discovery.rs\<close>). The mDNS daemon itself is outside: a browse is the list of the
  service events it reports before the budget is used up.

  Shown: an advertised record is read back as it was; a label is cut to 63 bytes at the last
  possible character boundary; whatever is advertised, a browse reports only devices of the same
  protocol version other than this one, each with at least one address, none of them link-local,
  and reports a device as gone only after it was found.
\<close>

section \<open>The advertised record\<close>

definition SERVICE_TYPE :: ustr where
  "SERVICE_TYPE = lit ''_clipse._udp.local.''"

definition MAX_LABEL_BYTES :: nat where
  "MAX_LABEL_BYTES = 63"

definition CORE_PROTOCOL_VERSION :: u16 where
  "CORE_PROTOCOL_VERSION = 1"

datatype record_error = MissingField string | MalformedField string | RecordProtocolMismatch u16 u16

record service_record =
  sr_protocol :: u16
  sr_device :: device_id
  sr_fingerprint :: ustr
  sr_label :: ustr
  sr_platform :: ustr

text \<open>\<open>str::is_char_boundary\<close> on the bytes of a string, and the loop that steps back to one.\<close>

definition is_char_boundary :: "bytes \<Rightarrow> nat \<Rightarrow> bool" where
  "is_char_boundary bs i \<longleftrightarrow> i = 0 \<or> i = length bs \<or> i < length bs \<and> \<not> is_cont (unat (bs ! i))"

fun boundary_end :: "bytes \<Rightarrow> nat \<Rightarrow> nat" where
  "boundary_end bs 0 = 0"
| "boundary_end bs (Suc n) = (if \<not> is_char_boundary bs (Suc n) then boundary_end bs n else Suc n)"

definition truncate_on_char_boundary :: "ustr \<Rightarrow> nat \<Rightarrow> ustr" where
  "truncate_on_char_boundary s max_bytes =
     (let bs = utf8_encode s
      in if length bs \<le> max_bytes then s
         else case from_utf8 (take (boundary_end bs max_bytes) bs) of Some t \<Rightarrow> t | None \<Rightarrow> [])"

definition service_record_new :: "device_id \<Rightarrow> ustr \<Rightarrow> ustr \<Rightarrow> ustr \<Rightarrow> service_record" where
  "service_record_new d fp lbl plat =
     \<lparr>sr_protocol = CORE_PROTOCOL_VERSION, sr_device = d, sr_fingerprint = fp,
      sr_label = truncate_on_char_boundary lbl MAX_LABEL_BYTES, sr_platform = plat\<rparr>"

text \<open>\<open>DeviceId::short\<close>: the first six hexadecimal digits.\<close>

definition device_short :: "'x crates_scheme \<Rightarrow> device_id \<Rightarrow> ustr" where
  "device_short X d = lit (take 6 (uuid_to_string X (as_uuid d)))"

definition instance_name :: "'x crates_scheme \<Rightarrow> service_record \<Rightarrow> ustr" where
  "instance_name X r = lit ''clipse-'' @ device_short X (sr_device r)"

definition to_txt :: "'x crates_scheme \<Rightarrow> service_record \<Rightarrow> ustr \<Rightarrow> ustr option" where
  "to_txt X r =
     [lit ''v'' \<mapsto> dec (unat (sr_protocol r)), lit ''id'' \<mapsto> lit (device_to_string X (sr_device r)),
      lit ''fp'' \<mapsto> sr_fingerprint r, lit ''label'' \<mapsto> sr_label r, lit ''os'' \<mapsto> sr_platform r]"

text \<open>\<open>u16::from_str\<close>: an optional plus sign, then digits whose value fits.\<close>

fun digits_to_nat :: "nat \<Rightarrow> ustr \<Rightarrow> nat option" where
  "digits_to_nat acc [] = Some acc"
| "digits_to_nat acc (c # cs) = (if 48 \<le> c \<and> c \<le> 57 then digits_to_nat (10 * acc + (c - 48)) cs else None)"

definition parse_u16 :: "ustr \<Rightarrow> u16 option" where
  "parse_u16 s =
     (let ds = (case s of c # cs \<Rightarrow> if c = 43 then cs else s | [] \<Rightarrow> [])
      in if ds = [] then None
         else case digits_to_nat 0 ds of
                Some n \<Rightarrow> if n < 2 ^ 16 then Some (of_nat n) else None
              | None \<Rightarrow> None)"

text \<open>No UUID parses from a string with a character outside ASCII.\<close>

definition parse_device :: "'x crates_scheme \<Rightarrow> ustr \<Rightarrow> device_id option" where
  "parse_device X s =
     (if list_all (\<lambda>c. c < 128) s
      then (case device_from_str X (map char_of s) of Inr d \<Rightarrow> Some d | Inl _ \<Rightarrow> None) else None)"

definition txt_get :: "(ustr \<Rightarrow> ustr option) \<Rightarrow> string \<Rightarrow> record_error + ustr" where
  "txt_get txt key = (case txt (lit key) of Some v \<Rightarrow> Inr v | None \<Rightarrow> Inl (MissingField key))"

definition from_txt :: "'x crates_scheme \<Rightarrow> (ustr \<Rightarrow> ustr option) \<Rightarrow> record_error + service_record" where
  "from_txt X txt =
     bind_r (txt_get txt ''v'') (\<lambda>v.
     case parse_u16 v of
       None \<Rightarrow> Inl (MalformedField ''v'')
     | Some protocol \<Rightarrow>
         if protocol \<noteq> CORE_PROTOCOL_VERSION then Inl (RecordProtocolMismatch protocol CORE_PROTOCOL_VERSION)
         else bind_r (txt_get txt ''id'') (\<lambda>i.
           case parse_device X i of
             None \<Rightarrow> Inl (MalformedField ''id'')
           | Some d \<Rightarrow>
               bind_r (txt_get txt ''fp'') (\<lambda>fp.
               bind_r (txt_get txt ''label'') (\<lambda>lbl.
               bind_r (txt_get txt ''os'') (\<lambda>os.
               Inr \<lparr>sr_protocol = protocol, sr_device = d, sr_fingerprint = fp, sr_label = lbl, sr_platform = os\<rparr>)))))"

section \<open>Browsing\<close>

record discovered_peer =
  dp_device :: device_id
  dp_label :: ustr
  dp_platform :: ustr
  dp_fingerprint :: ustr
  dp_addresses :: "socket_addr list"

datatype discovery_event = PeerFound discovered_peer | PeerLost device_id | Incompatible ustr ustr

record discovery =
  dc_instance :: ustr
  dc_known :: "ustr \<Rightarrow> device_id option"
  dc_self :: device_id

definition discovery_start :: "'x crates_scheme \<Rightarrow> service_record \<Rightarrow> discovery" where
  "discovery_start X r = \<lparr>dc_instance = instance_name X r, dc_known = Map.empty, dc_self = sr_device r\<rparr>"

definition instance_of :: "ustr \<Rightarrow> ustr" where
  "instance_of full = takeWhile (\<lambda>c. c \<noteq> 46) full"

text \<open>An address is 4 or 16 bytes; \<open>fe80::/10\<close> is link-local.\<close>

definition dialable :: "socket_addr \<Rightarrow> bool" where
  "dialable a \<longleftrightarrow>
     (case a of (ip, _) \<Rightarrow> if length ip = 4 then True else \<not> (ip ! 0 = 254 \<and> ip ! 1 div 64 = 2))"

record resolved_service =
  rs_fullname :: ustr
  rs_txt :: "ustr \<Rightarrow> ustr option"
  rs_ips :: "bytes list"
  rs_port :: u16

datatype service_event = ServiceResolved resolved_service | ServiceRemoved ustr | OtherServiceEvent

definition on_resolved :: "'x crates_scheme \<Rightarrow> resolved_service \<Rightarrow> discovery \<Rightarrow> discovery_event option \<times> discovery" where
  "on_resolved X info s =
     (if instance_of (rs_fullname info) = dc_instance s then (None, s)
      else case from_txt X (rs_txt info) of
        Inl (RecordProtocolMismatch theirs ours) \<Rightarrow>
          (Some (Incompatible (rs_fullname info)
             (lit ''speaks protocol '' @ dec (unat theirs) @ lit '', this device speaks '' @ dec (unat ours))), s)
      | Inl _ \<Rightarrow> (None, s)
      | Inr r \<Rightarrow>
          if sr_device r = dc_self s then (None, s)
          else let addresses = filter dialable (map (\<lambda>ip. (ip, rs_port info)) (rs_ips info))
               in if addresses = [] then (None, s)
                  else (Some (PeerFound \<lparr>dp_device = sr_device r, dp_label = sr_label r, dp_platform = sr_platform r,
                                dp_fingerprint = sr_fingerprint r, dp_addresses = addresses\<rparr>),
                        s\<lparr>dc_known := (dc_known s)(instance_of (rs_fullname info) \<mapsto> sr_device r)\<rparr>))"

fun sweep :: "'x crates_scheme \<Rightarrow> service_event list \<Rightarrow> discovery \<Rightarrow> discovery_event list \<times> discovery" where
  "sweep X [] s = ([], s)"
| "sweep X (ServiceResolved info # evs) s =
     (case on_resolved X info s of
        (ev, s1) \<Rightarrow> (case sweep X evs s1 of (out, s2) \<Rightarrow> (case ev of None \<Rightarrow> out | Some e \<Rightarrow> e # out, s2)))"
| "sweep X (ServiceRemoved full # evs) s =
     (case dc_known s (instance_of full) of
        None \<Rightarrow> sweep X evs s
      | Some d \<Rightarrow>
          (case sweep X evs (s\<lparr>dc_known := (dc_known s)(instance_of full := None)\<rparr>) of (out, s2) \<Rightarrow> (PeerLost d # out, s2)))"
| "sweep X (OtherServiceEvent # evs) s = sweep X evs s"

section \<open>What is advertised is read back\<close>

lemma digits_to_nat_append:
  "digits_to_nat acc (xs @ ys) = (case digits_to_nat acc xs of None \<Rightarrow> None | Some a \<Rightarrow> digits_to_nat a ys)"
  by (induction acc xs rule: digits_to_nat.induct) auto

lemma digits_to_nat_dec: "digits_to_nat 0 (dec n) = Some n"
proof (induction n rule: dec.induct)
  case (1 n)
  show ?case
  proof (cases "n < 10")
    case False
    with 1 have "digits_to_nat 0 (dec (n div 10)) = Some (n div 10)" by blast
    then show ?thesis using False by (subst dec.simps) (simp add: digits_to_nat_append)
  qed (subst dec.simps, simp)
qed

lemma dec_first: "dec n \<noteq> [] \<and> hd (dec n) \<noteq> 43"
proof (induction n rule: dec.induct)
  case (1 n)
  then show ?case by (subst (1 2) dec.simps) auto
qed

lemma parse_u16_dec: "parse_u16 (dec (unat w)) = Some w"
proof -
  obtain c cs where c: "dec (unat w) = c # cs" "c \<noteq> 43" using dec_first [of "unat w"] by (cases "dec (unat w)") auto
  then show ?thesis
    using digits_to_nat_dec [of "unat w"] unsigned_less [of w, where 'a = nat] by (simp add: parse_u16_def Let_def)
qed

lemma parse_device_printed:
  assumes "crates_ok X"
  shows "parse_device X (lit (device_to_string X d)) = Some d"
proof -
  have hexd: "of_char (hex_digit (v mod 16)) < (128 :: nat)" for v
    using mod_less_divisor [of 16 v] by (auto simp: hex_digit_def)
  have "c \<in> set (hex_digits n v) \<Longrightarrow> of_char c < (128 :: nat)" for c n v
    by (induction n v rule: hex_digits.induct) (auto simp: hexd)
  then have "c \<in> set (uuid_hyphenated u) \<Longrightarrow> of_char c < (128 :: nat)" for c u
    by (auto simp: uuid_hyphenated_def Let_def dest: in_set_takeD in_set_dropD) (meson in_set_takeD in_set_dropD)+
  then have "list_all (\<lambda>c. c < 128) (lit (device_to_string X d))"
    by (auto simp: list_all_iff device_to_string_def crates_okD [OF assms])
  then show ?thesis by (simp add: parse_device_def comp_def device_roundtrip [OF assms])
qed

text \<open>
  A record of this version, whatever its texts, is read back from its advertisement exactly; a
  record of another version is recognised as such.
\<close>

theorem advertisement_roundtrip:
  assumes "crates_ok X"
  shows "from_txt X (to_txt X r) =
    (if sr_protocol r = CORE_PROTOCOL_VERSION then Inr r
     else Inl (RecordProtocolMismatch (sr_protocol r) CORE_PROTOCOL_VERSION))"
  by (simp add: from_txt_def to_txt_def txt_get_def parse_u16_dec parse_device_printed [OF assms] del: dec.simps)

section \<open>Cutting a label\<close>

abbreviation char_bytes :: "nat \<Rightarrow> bytes" where
  "char_bytes c \<equiv> map of_nat (utf8_char c)"

lemma utf8_encode_Cons: "utf8_encode (c # cs) = char_bytes c @ utf8_encode cs"
  by (simp add: utf8_encode_def)

lemma unat_char_bytes: "is_scalar c \<Longrightarrow> i < length (utf8_char c) \<Longrightarrow> unat (char_bytes c ! i) = utf8_char c ! i"
  using utf8_char_byte [of c "utf8_char c ! i"] by (simp add: unat_of_nat)

lemma char_bytes_shape:
  assumes "is_scalar c"
  shows "char_bytes c \<noteq> []" "0 < i \<Longrightarrow> i < length (char_bytes c) \<Longrightarrow> is_cont (unat (char_bytes c ! i))"
    "\<not> is_cont (unat (hd (char_bytes c)))"
proof -
  show ne: "char_bytes c \<noteq> []" by (simp add: utf8_char_def)
  have "\<not> is_cont (utf8_char c ! 0)" by (auto simp: utf8_char_def is_cont_def)
  then show "\<not> is_cont (unat (hd (char_bytes c)))"
    using unat_char_bytes [OF assms, of 0] ne by (simp add: hd_conv_nth)
  assume i: "0 < i" "i < length (char_bytes c)"
  then have "is_cont (utf8_char c ! i)"
    by (auto simp: utf8_char_def is_cont_def nth_Cons split: if_splits nat.splits)
  then show "is_cont (unat (char_bytes c ! i))" using unat_char_bytes [OF assms] i by simp
qed

text \<open>The boundaries of an encoded string are the ends of its characters.\<close>

lemma char_boundary_iff:
  assumes "list_all is_scalar s"
  shows "is_char_boundary (utf8_encode s) i \<longleftrightarrow> (\<exists>k \<le> length s. i = length (utf8_encode (take k s)))"
  using assms
proof (induction s arbitrary: i)
  case Nil
  then show ?case by (simp add: is_char_boundary_def utf8_encode_def)
next
  case (Cons c s)
  let ?n = "length (char_bytes c)" and ?r = "utf8_encode s"
  have c: "is_scalar c" and s: "list_all is_scalar s" using Cons.prems by simp_all
  note shape = char_bytes_shape [OF c]
  have rhs: "(\<exists>k \<le> length (c # s). i = length (utf8_encode (take k (c # s)))) \<longleftrightarrow>
      i = 0 \<or> (\<exists>k \<le> length s. i = ?n + length (utf8_encode (take k s)))"
  proof -
    have ex: "(\<exists>k \<le> Suc m. P k) \<longleftrightarrow> P 0 \<or> (\<exists>k \<le> m. P (Suc k))" for P m
      by (metis le0 not0_implies_Suc Suc_le_mono)
    show ?thesis unfolding list.size add_0_right add_Suc_right ex by (simp add: utf8_encode_Cons utf8_encode_def)
  qed
  consider "i = 0" | "0 < i" "i < ?n" | "?n \<le> i" by linarith
  then show ?case
  proof cases
    case 1
    then show ?thesis unfolding rhs by (simp add: is_char_boundary_def)
  next
    case 2
    then have "\<not> is_char_boundary (utf8_encode (c # s)) i"
      using shape(2) [OF 2] by (auto simp: is_char_boundary_def utf8_encode_Cons nth_append)
    with 2 show ?thesis unfolding rhs by auto
  next
    case 3
    then obtain j where j: "i = ?n + j" using le_Suc_ex by blast
    have "?r ! 0 = hd (char_bytes d)" if "s = d # t" for d t
      using that char_bytes_shape(1) [of d] s by (cases "char_bytes d") (auto simp: utf8_encode_Cons)
    then have "?r \<noteq> [] \<Longrightarrow> \<not> is_cont (unat (?r ! 0))"
      using s char_bytes_shape(3) by (cases s) (auto simp: utf8_encode_def)
    then have "is_char_boundary (utf8_encode (c # s)) i \<longleftrightarrow> is_char_boundary ?r j"
      using j shape(1) by (cases j) (auto simp: is_char_boundary_def utf8_encode_Cons nth_append)
    also have "\<dots> \<longleftrightarrow> (\<exists>k \<le> length s. j = length (utf8_encode (take k s)))" by (rule Cons.IH [OF s])
    finally show ?thesis unfolding rhs using j shape(1) by auto
  qed
qed

lemma boundary_end_greatest:
  "boundary_end bs n \<le> n \<and> is_char_boundary bs (boundary_end bs n) \<and>
   (\<forall>i. boundary_end bs n < i \<and> i \<le> n \<longrightarrow> \<not> is_char_boundary bs i)"
proof (induction n)
  case (Suc n)
  then show ?case by (auto simp: le_Suc_eq)
qed (auto simp: is_char_boundary_def)

lemma utf8_encode_append: "utf8_encode (s @ t) = utf8_encode s @ utf8_encode t"
  by (simp add: utf8_encode_def)

text \<open>
  A label is cut to the longest prefix of whole characters that fits the 63 bytes: never inside a
  character, and never shorter than it has to be.
\<close>

theorem label_cut_is_longest_prefix:
  assumes "list_all is_scalar s"
  shows "\<exists>rest. s = truncate_on_char_boundary s n @ rest \<and> length (utf8_encode (truncate_on_char_boundary s n)) \<le> n \<and>
    (\<forall>c rest'. rest = c # rest' \<longrightarrow> n < length (utf8_encode (truncate_on_char_boundary s n @ [c])))"
proof (cases "length (utf8_encode s) \<le> n")
  case True
  then show ?thesis by (simp add: truncate_on_char_boundary_def)
next
  case False
  let ?bs = "utf8_encode s" and ?e = "boundary_end (utf8_encode s) n"
  obtain k where k: "k \<le> length s" "?e = length (utf8_encode (take k s))"
    using char_boundary_iff [OF assms] boundary_end_greatest [of ?bs n] by blast
  have "utf8_encode (take k s) @ utf8_encode (drop k s) = ?bs" by (metis utf8_encode_append append_take_drop_id)
  then have "take ?e ?bs = utf8_encode (take k s)" by (metis append_eq_conv_conj k(2))
  moreover have "list_all is_scalar (take k s)" using assms by (auto simp: list_all_iff dest: in_set_takeD)
  ultimately have cut: "truncate_on_char_boundary s n = take k s"
    using False by (simp add: truncate_on_char_boundary_def Let_def from_utf8_encode)
  have more: "n < length (utf8_encode (take k s @ [c]))" if "drop k s = c # t" for c t
  proof -
    have lt: "k < length s" using that by (metis drop_all list.distinct(1) not_le)
    have "take k s @ [c] = take (Suc k) s" using that lt by (simp add: take_Suc_conv_app_nth Cons_nth_drop_Suc [symmetric])
    moreover have "is_char_boundary ?bs (length (utf8_encode (take (Suc k) s)))"
      unfolding char_boundary_iff [OF assms] using lt by (intro exI [of _ "Suc k"]) simp
    moreover have "is_scalar c" using assms that by (metis in_set_dropD list.set_intros(1) list_all_iff)
    then have "?e < length (utf8_encode (take k s @ [c]))"
      using char_bytes_shape(1) [of c] k(2) by (simp add: utf8_encode_append utf8_encode_def utf8_char_def)
    ultimately show ?thesis using boundary_end_greatest [of ?bs n] by (metis not_le)
  qed
  show ?thesis
    using more boundary_end_greatest [of ?bs n] k(2)
    by (intro exI [of _ "drop k s"]) (simp add: cut)
qed

theorem label_cut_is_longest_prefix_witness:
  "\<exists>rest. [97, 8364, 98] = truncate_on_char_boundary [97, 8364, 98] 3 @ rest \<and>
     length (utf8_encode (truncate_on_char_boundary [97, 8364, 98] 3)) \<le> 3"
  using label_cut_is_longest_prefix [of "[97, 8364, 98]" 3] by (auto simp: is_scalar_def)

section \<open>What a browse reports\<close>

lemma on_resolved_found:
  assumes "on_resolved X info s = (Some (PeerFound p), s')"
  shows "dp_device p \<noteq> dc_self s" "dp_addresses p \<noteq> []" "list_all dialable (dp_addresses p)"
  using assms by (auto simp: on_resolved_def Let_def list_all_iff split: if_splits sum.splits record_error.splits)

lemma on_resolved_self: "on_resolved X info s = (ev, s') \<Longrightarrow> dc_self s' = dc_self s"
  by (auto simp: on_resolved_def Let_def split: if_splits sum.splits record_error.splits)

lemma on_resolved_known:
  assumes "on_resolved X info s = (ev, s')" "d \<in> ran (dc_known s')"
  shows "d \<in> ran (dc_known s) \<or> (\<exists>p. ev = Some (PeerFound p) \<and> dp_device p = d)"
  using assms by (auto simp: on_resolved_def Let_def ran_def split: if_splits sum.splits record_error.splits)

lemma on_resolved_not_lost: "on_resolved X info s \<noteq> (Some (PeerLost d), s')"
  by (auto simp: on_resolved_def Let_def split: if_splits sum.splits record_error.splits)

lemma sweep_found:
  "sweep X evs s = (out, s') \<Longrightarrow> PeerFound p \<in> set out \<Longrightarrow>
     dp_device p \<noteq> dc_self s \<and> dp_addresses p \<noteq> [] \<and> list_all dialable (dp_addresses p)"
proof (induction X evs s arbitrary: out s' rule: sweep.induct)
  case (2 X info evs s)
  obtain ev s1 where o: "on_resolved X info s = (ev, s1)" by force
  obtain out1 s2 where w: "sweep X evs s1 = (out1, s2)" by force
  have "PeerFound p \<in> set out1 \<or> ev = Some (PeerFound p)" using 2(2,3) o w by (auto split: option.splits)
  then show ?case
    using 2(1) [OF o [symmetric] w] on_resolved_self [OF o] on_resolved_found [of X info s p s1] o by auto
next
  case (3 X full evs s)
  show ?case
  proof (cases "dc_known s (instance_of full)")
    case (Some d)
    obtain out1 s2 where w: "sweep X evs (s\<lparr>dc_known := (dc_known s)(instance_of full := None)\<rparr>) = (out1, s2)" by force
    have "PeerFound p \<in> set out1" using 3(3,4) Some w by auto
    with 3(2) [OF Some w] show ?thesis by simp
  qed (use 3 in auto)
qed auto

lemma sweep_lost:
  "sweep X evs s = (pre @ PeerLost d # post, s') \<Longrightarrow> d \<in> ran (dc_known s) \<or> (\<exists>p. PeerFound p \<in> set pre \<and> dp_device p = d)"
proof (induction X evs s arbitrary: pre s' rule: sweep.induct)
  case (2 X info evs s)
  obtain ev s1 where o: "on_resolved X info s = (ev, s1)" by force
  obtain out1 s2 where w: "sweep X evs s1 = (out1, s2)" by force
  show ?case
  proof (cases ev)
    case None
    with 2 o w on_resolved_known [OF o] show ?thesis by auto
  next
    case (Some e)
    then have "e \<noteq> PeerLost d" using on_resolved_not_lost o by metis
    with 2(2) o w Some obtain pre' where pre: "pre = e # pre'" "out1 = pre' @ PeerLost d # post"
      by (cases pre) auto
    from 2(1) [OF o [symmetric]] w pre(2) have "d \<in> ran (dc_known s1) \<or> (\<exists>p. PeerFound p \<in> set pre' \<and> dp_device p = d)"
      by auto
    with on_resolved_known [OF o] Some pre(1) show ?thesis by auto
  qed
next
  case (3 X full evs s)
  show ?case
  proof (cases "dc_known s (instance_of full)")
    case (Some d')
    obtain out1 s2 where w: "sweep X evs (s\<lparr>dc_known := (dc_known s)(instance_of full := None)\<rparr>) = (out1, s2)" by force
    have sub: "ran ((dc_known s)(instance_of full := None)) \<subseteq> ran (dc_known s)" by (auto simp: ran_def split: if_splits)
    show ?thesis
    proof (cases pre)
      case Nil
      with 3 Some w show ?thesis by (auto simp: ran_def)
    next
      case (Cons e pre')
      with 3(3) Some w have "out1 = pre' @ PeerLost d # post" by simp
      with 3(2) [OF Some] w sub Cons show ?thesis by fastforce
    qed
  qed (use 3 in auto)
qed auto

text \<open>
  Whatever is advertised on the network: a device that a browse reports is not this one, and has an
  address, none of them link-local; and a device is reported as gone only if it was known before or
  reported as found earlier in the same browse.
\<close>

theorem browse_is_sound:
  assumes "sweep X evs s = (out, s')"
  shows "(\<forall>p. PeerFound p \<in> set out \<longrightarrow>
      dp_device p \<noteq> dc_self s \<and> dp_addresses p \<noteq> [] \<and> list_all dialable (dp_addresses p)) \<and>
    (\<forall>pre d post. out = pre @ PeerLost d # post \<longrightarrow>
      d \<in> ran (dc_known s) \<or> (\<exists>p. PeerFound p \<in> set pre \<and> dp_device p = d))"
  using sweep_found [OF assms] sweep_lost assms by blast

definition sample_service :: "uuid \<Rightarrow> resolved_service" where
  "sample_service u =
     \<lparr>rs_fullname = lit ''clipse-other._clipse._udp.local.'',
      rs_txt = to_txt sample_crates (service_record_new (DeviceId u) [] [] []),
      rs_ips = [254 # 128 # replicate 14 0, [10, 0, 0, 2]], rs_port = 7420\<rparr>"

theorem browse_is_sound_witness:
  "\<exists>p. fst (sweep sample_crates [ServiceResolved (sample_service 2)]
      \<lparr>dc_instance = lit ''clipse-me'', dc_known = Map.empty, dc_self = DeviceId 1\<rparr>) = [PeerFound p] \<and>
    dp_addresses p = [([10, 0, 0, 2], 7420)] \<and> list_all dialable (dp_addresses p)"
proof -
  let ?s = "\<lparr>dc_instance = lit ''clipse-me'', dc_known = Map.empty, dc_self = DeviceId 1\<rparr>"
  have "truncate_on_char_boundary [] MAX_LABEL_BYTES = []" by (simp add: truncate_on_char_boundary_def utf8_encode_def)
  then have "from_txt sample_crates (rs_txt (sample_service 2)) = Inr (service_record_new (DeviceId 2) [] [] [])"
    by (simp add: sample_service_def from_txt_def to_txt_def txt_get_def parse_u16_dec parse_device_printed [OF sample_crates_ok]
        service_record_new_def)
  then have "\<exists>p s'. sweep sample_crates [ServiceResolved (sample_service 2)] ?s = ([PeerFound p], s') \<and>
      dp_addresses p = [([10, 0, 0, 2], 7420)]"
    by (simp add: on_resolved_def sample_service_def instance_of_def service_record_new_def dialable_def Let_def)
  then obtain p s' where p: "sweep sample_crates [ServiceResolved (sample_service 2)] ?s = ([PeerFound p], s')"
    "dp_addresses p = [([10, 0, 0, 2], 7420)]" by blast
  with browse_is_sound [OF p(1)] show ?thesis by simp
qed

theorem advertisement_roundtrip_witness:
  "from_txt sample_crates (to_txt sample_crates (service_record_new (DeviceId 2) [] (lit ''desk'') [])) =
     Inr (service_record_new (DeviceId 2) [] (lit ''desk'') [])"
  using advertisement_roundtrip [OF sample_crates_ok, of "service_record_new (DeviceId 2) [] (lit ''desk'') []"]
  by (simp add: service_record_new_def)

end
