(* ===== verification/Peers.thy ===== *)
theory Peers
  imports Candidates Discovery Sync_Session
begin

text \<open>
  The peer table of the daemon (\<open>clipsed/src/peers.rs\<close>) and the choice of an address when a peer is
  dialled (\<open>QuicTransport::dial\<close> of \<open>clipse-net/src/quic.rs\<close>). The network is an argument: whether an
  address answers, what the handshake there gives, and how the session ends.

  The table is a hash map; it is modelled as an association list in some order of iteration. It is
  behind one lock, so each operation is atomic.

  Shown: after a reload the table has exactly the paired devices, none of them refused and none
  without an address it had; discovery adds addresses to paired devices and never a device; a peer
  that refused us is left alone until the paired set changes or it calls; a dial uses the first
  address that answers, a tailnet one only if no LAN one does. A peer without an address counts as
  one that refused us, so an address found later does not bring it back.
\<close>

section \<open>The table\<close>

record peer_state =
  ps_candidates :: "candidate list"
  ps_backoff :: backoff
  ps_refused :: "dial_error option"
  ps_last_seen_ms :: "u64 option"
  ps_last_reachability :: "reachability option"

type_synonym peer_table = "(device_id \<times> peer_state) list"

definition peer_state_new :: "candidate list \<Rightarrow> peer_state" where
  "peer_state_new cs = \<lparr>ps_candidates = cs, ps_backoff = backoff_default, ps_refused = None,
     ps_last_seen_ms = None, ps_last_reachability = None\<rparr>"

definition modify_entry :: "device_id \<Rightarrow> (peer_state \<Rightarrow> peer_state) \<Rightarrow> peer_table \<Rightarrow> peer_table" where
  "modify_entry d f tbl = map (\<lambda>(k, s). (k, if k = d then f s else s)) tbl"

definition candidates_of :: "candidate_address list \<Rightarrow> candidate list" where
  "candidates_of addresses =
     candidates_new (map (\<lambda>a. case a of LanAddr s \<Rightarrow> candidate_lan s | TailnetAddr s \<Rightarrow> candidate_tailnet s) addresses)"

definition reload_entry :: "device_id \<times> candidate list \<Rightarrow> peer_table \<Rightarrow> peer_table" where
  "reload_entry known tbl =
     (case known of (d, cs) \<Rightarrow>
        case map_of tbl d of
          Some _ \<Rightarrow> modify_entry d (\<lambda>s. s\<lparr>ps_refused := None, ps_candidates := fold upsert cs (ps_candidates s)\<rparr>) tbl
        | None \<Rightarrow> tbl @ [(d, peer_state_new cs)])"

definition reload_from_trust :: "trust \<Rightarrow> peer_table \<Rightarrow> peer_table" where
  "reload_from_trust t tbl =
     (let known = map (\<lambda>(_, p). (pd_device_id p, candidates_of (pd_addresses p))) (tr_peers t)
      in fold reload_entry known (filter (\<lambda>(d, _). d \<in> set (map fst known)) tbl))"

definition discovery_step :: "u64 \<Rightarrow> discovery_event \<Rightarrow> peer_table \<Rightarrow> peer_table" where
  "discovery_step now ev tbl =
     (case ev of
        PeerFound p \<Rightarrow>
          modify_entry (dp_device p) (\<lambda>s. s\<lparr>ps_candidates := refresh_lan (dp_addresses p) now (ps_candidates s),
                               ps_backoff := backoff_reset (ps_backoff s)\<rparr>) tbl
      | _ \<Rightarrow> tbl)"

definition refresh_from_discovery :: "u64 \<Rightarrow> discovery_event list \<Rightarrow> peer_table \<Rightarrow> peer_table" where
  "refresh_from_discovery now evs tbl = fold (discovery_step now) evs tbl"

definition note_success :: "u64 \<Rightarrow> device_id \<Rightarrow> socket_addr \<Rightarrow> reachability \<Rightarrow> peer_table \<Rightarrow> peer_table" where
  "note_success now d addr r tbl =
     modify_entry d (\<lambda>s. s\<lparr>ps_backoff := backoff_reset (ps_backoff s), ps_refused := None, ps_last_seen_ms := Some now,
       ps_last_reachability := Some r,
       ps_candidates := upsert (seen_at now (candidate_lan addr)) (ps_candidates s)\<rparr>) tbl"

definition note_dial_error :: "device_id \<Rightarrow> dial_error \<Rightarrow> peer_table \<Rightarrow> peer_table" where
  "note_dial_error d e tbl =
     modify_entry d (\<lambda>s. if is_retryable e then s\<lparr>ps_backoff := snd (next_delay_ms (ps_backoff s))\<rparr>
                         else s\<lparr>ps_refused := Some e\<rparr>) tbl"

section \<open>Dialling\<close>

type_synonym dialled = "socket_addr \<times> reachability"

fun dial_loop :: "(candidate \<Rightarrow> bool) \<Rightarrow> (candidate \<Rightarrow> dial_error + unit) \<Rightarrow> candidate list \<Rightarrow> dialled list \<Rightarrow>
    dial_error + dialled" where
  "dial_loop answers handshake [] attempts = Inl (Unreachable attempts)"
| "dial_loop answers handshake (c # cs) attempts =
     (if answers c
      then bind_r (handshake c) (\<lambda>_. Inr (cd_addr c, cd_reachability c))
      else dial_loop answers handshake cs (attempts @ [(cd_addr c, cd_reachability c)]))"

definition dial :: "trust \<Rightarrow> (candidate \<Rightarrow> bool) \<Rightarrow> (candidate \<Rightarrow> dial_error + unit) \<Rightarrow> device_id \<Rightarrow> candidate list \<Rightarrow>
    dial_error + dialled" where
  "dial t answers handshake d cs =
     (if \<not> is_paired t d then Inl NotPaired
      else if cs = [] then Inl NoCandidates
      else dial_loop answers handshake (dial_order cs) [])"

datatype attempt_error = UnknownPeer | StillRefused dial_error | DialFailed dial_error | SessionFailed sync_error

text \<open>What the network does for one peer: who answers, the handshake, and the outcome of the session.\<close>

record network =
  net_answers :: "candidate \<Rightarrow> bool"
  net_handshake :: "candidate \<Rightarrow> dial_error + unit"
  net_session :: "sync_error + sync_outcome"

definition sync_one :: "trust \<Rightarrow> network \<Rightarrow> u64 \<Rightarrow> device_id \<Rightarrow> peer_table \<Rightarrow> (attempt_error + sync_outcome) \<times> peer_table" where
  "sync_one t n now d tbl =
     (case map_of tbl d of
        None \<Rightarrow> (Inl UnknownPeer, tbl)
      | Some s \<Rightarrow>
          (case ps_refused s of
             Some e \<Rightarrow> (Inl (StillRefused e), tbl)
           | None \<Rightarrow>
               (case dial t (net_answers n) (net_handshake n) d (ps_candidates s) of
                  Inl e \<Rightarrow> (Inl (DialFailed e), note_dial_error d e tbl)
                | Inr (addr, r) \<Rightarrow>
                    (case net_session n of
                       Inl e \<Rightarrow> (Inl (SessionFailed e), tbl)
                     | Inr out \<Rightarrow> (Inr out, note_success now d addr r tbl)))))"

definition due_peers :: "peer_table \<Rightarrow> device_id list" where
  "due_peers tbl = map fst (filter (\<lambda>(_, s). ps_refused s = None) tbl)"

text \<open>One pass; what the sessions bring in is handed to the daemon afterwards (\<open>settle\<close>).\<close>

definition sync_all :: "trust \<Rightarrow> (device_id \<Rightarrow> network) \<Rightarrow> u64 \<Rightarrow> peer_table \<Rightarrow> peer_table" where
  "sync_all t net_of now tbl = fold (\<lambda>d tb. snd (sync_one t (net_of d) now d tb)) (due_peers tbl) tbl"

section \<open>What the user interface sees\<close>

definition ONLINE_WINDOW_MS :: u64 where
  "ONLINE_WINDOW_MS = 90000"

definition platform_label :: "platform \<Rightarrow> ustr" where
  "platform_label p =
     (case p of Windows \<Rightarrow> lit ''windows'' | MacOs \<Rightarrow> lit ''macos'' | Linux \<Rightarrow> lit ''linux'' | OtherPlatform s \<Rightarrow> s)"

definition info_for :: "u64 \<Rightarrow> paired_device \<Rightarrow> peer_state option \<Rightarrow> peer_info" where
  "info_for now p st =
     (let seen = Option.bind st ps_last_seen_ms;
          fresh = (case seen of None \<Rightarrow> False | Some s \<Rightarrow> sat_sub now s < ONLINE_WINDOW_MS);
          conn = (if fresh then (if Option.bind st ps_last_reachability = Some ReachTailnet then Tailnet else Lan) else Offline)
      in \<lparr>pi_device = pd_device_id p, pi_label = pd_label p, pi_platform = platform_label (pd_platform p),
          pi_connectivity = conn, pi_last_seen_ms = seen\<rparr>)"

definition peer_infos :: "u64 \<Rightarrow> trust \<Rightarrow> peer_table \<Rightarrow> peer_info list" where
  "peer_infos now t tbl = map (\<lambda>(_, p). info_for now p (map_of tbl (pd_device_id p))) (tr_peers t)"

definition counts :: "peer_table \<Rightarrow> nat \<times> nat" where
  "counts tbl =
     (unat (of_nat (length (filter (\<lambda>(_, s). ps_refused s = None) tbl)) :: u32), unat (of_nat (length tbl) :: u32))"

section \<open>Facts about entries\<close>

lemma modify_keys [simp]: "map fst (modify_entry d f tbl) = map fst tbl"
  by (induction tbl) (auto simp: modify_entry_def)

lemma map_of_modify: "map_of (modify_entry d f tbl) k = (if k = d then map_option f (map_of tbl k) else map_of tbl k)"
  by (induction tbl) (auto simp: modify_entry_def)

lemma map_of_None_keys: "map_of tbl d = None \<longleftrightarrow> d \<notin> set (map fst tbl)"
  by (simp add: map_of_eq_None_iff)

lemma discovery_keys: "map fst (discovery_step now ev tbl) = map fst tbl"
  by (cases ev) (auto simp: discovery_step_def)

lemma refresh_keys: "map fst (refresh_from_discovery now evs tbl) = map fst tbl"
  unfolding refresh_from_discovery_def by (induction evs arbitrary: tbl) (auto simp: discovery_keys)

lemma refresh_refused:
  "map_option ps_refused (map_of (refresh_from_discovery now evs tbl) d) = map_option ps_refused (map_of tbl d)"
  unfolding refresh_from_discovery_def
proof (induction evs arbitrary: tbl)
  case (Cons ev evs)
  have "map_option ps_refused (map_of (discovery_step now ev tbl) d) = map_option ps_refused (map_of tbl d)"
    by (cases ev) (auto simp: discovery_step_def map_of_modify option.map_comp comp_def)
  with Cons show ?case by simp
qed simp

section \<open>Reloading\<close>

abbreviation known_addrs :: "peer_state \<Rightarrow> socket_addr set" where
  "known_addrs s \<equiv> cd_addr ` set (ps_candidates s)"

lemma fold_upsert_addrs: "cd_addr ` set (fold upsert cs ds) = cd_addr ` set cs \<union> cd_addr ` set ds"
  by (induction cs arbitrary: ds) (auto simp: upsert_addrs)

lemma reload_entry_keys: "map fst (reload_entry (d, cs) tbl) = (if d \<in> set (map fst tbl) then map fst tbl else map fst tbl @ [d])"
proof (cases "map_of tbl d")
  case None
  then have "d \<notin> set (map fst tbl)" by (simp add: map_of_None_keys)
  with None show ?thesis by (simp add: reload_entry_def)
next
  case (Some s)
  then have "d \<in> set (map fst tbl)" using map_of_None_keys [of tbl d] by force
  with Some show ?thesis by (simp add: reload_entry_def del: set_map)
qed

lemma reload_entry_mono:
  assumes "map_of tbl k = Some s"
  shows "\<exists>s'. map_of (reload_entry e tbl) k = Some s' \<and> known_addrs s \<subseteq> known_addrs s' \<and> (ps_refused s = None \<longrightarrow> ps_refused s' = None)"
proof (cases e)
  case (Pair d cs)
  with assms show ?thesis
    by (cases "map_of tbl d") (auto simp: reload_entry_def map_of_modify fold_upsert_addrs map_add_def)
qed

lemma reload_entry_own: "\<exists>s'. map_of (reload_entry (d, cs) tbl) d = Some s' \<and> ps_refused s' = None"
  by (cases "map_of tbl d") (auto simp: reload_entry_def map_of_modify peer_state_new_def map_add_def)

lemma reload_mono:
  assumes "map_of tbl k = Some s"
  shows "\<exists>s'. map_of (fold reload_entry known tbl) k = Some s' \<and> known_addrs s \<subseteq> known_addrs s' \<and>
    (ps_refused s = None \<longrightarrow> ps_refused s' = None)"
  using assms
proof (induction known arbitrary: tbl s)
  case (Cons e known)
  from reload_entry_mono [OF Cons.prems, of e] obtain s1 where s1: "map_of (reload_entry e tbl) k = Some s1"
    "known_addrs s \<subseteq> known_addrs s1" "ps_refused s = None \<longrightarrow> ps_refused s1 = None" by (elim exE conjE)
  from Cons.IH [OF s1(1)] obtain s2 where s2: "map_of (fold reload_entry known (reload_entry e tbl)) k = Some s2"
    "known_addrs s1 \<subseteq> known_addrs s2" "ps_refused s1 = None \<longrightarrow> ps_refused s2 = None" by (elim exE conjE)
  show ?case
    using s2(1) subset_trans [OF s1(2) s2(2)] s1(3) s2(3) by (intro exI [of _ s2]) simp
qed auto

lemma reload_keys:
  "distinct (map fst tbl) \<Longrightarrow> distinct (map fst (fold reload_entry known tbl)) \<and>
     set (map fst (fold reload_entry known tbl)) = set (map fst tbl) \<union> set (map fst known)"
proof (induction known arbitrary: tbl)
  case (Cons e known)
  obtain d cs where e: "e = (d, cs)" by force
  have "distinct (map fst (reload_entry e tbl))" "set (map fst (reload_entry e tbl)) = insert d (set (map fst tbl))"
    using Cons.prems unfolding e reload_entry_keys by (simp_all split: if_split add: insert_absorb)
  with Cons.IH [of "reload_entry e tbl"] show ?case by (auto simp: e)
qed simp

lemma reload_welcomes: "d \<in> set (map fst known) \<Longrightarrow> \<exists>s. map_of (fold reload_entry known tbl) d = Some s \<and> ps_refused s = None"
proof (induction known arbitrary: tbl)
  case (Cons e known)
  show ?case
  proof (cases "d = fst e")
    case True
    then obtain s where "map_of (reload_entry e tbl) d = Some s" "ps_refused s = None"
      using reload_entry_own [of d "snd e" tbl] by (metis prod.collapse)
    from reload_mono [OF this(1), of known] this(2) show ?thesis by auto
  next
    case False
    with Cons show ?thesis by auto
  qed
qed simp

lemma known_keys: "trust_wf t \<Longrightarrow> map (pd_device_id \<circ> snd) (tr_peers t) = map fst (tr_peers t)"
  by (auto simp: trust_wf_def list_all_iff)

text \<open>
  Reloading the table after a change of the paired set leaves exactly the paired devices in it,
  once each; none of them is refused any more, and a device that was known keeps every address it
  had.
\<close>

theorem reload_is_exact:
  assumes "trust_wf t" "distinct (map fst tbl)"
  shows "distinct (map fst (reload_from_trust t tbl)) \<and>
    set (map fst (reload_from_trust t tbl)) = set (map fst (tr_peers t)) \<and>
    (\<forall>d. is_paired t d \<longrightarrow> (\<exists>s'. map_of (reload_from_trust t tbl) d = Some s' \<and> ps_refused s' = None \<and>
       (\<forall>s. map_of tbl d = Some s \<longrightarrow> known_addrs s \<subseteq> known_addrs s')))"
proof -
  define known where "known = map (\<lambda>(_, p). (pd_device_id p, candidates_of (pd_addresses p))) (tr_peers t)"
  define old where "old = filter (\<lambda>(d, _). d \<in> set (map fst known)) tbl"
  have rel: "reload_from_trust t tbl = fold reload_entry known old"
    unfolding reload_from_trust_def known_def old_def Let_def by (rule refl)
  have "map fst known = map (pd_device_id \<circ> snd) (tr_peers t)" by (simp add: known_def comp_def case_prod_beta)
  then have keys: "map fst known = map fst (tr_peers t)" using known_keys [OF assms(1)] by simp
  have "distinct (map fst old)" unfolding old_def using assms(2) by (rule distinct_map_filter)
  moreover have "set (map fst old) \<subseteq> set (map fst known)" 
  proof
    fix d assume "d \<in> set (map fst old)"
    then obtain s where "(d, s) \<in> set old" by auto
    then show "d \<in> set (map fst known)" by (simp add: old_def del: set_map)
  qed
  ultimately have k: "distinct (map fst (reload_from_trust t tbl))"
    "set (map fst (reload_from_trust t tbl)) = set (map fst (tr_peers t))"
    using reload_keys [of old known] unfolding rel keys by auto
  have "\<exists>s'. map_of (reload_from_trust t tbl) d = Some s' \<and> ps_refused s' = None \<and>
       (\<forall>s. map_of tbl d = Some s \<longrightarrow> known_addrs s \<subseteq> known_addrs s')" if "is_paired t d" for d
  proof -
    have d: "d \<in> set (map fst known)" using that by (simp add: keys is_paired_def map_of_eq_None_iff)
    from reload_welcomes [OF d, of old] obtain s' where s': "map_of (reload_from_trust t tbl) d = Some s'" "ps_refused s' = None"
      unfolding rel by blast
    have "known_addrs s \<subseteq> known_addrs s'" if "map_of tbl d = Some s" for s
    proof -
      have "map_of old d = map_of tbl d"
        using d unfolding old_def by (induction tbl) (auto simp del: set_map)
      with reload_mono [of old d s known] that s'(1) show ?thesis unfolding rel by auto
    qed
    with s' show ?thesis by blast
  qed
  with k show ?thesis by blast
qed

theorem reload_is_exact_witness:
  "let t = add_peer (sample_peer 2) (trust_new (DeviceId 1));
       tbl = [(DeviceId 3, peer_state_new []), (DeviceId 2, (peer_state_new [])\<lparr>ps_refused := Some NoCandidates\<rparr>)]
   in set (map fst (reload_from_trust t tbl)) = {DeviceId 2} \<and>
      (\<exists>s'. map_of (reload_from_trust t tbl) (DeviceId 2) = Some s' \<and> ps_refused s' = None)"
proof -
  let ?t = "add_peer (sample_peer 2) (trust_new (DeviceId 1))"
  let ?tbl = "[(DeviceId 3, peer_state_new []), (DeviceId 2, (peer_state_new [])\<lparr>ps_refused := Some NoCandidates\<rparr>)]"
  have "trust_wf ?t" "distinct (map fst ?tbl)" "is_paired ?t (DeviceId 2)" "set (map fst (tr_peers ?t)) = {DeviceId 2}"
    by (simp_all add: trust_wf_def add_peer_def trust_new_def sample_peer_def is_paired_def)
  with reload_is_exact [of ?t ?tbl] show ?thesis unfolding Let_def by blast
qed

section \<open>Who is dialled\<close>

lemma due_iff: "distinct (map fst tbl) \<Longrightarrow> d \<in> set (due_peers tbl) \<longleftrightarrow> (\<exists>s. map_of tbl d = Some s \<and> ps_refused s = None)"
  by (force simp: due_peers_def)

text \<open>
  Discovery never adds a device: whatever is announced on the network, the devices in the table
  and the devices that are dialled stay the same; only addresses and delays of known devices change.
\<close>

theorem discovery_never_adds_peer:
  "map fst (refresh_from_discovery now evs tbl) = map fst tbl \<and>
   map_option ps_refused (map_of (refresh_from_discovery now evs tbl) d) = map_option ps_refused (map_of tbl d)"
  by (simp add: refresh_keys refresh_refused)

lemma dial_loop_first:
  "dial_loop answers handshake cs attempts = Inr l \<Longrightarrow>
     \<exists>pre c post. cs = pre @ c # post \<and> (\<forall>d \<in> set pre. \<not> answers d) \<and> answers c \<and> l = (cd_addr c, cd_reachability c)"
proof (induction answers handshake cs attempts rule: dial_loop.induct)
  case (2 answers handshake c cs attempts)
  show ?case
  proof (cases "answers c")
    case True
    with 2(2) have "l = (cd_addr c, cd_reachability c)" by (auto simp: bind_r_Inr)
    with True show ?thesis by (intro exI [of _ "[]"] exI [of _ c] exI [of _ cs]) simp
  next
    case False
    with 2 obtain pre d post where "cs = pre @ d # post" "\<forall>x \<in> set pre. \<not> answers x" "answers d" "l = (cd_addr d, cd_reachability d)" by auto
    with False show ?thesis by (intro exI [of _ "c # pre"] exI [of _ d] exI [of _ post]) simp
  qed
qed simp

text \<open>
  A dial that succeeds used an address that answered, and the best of those that would have: a
  tailnet address only if no LAN address answers, and within its group the most recently seen.
\<close>

theorem dial_uses_best_answering:
  assumes "dial t answers handshake d cs = Inr (addr, r)"
  shows "is_paired t d \<and> (\<exists>c \<in> set cs. answers c \<and> cd_addr c = addr \<and> cd_reachability c = r \<and>
    (\<forall>e \<in> set cs. answers e \<longrightarrow> reach_rank r < reach_rank (cd_reachability e) \<or>
       cd_reachability e = r \<and> seen_value (cd_last_seen_ms e) \<le> seen_value (cd_last_seen_ms c)))"
proof -
  from assms have p: "is_paired t d" "dial_loop answers handshake (dial_order cs) [] = Inr (addr, r)"
    by (auto simp: dial_def split: if_splits)
  from dial_loop_first [OF p(2)] obtain pre c post where o: "dial_order cs = pre @ c # post"
    "\<forall>e \<in> set pre. \<not> answers e" "answers c" "addr = cd_addr c" "r = cd_reachability c" by blast
  have mem: "set (dial_order cs) = set cs" by (simp add: dial_order_def)
  have sorted: "sorted (map (\<lambda>c. (reach_rank (cd_reachability c), - seen_value (cd_last_seen_ms c))) (pre @ c # post))"
    using dial_order_sorted(2) [of cs] unfolding o(1) .
  have "reach_rank r < reach_rank (cd_reachability e) \<or>
       cd_reachability e = r \<and> seen_value (cd_last_seen_ms e) \<le> seen_value (cd_last_seen_ms c)"
    if "e \<in> set cs" "answers e" for e
  proof -
    have "e = c \<or> e \<in> set post" using that o(1,2) mem by auto
    then have "(reach_rank r, - seen_value (cd_last_seen_ms c)) \<le> (reach_rank (cd_reachability e), - seen_value (cd_last_seen_ms e))"
      using sorted unfolding o(5) by (auto simp: sorted_append)
    moreover have "reach_rank r = reach_rank (cd_reachability e) \<longleftrightarrow> r = cd_reachability e"
      by (cases r; cases "cd_reachability e") (simp_all add: reach_rank_def)
    ultimately show ?thesis by (auto simp: less_eq_prod_def)
  qed
  moreover have "c \<in> set cs" using o(1) mem by auto
  ultimately show ?thesis using p(1) o(3-5) by blast
qed

theorem dial_uses_best_answering_witness:
  "let t = add_peer (sample_peer 2) (trust_new (DeviceId 1));
       cs = [candidate_tailnet ([100, 64, 0, 1], 7420), candidate_lan ([10, 0, 0, 1], 7420)]
   in dial t (\<lambda>_. True) (\<lambda>_. Inr ()) (DeviceId 2) cs = Inr (([10, 0, 0, 1], 7420), ReachLan) \<and>
      (\<forall>e \<in> set cs. reach_rank ReachLan < reach_rank (cd_reachability e) \<or> cd_reachability e = ReachLan)"
proof -
  let ?t = "add_peer (sample_peer 2) (trust_new (DeviceId 1))"
  let ?cs = "[candidate_tailnet ([100, 64, 0, 1], 7420), candidate_lan ([10, 0, 0, 1], 7420)]"
  have d: "dial ?t (\<lambda>_. True) (\<lambda>_. Inr ()) (DeviceId 2) ?cs = Inr (([10, 0, 0, 1], 7420), ReachLan)"
    by (simp add: dial_def is_paired_def add_peer_def trust_new_def sample_peer_def dial_order_def candidate_lan_def
        candidate_tailnet_def reach_rank_def)
  from dial_uses_best_answering [OF d] d show ?thesis unfolding Let_def by blast
qed

text \<open>
  A paired device for which no address is known yet is set aside as if it had refused us, and it
  stays set aside when discovery then finds it: no later pass dials it, although its addresses are
  in the table.
\<close>

theorem no_candidates_is_terminal:
  assumes "distinct (map fst tbl)" "map_of tbl d = Some s" "ps_refused s = None" "ps_candidates s = []" "is_paired t d"
    "tbl' = refresh_from_discovery now' evs (snd (sync_one t n now d tbl))"
  shows "fst (sync_one t n now d tbl) = Inl (DialFailed NoCandidates) \<and>
    d \<notin> set (due_peers tbl') \<and> (\<exists>e. fst (sync_one t n' now'' d tbl') = Inl e)"
proof -
  have one: "sync_one t n now d tbl = (Inl (DialFailed NoCandidates), note_dial_error d NoCandidates tbl)"
    using assms(2-5) by (simp add: sync_one_def dial_def)
  have "map_of (note_dial_error d NoCandidates tbl) d = Some (s\<lparr>ps_refused := Some NoCandidates\<rparr>)"
    using assms(2) by (simp add: note_dial_error_def map_of_modify is_retryable_def)
  then have "map_option ps_refused (map_of tbl' d) = Some (Some NoCandidates)"
    using refresh_refused [of now' evs "note_dial_error d NoCandidates tbl" d] by (simp add: assms(6) one)
  then obtain s' where s': "map_of tbl' d = Some s'" "ps_refused s' = Some NoCandidates" by auto
  have "map fst tbl' = map fst tbl"
    unfolding assms(6) one refresh_keys by (simp add: note_dial_error_def)
  then have "distinct (map fst tbl')" using assms(1) by simp
  then have "d \<notin> set (due_peers tbl')" using s' by (simp add: due_iff)
  moreover have "fst (sync_one t n' now'' d tbl') = Inl (StillRefused NoCandidates)" using s' by (simp add: sync_one_def)
  ultimately show ?thesis using one by simp
qed

definition sample_found :: discovered_peer where
  "sample_found = \<lparr>dp_device = DeviceId 2, dp_label = [], dp_platform = [], dp_fingerprint = [],
     dp_addresses = [([10, 0, 0, 1], 7420)]\<rparr>"

theorem no_candidates_is_terminal_witness:
  "let t = add_peer (sample_peer 2) (trust_new (DeviceId 1));
       n = \<lparr>net_answers = \<lambda>_. True, net_handshake = \<lambda>_. Inr (), net_session = Inr default_outcome\<rparr>;
       tbl = refresh_from_discovery 2 [PeerFound sample_found]
               (snd (sync_one t n 1 (DeviceId 2) (reload_from_trust t [])))
   in DeviceId 2 \<notin> set (due_peers tbl)"
proof -
  let ?t = "add_peer (sample_peer 2) (trust_new (DeviceId 1))"
  have tbl: "reload_from_trust ?t [] = [(DeviceId 2, peer_state_new [])]"
    by (simp add: reload_from_trust_def add_peer_def trust_new_def sample_peer_def reload_entry_def candidates_of_def
        candidates_new_def)
  have "is_paired ?t (DeviceId 2)" by (simp add: is_paired_def add_peer_def trust_new_def sample_peer_def)
  then show ?thesis
    unfolding Let_def tbl
    using no_candidates_is_terminal [of "[(DeviceId 2, peer_state_new [])]" "DeviceId 2" "peer_state_new []" ?t _ 2
        "[PeerFound sample_found]" _ 1, OF _ _ _ _ _ refl]
    by (simp add: peer_state_new_def)
qed

end
