(* ===== verification/Tailnet.thy ===== *)
theory Tailnet
  imports Pairing Secrets
begin

text \<open>
  The tailnet (\<open>clipse-net/src/tailnet.rs\<close>): what the local Tailscale client says about this device
  and its peers. The JSON decoder and the child process are outside: the first is a parameter, the
  second is what each poll of it observes.

  Shown: a query never waits past its deadline and hands out only the status of a running tailnet;
  a peer answers to its full name and to its bare host part, with and without the trailing dot; the address to dial is an IPv4 one whenever the peer has one.
\<close>

datatype tailnet_error =
    NotInstalled
  | NotRunning ustr
  | SpawnFailed
  | TailscaleFailed
  | TailscaleParse
  | TailscaleTimedOut

record tailnet_peer =
  tp_host_name :: ustr
  tp_dns_name :: ustr
  tp_ips :: "bytes list"
  tp_online :: bool
  tp_os :: ustr

definition is_ipv4 :: "bytes \<Rightarrow> bool" where
  "is_ipv4 ip \<longleftrightarrow> length ip = 4"

definition preferred_ip :: "tailnet_peer \<Rightarrow> bytes option" where
  "preferred_ip p =
     (case find is_ipv4 (tp_ips p) of
        Some ip \<Rightarrow> Some ip
      | None \<Rightarrow> (case tp_ips p of [] \<Rightarrow> None | ip # _ \<Rightarrow> Some ip))"

definition trim_end_dots :: "ustr \<Rightarrow> ustr" where
  "trim_end_dots s = rev (dropWhile (\<lambda>c. c = 46) (rev s))"

definition eq_ignore_ascii_case :: "ustr \<Rightarrow> ustr \<Rightarrow> bool" where
  "eq_ignore_ascii_case a b \<longleftrightarrow> map to_ascii_lowercase a = map to_ascii_lowercase b"

definition first_part :: "ustr \<Rightarrow> ustr" where
  "first_part s = takeWhile (\<lambda>c. c \<noteq> 46) s"

definition peer_matches :: "tailnet_peer \<Rightarrow> ustr \<Rightarrow> bool" where
  "peer_matches p name =
     (let wanted = trim_end_dots name
      in eq_ignore_ascii_case (tp_dns_name p) wanted \<or> eq_ignore_ascii_case (tp_host_name p) wanted \<or>
         eq_ignore_ascii_case (first_part (tp_dns_name p)) wanted)"

record tailnet_status =
  tn_backend_state :: ustr
  tn_this_device :: "tailnet_peer option"
  tn_peers :: "tailnet_peer list"

definition tailnet_is_running :: "tailnet_status \<Rightarrow> bool" where
  "tailnet_is_running s \<longleftrightarrow> tn_backend_state s = lit ''Running''"

definition tailnet_find :: "tailnet_status \<Rightarrow> ustr \<Rightarrow> tailnet_peer option" where
  "tailnet_find s name = find (\<lambda>p. peer_matches p name) (tn_peers s)"

record raw_peer =
  rp_host_name :: ustr
  rp_dns_name :: ustr
  rp_ips :: "bytes list option"
  rp_online :: bool
  rp_os :: ustr

text \<open>The peers are a \<open>BTreeMap\<close>, so their values come in the order of the keys.\<close>

record raw_status =
  rw_backend_state :: "ustr option"
  rw_self :: "raw_peer option"
  rw_peer :: "(ustr \<times> raw_peer) list option"

definition into_peer :: "raw_peer \<Rightarrow> tailnet_peer" where
  "into_peer r =
     \<lparr>tp_host_name = rp_host_name r, tp_dns_name = trim_end_dots (rp_dns_name r),
      tp_ips = (case rp_ips r of Some ips \<Rightarrow> ips | None \<Rightarrow> []), tp_online = rp_online r, tp_os = rp_os r\<rparr>"

definition tailnet_parse :: "(ustr \<Rightarrow> raw_status option) \<Rightarrow> ustr \<Rightarrow> tailnet_error + tailnet_status" where
  "tailnet_parse from_json json =
     (case from_json json of
        None \<Rightarrow> Inl TailscaleParse
      | Some raw \<Rightarrow>
          Inr \<lparr>tn_backend_state = (case rw_backend_state raw of Some s \<Rightarrow> s | None \<Rightarrow> []),
               tn_this_device = map_option into_peer (rw_self raw),
               tn_peers = map (\<lambda>(_, r). into_peer r) (case rw_peer raw of Some ps \<Rightarrow> ps | None \<Rightarrow> [])\<rparr>)"

definition QUERY_TIMEOUT_MS :: nat where
  "QUERY_TIMEOUT_MS = 2000"

text \<open>What one round of the waiting loop sees: the child's state, and the time since the start.\<close>

datatype wait_poll = WaitError | Exited bool | StillRunning nat

text \<open>\<open>None\<close> is a loop that has not ended yet.\<close>

fun wait_child :: "wait_poll list \<Rightarrow> (tailnet_error + bool) option" where
  "wait_child [] = None"
| "wait_child (WaitError # _) = Some (Inl SpawnFailed)"
| "wait_child (Exited ok # _) = Some (Inr ok)"
| "wait_child (StillRunning t # ps) = (if QUERY_TIMEOUT_MS \<le> t then Some (Inl TailscaleTimedOut) else wait_child ps)"

definition tailnet_query :: "(ustr \<Rightarrow> raw_status option) \<Rightarrow> bool \<Rightarrow> bool \<Rightarrow> wait_poll list \<Rightarrow> bytes \<Rightarrow>
    (tailnet_error + tailnet_status) option" where
  "tailnet_query from_json installed spawned polls output =
     (if \<not> installed then Some (Inl NotInstalled)
      else if \<not> spawned then Some (Inl SpawnFailed)
      else case wait_child polls of
        None \<Rightarrow> None
      | Some (Inl e) \<Rightarrow> Some (Inl e)
      | Some (Inr ok) \<Rightarrow>
          Some (if \<not> ok then Inl TailscaleFailed
                else bind_r (tailnet_parse from_json (from_utf8_lossy output)) (\<lambda>s.
                  if tailnet_is_running s then Inr s else Inl (NotRunning (tn_backend_state s)))))"

section \<open>Facts\<close>

lemma wait_child_ends: "StillRunning t \<in> set polls \<Longrightarrow> QUERY_TIMEOUT_MS \<le> t \<Longrightarrow> wait_child polls \<noteq> None"
  by (induction polls rule: wait_child.induct) auto

text \<open>
  The wait for the Tailscale client ends: as soon as one poll is past the deadline, the query has a
  result, however the client behaves; and a status is a result only if the tailnet is running.
\<close>

theorem tailnet_query_ends:
  assumes "StillRunning t \<in> set polls" "QUERY_TIMEOUT_MS \<le> t"
  shows "\<exists>r. tailnet_query from_json installed spawned polls output = Some r \<and>
    (\<forall>s. r = Inr s \<longrightarrow> tailnet_is_running s)"
proof (cases "tailnet_parse from_json (from_utf8_lossy output)")
  case (Inl e)
  then show ?thesis using wait_child_ends [OF assms] by (auto simp: tailnet_query_def split: option.split sum.split)
next
  case (Inr s)
  then show ?thesis using wait_child_ends [OF assms] by (auto simp: tailnet_query_def split: option.split sum.split)
qed

theorem tailnet_query_ends_witness:
  "tailnet_query (\<lambda>_. None) True True (replicate 5 (StillRunning 20) @ [StillRunning 2000]) [] \<noteq> None"
  using tailnet_query_ends [of 2000 "replicate 5 (StillRunning 20) @ [StillRunning 2000]" "\<lambda>_. None" True True "[]"]
  by (auto simp: QUERY_TIMEOUT_MS_def)

lemma trim_end_dots_append: "trim_end_dots (s @ [46]) = trim_end_dots s"
  by (simp add: trim_end_dots_def)

lemma trim_end_dots_idem: "trim_end_dots (trim_end_dots s) = trim_end_dots s"
  by (simp add: trim_end_dots_def dropWhile_idem)

lemma no_leading_dots: "46 \<notin> set s \<Longrightarrow> dropWhile (\<lambda>c. c = 46) s = s" for s :: ustr
  by (cases s) auto

lemma first_part_no_dots: "trim_end_dots (first_part s) = first_part s"
proof -
  have "46 \<notin> set (first_part s)" by (auto simp: first_part_def dest: set_takeWhileD)
  then show ?thesis by (simp add: trim_end_dots_def no_leading_dots)
qed

text \<open>A peer read from the client answers to its names, with and without the final dot.\<close>

lemma peer_answers_to_its_names:
  assumes "p = into_peer r" "n = tp_dns_name p \<or> n = first_part (tp_dns_name p)"
  shows "peer_matches p n \<and> peer_matches p (n @ [46])"
  using assms(2) trim_end_dots_idem [of "rp_dns_name r"] first_part_no_dots [of "tp_dns_name p"]
  by (auto simp: peer_matches_def Let_def trim_end_dots_append eq_ignore_ascii_case_def assms(1) into_peer_def)

lemma preferred_ip_v4: "\<exists>ip \<in> set (tp_ips p). is_ipv4 ip \<Longrightarrow> \<exists>ip \<in> set (tp_ips p). preferred_ip p = Some ip \<and> is_ipv4 ip"
  by (auto simp: preferred_ip_def find_None_iff split: option.split dest!: find_SomeD)

end
