(* ===== verification/Pairing_State.thy ===== *)
theory Pairing_State
  imports Pairing
begin

text \<open>
  What the daemon is doing about pairing (\<open>clipsed/src/pairing.rs\<close>): at most one ceremony at a
  time, as the device that shows the code or as the one where it is typed. The state is under one
  lock, so the operations are atomic; each takes the reading of the clock it makes.

  Shown: however often the network is allowed to guess, an offer answers at most eight wrong tags
  and is then withdrawn; a device is handed to the trust set only for a proof over the transcript
  of an offer this daemon made; a message that does not belong to the ceremony in progress ends it.
\<close>

datatype pairing_error = NotInProgress | AlreadyInProgress | Expired | PairNotFound | Failed

text \<open>The sentence of each error, as \<open>to_string\<close> gives it.\<close>

definition pairing_error_str :: "pairing_error \<Rightarrow> ustr" where
  "pairing_error_str e =
     (case e of
        NotInProgress \<Rightarrow> lit ''no pairing is in progress''
      | AlreadyInProgress \<Rightarrow> lit ''a pairing is already in progress''
      | Expired \<Rightarrow> lit ''that pairing code has expired''
      | PairNotFound \<Rightarrow> lit ''no device on this network is showing that code''
      | Failed \<Rightarrow> lit ''pairing failed'')"

datatype pairing_state =
    Idle
  | Offering pairing_initiator u64 u32
  | Proving awaiting_proof
  | Answering

datatype lookup_outcome = LookupOffer pairing_offer | Refuse

definition is_busy :: "pairing_state \<Rightarrow> bool" where
  "is_busy s \<longleftrightarrow> s \<noteq> Idle"

definition state_begin :: "'x crates_scheme \<Rightarrow> bytes \<Rightarrow> pairing_code \<Rightarrow> device_identity \<Rightarrow> ustr \<Rightarrow> platform \<Rightarrow>
    candidate_address list \<Rightarrow> u64 \<Rightarrow> pairing_state \<Rightarrow> (pairing_error + pairing_code \<times> u64) \<times> pairing_state" where
  "state_begin X nonce code ident lbl plat addrs now s =
     (if is_busy s then (Inl AlreadyInProgress, s)
      else let i = initiator_create X nonce code ident lbl plat addrs now;
               expires = po_expires_at_ms (in_offer i)
           in (Inr (in_code i, expires), Offering i expires 0))"

definition begin_answering :: "pairing_state \<Rightarrow> (pairing_error + unit) \<times> pairing_state" where
  "begin_answering s = (if is_busy s then (Inl AlreadyInProgress, s) else (Inr (), Answering))"

definition expire_if_stale :: "u64 \<Rightarrow> pairing_state \<Rightarrow> bool \<times> pairing_state" where
  "expire_if_stale now s =
     (case s of Offering _ expires _ \<Rightarrow> if now > expires then (True, Idle) else (False, s) | _ \<Rightarrow> (False, s))"

definition state_lookup :: "'x crates_scheme \<Rightarrow> u64 \<Rightarrow> bytes \<Rightarrow> pairing_state \<Rightarrow> lookup_outcome \<times> pairing_state" where
  "state_lookup X now tag s =
     (case snd (expire_if_stale now s) of
        Offering i expires wrong \<Rightarrow>
          if initiator_answers X i tag then (LookupOffer (in_offer i), Offering i expires wrong)
          else if wrong + 1 \<ge> MAX_LOOKUP_ATTEMPTS then (Refuse, Idle)
          else (Refuse, Offering i expires (wrong + 1))
      | s' \<Rightarrow> (Refuse, s'))"

text \<open>\<open>std::mem::take\<close> leaves \<open>Idle\<close> behind, also when the state is another one than expected.\<close>

definition answer_accept :: "'x crates_scheme \<Rightarrow> u64 \<Rightarrow> pairing_accept \<Rightarrow> pairing_state \<Rightarrow>
    (pairing_error + pairing_confirm) \<times> pairing_state" where
  "answer_accept X now a s =
     (case s of
        Offering i expires _ \<Rightarrow>
          if now > expires then (Inl Expired, Idle)
          else (case initiator_accept X a now i of
                  Inl _ \<Rightarrow> (Inl Failed, Idle)
                | Inr (c, w) \<Rightarrow> (Inr c, Proving w))
      | _ \<Rightarrow> (Inl NotInProgress, Idle))"

definition state_finish :: "pairing_finish \<Rightarrow> pairing_state \<Rightarrow> (pairing_error + paired_device) \<times> pairing_state" where
  "state_finish f s =
     (case s of
        Proving w \<Rightarrow> (map_err (\<lambda>_. Failed) (awaiting_verify f w), Idle)
      | _ \<Rightarrow> (Inl NotInProgress, Idle))"

definition state_cancel :: "pairing_state \<Rightarrow> pairing_state" where
  "state_cancel s = Idle"

definition platform_of :: "string \<Rightarrow> platform" where
  "platform_of os =
     (if os = ''windows'' then Windows else if os = ''macos'' then MacOs
      else if os = ''linux'' then Linux else OtherPlatform (lit os))"

section \<open>Reachable states\<close>

inductive pairing_step :: "'x crates_scheme \<Rightarrow> pairing_state \<Rightarrow> pairing_state \<Rightarrow> bool" for X where
  step_begin: "pairing_step X s (snd (state_begin X nonce code ident lbl plat addrs now s))"
| step_answering: "pairing_step X s (snd (begin_answering s))"
| step_expire: "pairing_step X s (snd (expire_if_stale now s))"
| step_lookup: "pairing_step X s (snd (state_lookup X now tag s))"
| step_accept: "pairing_step X s (snd (answer_accept X now a s))"
| step_finish: "pairing_step X s (snd (state_finish f s))"
| step_cancel: "pairing_step X s (state_cancel s)"

definition own_offer :: "'x crates_scheme \<Rightarrow> pairing_initiator \<Rightarrow> bool" where
  "own_offer X i \<longleftrightarrow> (\<exists>nonce code ident lbl plat addrs now. i = initiator_create X nonce code ident lbl plat addrs now)"

fun state_inv :: "'x crates_scheme \<Rightarrow> pairing_state \<Rightarrow> bool" where
  "state_inv X (Offering i expires wrong) =
     (own_offer X i \<and> expires = po_expires_at_ms (in_offer i) \<and> wrong < MAX_LOOKUP_ATTEMPTS)"
| "state_inv X (Proving w) = (\<exists>i a now c. own_offer X i \<and> now \<le> po_expires_at_ms (in_offer i) \<and> initiator_accept X a now i = Inr (c, w))"
| "state_inv X _ = True"

lemma own_offer_create: "own_offer X (initiator_create X nonce code ident lbl plat addrs now)"
  unfolding own_offer_def by blast

lemma begin_inv: "state_inv X s \<Longrightarrow> state_inv X (snd (state_begin X nonce code ident lbl plat addrs now s))"
  by (auto simp: state_begin_def own_offer_create Let_def MAX_LOOKUP_ATTEMPTS_def)

lemma expire_inv: "state_inv X s \<Longrightarrow> state_inv X (snd (expire_if_stale now s))"
  by (cases s) (auto simp: expire_if_stale_def)

lemma lookup_inv: "state_inv X s \<Longrightarrow> state_inv X (snd (state_lookup X now tag s))"
  using expire_inv [of X s now]
  by (cases "snd (expire_if_stale now s)") (auto simp: state_lookup_def)

lemma accept_inv: "state_inv X s \<Longrightarrow> state_inv X (snd (answer_accept X now a s))"
  by (cases s) (auto simp: answer_accept_def not_less split: sum.split)

lemma finish_idle: "snd (state_finish f s) = Idle"
  by (cases s) (simp_all add: state_finish_def)

lemma pairing_step_inv: "pairing_step X s s' \<Longrightarrow> state_inv X s \<Longrightarrow> state_inv X s'"
  by (induction rule: pairing_step.induct)
    (auto simp: begin_inv expire_inv lookup_inv accept_inv finish_idle state_cancel_def begin_answering_def)

lemma reachable_inv: "(pairing_step X)\<^sup>*\<^sup>* Idle s \<Longrightarrow> state_inv X s"
  by (induction rule: rtranclp_induct) (auto intro: pairing_step_inv)

section \<open>Guessing\<close>

text \<open>Lookups with wrong tags, at any times.\<close>

fun guesses :: "'x crates_scheme \<Rightarrow> (u64 \<times> bytes) list \<Rightarrow> pairing_state \<Rightarrow> pairing_state" where
  "guesses X [] s = s"
| "guesses X ((now, tag) # gs) s = guesses X gs (snd (state_lookup X now tag s))"

lemma guesses_idle [simp]: "guesses X gs Idle = Idle"
  by (induction gs) (auto simp: state_lookup_def expire_if_stale_def)

lemma guesses_count:
  assumes "\<forall>(now, tag) \<in> set gs. \<not> initiator_answers X i tag" "unat wrong < 8"
  shows "guesses X gs (Offering i e wrong) = Idle \<or>
    unat wrong + length gs < 8 \<and> guesses X gs (Offering i e wrong) = Offering i e (wrong + of_nat (length gs))"
  using assms
proof (induction gs arbitrary: wrong)
  case (Cons g gs)
  obtain now tag where g: "g = (now, tag)" by force
  have next_: "unat (wrong + 1) = unat wrong + 1" using Cons.prems(2) by (simp add: unat_word_ariths)
  have step: "snd (state_lookup X now tag (Offering i e wrong)) =
      (if now > e \<or> unat wrong + 1 \<ge> 8 then Idle else Offering i e (wrong + 1))"
    using Cons.prems(1) next_
    by (auto simp: state_lookup_def expire_if_stale_def g MAX_LOOKUP_ATTEMPTS_def word_le_nat_alt)
  show ?case
  proof (cases "now > e \<or> unat wrong + 1 \<ge> 8")
    case False
    with Cons.IH [of "wrong + 1"] Cons.prems(1) next_ show ?thesis by (auto simp: g step algebra_simps)
  qed (simp add: g step)
qed simp

text \<open>
  C34. An offer that this daemon shows is withdrawn after eight wrong tags, in every reachable state
  of the ceremony and at whatever times they come: somebody who does not know the code has at most
  eight guesses.
\<close>

theorem wrong_guesses_retire_offer:
  assumes "(pairing_step X)\<^sup>*\<^sup>* Idle (Offering i e wrong)"
    "\<forall>(now, tag) \<in> set gs. \<not> initiator_answers X i tag" "8 \<le> length gs"
  shows "guesses X gs (Offering i e wrong) = Idle"
proof -
  have "unat wrong < 8"
    using reachable_inv [OF assms(1)] by (simp add: MAX_LOOKUP_ATTEMPTS_def word_less_nat_alt)
  from guesses_count [OF assms(2) this, of e] assms(3) show ?thesis by auto
qed

theorem wrong_guesses_retire_offer_witness:
  "guesses sample_crates (replicate 8 (1000, replicate 16 0)) (Offering sample_initiator 181000 0) = Idle"
proof (rule wrong_guesses_retire_offer)
  have "snd (state_begin sample_crates (replicate 32 7) (PairingCode [1, 2, 3, 4, 5, 6]) (sample_identity 1 11) [] Linux [] 1000 Idle) =
      Offering sample_initiator 181000 0"
    by (simp add: state_begin_def is_busy_def sample_initiator_def initiator_create_def Let_def PAIRING_OFFER_TTL_SECS_def sat_add_def)
  then show "(pairing_step sample_crates)\<^sup>*\<^sup>* Idle (Offering sample_initiator 181000 0)"
    by (metis r_into_rtranclp step_begin)
  have first: "code_tag sample_crates c ! 0 = 21" for c
    by (simp add: code_tag_def transcript_hash_def transcript_stream_def sample_crates_def nth_append TAG_LABEL_def
        le_bytes_u64_def)
  have "code_tag sample_crates c \<noteq> replicate 16 0" for c
  proof
    assume "code_tag sample_crates c = replicate 16 0"
    then have "code_tag sample_crates c ! 0 = 0" by simp
    with first [of c] show False by simp
  qed
  then have "\<not> initiator_answers sample_crates sample_initiator (replicate 16 0)"
    by (simp add: initiator_answers_def matches_tag_def)
  then show "\<forall>(now, tag) \<in> set (replicate 8 (1000, replicate 16 0)). \<not> initiator_answers sample_crates sample_initiator tag"
    by simp
qed simp

section \<open>Who is trusted\<close>

text \<open>
  In every reachable state, the ceremony hands out a device to trust only for a proof over the
  transcript of an offer this daemon made and an answer it accepted before the offer expired; the
  device has the id and the key of that answer, and the ceremony is over.
\<close>

theorem trusted_only_with_proof:
  assumes "(pairing_step X)\<^sup>*\<^sup>* Idle s" "state_finish f s = (Inr p, s')"
  shows "s' = Idle \<and> (\<exists>i a now. own_offer X i \<and> now \<le> po_expires_at_ms (in_offer i) \<and>
    pf_mac f = transcript_mac X MAC_B_LABEL (initiator_transcript i a) \<and>
    pd_device_id p = pa_device_id a \<and> pd_static_public p = pa_static_public a)"
proof -
  obtain w where w: "s = Proving w" "awaiting_verify f w = Inr p" "s' = Idle"
    using assms(2) by (cases s) (auto simp: state_finish_def)
  from reachable_inv [OF assms(1)] w(1) obtain i a now c where i: "own_offer X i" "now \<le> po_expires_at_ms (in_offer i)"
    "initiator_accept X a now i = Inr (c, w)" by auto
  with w(2) have "pf_mac f = transcript_mac X MAC_B_LABEL (initiator_transcript i a)"
    "pd_device_id p = pa_device_id a" "pd_static_public p = pa_static_public a"
    by (auto simp: initiator_accept_def awaiting_verify_def Let_def split: if_splits)
  with i w(3) show ?thesis by blast
qed

theorem trusted_only_with_proof_witness:
  "\<exists>s f p. (pairing_step sample_crates)\<^sup>*\<^sup>* Idle s \<and> state_finish f s = (Inr p, Idle) \<and> pd_device_id p = DeviceId 2 \<and>
     (\<exists>i a. own_offer sample_crates i \<and> pf_mac f = transcript_mac sample_crates MAC_B_LABEL (initiator_transcript i a) \<and>
        pd_device_id p = pa_device_id a)"
proof -
  let ?X = sample_crates
  let ?s1 = "snd (state_begin ?X (replicate 32 7) (PairingCode [1, 2, 3, 4, 5, 6]) (sample_identity 1 11) [] Linux [] 1000 Idle)"
  define a where "a = \<lparr>pa_device_id = DeviceId 2, pa_static_public = PublicKey (replicate 32 12), pa_label = [],
      pa_platform = Linux, pa_addresses = [], pa_nonce = replicate 32 8\<rparr>"
  let ?s2 = "snd (answer_accept ?X 1000 a ?s1)"
  have "pairing_step ?X Idle ?s1" "pairing_step ?X ?s1 ?s2" by (rule step_begin, rule step_accept)
  then have reach: "(pairing_step ?X)\<^sup>*\<^sup>* Idle ?s2" by (meson r_into_rtranclp rtranclp_trans)
  define f where "f = \<lparr>pf_mac = transcript_mac ?X MAC_B_LABEL (initiator_transcript sample_initiator a)\<rparr>"
  have "\<exists>w. ?s2 = Proving w \<and> ap_expected w = pf_mac f \<and> pd_device_id (ap_peer w) = DeviceId 2"
    by (simp add: answer_accept_def state_begin_def is_busy_def initiator_accept_def initiator_create_def Let_def
        PAIRING_OFFER_TTL_SECS_def sat_add_def a_def f_def sample_initiator_def)
  then obtain w where w: "?s2 = Proving w" "ap_expected w = pf_mac f" by blast
  then have fin: "state_finish f ?s2 = (Inr (ap_peer w), Idle)" by (simp add: state_finish_def awaiting_verify_def)
  from trusted_only_with_proof [OF reach fin] have
    "\<exists>i a. own_offer ?X i \<and> pf_mac f = transcript_mac ?X MAC_B_LABEL (initiator_transcript i a) \<and>
       pd_device_id (ap_peer w) = pa_device_id a" by blast
  moreover have "pd_device_id (ap_peer w) = DeviceId 2"
    using w(1) by (auto simp: answer_accept_def state_begin_def is_busy_def initiator_accept_def initiator_create_def Let_def
        PAIRING_OFFER_TTL_SECS_def sat_add_def a_def)
  ultimately show ?thesis using reach fin by blast
qed

text \<open>
A message that does not fit the state does not only fail, it ends the ceremony in progress: an
  answer or a proof that comes late, after the user closed the screen and began to type a code
  instead, releases the claim of the typing side, and another ceremony can start beside it.
\<close>

lemma stray_message_ends_ceremony:
  "answer_accept X now a Answering = (Inl NotInProgress, Idle) \<and>
   state_finish f Answering = (Inl NotInProgress, Idle) \<and>
   answer_accept X now a (Proving w) = (Inl NotInProgress, Idle) \<and>
   state_finish f (Offering i e n) = (Inl NotInProgress, Idle) \<and>
   fst (begin_answering (snd (answer_accept X now a Answering))) = Inr ()"
  by (simp add: answer_accept_def state_finish_def begin_answering_def is_busy_def)

end
