(* ===== verification/Daemon.thy ===== *)
theory Daemon
  imports Peers Tailnet Pairing_State Capture_Pipeline
begin

text \<open>
  The daemon (\<open>clipsed/src/daemon.rs\<close>) and the capture path (\<open>clipsed/src/capture.rs\<close>): the state a
  daemon shares between its tasks, the handler of every request of a user interface, what happens
  with a capture event, and both ends of a pairing ceremony (\<open>run_pairing_ceremony\<close>, and
  \<open>pairing_ceremony\<close> of \<open>peers.rs\<close>). An operation maps the state to a result and a new state.

  The outside of the daemon is an argument, the record \<open>world\<close>: the clock, fresh random values,
  whether the OS accepts a clipboard write, a keystroke or a file write, and what the devices asked
  during a ceremony answer. Peer manager and pairing context exist together or not at all (sync is
  off); the trust set they share is held once.
\<close>

section \<open>State\<close>

record net_state =
  ns_identity :: device_identity
  ns_trust :: trust
  ns_saved_trust :: trust
  ns_pairing :: pairing_state
  ns_table :: peer_table
  ns_nudged :: bool
  ns_addresses :: "candidate_address list"

record daemon =
  dm_store :: store
  dm_clock :: hlc_clock
  dm_device :: device_id
  dm_settings :: settings
  dm_saved_settings :: settings
  dm_paused :: bool
  dm_sink :: "event list option"
  dm_net :: "net_state option"
  dm_secrets_refused :: u64
  dm_mode :: watch_mode
  dm_clipboard :: "(clip_format \<times> bytes) list option"
  dm_guard :: own_write_guard

type_synonym pairing_peer = "pairing_wire list \<Rightarrow> pairing_wire option"

record world =
  w_now :: u64
  w_instant :: nat
  w_version :: ustr
  w_os :: string
  w_fresh_id :: clip_id
  w_nonce :: bytes
  w_code :: pairing_code
  w_write_ok :: bool
  w_paste_ok :: bool
  w_save_ok :: bool
  w_identity_save_ok :: bool
  w_found :: "discovery_event list"
  w_tailnet :: "tailnet_error + tailnet_status"
  w_call :: "socket_addr \<Rightarrow> pairing_peer option"

definition daemon_new :: "device_id \<Rightarrow> settings \<Rightarrow> store \<Rightarrow> watch_mode \<Rightarrow> own_write_guard \<Rightarrow> hlc_clock \<Rightarrow> daemon" where
  "daemon_new dev cfg st mode guard clk =
     \<lparr>dm_store = st, dm_clock = clk, dm_device = dev, dm_settings = cfg, dm_saved_settings = cfg, dm_paused = False,
      dm_sink = None, dm_net = None, dm_secrets_refused = 0, dm_mode = mode, dm_clipboard = None,
      dm_guard = guard\<rparr>"

definition note_suppression :: "daemon \<Rightarrow> daemon" where
  "note_suppression d = d\<lparr>dm_secrets_refused := dm_secrets_refused d + 1\<rparr>"

definition daemon_emit :: "event \<Rightarrow> daemon \<Rightarrow> daemon" where
  "daemon_emit ev d = d\<lparr>dm_sink := map_option (\<lambda>evs. evs @ [ev]) (dm_sink d)\<rparr>"

definition capture_mode_of :: "watch_mode \<Rightarrow> capture_mode" where
  "capture_mode_of m = (case m of WatchAutomatic \<Rightarrow> Automatic | WatchManualPush reason \<Rightarrow> ManualPush reason)"

definition status :: "world \<Rightarrow> daemon \<Rightarrow> daemon_status" where
  "status w d =
     (let (online, total) = (case dm_net d of None \<Rightarrow> (0, 0) | Some n \<Rightarrow> counts (ns_table n))
      in \<lparr>ds_device = dm_device d, ds_device_label = s_device_label (dm_settings d), ds_daemon_version = w_version w,
          ds_paused = dm_paused d, ds_capture_mode = capture_mode_of (dm_mode d), ds_clip_count = clip_count (dm_store d),
          ds_blob_bytes = (case blob_bytes (dm_store d) of Inl _ \<Rightarrow> 0 | Inr n \<Rightarrow> n),
          ds_blob_quota_bytes = s_blob_quota_bytes (dm_settings d), ds_peers_online = online, ds_peers_total = total,
          ds_secrets_refused = unat (dm_secrets_refused d)\<rparr>)"

definition emit_status :: "world \<Rightarrow> daemon \<Rightarrow> daemon" where
  "emit_status w d = (if dm_sink d = None then d else daemon_emit (StatusChanged (status w d)) d)"

definition nudge :: "net_state \<Rightarrow> net_state" where
  "nudge n = n\<lparr>ns_nudged := True\<rparr>"

definition sync_soon :: "daemon \<Rightarrow> daemon" where
  "sync_soon d = d\<lparr>dm_net := map_option nudge (dm_net d)\<rparr>"

definition daemon_clip_source :: "ustr option \<Rightarrow> daemon \<Rightarrow> clip_source" where
  "daemon_clip_source app d = with_app app (source_new (dm_device d) (s_device_label (dm_settings d)))"

section \<open>Captures\<close>

definition secret_kind_debug :: "secret_kind \<Rightarrow> ustr" where
  "secret_kind_debug k =
     (case k of Jwt \<Rightarrow> lit ''Jwt'' | AwsAccessKey \<Rightarrow> lit ''AwsAccessKey'' | GitHubToken \<Rightarrow> lit ''GitHubToken''
      | SlackToken \<Rightarrow> lit ''SlackToken'' | StripeKey \<Rightarrow> lit ''StripeKey'' | OpenAiKey \<Rightarrow> lit ''OpenAiKey''
      | GoogleApiKey \<Rightarrow> lit ''GoogleApiKey'' | PrivateKeyPem \<Rightarrow> lit ''PrivateKeyPem'' | CreditCard \<Rightarrow> lit ''CreditCard'')"

definition describe :: "suppression_reason \<Rightarrow> ustr" where
  "describe r =
     (case r of
        ConcealedFormat \<Rightarrow> lit ''a password manager marked this copy as private''
      | BlockedApp app \<Rightarrow> app @ lit '' is on the blocked-app list''
      | DetectedSecret k \<Rightarrow> lit ''this looked like a secret ('' @ secret_kind_debug k @ lit '')''
      | EmptyClipboard \<Rightarrow> lit ''the clipboard was empty''
      | TooLarge n \<Rightarrow> lit ''too large to store ('' @ dec (unat n) @ lit '' bytes)''
      | OwnWrite \<Rightarrow> lit ''Clipse wrote this itself'')"

definition capture_payload :: "'x crates_scheme \<Rightarrow> clip_format \<times> bytes \<Rightarrow> payload" where
  "capture_payload X p =
     (case p of (fmt, bs) \<Rightarrow>
        if of_nat (length bs) > INLINE_MAX_BYTES then payload_blob fmt (hash_of X bs) (of_nat (length bs))
        else payload_new X fmt bs)"

definition spilled :: "capture \<Rightarrow> bytes list" where
  "spilled c = map snd (filter (\<lambda>(_, bs). of_nat (length bs) > INLINE_MAX_BYTES) (cap_payloads c))"

datatype capture_error = CaptureStore store_error | CapturePanic

definition write_capture :: "env \<Rightarrow> bytes list \<Rightarrow> clip \<Rightarrow> store \<Rightarrow> (store_error + insert_outcome) \<times> store" where
  "write_capture E spill c st =
     (case store_insert E c (fold (\<lambda>bs. put_blob E (hash_of E bs) bs) spill st) of
        (Inl e, st') \<Rightarrow> (Inl e, st')
      | (Inr out, st') \<Rightarrow>
          (case enforce_blob_quota E st' of
             (Inl e, st'') \<Rightarrow> (Inl e, st'')
           | (Inr _, st'') \<Rightarrow> (Inr out, st'')))"

definition announce_capture :: "env \<Rightarrow> clip \<Rightarrow> insert_outcome \<Rightarrow> daemon \<Rightarrow> (capture_error + unit) \<times> daemon" where
  "announce_capture E c out d =
     (case out of
        Inserted _ \<Rightarrow> (Inr (), sync_soon (daemon_emit (ClipAdded c) d))
      | Deduplicated i \<Rightarrow>
          (case store_get E i (dm_store d) of
             Inl e \<Rightarrow> (Inl (CaptureStore e), d)
           | Inr None \<Rightarrow> (Inr (), d)
           | Inr (Some existing) \<Rightarrow> (Inr (), daemon_emit (ClipUpdated existing) d))
      | insert_outcome.Rejected \<Rightarrow> (Inr (), d))"

definition store_capture :: "env \<Rightarrow> world \<Rightarrow> capture \<Rightarrow> daemon \<Rightarrow> (capture_error + unit) \<times> daemon" where
  "store_capture E w cap d =
     (case clock_now (w_now w) (dm_clock d) of
        (t, clk) \<Rightarrow>
          let d1 = d\<lparr>dm_clock := clk\<rparr>
          in case clip_new E (w_fresh_id w) (map (capture_payload E) (cap_payloads cap)) (daemon_clip_source (cap_app cap) d) t of
               None \<Rightarrow> (Inl CapturePanic, d1)
             | Some c \<Rightarrow>
                 (case write_capture E (spilled cap) c (dm_store d1) of
                    (Inl e, st) \<Rightarrow> (Inl (CaptureStore e), d1\<lparr>dm_store := st\<rparr>)
                  | (Inr out, st) \<Rightarrow>
                      (case announce_capture E c out (d1\<lparr>dm_store := st\<rparr>) of
                         (Inl e, d2) \<Rightarrow> (Inl e, d2)
                       | (Inr _, d2) \<Rightarrow> (Inr (), emit_status w d2))))"

text \<open>One round of the loop of \<open>capture::run\<close>.\<close>

definition on_capture :: "env \<Rightarrow> world \<Rightarrow> capture_event \<Rightarrow> daemon \<Rightarrow> daemon" where
  "on_capture E w ev d =
     (case ev of
        SuppressedCapture r \<Rightarrow> emit_status w (daemon_emit (Suppressed (describe r)) (note_suppression d))
      | Captured c \<Rightarrow> if dm_paused d then d else snd (store_capture E w c d))"

section \<open>Reading clips back\<close>

definition MAX_PAYLOAD_BYTES :: u64 where
  "MAX_PAYLOAD_BYTES = 24 * 1024 * 1024"

definition IPC_VERSION :: u16 where
  "IPC_VERSION = 3"

definition read_payload :: "env \<Rightarrow> clip \<Rightarrow> clip_format \<Rightarrow> store \<Rightarrow> (store_error + bytes option) \<times> store" where
  "read_payload E c fmt st =
     (case find (\<lambda>p. p_format p = fmt) (c_payloads c) of
        None \<Rightarrow> (Inr None, st)
      | Some p \<Rightarrow>
          if p_size p > MAX_PAYLOAD_BYTES then (Inr None, st)
          else (case inline_bytes p of
                  Some bs \<Rightarrow> (Inr (Some bs), st)
                | None \<Rightarrow>
                    (case read_blob E (p_digest p) st of
                       (Inl e, st') \<Rightarrow> (Inl e, st')
                     | (Inr bs, st') \<Rightarrow> (Inr (Some bs), st'))))"

fun materialize :: "env \<Rightarrow> payload list \<Rightarrow> store \<Rightarrow> (clip_format \<times> bytes) list \<times> store" where
  "materialize E [] st = ([], st)"
| "materialize E (p # ps) st =
     (case inline_bytes p of
        Some bs \<Rightarrow> (case materialize E ps st of (out, st') \<Rightarrow> ((p_format p, bs) # out, st'))
      | None \<Rightarrow>
          (case read_blob E (p_digest p) st of
             (Inr bs, st1) \<Rightarrow> (case materialize E ps st1 of (out, st') \<Rightarrow> ((p_format p, bs) # out, st'))
           | (Inl _, st1) \<Rightarrow> materialize E ps st1))"

definition to_store_query :: "ipc_query \<Rightarrow> history_query" where
  "to_store_query q = \<lparr>q_limit = ucast (iq_limit q), q_offset = ucast (iq_offset q), q_kind = iq_kind q,
     q_pinned_only = iq_pinned_only q\<rparr>"

text \<open>A store error becomes a response.\<close>

definition store_response :: "store_error + 'a \<Rightarrow> ('a \<Rightarrow> response) \<Rightarrow> response" where
  "store_response r k = (case r of Inl _ \<Rightarrow> RespError Internal | Inr a \<Rightarrow> k a)"

definition daemon_apply :: "env \<Rightarrow> world \<Rightarrow> clip_id \<Rightarrow> daemon \<Rightarrow> response \<times> daemon" where
  "daemon_apply E w i d =
     (case store_get E i (dm_store d) of
        Inl _ \<Rightarrow> (RespError Internal, d)
      | Inr None \<Rightarrow> (RespError NotFoundCode, d)
      | Inr (Some c) \<Rightarrow>
          (case materialize E (c_payloads c) (dm_store d) of
             (ps, st) \<Rightarrow>
               if w_write_ok w
               then (RespOk, d\<lparr>dm_store := st, dm_clipboard := Some ps,
                       dm_guard := record_write (w_instant w) (hash_payloads E ps) (dm_guard d)\<rparr>)
               else (RespError Internal, d\<lparr>dm_store := st\<rparr>)))"

definition apply_incoming :: "env \<Rightarrow> world \<Rightarrow> clip_id \<Rightarrow> daemon \<Rightarrow> daemon" where
  "apply_incoming E w i d =
     (if dm_paused d \<or> \<not> s_apply_incoming_to_clipboard (dm_settings d) then d else snd (daemon_apply E w i d))"

text \<open>\<open>PeerManager::settle\<close>, after a session.\<close>

definition settle :: "env \<Rightarrow> world \<Rightarrow> sync_outcome \<Rightarrow> daemon \<Rightarrow> daemon" where
  "settle E w out d = (case so_newest_received out of None \<Rightarrow> d | Some i \<Rightarrow> apply_incoming E w i d)"

section \<open>Pairing\<close>

definition begin_pairing :: "env \<Rightarrow> world \<Rightarrow> daemon \<Rightarrow> response \<times> daemon" where
  "begin_pairing E w d =
     (case dm_net d of
        None \<Rightarrow> (RespError Unsupported, d)
      | Some n \<Rightarrow>
          (case state_begin E (w_nonce w) (w_code w) (ns_identity n) (s_device_label (dm_settings d)) (platform_of (w_os w))
                  (ns_addresses n) (w_now w) (snd (expire_if_stale (w_now w) (ns_pairing n))) of
             (Inr (code, expires), s) \<Rightarrow> (RespPairingCode (code_display code) expires, d\<lparr>dm_net := Some (n\<lparr>ns_pairing := s\<rparr>)\<rparr>)
           | (Inl _, s) \<Rightarrow> (RespError BadRequest, d\<lparr>dm_net := Some (n\<lparr>ns_pairing := s\<rparr>)\<rparr>)))"

text \<open>
  The typing side asks one device after the other. \<open>call ms\<close> is what the device answers to the last
  of the messages \<open>ms\<close> sent to it in this call, or nothing. The result has the messages sent to the
  device that paired: the last one is the proof, and the answer to it is ignored.
\<close>

fun ceremony_loop :: "env \<Rightarrow> world \<Rightarrow> net_state \<Rightarrow> ustr \<Rightarrow> pairing_code \<Rightarrow> pairing_peer option list \<Rightarrow>
    pairing_error + pairing_wire list \<times> ustr \<times> paired_device" where
  "ceremony_loop E w n lbl code [] = Inl PairNotFound"
| "ceremony_loop E w n lbl code (None # ts) = ceremony_loop E w n lbl code ts"
| "ceremony_loop E w n lbl code (Some call # ts) =
     (case call [WireLookup (code_tag E code)] of
        Some (WireOffer offer) \<Rightarrow>
          (case responder_from_offer (w_nonce w) offer code (ns_identity n) lbl (platform_of (w_os w)) (ns_addresses n) (w_now w) of
             Inl _ \<Rightarrow> Inl Failed
           | Inr (r, a) \<Rightarrow>
               (case call [WireLookup (code_tag E code), WireAccept a] of
                  Some (WireConfirm c) \<Rightarrow>
                    (case responder_verify E c (w_now w) r of
                       Inl _ \<Rightarrow> Inl Failed
                     | Inr (f, peer) \<Rightarrow> Inr ([WireLookup (code_tag E code), WireAccept a, WireFinish f], pd_label peer, peer))
                | _ \<Rightarrow> Inl Failed))
      | _ \<Rightarrow> ceremony_loop E w n lbl code ts)"

definition DEFAULT_SYNC_PORT :: u16 where
  "DEFAULT_SYNC_PORT = 7420"

text \<open>The order of \<open>SocketAddr\<close>: IPv4 before IPv6, then the address, then the port.\<close>

definition socket_key :: "socket_addr \<Rightarrow> nat \<times> nat \<times> nat" where
  "socket_key a = (case a of (ip, port) \<Rightarrow> (length ip, foldl (\<lambda>n b. 256 * n + unat b) 0 ip, unat port))"

definition tailnet_targets :: "tailnet_error + tailnet_status \<Rightarrow> socket_addr list" where
  "tailnet_targets r =
     (case r of
        Inl _ \<Rightarrow> []
      | Inr s \<Rightarrow>
          if tailnet_is_running s
          then List.map_filter (\<lambda>p. if tp_online p then map_option (\<lambda>ip. (ip, DEFAULT_SYNC_PORT)) (preferred_ip p) else None) (tn_peers s)
          else [])"

definition pairing_targets :: "discovery_event list \<Rightarrow> tailnet_error + tailnet_status \<Rightarrow> peer_table \<Rightarrow> socket_addr list" where
  "pairing_targets found tailnet tbl =
     remdups_adj (sort_key socket_key
       (concat (map (\<lambda>ev. case ev of PeerFound p \<Rightarrow> dp_addresses p | _ \<Rightarrow> []) found) @ tailnet_targets tailnet @
        concat (map (\<lambda>(_, s). map cd_addr (ps_candidates s)) tbl)))"

definition emit_devices :: "world \<Rightarrow> net_state \<Rightarrow> daemon \<Rightarrow> daemon" where
  "emit_devices w n d = fold (\<lambda>i. daemon_emit (DeviceChanged i)) (peer_infos (w_now w) (ns_trust n) (ns_table n)) d"

text \<open>When the file cannot be written, the trust set in memory has the new device all the same.\<close>

definition commit_pairing :: "world \<Rightarrow> paired_device \<Rightarrow> daemon \<Rightarrow> bool \<times> daemon" where
  "commit_pairing w p d =
     (case dm_net d of
        None \<Rightarrow> (False, d)
      | Some n \<Rightarrow>
          let n1 = n\<lparr>ns_trust := add_peer p (ns_trust n)\<rparr>
          in if \<not> w_identity_save_ok w then (False, d\<lparr>dm_net := Some n1\<rparr>)
             else let n2 = n1\<lparr>ns_saved_trust := ns_trust n1, ns_table := reload_from_trust (ns_trust n1) (ns_table n1)\<rparr>
                  in (True, emit_devices w n2 (emit_status w (d\<lparr>dm_net := Some n2\<rparr>))))"

definition set_pairing_state :: "pairing_state \<Rightarrow> daemon \<Rightarrow> daemon" where
  "set_pairing_state s d = d\<lparr>dm_net := map_option (\<lambda>n. n\<lparr>ns_pairing := s\<rparr>) (dm_net d)\<rparr>"

definition pair_with_code :: "env \<Rightarrow> world \<Rightarrow> ustr \<Rightarrow> daemon \<Rightarrow> response \<times> daemon" where
  "pair_with_code E w typed d =
     (case dm_net d of
        None \<Rightarrow> (RespError Unsupported, d)
      | Some n \<Rightarrow>
          (case code_parse typed of
             Inl _ \<Rightarrow> (RespError BadRequest, d)
           | Inr code \<Rightarrow>
               (case begin_answering (ns_pairing n) of
                  (Inl _, _) \<Rightarrow> (RespError BadRequest, d)
                | (Inr _, s) \<Rightarrow>
                    let d1 = set_pairing_state (state_cancel s) d
                    in case ceremony_loop E w n (s_device_label (dm_settings d)) code
                                (map (w_call w) (pairing_targets (w_found w) (w_tailnet w) (ns_table n))) of
                         Inr (_, lbl, peer) \<Rightarrow>
                           (case commit_pairing w peer d1 of
                              (False, d2) \<Rightarrow> (RespError Internal, d2)
                            | (True, d2) \<Rightarrow> (RespPaired lbl, sync_soon d2))
                       | Inl e \<Rightarrow> (RespError BadRequest, daemon_emit (PairingEnded (pairing_error_str e)) d1))))"

text \<open>
  The serving side: one inbound connection, by what it waits for (\<open>None\<close> is a message that does not
  parse). \<open>sent\<close> says whether the reply could be sent. Between two messages anything else may
  happen to the daemon.
\<close>

datatype serve_phase = AwaitLookup | AwaitAccept | AwaitFinish | ServedOk | ServeFailed

definition pairing_ceremony :: "env \<Rightarrow> world \<Rightarrow> bool \<Rightarrow> serve_phase \<Rightarrow> pairing_wire option \<Rightarrow> daemon \<Rightarrow>
    (serve_phase \<times> pairing_wire option) \<times> daemon" where
  "pairing_ceremony E w sent phase msg d =
     (case dm_net d of
        None \<Rightarrow> ((ServeFailed, None), d)
      | Some n \<Rightarrow>
          (case (phase, msg) of
             (AwaitLookup, Some (WireLookup tag)) \<Rightarrow>
               (case state_lookup E (w_now w) tag (ns_pairing n) of
                  (LookupOffer offer, s) \<Rightarrow>
                    ((if sent then AwaitAccept else ServeFailed, Some (WireOffer offer)), set_pairing_state s d)
                | (Refuse, s) \<Rightarrow> ((ServedOk, Some WireRefused), set_pairing_state s d))
           | (AwaitAccept, Some (WireAccept a)) \<Rightarrow>
               (case answer_accept E (w_now w) a (ns_pairing n) of
                  (Inl _, s) \<Rightarrow> ((ServeFailed, None), set_pairing_state s d)
                | (Inr c, s) \<Rightarrow>
                    ((if sent then AwaitFinish else ServeFailed, Some (WireConfirm c)), set_pairing_state s d))
           | (AwaitFinish, Some (WireFinish f)) \<Rightarrow>
               (case state_finish f (ns_pairing n) of
                  (Inl _, s) \<Rightarrow> ((ServeFailed, None), set_pairing_state s d)
                | (Inr peer, s) \<Rightarrow>
                    (case commit_pairing w peer (set_pairing_state s d) of
                       (False, d1) \<Rightarrow> ((ServeFailed, None), d1)
                     | (True, d1) \<Rightarrow>
                         if sent then ((ServedOk, Some WireDone), sync_soon (daemon_emit (PairingSucceeded (pd_label peer)) d1))
                         else ((ServeFailed, Some WireDone), d1)))
           | _ \<Rightarrow> ((ServeFailed, None), d)))"

definition serve_timeout :: "daemon \<Rightarrow> daemon" where
  "serve_timeout d = d\<lparr>dm_net := map_option (\<lambda>n. n\<lparr>ns_pairing := state_cancel (ns_pairing n)\<rparr>) (dm_net d)\<rparr>"

definition forget_device :: "world \<Rightarrow> device_id \<Rightarrow> daemon \<Rightarrow> response \<times> daemon" where
  "forget_device w dev d =
     (case dm_net d of
        None \<Rightarrow> (RespError Unsupported, d)
      | Some n \<Rightarrow>
          (case remove_peer dev (ns_trust n) of
             (Inl _, _) \<Rightarrow> (RespError NotFoundCode, d)
           | (Inr _, t) \<Rightarrow>
               if \<not> w_identity_save_ok w then (RespError Internal, d\<lparr>dm_net := Some (n\<lparr>ns_trust := t\<rparr>)\<rparr>)
               else (RespOk, emit_status w (d\<lparr>dm_net := Some (n\<lparr>ns_trust := t, ns_saved_trust := t,
                       ns_table := reload_from_trust t (ns_table n)\<rparr>)\<rparr>))))"

section \<open>Requests\<close>

definition handle_set_pinned :: "env \<Rightarrow> world \<Rightarrow> clip_id \<Rightarrow> bool \<Rightarrow> daemon \<Rightarrow> response \<times> daemon" where
  "handle_set_pinned E w i pinned d =
     (case clock_now (w_now w) (dm_clock d) of
        (t, clk) \<Rightarrow>
          (case set_pinned E i pinned t (dm_store d) of
             (Inl _, st) \<Rightarrow> (RespError Internal, d\<lparr>dm_clock := clk, dm_store := st\<rparr>)
           | (Inr _, st) \<Rightarrow>
               let d1 = d\<lparr>dm_clock := clk, dm_store := st\<rparr>;
                   d2 = (case store_get E i st of Inr (Some c) \<Rightarrow> daemon_emit (ClipUpdated c) d1 | _ \<Rightarrow> d1)
               in (RespOk, sync_soon d2)))"

definition handle_delete :: "env \<Rightarrow> world \<Rightarrow> clip_id \<Rightarrow> daemon \<Rightarrow> response \<times> daemon" where
  "handle_delete E w i d =
     (case clock_now (w_now w) (dm_clock d) of
        (t, clk) \<Rightarrow>
          (case store_delete E (w_now w) i t (dm_store d) of
             (Inl _, st) \<Rightarrow> (RespError Internal, d\<lparr>dm_clock := clk, dm_store := st\<rparr>)
           | (Inr _, st) \<Rightarrow>
               (RespOk, sync_soon (emit_status w (daemon_emit (ClipRemoved i) (d\<lparr>dm_clock := clk, dm_store := st\<rparr>))))))"

definition handle_get_payload :: "env \<Rightarrow> clip_id \<Rightarrow> clip_format \<Rightarrow> daemon \<Rightarrow> response \<times> daemon" where
  "handle_get_payload E i fmt d =
     (case store_get E i (dm_store d) of
        Inl _ \<Rightarrow> (RespError Internal, d)
      | Inr None \<Rightarrow> (RespPayloadBytes None, d)
      | Inr (Some c) \<Rightarrow>
          (case read_payload E c fmt (dm_store d) of
             (r, st) \<Rightarrow> (store_response r RespPayloadBytes, d\<lparr>dm_store := st\<rparr>)))"

definition handle_paste :: "env \<Rightarrow> world \<Rightarrow> clip_id \<Rightarrow> daemon \<Rightarrow> response \<times> daemon" where
  "handle_paste E w i d =
     (case daemon_apply E w i d of
        (r, d') \<Rightarrow> if r \<noteq> RespOk then (r, d') else if w_paste_ok w then (RespOk, d') else (RespError Internal, d'))"

definition handle :: "env \<Rightarrow> world \<Rightarrow> request \<Rightarrow> daemon \<Rightarrow> response \<times> daemon" where
  "handle E w req d =
     (case req of
        ReqHello _ _ \<Rightarrow> (RespHello (w_version w) IPC_VERSION (dm_device d), d)
      | ReqStatus \<Rightarrow> (RespStatus (status w d), d)
      | ReqGetSettings \<Rightarrow> (RespSettings (dm_settings d), d)
      | ReqDevices \<Rightarrow>
          (RespDevices (case dm_net d of None \<Rightarrow> [] | Some n \<Rightarrow> peer_infos (w_now w) (ns_trust n) (ns_table n)), d)
      | ReqSubscribe \<Rightarrow> (RespOk, d)
      | ReqHistory q \<Rightarrow> (store_response (recent E (to_store_query q) (dm_store d)) RespClips, d)
      | ReqSearch str q \<Rightarrow> (store_response (search E str (to_store_query q) (dm_store d)) RespClips, d)
      | ReqGetClip i \<Rightarrow> (store_response (store_get E i (dm_store d)) RespClip, d)
      | ReqGetPayload i fmt \<Rightarrow> handle_get_payload E i fmt d
      | ReqApply i \<Rightarrow> daemon_apply E w i d
      | ReqPaste i \<Rightarrow> handle_paste E w i d
      | ReqSetPinned i pinned \<Rightarrow> handle_set_pinned E w i pinned d
      | ReqDelete i \<Rightarrow> handle_delete E w i d
      | ReqSetPaused p \<Rightarrow> (RespOk, emit_status w (d\<lparr>dm_paused := p\<rparr>))
      | ReqUpdateSettings cfg \<Rightarrow>
          let d1 = d\<lparr>dm_settings := cfg\<rparr>
          in if w_save_ok w then (RespOk, emit_status w (d1\<lparr>dm_saved_settings := cfg\<rparr>)) else (RespError Internal, d1)
      | ReqBeginPairing \<Rightarrow> begin_pairing E w d
      | ReqPairWithCode typed \<Rightarrow> pair_with_code E w typed d
      | ReqCancelPairing \<Rightarrow> (RespOk, d\<lparr>dm_net := map_option (\<lambda>n. n\<lparr>ns_pairing := state_cancel (ns_pairing n)\<rparr>) (dm_net d)\<rparr>)
      | ReqForgetDevice dev \<Rightarrow> forget_device w dev d)"

end
