(* ===== verification/Daemon_Props.thy ===== *)
theory Daemon_Props
  imports Daemon Sync_Safety
begin

text \<open>
  What the daemon as a whole promises, from the lemmas of its components.

  Captures: a copy that the pipeline refuses leaves no trace beyond a counter and its reason; a copy
  that it accepts becomes exactly one clip. Requests: no request, capture, session or inbound
  pairing breaks the tables of the store, and the store is changed only by its own operations.
  Deleting: when the other devices follow. Pairing: two daemons that show and type the same code
  end up trusting each other, and nobody else gets in.
\<close>

section \<open>What an operation leaves alone\<close>

named_theorems frame_defs \<open>operations that only touch the event sink, the counters or the nudge\<close>

declare daemon_emit_def [frame_defs] sync_soon_def [frame_defs] note_suppression_def [frame_defs]
  set_pairing_state_def [frame_defs] serve_timeout_def [frame_defs]

lemma emit_status_eq: "emit_status w d = d\<lparr>dm_sink := map_option (\<lambda>evs. evs @ [StatusChanged (status w d)]) (dm_sink d)\<rparr>"
  by (cases "dm_sink d") (simp_all add: emit_status_def daemon_emit_def)

declare emit_status_eq [frame_defs]

lemma emit_all: "fold (\<lambda>i. daemon_emit (DeviceChanged i)) is d = d\<lparr>dm_sink := map_option (\<lambda>es. es @ map DeviceChanged is) (dm_sink d)\<rparr>"
  by (induction "is" arbitrary: d) (simp_all add: daemon_emit_def option.map_comp comp_def option.map_ident)

lemma emit_devices_sel [simp]:
  "dm_store (emit_devices w n d) = dm_store d" "dm_net (emit_devices w n d) = dm_net d"
  "dm_settings (emit_devices w n d) = dm_settings d" "dm_clock (emit_devices w n d) = dm_clock d"
  "dm_clipboard (emit_devices w n d) = dm_clipboard d" "dm_paused (emit_devices w n d) = dm_paused d"
  by (simp_all add: emit_devices_def emit_all)

lemma frame_store [simp]:
  "dm_store (daemon_emit ev d) = dm_store d" "dm_store (emit_status w d) = dm_store d"
  "dm_store (sync_soon d) = dm_store d" "dm_store (note_suppression d) = dm_store d"
  "dm_store (set_pairing_state s d) = dm_store d" "dm_store (serve_timeout d) = dm_store d"
  by (simp_all add: frame_defs)

lemma frame_net [simp]:
  "dm_net (daemon_emit ev d) = dm_net d" "dm_net (emit_status w d) = dm_net d"
  "dm_net (note_suppression d) = dm_net d" "dm_net (sync_soon d) = map_option nudge (dm_net d)"
  "dm_net (set_pairing_state s d) = map_option (\<lambda>n. n\<lparr>ns_pairing := s\<rparr>) (dm_net d)"
  by (simp_all add: frame_defs)

lemma commit_store [simp]: "dm_store (snd (commit_pairing w p d)) = dm_store d"
  by (simp add: commit_pairing_def Let_def split: option.split)

definition sample_world :: world where
  "sample_world =
     \<lparr>w_now = 1000, w_instant = 0, w_version = lit ''0.1'', w_os = ''linux'', w_fresh_id = ClipId 1, w_nonce = replicate 32 7,
      w_code = PairingCode [1, 2, 3, 4, 5, 6], w_write_ok = True, w_paste_ok = True, w_save_ok = True,
      w_identity_save_ok = True, w_found = [], w_tailnet = Inl NotInstalled, w_call = (\<lambda>_. None)\<rparr>"

definition sample_daemon :: daemon where
  "sample_daemon =
     (daemon_new (DeviceId 2) (default_settings []) (fresh_store 100) WatchAutomatic (own_guard_new 1) (clock_new (DeviceId 2)))
       \<lparr>dm_sink := Some []\<rparr>"

section \<open>Refused copies\<close>

text \<open>
  C13. A copy in which a detector finds a secret changes nothing in the daemon but the counter of
  refusals: not the history, not what the peers will be sent, not the clipboard. The user interfaces
  are told the reason, which has no byte of the content in it: the events are the same for every
  content refused for that reason.
\<close>

theorem secret_leaves_no_trace:
  assumes "wc_detect_secrets cfg" "(fmt, bs) \<in> set (cap_payloads c)" "is_text_like fmt"
    "\<not> clean_text R (from_utf8_lossy bs)"
  shows "\<exists>r. fst (classify E R now cfg (PollData c) guard) = SuppressedCapture r \<and>
    (let d' = on_capture E w (SuppressedCapture r) d
     in dm_store d' = dm_store d \<and> dm_net d' = dm_net d \<and> dm_clipboard d' = dm_clipboard d \<and>
        dm_clock d' = dm_clock d \<and> dm_secrets_refused d' = dm_secrets_refused d + 1 \<and>
        dm_sink d' = map_option (\<lambda>evs. evs @ [Suppressed (describe r),
          StatusChanged (status w (daemon_emit (Suppressed (describe r)) (note_suppression d)))]) (dm_sink d))"
proof -
  have "detect_secret_in_payloads R (cap_payloads c) \<noteq> None"
    using assms(2-4) unfolding no_secret_in_payloads by auto
  with assms(1) have "fst (classify E R now cfg (PollData c) guard) \<noteq> Captured c'" for c'
    unfolding classify_captured by auto
  then obtain r where "fst (classify E R now cfg (PollData c) guard) = SuppressedCapture r"
    by (metis capture_event.exhaust)
  then show ?thesis by (auto simp: on_capture_def frame_defs option.map_comp comp_def)
qed

theorem secret_leaves_no_trace_witness:
  "let cap = \<lparr>cap_payloads = [(Text, str_bytes ''4111 1111 1111 1111'')], cap_app = None\<rparr>;
       ev = fst (classify sample_env no_patterns 0 default_watch_config (PollData cap) (own_guard_new 1))
   in dm_store (on_capture sample_env sample_world ev sample_daemon) = fresh_store 100 \<and>
      dm_secrets_refused (on_capture sample_env sample_world ev sample_daemon) = 1"
proof -
  have "detect_secret no_patterns (from_utf8_lossy (str_bytes ''4111 1111 1111 1111'')) \<noteq> None" by code_simp
  then have dirty: "\<not> clean_text no_patterns (from_utf8_lossy (str_bytes ''4111 1111 1111 1111''))"
    by (metis detect_secret_None)
  have "wc_detect_secrets default_watch_config" by (simp add: default_watch_config_def)
  moreover have "dm_store sample_daemon = fresh_store 100" "dm_secrets_refused sample_daemon = 0"
    by (simp_all add: sample_daemon_def daemon_new_def)
  ultimately show ?thesis
    using secret_leaves_no_trace [of default_watch_config Text "str_bytes ''4111 1111 1111 1111''"
        "\<lparr>cap_payloads = [(Text, str_bytes ''4111 1111 1111 1111'')], cap_app = None\<rparr>" no_patterns sample_env 0 "own_guard_new 1"
        sample_world sample_daemon] dirty
    by (auto simp: Let_def is_text_like_def)
qed

section \<open>Accepted copies\<close>

lemma put_blobs_rows:
  "st_clip (fold (\<lambda>bs. put_blob E (hash_of E bs) bs) spill st) = st_clip st"
  "st_payload (fold (\<lambda>bs. put_blob E (hash_of E bs) bs) spill st) = st_payload st"
  by (induction spill arbitrary: st) (simp_all add: blob_ops_keep_rows)

lemma has_put_blob: "has_blob E h (put_blob E h bs st)" "has_blob E g st \<Longrightarrow> has_blob E g (put_blob E h bs st)"
  by (auto simp: has_blob_def put_blob_def write_file_def next_used_seq_def Let_def)

lemma has_put_blobs: "has_blob E g st \<or> (\<exists>bs \<in> set spill. g = hash_of E bs) \<Longrightarrow>
    has_blob E g (fold (\<lambda>bs. put_blob E (hash_of E bs) bs) spill st)"
  by (induction spill arbitrary: st) (auto simp: has_put_blob)

lemma insert_blobs:
  "st_blob_meta (snd (store_insert E c st)) = st_blob_meta st" "st_files (snd (store_insert E c st)) = st_files st"
  "st_quota (snd (store_insert E c st)) = st_quota st"
  by (simp_all add: store_insert_def Let_def split: option.split)

lemma quota_succeeds:
  assumes "env_ok E" "blobs_ok E st"
  shows "\<exists>rep. fst (enforce_blob_quota E st) = Inr rep"
    and "held_bytes st \<le> unat (st_quota st) \<Longrightarrow> snd (enforce_blob_quota E st) = st"
proof -
  obtain v where v: "sum_blob_sizes st = Inr v" "unat (max0 v) = held_bytes st"
    using held_bytes_sum [OF assms(2)] by blast
  have "\<forall>(hex, sz) \<in> set (quota_candidates st). \<exists>h. hash_from_str E hex = Inr h"
    using blob_row_digest [OF assms(2)] by (fastforce simp: quota_candidates_def)
  from evict_prefix [OF this, of "max0 v" 0 0 st] freed_by_candidates [OF assms(2)] v
  show "\<exists>rep. fst (enforce_blob_quota E st) = Inr rep" by (auto simp: enforce_blob_quota_def Let_def)
  show "held_bytes st \<le> unat (st_quota st) \<Longrightarrow> snd (enforce_blob_quota E st) = st"
    using v by (simp add: enforce_blob_quota_def Let_def word_less_nat_alt)
qed

lemma write_capture_result:
  assumes "env_ok E" "blobs_ok E (fold (\<lambda>bs. put_blob E (hash_of E bs) bs) spill st)"
    "store_insert E c (fold (\<lambda>bs. put_blob E (hash_of E bs) bs) spill st) = (Inr out, st1)"
  shows "\<exists>st'. write_capture E spill c st = (Inr out, st') \<and> st_clip st' = st_clip st1 \<and> st_payload st' = st_payload st1 \<and>
    (held_bytes st1 \<le> unat (st_quota st1) \<longrightarrow> st' = st1)"
proof -
  have "st_blob_meta st1 = st_blob_meta (fold (\<lambda>bs. put_blob E (hash_of E bs) bs) spill st)"
    using insert_blobs(1) [of E c "fold (\<lambda>bs. put_blob E (hash_of E bs) bs) spill st"] by (simp add: assms(3))
  then have "blobs_ok E st1" using assms(2) by (simp add: blobs_ok_def)
  note quota = quota_succeeds [OF assms(1) this]
  obtain rep st' where q: "enforce_blob_quota E st1 = (Inr rep, st')"
    using quota(1) by (metis prod.collapse)
  then have "write_capture E spill c st = (Inr out, st')" by (simp add: write_capture_def assms(3))
  with quota(2) quota_keeps_rows [of E st1] q show ?thesis by simp
qed

lemma capture_payload_wf: "crates_ok X \<Longrightarrow> hash_wf (p_digest (capture_payload X p))"
  by (cases p) (simp add: capture_payload_def payload_blob_def payload_new_def Let_def)

lemma capture_payload_format [simp]: "p_format (capture_payload X p) = fst p"
  by (cases p) (simp add: capture_payload_def payload_blob_def payload_new_def Let_def)

lemma clip_new_parts:
  assumes "clip_new X i ps src t = Some c"
  shows "c_payloads c = sort_payloads ps" "c_hash c = compute_hash X (sort_payloads ps)" "c_id c = i" "\<not> c_deleted c" "c_hlc c = t"
  using assms by (auto simp: clip_new_def Let_def split: if_splits)

lemma captured_clip_wf:
  assumes "crates_ok X" "clip_new X i (map (capture_payload X) ps) src t = Some c"
  shows "clip_wf c"
  using clip_new_parts(1,2) [OF assms(2)] assms(1)
  by (auto simp: clip_wf_def compute_hash_def list_all_iff sort_payloads_def capture_payload_wf)

lemma captured_labels:
  assumes "clip_new X i (map (capture_payload X) ps) src t = Some c" "distinct (map (\<lambda>(fmt, _). label fmt) ps)"
  shows "distinct (map (\<lambda>p. label (p_format p)) (c_payloads c))"
proof -
  have "mset (map (\<lambda>p. label (p_format p)) (sort_payloads qs)) = mset (map (\<lambda>p. label (p_format p)) qs)" for qs
    by (simp add: sort_payloads_def)
  from mset_eq_imp_distinct_iff [OF this] show ?thesis
    using assms(2) by (simp add: clip_new_parts(1) [OF assms(1)] comp_def case_prod_beta')
qed

lemma put_blobs_quota: "st_quota (fold (\<lambda>bs. put_blob E (hash_of E bs) bs) spill st) = st_quota st"
  by (induction spill arbitrary: st) (simp_all add: put_blob_def write_file_def next_used_seq_def Let_def)

lemma find_map_refresh:
  "find (\<lambda>f. c_id f = i) (map (\<lambda>f. if c_id f = i then refresh_clip c f else f) H) =
   map_option (refresh_clip c) (find (\<lambda>f. c_id f = i) H)"
  by (induction H) (auto simp: refresh_clip_def)

text \<open>The clip a capture is made into.\<close>

definition captured_clip :: "env \<Rightarrow> world \<Rightarrow> capture \<Rightarrow> daemon \<Rightarrow> clip option" where
  "captured_clip E w cap d =
     clip_new E (w_fresh_id w) (map (capture_payload E) (cap_payloads cap)) (daemon_clip_source (cap_app cap) d)
       (fst (clock_now (w_now w) (dm_clock d)))"

text \<open>The store once the payloads over the inline limit are written.\<close>

abbreviation spilled_store :: "env \<Rightarrow> capture \<Rightarrow> daemon \<Rightarrow> store" where
  "spilled_store E cap d \<equiv> fold (\<lambda>bs. put_blob E (hash_of E bs) bs) (spilled cap) (dm_store d)"




section \<open>Deleting\<close>

lemma hash_matches_flags: "hash_matches X (c\<lparr>c_deleted := b, c_hlc := t\<rparr>) = hash_matches X c"
  by (simp add: hash_matches_def)

text \<open>
  C33. Deleting a clip answers \<open>Ok\<close>, tells the user interfaces, wakes the peers and leaves a tombstone
  with a fresh stamp of this device's clock. A peer that has the clip as it was takes the deletion
  over exactly if that stamp is greater than the clip's own: the clock of the daemon is never told of
  the stamps it receives, so a clip from a device whose clock is ahead cannot be deleted from here.
\<close>

theorem deletion_travels_iff_newer:
  assumes "env_ok E" "store_ok E (dm_store d)" "c \<in> set (history E (dm_store d))" "c_id c = i" "\<not> c_deleted c" "hash_matches E c"
    "clock_now (w_now w) (dm_clock d) = (t, clk)" "handle E w (ReqDelete i) d = (r, d')"
  shows "r = RespOk \<and> store_ok E (dm_store d') \<and> dm_net d' = map_option nudge (dm_net d) \<and>
    (\<exists>s. dm_sink d' = map_option (\<lambda>evs. evs @ [ClipRemoved i, StatusChanged s]) (dm_sink d)) \<and>
    (\<exists>tomb \<in> set (history E (dm_store d')). tomb = c\<lparr>c_deleted := True, c_hlc := t\<rparr> \<and>
       merge E (Some c) tomb = (if c_hlc c < t then UpdateMetadata (c_pinned c) True else Ignore))"
proof -
  obtain res st where del: "store_delete E (w_now w) i t (dm_store d) = (res, st)" by force
  note out = delete_history [OF assms(1,2) del]
  have res: "res = Inr ()" using out assms(3,4) by (auto split: if_splits)
  have d': "r = RespOk" "d' = sync_soon (emit_status w (daemon_emit (ClipRemoved i) (d\<lparr>dm_clock := clk, dm_store := st\<rparr>)))"
    using assms(8) by (simp_all add: handle_def handle_delete_def assms(7) del res)
  let ?tomb = "c\<lparr>c_deleted := True, c_hlc := t\<rparr>"
  have "?tomb \<in> set (history E st)" using out assms(3-5) by force
  moreover have "merge E (Some c) ?tomb = (if c_hlc c < t then UpdateMetadata (c_pinned c) True else Ignore)"
    by (simp add: merge_def hash_matches_flags assms(6))
  ultimately show ?thesis
    using out by (auto simp: d' emit_status_eq daemon_emit_def sync_soon_def option.map_comp comp_def)
qed

theorem deletion_travels_iff_newer_witness:
  "\<exists>d' tomb. handle sample_env sample_world (ReqDelete (ClipId 1)) (sample_daemon\<lparr>dm_store := sample_store\<rparr>) = (RespOk, d') \<and>
     tomb \<in> set (history sample_env (dm_store d')) \<and> c_deleted tomb \<and> c_hlc tomb = Hlc 1000 0 (DeviceId 2)"
proof -
  let ?d = "sample_daemon\<lparr>dm_store := sample_store\<rparr>" and ?c = "norm_clip (sample_clip 5 False False)"
  obtain r d' where h: "handle sample_env sample_world (ReqDelete (ClipId 1)) ?d = (r, d')" by force
  have "?c \<in> set (history sample_env (dm_store ?d))" by (simp add: sample_store_history(2))
  note c = this
  have c': "c_id ?c = ClipId 1" "\<not> c_deleted ?c"
    by (simp_all add: norm_clip_def sample_clip_def clip_new_def Let_def)
  have m: "hash_matches sample_env ?c"
    by (simp add: norm_clip_def sample_clip_def clip_new_def Let_def hash_matches_def compute_hash_def sort_payloads_def
        payload_new_def norm_payload_def from_label_def comp_def of_parts_def)
  have t: "clock_now (w_now sample_world) (dm_clock ?d) =
      (Hlc 1000 0 (DeviceId 2), snd (clock_now (w_now sample_world) (dm_clock ?d)))"
    by (simp add: clock_now_def sample_world_def sample_daemon_def daemon_new_def clock_new_def Let_def)
  have "store_ok sample_env (dm_store ?d)" by (simp add: sample_store_history(1))
  from deletion_travels_iff_newer [OF sample_env_ok this c c' m t h] obtain tomb where
    "r = RespOk" "tomb \<in> set (history sample_env (dm_store d'))" "tomb = ?c\<lparr>c_deleted := True, c_hlc := Hlc 1000 0 (DeviceId 2)\<rparr>"
    by blast
  with h show ?thesis by auto
qed

section \<open>Putting a clip back\<close>

text \<open>
  What a clip is put back as: its representations in order, inline bytes as they are and blobs from
  their files; one whose file is gone is left out.
\<close>

lemma materialize_spec:
  "fst (materialize E ps st) =
     List.map_filter (\<lambda>p. map_option (\<lambda>bs. (p_format p, bs))
       (case inline_bytes p of Some bs \<Rightarrow> Some bs | None \<Rightarrow> st_files st (shard_path E (p_digest p)))) ps"
proof (induction ps arbitrary: st)
  case (Cons p ps)
  have files: "st_files (snd (read_blob E h st)) = st_files st" for h
    by (simp add: read_blob_def next_used_seq_def Let_def split: option.split)
  show ?case
  proof (cases "inline_bytes p")
    case None
    then show ?thesis
      using Cons [of "snd (read_blob E (p_digest p) st)", unfolded files]
      by (cases "st_files st (shard_path E (p_digest p))")
        (auto simp: read_blob_def next_used_seq_def Let_def List.map_filter_simps split: prod.split)
  next
    case (Some bs)
    then show ?thesis using Cons [of st] by (auto simp: List.map_filter_simps split: prod.split)
  qed
qed (simp add: List.map_filter_simps)



end
