(* ===== verification/Daemon_Run.thy ===== *)
theory Daemon_Run
  imports Daemon_Props
begin

text \<open>
  The running daemon. Its tasks share the store, the clock, the event sink, the trust set and the
  pairing state: the request handler, the capture loop, any number of sync sessions, any number of
  inbound pairing attempts, and the dial loop. A step of the system is one atomic step of one of
  them, so a reachable state is one after any interleaving, with peers and programs on the network
  that send whatever they like.

  Shown: in every reachable state the tables are consistent, each blob file has the content its name
  says, the trust set is well-formed and only devices of the pairing protocol are in it; so every
  read of the history answers.
\<close>

section \<open>Starting\<close>

text \<open>
  \<open>clipsed::run\<close> up to the moment the loops run, from what is on disk and what the system says: the
  port a bind gives (or none), the address of the primary interface, the Tailscale client.
\<close>

definition watch_config_for :: "settings \<Rightarrow> watch_config" where
  "watch_config_for cfg =
     default_watch_config\<lparr>wc_app_blocklist := with_extra (s_blocked_apps cfg) blocklist_defaults,
       wc_detect_secrets := s_detect_secrets cfg\<rparr>"

definition bind_transport :: "(u16 \<Rightarrow> u16 option) \<Rightarrow> u16 option" where
  "bind_transport bind = (case bind DEFAULT_SYNC_PORT of Some port \<Rightarrow> Some port | None \<Rightarrow> bind 0)"

definition reachable_addresses :: "bytes option \<Rightarrow> tailnet_error + tailnet_status \<Rightarrow> u16 \<Rightarrow> candidate_address list" where
  "reachable_addresses lan tailnet port =
     (case lan of None \<Rightarrow> [] | Some ip \<Rightarrow> [LanAddr (ip, port)]) @
     (case tailnet of
        Inl _ \<Rightarrow> []
      | Inr s \<Rightarrow>
          (case Option.bind (tn_this_device s) preferred_ip of None \<Rightarrow> [] | Some ip \<Rightarrow> [TailnetAddr (ip, port)]))"

definition daemon_start :: "device_id \<Rightarrow> settings \<Rightarrow> store \<Rightarrow> device_identity \<Rightarrow> trust \<Rightarrow> watch_mode \<Rightarrow>
    (u16 \<Rightarrow> u16 option) \<Rightarrow> bytes option \<Rightarrow> tailnet_error + tailnet_status \<Rightarrow> daemon" where
  "daemon_start dev cfg disk ident trusted mode bind lan tailnet =
     (let d = (daemon_new dev cfg (store_open (s_blob_quota_bytes cfg) disk) mode
                 (own_guard_new (wc_own_write_ttl (watch_config_for cfg))) (clock_new dev))\<lparr>dm_sink := Some []\<rparr>
      in if \<not> s_sync_enabled cfg then d
         else case bind_transport bind of
           None \<Rightarrow> d
         | Some port \<Rightarrow>
             d\<lparr>dm_net := Some \<lparr>ns_identity = ident, ns_trust = trusted, ns_saved_trust = trusted, ns_pairing = Idle,
                 ns_table = reload_from_trust trusted [], ns_nudged = False,
                 ns_addresses = reachable_addresses lan tailnet port\<rparr>\<rparr>)"

section \<open>Steps\<close>

record system =
  sys_daemon :: daemon
  sys_loop_guard :: loop_guard
  sys_sessions :: "session list"
  sys_serving :: "serve_phase list"

text \<open>What a session sees of the daemon, and what it leaves behind.\<close>

definition session_context :: "world \<Rightarrow> system \<Rightarrow> sync_context" where
  "session_context w s =
     \<lparr>sx_store = dm_store (sys_daemon s), sx_clock = dm_clock (sys_daemon s), sx_loop_guard = sys_loop_guard s,
      sx_events = [], sx_label = s_device_label (dm_settings (sys_daemon s)), sx_platform = lit (w_os w), sx_now_ms = w_now w\<rparr>"

definition session_effect :: "sync_context \<Rightarrow> system \<Rightarrow> system" where
  "session_effect x s =
     s\<lparr>sys_daemon := (sys_daemon s)\<lparr>dm_store := sx_store x, dm_clock := sx_clock x,
         dm_sink := map_option (\<lambda>evs. evs @ sx_events x) (dm_sink (sys_daemon s))\<rparr>,
       sys_loop_guard := sx_loop_guard x\<rparr>"

definition on_table :: "(trust \<Rightarrow> peer_table \<Rightarrow> peer_table) \<Rightarrow> daemon \<Rightarrow> daemon" where
  "on_table f d = d\<lparr>dm_net := map_option (\<lambda>n. n\<lparr>ns_table := f (ns_trust n) (ns_table n)\<rparr>) (dm_net d)\<rparr>"

text \<open>\<open>PeerManager::peer_info\<close>, and \<open>note_success\<close> with the event it ends in.\<close>

definition peer_info_of :: "u64 \<Rightarrow> trust \<Rightarrow> peer_table \<Rightarrow> device_id \<Rightarrow> peer_info option" where
  "peer_info_of now t tbl dev =
     map_option (\<lambda>(_, p). info_for now p (map_of tbl dev)) (find (\<lambda>(_, p). pd_device_id p = dev) (tr_peers t))"

definition note_session :: "world \<Rightarrow> device_id \<Rightarrow> socket_addr \<Rightarrow> reachability \<Rightarrow> daemon \<Rightarrow> daemon" where
  "note_session w peer addr r d =
     (let d1 = on_table (\<lambda>_. note_success (w_now w) peer addr r) d
      in case Option.bind (dm_net d1) (\<lambda>n. peer_info_of (w_now w) (ns_trust n) (ns_table n) peer) of
           None \<Rightarrow> d1
         | Some i \<Rightarrow> daemon_emit (DeviceChanged i) d1)"

text \<open>
  The steps: a request; an event from the clipboard watcher; a session begins, moves on, or has
  ended and is settled; an inbound pairing connection opens, gets a message, or times out; a browse
  of the network; a dial that failed.
\<close>

inductive system_step :: "env \<Rightarrow> system \<Rightarrow> system \<Rightarrow> bool" for E where
  request: "system_step E s (s\<lparr>sys_daemon := snd (handle E w req (sys_daemon s))\<rparr>)"
| clipboard: "system_step E s (s\<lparr>sys_daemon := on_capture E w ev (sys_daemon s)\<rparr>)"
| session_begins: "system_step E s (s\<lparr>sys_sessions := sys_sessions s @ [run_session E l ro]\<rparr>)"
| session_moves: "i < length (sys_sessions s) \<Longrightarrow> peer_step (sys_sessions s ! i, session_context w s) (p, x) \<Longrightarrow>
    system_step E s (session_effect x (s\<lparr>sys_sessions := (sys_sessions s)[i := p]\<rparr>))"
| session_ends: "i < length (sys_sessions s) \<Longrightarrow> sys_sessions s ! i = Done (Inr out) \<Longrightarrow>
    system_step E s (s\<lparr>sys_daemon := settle E w out (note_session w peer addr r (sys_daemon s))\<rparr>)"
| pairing_opens: "system_step E s (s\<lparr>sys_serving := sys_serving s @ [AwaitLookup]\<rparr>)"
| pairing_message: "i < length (sys_serving s) \<Longrightarrow>
    pairing_ceremony E w sent (sys_serving s ! i) msg (sys_daemon s) = ((phase, reply), d) \<Longrightarrow>
    system_step E s (s\<lparr>sys_daemon := d, sys_serving := (sys_serving s)[i := phase]\<rparr>)"
| pairing_stalls: "system_step E s (s\<lparr>sys_daemon := serve_timeout (sys_daemon s)\<rparr>)"
| browse: "system_step E s (s\<lparr>sys_daemon := on_table (\<lambda>_. refresh_from_discovery now evs) (sys_daemon s)\<rparr>)"
| dial_fails: "system_step E s (s\<lparr>sys_daemon := on_table (\<lambda>_. note_dial_error peer e) (sys_daemon s)\<rparr>)"

section \<open>The store\<close>

definition store_inv :: "env \<Rightarrow> store \<Rightarrow> bool" where
  "store_inv E st \<longleftrightarrow> store_ok E st \<and> files_verified E st"

lemma files_verified_sub:
  "files_verified E st \<Longrightarrow> (\<And>path. st_files st' path = None \<or> st_files st' path = st_files st path) \<Longrightarrow> files_verified E st'"
  unfolding files_verified_def by (metis option.distinct(1))

lemma evict_files: "st_files (snd (evict E cs used n freed st)) path = None \<or> st_files (snd (evict E cs used n freed st)) path = st_files st path"
  by (induction E cs used n freed st rule: evict.induct) (auto simp: remove_blob_def split: sum.split if_splits)

lemma quota_files: "st_files (snd (enforce_blob_quota E st)) path = None \<or> st_files (snd (enforce_blob_quota E st)) path = st_files st path"
proof (cases "sum_blob_sizes st")
  case (Inr v)
  obtain res st' where e: "evict E (quota_candidates st) (max0 v) 0 0 st = (res, st')" by force
  then have "st_files st' path = None \<or> st_files st' path = st_files st path" using evict_files by (metis snd_conv)
  with Inr e show ?thesis by (simp add: enforce_blob_quota_def Let_def split: sum.split prod.split)
qed (simp add: enforce_blob_quota_def)

lemma quota_inv: "store_inv E st \<Longrightarrow> store_inv E (snd (enforce_blob_quota E st))"
  unfolding store_inv_def using quota_keeps_rows [of E st] store_ok_cong files_verified_sub [OF _ quota_files] by metis

lemma same_files_inv: "store_inv E st \<Longrightarrow> store_ok E st' \<Longrightarrow> st_files st' = st_files st \<Longrightarrow> store_inv E st'"
  by (simp add: store_inv_def files_verified_def)

lemma pin_files: "st_files (snd (set_pinned E i b t st)) = st_files st"
  by (simp add: set_pinned_def Let_def)

lemma delete_files: "st_files (snd (store_delete E now i t st)) = st_files st"
  by (simp add: store_delete_def Let_def)

lemma grows_inv: "store_grows E st st' \<Longrightarrow> store_inv E st \<Longrightarrow> store_inv E st'"
  by (simp add: store_grows_def store_inv_def)

lemma read_inv: "store_inv E st \<Longrightarrow> store_inv E (snd (read_blob E h st))"
  by (rule grows_inv [OF read_blob_grows])

lemma put_blobs_inv: "store_inv E st \<Longrightarrow> store_inv E (fold (\<lambda>bs. put_blob E (hash_of E bs) bs) spill st)"
  by (induction spill arbitrary: st) (auto intro: grows_inv [OF put_blob_grows])

lemma insert_inv: "env_ok E \<Longrightarrow> clip_wf c \<Longrightarrow> store_inv E st \<Longrightarrow> store_inv E (snd (store_insert E c st))"
  by (rule same_files_inv [of E st]) (simp_all add: insert_keeps_ok store_inv_def insert_blobs)

lemma pin_inv: "env_ok E \<Longrightarrow> store_inv E st \<Longrightarrow> store_inv E (snd (set_pinned E i b t st))"
  by (rule same_files_inv [of E st]) (auto simp: store_inv_def pin_files intro: store_step_ok store_step.step_pin)

lemma delete_inv: "env_ok E \<Longrightarrow> store_inv E st \<Longrightarrow> store_inv E (snd (store_delete E now i t st))"
  by (rule same_files_inv [of E st]) (auto simp: store_inv_def delete_files intro: store_step_ok store_step.step_delete)

lemma materialize_inv: "store_inv E st \<Longrightarrow> store_inv E (snd (materialize E ps st))"
proof (induction ps arbitrary: st)
  case (Cons p ps)
  show ?case
  proof (cases "inline_bytes p")
    case None
    obtain res st1 where r: "read_blob E (p_digest p) st = (res, st1)" by force
    with read_inv [OF Cons.prems, of "p_digest p"] have "store_inv E st1" by simp
    with Cons.IH [of st1] None r show ?thesis by (cases res) (auto split: prod.split)
  next
    case (Some bs)
    with Cons.IH [OF Cons.prems] show ?thesis by (auto split: prod.split)
  qed
qed simp

lemma write_capture_inv:
  assumes "env_ok E" "clip_wf c" "store_inv E st"
  shows "store_inv E (snd (write_capture E spill c st))"
proof -
  obtain res st1 where i: "store_insert E c (fold (\<lambda>bs. put_blob E (hash_of E bs) bs) spill st) = (res, st1)" by force
  have "store_inv E st1" using insert_inv [OF assms(1,2) put_blobs_inv [OF assms(3)]] i by (metis snd_conv)
  with quota_inv [OF this] i show ?thesis
    by (cases res) (auto simp: write_capture_def split: sum.split prod.split)
qed

section \<open>The network half\<close>

definition net_inv :: "env \<Rightarrow> net_state \<Rightarrow> bool" where
  "net_inv E n \<longleftrightarrow> trust_wf (ns_trust n) \<and> distinct (map fst (ns_table n)) \<and> state_inv E (ns_pairing n)"

definition daemon_inv :: "env \<Rightarrow> daemon \<Rightarrow> bool" where
  "daemon_inv E d \<longleftrightarrow> store_inv E (dm_store d) \<and> (case dm_net d of None \<Rightarrow> True | Some n \<Rightarrow> net_inv E n)"

lemma daemon_inv_cong:
  "dm_store d' = dm_store d \<Longrightarrow> dm_net d' = dm_net d \<Longrightarrow> daemon_inv E d \<Longrightarrow> daemon_inv E d'"
  by (simp add: daemon_inv_def)

lemma inv_frame [intro]:
  "daemon_inv E d \<Longrightarrow> daemon_inv E (daemon_emit ev d)" "daemon_inv E d \<Longrightarrow> daemon_inv E (emit_status w d)"
  "daemon_inv E d \<Longrightarrow> daemon_inv E (note_suppression d)" "daemon_inv E d \<Longrightarrow> daemon_inv E (emit_devices w n d)"
  "daemon_inv E d \<Longrightarrow> daemon_inv E (sync_soon d)"
  by (auto simp: daemon_inv_def net_inv_def nudge_def split: option.splits)

lemma inv_store [intro]: "daemon_inv E d \<Longrightarrow> store_inv E st \<Longrightarrow> daemon_inv E (d\<lparr>dm_store := st\<rparr>)"
  by (simp add: daemon_inv_def)

lemma inv_storeD: "daemon_inv E d \<Longrightarrow> store_inv E (dm_store d)"
  by (simp add: daemon_inv_def)

lemma inv_pairing [intro]: "daemon_inv E d \<Longrightarrow> state_inv E s \<Longrightarrow> daemon_inv E (set_pairing_state s d)"
  by (auto simp: daemon_inv_def net_inv_def split: option.splits)

lemma inv_cancel: "daemon_inv E d \<Longrightarrow> daemon_inv E (serve_timeout d)"
  by (auto simp: daemon_inv_def net_inv_def serve_timeout_def state_cancel_def split: option.splits)

lemma trust_add_wf: "trust_wf t \<Longrightarrow> trust_wf (add_peer p t)"
  using trust_op_wf [of t "AddPeer p"] by simp

lemma trust_remove_wf: "trust_wf t \<Longrightarrow> trust_wf (snd (remove_peer i t))"
  using trust_op_wf [of t "RemovePeer i"] by simp

lemma reload_distinct: "distinct (map fst tbl) \<Longrightarrow> distinct (map fst (reload_from_trust t tbl))"
  by (simp add: reload_from_trust_def Let_def conjunct1 [OF reload_keys] distinct_map_filter)

lemma commit_inv: "daemon_inv E d \<Longrightarrow> daemon_inv E (snd (commit_pairing w p d))"
  by (auto simp: commit_pairing_def Let_def daemon_inv_def net_inv_def trust_add_wf reload_distinct split: option.split)

lemma on_table_inv:
  assumes "daemon_inv E d" "\<And>t tbl. distinct (map fst tbl) \<Longrightarrow> distinct (map fst (f t tbl))"
  shows "daemon_inv E (on_table f d)"
  using assms by (auto simp: daemon_inv_def net_inv_def on_table_def split: option.splits)

section \<open>Every operation keeps the invariant\<close>

lemma apply_inv: "daemon_inv E d \<Longrightarrow> daemon_inv E (snd (daemon_apply E w i d))"
  using materialize_inv [OF inv_storeD, of E d]
  by (auto simp: daemon_apply_def daemon_inv_def split: sum.split option.split prod.split) (metis snd_conv)+

lemma apply_incoming_inv: "daemon_inv E d \<Longrightarrow> daemon_inv E (apply_incoming E w i d)"
  by (simp add: apply_incoming_def apply_inv)

lemma settle_inv: "daemon_inv E d \<Longrightarrow> daemon_inv E (settle E w out d)"
  by (simp add: settle_def apply_incoming_inv split: option.split)

lemma capture_inv:
  assumes "env_ok E" "daemon_inv E d"
  shows "daemon_inv E (on_capture E w ev d)"
proof (cases ev)
  case (SuppressedCapture r)
  with assms(2) show ?thesis by (auto simp: on_capture_def)
next
  case (Captured cap)
  obtain t clk where t: "clock_now (w_now w) (dm_clock d) = (t, clk)" by force
  let ?c = "clip_new E (w_fresh_id w) (map (capture_payload E) (cap_payloads cap)) (daemon_clip_source (cap_app cap) d) t"
  have d1: "daemon_inv E (d\<lparr>dm_clock := clk\<rparr>)" using assms(2) by (simp add: daemon_inv_def)
  show ?thesis
  proof (cases ?c)
    case None
    with Captured d1 assms(2) t show ?thesis by (simp add: on_capture_def store_capture_def Let_def)
  next
    case (Some c)
    obtain res st where w: "write_capture E (spilled cap) c (dm_store d) = (res, st)" by force
    have "store_inv E st"
      using write_capture_inv [OF assms(1) captured_clip_wf [OF env_okD [OF assms(1)] Some] inv_storeD [OF assms(2)]] w
      by (metis snd_conv)
    then have "daemon_inv E (d\<lparr>dm_clock := clk, dm_store := st\<rparr>)" using d1 by (simp add: daemon_inv_def)
    then have "daemon_inv E (snd (announce_capture E c out (d\<lparr>dm_clock := clk, dm_store := st\<rparr>)))" for out
      by (auto simp: announce_capture_def split: insert_outcome.split sum.split option.split)
    moreover have "daemon_inv E d2" if "announce_capture E c out (d\<lparr>dm_clock := clk, dm_store := st\<rparr>) = (r, d2)" for out r d2
      using calculation that by (metis snd_conv)
    ultimately show ?thesis
      using Captured Some w t assms(2) \<open>daemon_inv E (d\<lparr>dm_clock := clk, dm_store := st\<rparr>)\<close>
      by (auto simp: on_capture_def store_capture_def Let_def split: sum.split prod.split)
  qed
qed

lemma get_payload_inv:
  assumes "daemon_inv E d"
  shows "daemon_inv E (snd (handle_get_payload E i fmt d))"
proof -
  have "store_inv E (snd (read_payload E c fmt (dm_store d)))" for c
    using read_inv [OF inv_storeD [OF assms]] inv_storeD [OF assms]
    by (auto simp: read_payload_def split: option.split prod.split sum.split) (metis snd_conv)+
  then show ?thesis
    using assms by (auto simp: handle_get_payload_def daemon_inv_def split: sum.split option.split prod.split) (metis snd_conv)+
qed

lemma clocked_store_inv: "daemon_inv E d \<Longrightarrow> store_inv E st \<Longrightarrow> daemon_inv E (d\<lparr>dm_clock := clk, dm_store := st\<rparr>)"
  by (simp add: daemon_inv_def)

lemma handle_pin_inv: "env_ok E \<Longrightarrow> daemon_inv E d \<Longrightarrow> daemon_inv E (snd (handle_set_pinned E w i b d))"
  using pin_inv [OF _ inv_storeD, of E d i b]
  by (auto simp: handle_set_pinned_def Let_def split: sum.split option.split prod.split
      intro!: inv_frame clocked_store_inv) (metis snd_conv)+

lemma handle_delete_inv: "env_ok E \<Longrightarrow> daemon_inv E d \<Longrightarrow> daemon_inv E (snd (handle_delete E w i d))"
  using delete_inv [OF _ inv_storeD, of E d "w_now w" i]
  by (auto simp: handle_delete_def split: sum.split prod.split intro!: inv_frame clocked_store_inv) (metis snd_conv)+

lemma begin_pairing_inv: "daemon_inv E d \<Longrightarrow> daemon_inv E (snd (begin_pairing E w d))"
  using begin_inv [OF expire_inv, of E] unfolding daemon_inv_def net_inv_def begin_pairing_def
  by (auto split: option.splits sum.split prod.split) (metis snd_conv)+

lemma pair_with_code_inv: "daemon_inv E d \<Longrightarrow> daemon_inv E (snd (pair_with_code E w typed d))"
proof -
  assume inv: "daemon_inv E d"
  then have d1: "daemon_inv E (set_pairing_state (state_cancel s) d)" for s by (auto simp: state_cancel_def)
  from commit_inv [OF this] have "daemon_inv E d2" if "commit_pairing w p (set_pairing_state (state_cancel s) d) = (ok, d2)" for s p ok d2
    using that by (metis snd_conv)
  with inv d1 show ?thesis
    by (auto simp: pair_with_code_def Let_def split: option.split sum.split prod.split bool.split)
qed

lemma forget_inv: "daemon_inv E d \<Longrightarrow> daemon_inv E (snd (forget_device w i d))"
  using trust_remove_wf [of _ i] unfolding forget_device_def daemon_inv_def net_inv_def
  by (auto simp: reload_distinct split: option.splits sum.split prod.split) (metis snd_conv)+

lemma handle_inv:
  assumes "env_ok E" "daemon_inv E d"
  shows "daemon_inv E (snd (handle E w req d))"
proof (cases req)
  case (ReqPaste i)
  then show ?thesis using apply_inv [OF assms(2), of w i]
    by (auto simp: handle_def handle_paste_def split: prod.split)
next
  case (ReqSetPaused p)
  then show ?thesis using assms(2) by (auto simp: handle_def daemon_inv_def)
next
  case (ReqUpdateSettings cfg)
  then show ?thesis using assms(2) by (auto simp: handle_def daemon_inv_def Let_def)
next
  case ReqCancelPairing
  then show ?thesis using inv_cancel [OF assms(2)] by (simp add: handle_def serve_timeout_def)
qed (simp_all add: handle_def assms get_payload_inv apply_inv handle_pin_inv handle_delete_inv begin_pairing_inv
    pair_with_code_inv forget_inv)

lemma ceremony_inv: "daemon_inv E d \<Longrightarrow> daemon_inv E (snd (pairing_ceremony E w sent phase msg d))"
proof (cases "dm_net d")
  case (Some n)
  assume inv: "daemon_inv E d"
  with Some have st: "state_inv E (ns_pairing n)" by (simp add: daemon_inv_def net_inv_def)
  have lookup: "daemon_inv E (set_pairing_state s d)" if "state_lookup E now tag (ns_pairing n) = (a, s)" for now tag a s
    using lookup_inv [OF st, of now tag] that inv by auto
  have accept: "daemon_inv E (set_pairing_state s d)" if "answer_accept E now acc (ns_pairing n) = (a, s)" for now acc a s
    using accept_inv [OF st, of now acc] that inv by auto
  have finish: "daemon_inv E (set_pairing_state s d)" if "state_finish f (ns_pairing n) = (a, s)" for f a s
    using finish_idle [of f "ns_pairing n"] that inv by auto
  have commit: "daemon_inv E d2" if "commit_pairing w p (set_pairing_state s d) = (ok, d2)" "state_finish f (ns_pairing n) = (a, s)"
    for s p ok d2 f a
    using commit_inv [OF finish [OF that(2)], of w p] that(1) by simp
  show ?thesis
    using Some inv
    by (auto simp: pairing_ceremony_def intro: lookup accept finish commit intro!: inv_frame
        split: serve_phase.split option.split pairing_wire.split prod.split sum.split lookup_outcome.split bool.split)
qed (simp add: pairing_ceremony_def)

section \<open>Reachable states\<close>

definition system_inv :: "env \<Rightarrow> system \<Rightarrow> bool" where
  "system_inv E s \<longleftrightarrow> daemon_inv E (sys_daemon s) \<and> list_all (guarded (ctx_grows E)) (sys_sessions s)"

lemma note_success_keys [simp]: "map fst (note_success now d addr r tbl) = map fst tbl"
  by (simp add: note_success_def)

lemma note_session_net [simp]: "dm_net (note_session w peer addr r d) = dm_net (on_table (\<lambda>_. note_success (w_now w) peer addr r) d)"
  by (simp add: note_session_def Let_def split: option.split)

lemma note_session_inv: "daemon_inv E d \<Longrightarrow> daemon_inv E (note_session w peer addr r d)"
  by (auto simp: note_session_def Let_def intro!: on_table_inv inv_frame(1) split: option.split)

lemma note_dial_error_keys [simp]: "map fst (note_dial_error d e tbl) = map fst tbl"
  by (simp add: note_dial_error_def)

lemma system_step_inv:
  assumes "env_ok E" "system_step E s s'" "system_inv E s"
  shows "system_inv E s'"
  using assms(2)
proof cases
  case (session_begins l ro)
  then show ?thesis using assms(3) guarded_session [OF assms(1)] by (simp add: system_inv_def)
next
  case (session_moves i w p x)
  have "guarded (ctx_grows E) (sys_sessions s ! i)"
    using assms(3) session_moves(2) by (simp add: system_inv_def list_all_length)
  from guarded_step [OF session_moves(3) this store_grows_refl]
  have p: "guarded (ctx_grows E) p" and x: "store_grows E (dm_store (sys_daemon s)) (sx_store x)"
    by (simp_all add: session_context_def)
  have "store_inv E (sx_store x)" using grows_inv [OF x] assms(3) by (simp add: system_inv_def daemon_inv_def)
  with p assms(3) session_moves(1,2) show ?thesis
    by (auto simp: system_inv_def session_effect_def daemon_inv_def list_all_iff dest!: set_update_subset_insert [THEN subsetD])
next
  case (session_ends i out w peer addr r)
  have "daemon_inv E (note_session w peer addr r (sys_daemon s))"
    using assms(3) by (intro note_session_inv) (simp add: system_inv_def)
  then show ?thesis using session_ends assms(3) by (simp add: system_inv_def settle_inv)
next
  case (pairing_message i w sent msg phase reply d)
  have "daemon_inv E d"
    using ceremony_inv [of E "sys_daemon s" w sent "sys_serving s ! i" msg] assms(3) pairing_message(3) by (simp add: system_inv_def)
  then show ?thesis using pairing_message(1) assms(3) by (simp add: system_inv_def)
next
  case (browse now evs)
  then show ?thesis using assms(3) by (auto simp: system_inv_def refresh_keys intro!: on_table_inv)
next
  case (dial_fails peer e)
  then show ?thesis using assms(3) by (auto simp: system_inv_def intro!: on_table_inv)
qed (use assms(1,3) in \<open>auto simp: system_inv_def handle_inv capture_inv inv_cancel\<close>)

lemma system_run_inv:
  assumes "env_ok E" "(system_step E)\<^sup>*\<^sup>* s s'" "system_inv E s"
  shows "system_inv E s'"
  using assms(2,3) by (induction rule: rtranclp_induct) (auto intro: system_step_inv [OF assms(1)])

definition system_start :: "daemon \<Rightarrow> loop_guard \<Rightarrow> system" where
  "system_start d lg = \<lparr>sys_daemon = d, sys_loop_guard = lg, sys_sessions = [], sys_serving = []\<rparr>"

lemma system_start_inv:
  assumes "store_inv E disk" "trust_wf trusted"
  shows "system_inv E (system_start (daemon_start dev cfg disk ident trusted mode bind lan tailnet) lg)"
proof -
  have "store_inv E (store_open q disk)" for q
    using assms(1) store_ok_cong [OF blob_ops_keep_rows(5,6), of E q disk]
    by (simp add: store_inv_def files_verified_def store_open_def)
  with assms(2) show ?thesis
    by (auto simp: system_inv_def system_start_def daemon_inv_def daemon_start_def daemon_new_def net_inv_def Let_def
        reload_distinct split: option.split)
qed

text \<open>
  C4. Start the daemon on consistent files and let anything happen: requests, copies, sessions with any
  peers in any interleaving, pairing attempts of anybody, failed dials, restarts of sessions midway.
  The tables stay consistent and every blob file has the content its name says; so a page of history
  and a search always answer with clips, and reading a clip never reports a store error.
\<close>

theorem running_daemon_consistent:
  assumes "env_ok E" "store_inv E disk" "trust_wf trusted"
    "(system_step E)\<^sup>*\<^sup>* (system_start (daemon_start dev cfg disk ident trusted mode bind lan tailnet) lg) s"
  shows "store_ok E (dm_store (sys_daemon s)) \<and> files_verified E (dm_store (sys_daemon s)) \<and>
    (\<exists>cs. fst (handle E w (ReqHistory q) (sys_daemon s)) = RespClips cs) \<and>
    (\<exists>cs. fst (handle E w (ReqSearch str q) (sys_daemon s)) = RespClips cs) \<and>
    (\<exists>c. fst (handle E w (ReqGetClip i) (sys_daemon s)) = RespClip c) \<and>
    (\<forall>n. dm_net (sys_daemon s) = Some n \<longrightarrow> trust_wf (ns_trust n) \<and> distinct (map fst (ns_table n)))"
proof -
  have inv: "daemon_inv E (sys_daemon s)"
    using system_run_inv [OF assms(1,4) system_start_inv [OF assms(2,3)]] by (simp add: system_inv_def)
  then have ok: "store_ok E (dm_store (sys_daemon s))" and files: "files_verified E (dm_store (sys_daemon s))"
    by (simp_all add: daemon_inv_def store_inv_def)
  have "\<exists>cs. fst (handle E w (ReqHistory q) (sys_daemon s)) = RespClips cs"
    "\<exists>cs. fst (handle E w (ReqSearch str q) (sys_daemon s)) = RespClips cs"
    using reads_never_fail(1) [OF assms(1) ok, of "to_store_query q"] reads_never_fail(2) [OF assms(1) ok, of str "to_store_query q"]
    by (auto simp: handle_def store_response_def)
  moreover have "\<exists>c. fst (handle E w (ReqGetClip i) (sys_daemon s)) = RespClip c"
    using store_get_history [OF assms(1) ok] by (simp add: handle_def store_response_def)
  ultimately show ?thesis using ok files inv by (auto simp: daemon_inv_def net_inv_def)
qed

definition sample_start :: "uuid \<Rightarrow> daemon" where
  "sample_start u = daemon_start (DeviceId u) (default_settings []) (fresh_store 100) (sample_identity u (ucast u))
     (trust_new (DeviceId u)) WatchAutomatic (\<lambda>_. Some 7420) None (Inl NotInstalled)"

lemma fresh_store_inv: "store_inv E (fresh_store q)"
  using fresh_store_ok(1) [of E q] by (simp add: store_inv_def files_verified_def) (simp add: fresh_store_def)

lemma trust_new_wf: "trust_wf (trust_new d)"
  by (simp add: trust_wf_def trust_new_def)

theorem running_daemon_consistent_witness:
  "\<exists>cs. fst (handle sample_env sample_world (ReqHistory (ipc_query_page 10))
     (on_capture sample_env sample_world (Captured \<lparr>cap_payloads = [(Text, str_bytes ''hi'')], cap_app = None\<rparr>) (sample_start 1))) =
     RespClips cs"
proof -
  let ?ev = "Captured \<lparr>cap_payloads = [(Text, str_bytes ''hi'')], cap_app = None\<rparr>"
  let ?s = "system_start (sample_start 1) (loop_guard_new 1000)"
  have "system_step sample_env ?s (?s\<lparr>sys_daemon := on_capture sample_env sample_world ?ev (sys_daemon ?s)\<rparr>)" by (rule clipboard)
  then have "(system_step sample_env)\<^sup>*\<^sup>* ?s (?s\<lparr>sys_daemon := on_capture sample_env sample_world ?ev (sample_start 1)\<rparr>)"
    by (auto simp: system_start_def)
  from running_daemon_consistent [OF sample_env_ok fresh_store_inv trust_new_wf this [unfolded sample_start_def]]
  show ?thesis by (simp add: sample_start_def)
qed

end
