(* ===== verification/Daemon_Pairing.thy ===== *)
theory Daemon_Pairing
  imports Daemon_Run
begin

text \<open>
  Pairing as two daemons do it: \<open>begin_pairing\<close> and the inbound \<open>pairing_ceremony\<close> on the device that
  shows the code, \<open>pair_with_code\<close> on the one where it is typed.

  Shown: if nobody interferes, both trust each other's key in the end; and in any run of the daemon,
  with anybody on the network, a device enters the trust set only with a proof over the code.
\<close>

section \<open>Who gets in\<close>

abbreviation trusted :: "net_state \<Rightarrow> (device_id \<times> paired_device) set" where
  "trusted n \<equiv> set (tr_peers (ns_trust n))"

text \<open>What the typing side checked of a device before it trusted it.\<close>

definition showed_code :: "env \<Rightarrow> net_state \<Rightarrow> pairing_code \<Rightarrow> paired_device \<Rightarrow> bool" where
  "showed_code E n code p \<longleftrightarrow> (\<exists>(t :: transcript) (c :: pairing_confirm).
     ts_code t = code \<and> ts_responder t = di_device (ns_identity n) \<and> ts_responder_key t = di_public (ns_identity n) \<and>
     ts_initiator t = pd_device_id p \<and> ts_initiator_key t = pd_static_public p \<and>
     ts_nonce_a t = pc_nonce_a c \<and> pc_mac c = transcript_mac E MAC_A_LABEL t)"

text \<open>What the showing side checked.\<close>

definition proved_code :: "env \<Rightarrow> paired_device \<Rightarrow> bool" where
  "proved_code E p \<longleftrightarrow> (\<exists>i (a :: pairing_accept) (f :: pairing_finish). own_offer E i \<and> pf_mac f = transcript_mac E MAC_B_LABEL (initiator_transcript i a) \<and>
     pd_device_id p = pa_device_id a \<and> pd_static_public p = pa_static_public a)"

lemma ceremony_loop_proof:
  assumes "ceremony_loop E w n lbl code ts = Inr (sent, l, p)"
  shows "showed_code E n code p"
  using assms
proof (induction ts)
  case (Cons t ts)
  show ?case
  proof (cases "showed_code E n code p")
    case False
    with Cons obtain call where t: "t = Some call" by (cases t) auto
    from False Cons t obtain offer where o: "call [WireLookup (code_tag E code)] = Some (WireOffer offer)"
      by (auto split: option.splits pairing_wire.splits)
    from Cons.prems t o obtain r a c f where
      r: "responder_from_offer (w_nonce w) offer code (ns_identity n) lbl (platform_of (w_os w)) (ns_addresses n) (w_now w) = Inr (r, a)"
      and v: "responder_verify E c (w_now w) r = Inr (f, p)"
      by (auto split: sum.splits option.splits pairing_wire.splits)
    from r have parts: "re_offer r = offer" "re_code r = code" "re_accept r = a"
      "pa_device_id a = di_device (ns_identity n)" "pa_static_public a = di_public (ns_identity n)"
      by (auto simp: responder_from_offer_def Let_def split: if_splits)
    from v have "pc_mac c = transcript_mac E MAC_A_LABEL (responder_transcript r c)"
      "pd_device_id p = po_device_id offer" "pd_static_public p = po_static_public offer"
      by (auto simp: responder_verify_def Let_def parts split: if_splits)
    then show ?thesis
      unfolding showed_code_def
      by (intro exI [of _ "responder_transcript r c"] exI [of _ c] conjI)
        (simp_all add: responder_transcript_def parts)
  qed
qed simp

lemma commit_trusted:
  assumes "dm_net d = Some n" "dm_net (snd (commit_pairing w p d)) = Some n'" "(k, q) \<in> trusted n'"
  shows "(k, q) \<in> trusted n \<or> q = p"
  using assms btree_insert_entries [of k q "pd_device_id p" p "tr_peers (ns_trust n)"]
  by (auto simp: commit_pairing_def Let_def add_peer_def split: if_splits)

lemma apply_net [simp]: "dm_net (snd (daemon_apply E w i d)) = dm_net d"
  by (auto simp: daemon_apply_def split: sum.split option.split prod.split)

lemma settle_net [simp]: "dm_net (settle E w out d) = dm_net d"
  by (simp add: settle_def apply_incoming_def split: option.split)

lemma capture_trust: "map_option ns_trust (dm_net (on_capture E w ev d)) = map_option ns_trust (dm_net d)"
  by (auto simp: on_capture_def store_capture_def announce_capture_def Let_def option.map_comp comp_def nudge_def
      split: capture_event.split prod.split option.split sum.split insert_outcome.split)

lemma pair_with_code_trusted:
  assumes "dm_net d = Some n" "dm_net (snd (pair_with_code E w typed d)) = Some n'" "(k, q) \<in> trusted n'"
  shows "(k, q) \<in> trusted n \<or> (\<exists>code. code_parse typed = Inr code \<and> showed_code E n code q)"
proof (cases "(k, q) \<in> trusted n")
  case False
  with assms obtain code where code: "code_parse typed = Inr code"
    by (auto simp: pair_with_code_def split: sum.splits)
  obtain r s where b: "begin_answering (ns_pairing n) = (r, s)" by force
  let ?d1 = "set_pairing_state (state_cancel s) d"
  let ?run = "ceremony_loop E w n (s_device_label (dm_settings d)) code
    (map (w_call w) (pairing_targets (w_found w) (w_tailnet w) (ns_table n)))"
  have d1: "dm_net ?d1 = Some (n\<lparr>ns_pairing := state_cancel s\<rparr>)" using assms(1) by simp
  from False assms code b d1 obtain sent l p where run: "?run = Inr (sent, l, p)" and r: "r = Inr ()"
    by (cases ?run) (auto simp: pair_with_code_def Let_def split: sum.splits)
  obtain ok d2 where c: "commit_pairing w p ?d1 = (ok, d2)" by force
  from assms code b r run c have "\<exists>n2. dm_net d2 = Some n2 \<and> ns_trust n2 = ns_trust n'"
    by (cases ok) (auto simp: pair_with_code_def Let_def nudge_def)
  then obtain n2 where n2: "dm_net d2 = Some n2" "ns_trust n2 = ns_trust n'" by blast
  from commit_trusted [OF d1, of w p n2 k q] c n2 assms(3) False have "q = p" by simp
  with ceremony_loop_proof [OF run] code show ?thesis by blast
qed simp

lemma handle_trusted:
  assumes "dm_net d = Some n" "dm_net (snd (handle E w req d)) = Some n'" "(k, q) \<in> trusted n'"
  shows "(k, q) \<in> trusted n \<or> (\<exists>typed code. req = ReqPairWithCode typed \<and> code_parse typed = Inr code \<and> showed_code E n code q)"
proof (cases req)
  case (ReqPairWithCode typed)
  with assms pair_with_code_trusted show ?thesis by (auto simp: handle_def)
next
  case (ReqForgetDevice dev)
  with assms show ?thesis
    by (auto simp: handle_def forget_device_def remove_peer_def split: option.splits if_splits)
next
  case ReqBeginPairing
  with assms show ?thesis
    by (auto simp: handle_def begin_pairing_def split: sum.splits prod.splits)
next
  case (ReqSetPinned i b)
  with assms show ?thesis
    by (auto simp: handle_def handle_set_pinned_def Let_def nudge_def split: sum.splits prod.splits option.splits)
next
  case (ReqDelete i)
  with assms show ?thesis by (auto simp: handle_def handle_delete_def nudge_def split: sum.splits prod.splits)
next
  case (ReqPaste i)
  then have "dm_net (snd (handle E w req d)) = dm_net d"
    using apply_net [of E w i d] by (auto simp: handle_def handle_paste_def split: prod.splits simp del: apply_net)
  with assms show ?thesis by simp
qed (use assms in \<open>auto simp: handle_def handle_get_payload_def Let_def split: sum.splits option.splits prod.splits if_splits\<close>)

lemma finish_proved:
  assumes "state_inv E s" "state_finish f s = (Inr p, s')"
  shows "proved_code E p"
proof -
  obtain w where w: "s = Proving w" "awaiting_verify f w = Inr p"
    using assms(2) by (cases s) (auto simp: state_finish_def)
  with assms(1) obtain i a now c where i: "own_offer E i" "initiator_accept E a now i = Inr (c, w)" by auto
  with w(2) have "pf_mac f = transcript_mac E MAC_B_LABEL (initiator_transcript i a)"
    "pd_device_id p = pa_device_id a" "pd_static_public p = pa_static_public a"
    by (auto simp: initiator_accept_def awaiting_verify_def Let_def split: if_splits)
  with i(1) show ?thesis unfolding proved_code_def by blast
qed

lemma ceremony_trusted:
  assumes "pairing_ceremony E w sent phase msg d = ((phase', reply), d')" "dm_net d = Some n" "dm_net d' = Some n'"
    "(k, q) \<in> trusted n'" "(k, q) \<notin> trusted n" "state_inv E (ns_pairing n)"
  shows "proved_code E q"
proof -
  obtain f where f: "phase = AwaitFinish" "msg = Some (WireFinish f)"
    using assms by (auto simp: pairing_ceremony_def split: serve_phase.splits option.splits pairing_wire.splits prod.splits
        lookup_outcome.splits sum.splits)
  obtain res s where fin: "state_finish f (ns_pairing n) = (res, s)" by force
  with assms f obtain p where p: "res = Inr p"
    by (cases res) (auto simp: pairing_ceremony_def)
  let ?d1 = "set_pairing_state s d"
  obtain ok d2 where c: "commit_pairing w p ?d1 = (ok, d2)" by force
  have d1: "dm_net ?d1 = Some (n\<lparr>ns_pairing := s\<rparr>)" using assms(2) by simp
  have "\<exists>n2. dm_net d2 = Some n2 \<and> ns_trust n2 = ns_trust n'"
    using assms(1-3) f fin p c by (cases ok; cases sent) (auto simp: pairing_ceremony_def nudge_def)
  then obtain n2 where n2: "dm_net d2 = Some n2" "ns_trust n2 = ns_trust n'" by blast
  from commit_trusted [OF d1, of w p n2 k q] c n2 assms(4,5) have "q = p" by simp
  with finish_proved [OF assms(6)] fin p show ?thesis by blast
qed


section \<open>Two daemons\<close>

text \<open>One call on the showing device: the messages in order, and the answer to the last.\<close>

fun serve_messages :: "env \<Rightarrow> world \<Rightarrow> pairing_wire list \<Rightarrow> serve_phase \<Rightarrow> daemon \<Rightarrow> pairing_wire option \<times> serve_phase \<times> daemon" where
  "serve_messages E w [] phase d = (None, phase, d)"
| "serve_messages E w (m # ms) phase d =
     (case pairing_ceremony E w True phase (Some m) d of
        ((phase', reply), d') \<Rightarrow> if ms = [] then (reply, phase', d') else serve_messages E w ms phase' d')"

definition answers :: "env \<Rightarrow> world \<Rightarrow> daemon \<Rightarrow> pairing_peer" where
  "answers E w d ms = fst (serve_messages E w ms AwaitLookup d)"

lemma ceremony_loop_finds:
  assumes "\<forall>t \<in> set ts. t = None \<or> t = Some call" "Some call \<in> set ts" "ceremony_loop E w n lbl code [Some call] = Inr r"
  shows "ceremony_loop E w n lbl code ts = Inr r"
  using assms
proof (induction ts)
  case (Cons t ts)
  show ?case
  proof (cases t)
    case None
    with Cons show ?thesis by auto
  next
    case (Some c)
    with Cons.prems(1) have "t = Some call" by auto
    then show ?thesis using assms(3) by (auto split: option.splits pairing_wire.splits)
  qed
qed simp

lemma commit_pairing_ok:
  assumes "dm_net d = Some n" "w_identity_save_ok w" "trust_wf (ns_trust n)"
  shows "\<exists>d' n'. commit_pairing w p d = (True, d') \<and> dm_net d' = Some n' \<and> ns_identity n' = ns_identity n \<and>
    trust_peer (ns_trust n') (pd_device_id p) = Some p \<and> ns_saved_trust n' = ns_trust n'"
  using assms by (simp add: commit_pairing_def Let_def trust_peer_def add_peer_def trust_wf_def map_of_btree_insert)

lemma pairing_succeeds:
  assumes A: "dm_net dA = Some nA" "ns_pairing nA = Idle" "trust_wf (ns_trust nA)" "code_wf (w_code wA)"
      "begin_pairing E wA dA = (RespPairingCode shown expires, dA1)" "w_now wS \<le> expires" "w_identity_save_ok wS"
    and B: "dm_net dB = Some nB" "ns_pairing nB = Idle" "trust_wf (ns_trust nB)" "w_now wB \<le> expires" "w_identity_save_ok wB"
    and net: "addr \<in> set (pairing_targets (w_found wB) (w_tailnet wB) (ns_table nB))" "w_call wB addr = Some (answers E wS dA1)"
      "\<forall>a. a \<noteq> addr \<longrightarrow> w_call wB a = None"
  shows "\<exists>dB1 nB1 p sent dA2 nA2 q.
    pair_with_code E wB shown dB = (RespPaired (s_device_label (dm_settings dA)), dB1) \<and>
    dm_net dB1 = Some nB1 \<and> trust_peer (ns_trust nB1) (di_device (ns_identity nA)) = Some p \<and>
    pd_static_public p = di_public (ns_identity nA) \<and> ns_saved_trust nB1 = ns_trust nB1 \<and>
    serve_messages E wS sent AwaitLookup dA1 = (Some WireDone, ServedOk, dA2) \<and>
    (\<exists>l p'. ceremony_loop E wB nB (s_device_label (dm_settings dB)) (w_code wA)
       (map (w_call wB) (pairing_targets (w_found wB) (w_tailnet wB) (ns_table nB))) = Inr (sent, l, p')) \<and>
    dm_net dA2 = Some nA2 \<and> trust_peer (ns_trust nA2) (di_device (ns_identity nB)) = Some q \<and>
    pd_static_public q = di_public (ns_identity nB) \<and> ns_saved_trust nA2 = ns_trust nA2"
proof -
  let ?code = "w_code wA" and ?idA = "ns_identity nA" and ?idB = "ns_identity nB" and ?la = "s_device_label (dm_settings dA)"
    and ?lb = "s_device_label (dm_settings dB)"
  define i where "i = initiator_create E (w_nonce wA) ?code ?idA ?la (platform_of (w_os wA)) (ns_addresses nA) (w_now wA)"
  let ?n1 = "nA\<lparr>ns_pairing := Offering i expires 0\<rparr>"
  have idle: "snd (expire_if_stale (w_now wA) Idle) = Idle" by (simp add: expire_if_stale_def)
  have sb: "state_begin E (w_nonce wA) ?code ?idA ?la (platform_of (w_os wA)) (ns_addresses nA) (w_now wA) Idle =
      (Inr (in_code i, po_expires_at_ms (in_offer i)), Offering i (po_expires_at_ms (in_offer i)) 0)"
    by (simp add: state_begin_def is_busy_def Let_def i_def)
  from A(5) have e: "expires = po_expires_at_ms (in_offer i)" and shown: "shown = code_display ?code"
    and dA1: "dA1 = dA\<lparr>dm_net := Some ?n1\<rparr>"
    by (auto simp: begin_pairing_def A(1,2) idle sb) (simp_all add: i_def initiator_create_def)
  have ttl: "expires = sat_add (w_now wA) 180000"
    by (simp add: e i_def initiator_create_def PAIRING_OFFER_TTL_SECS_def)
  from honest_ceremony [OF A(4), of "w_now wB" "w_now wA" "w_now wS" "w_now wB" E "w_nonce wA" ?idA ?la
      "platform_of (w_os wA)" "ns_addresses nA" "w_nonce wB" ?idB ?lb "platform_of (w_os wB)" "ns_addresses nB", folded i_def ttl]
    A(6) B(4)
  obtain r a c w f p q where run: "code_parse (code_display ?code) = Inr ?code" "initiator_answers E i (code_tag E ?code)"
    "responder_from_offer (w_nonce wB) (in_offer i) ?code ?idB ?lb (platform_of (w_os wB)) (ns_addresses nB) (w_now wB) = Inr (r, a)"
    "initiator_accept E a (w_now wS) i = Inr (c, w)" "responder_verify E c (w_now wB) r = Inr (f, p)" "awaiting_verify f w = Inr q"
    and ids: "pd_device_id p = di_device ?idA" "pd_static_public p = di_public ?idA"
      "pd_device_id q = di_device ?idB" "pd_static_public q = di_public ?idB" "pd_label p = ?la"
    by (auto simp: Let_def)
  let ?m1 = "WireLookup (code_tag E ?code)" and ?sent = "[WireLookup (code_tag E ?code), WireAccept a, WireFinish f]"
  have on_time: "\<not> expires < w_now wS" using A(6) by simp
  have s1: "pairing_ceremony E wS True AwaitLookup (Some ?m1) dA1 = ((AwaitAccept, Some (WireOffer (in_offer i))), dA1)"
    using run(2) on_time by (simp add: pairing_ceremony_def dA1 state_lookup_def expire_if_stale_def set_pairing_state_def)
  have s2: "pairing_ceremony E wS True AwaitAccept (Some (WireAccept a)) dA1 =
      ((AwaitFinish, Some (WireConfirm c)), set_pairing_state (Proving w) dA1)"
    using run(4) on_time by (simp add: pairing_ceremony_def dA1 answer_accept_def)
  have "dm_net (set_pairing_state Idle (set_pairing_state (Proving w) dA1)) = Some (?n1\<lparr>ns_pairing := Idle\<rparr>)"
    by (simp add: dA1)
  from commit_pairing_ok [OF this A(7), of q] A(3) obtain d2 n2 where
    d2: "commit_pairing wS q (set_pairing_state Idle (set_pairing_state (Proving w) dA1)) = (True, d2)"
      "dm_net d2 = Some n2" "trust_peer (ns_trust n2) (pd_device_id q) = Some q" "ns_saved_trust n2 = ns_trust n2"
    by auto
  let ?dA2 = "sync_soon (daemon_emit (PairingSucceeded (pd_label q)) d2)"
  have s3: "pairing_ceremony E wS True AwaitFinish (Some (WireFinish f)) (set_pairing_state (Proving w) dA1) =
      ((ServedOk, Some WireDone), ?dA2)"
    using run(6) d2(1) by (simp add: pairing_ceremony_def dA1 state_finish_def)
  have served: "serve_messages E wS ?sent AwaitLookup dA1 = (Some WireDone, ServedOk, ?dA2)" by (simp add: s1 s2 s3)
  have "ceremony_loop E wB nB ?lb ?code [Some (answers E wS dA1)] = Inr (?sent, ?la, p)"
    by (simp add: answers_def s1 s2 run ids)
  then have loop: "ceremony_loop E wB nB ?lb ?code
      (map (w_call wB) (pairing_targets (w_found wB) (w_tailnet wB) (ns_table nB))) = Inr (?sent, ?la, p)"
  proof (rule ceremony_loop_finds [rotated 2])
    show "\<forall>t \<in> set (map (w_call wB) (pairing_targets (w_found wB) (w_tailnet wB) (ns_table nB))).
        t = None \<or> t = Some (answers E wS dA1)"
      using net(2,3) by (metis (no_types, lifting) ex_map_conv)
    show "Some (answers E wS dA1) \<in> set (map (w_call wB) (pairing_targets (w_found wB) (w_tailnet wB) (ns_table nB)))"
      using net(1,2) by (metis image_eqI set_map)
  qed
  have "dm_net (set_pairing_state (state_cancel Answering) dB) = Some (nB\<lparr>ns_pairing := state_cancel Answering\<rparr>)"
    by (simp add: B(1))
  from commit_pairing_ok [OF this B(5), of p] B(3) obtain d3 n3 where
    d3: "commit_pairing wB p (set_pairing_state (state_cancel Answering) dB) = (True, d3)"
      "dm_net d3 = Some n3" "trust_peer (ns_trust n3) (pd_device_id p) = Some p" "ns_saved_trust n3 = ns_trust n3"
    by auto
  have "pair_with_code E wB shown dB = (RespPaired ?la, sync_soon d3)"
    using run(1) loop d3(1) by (simp add: pair_with_code_def B(1,2) shown begin_answering_def is_busy_def Let_def)
  with d3 d2 served loop ids show ?thesis by (fastforce simp: nudge_def)
qed

text \<open>
  C7. Pairing succeeds: the device shows a code, the user types what it shows on another device that can
  reach it before the offer expires, and nobody else answers. Then the typing side reports the other
  device's label and trusts its key; the messages it sent make the showing side answer that it is
  done and trust the typing side's key. Both have written the new trust set to disk.
\<close>

theorem two_daemons_pair:
  assumes A: "dm_net dA = Some nA" "ns_pairing nA = Idle" "trust_wf (ns_trust nA)" "code_wf (w_code wA)"
      "begin_pairing E wA dA = (RespPairingCode shown expires, dA1)" "w_now wS \<le> expires" "w_identity_save_ok wS"
    and B: "dm_net dB = Some nB" "ns_pairing nB = Idle" "trust_wf (ns_trust nB)" "w_now wB \<le> expires" "w_identity_save_ok wB"
    and net: "addr \<in> set (pairing_targets (w_found wB) (w_tailnet wB) (ns_table nB))" "w_call wB addr = Some (answers E wS dA1)"
      "\<forall>a. a \<noteq> addr \<longrightarrow> w_call wB a = None"
  shows "\<exists>dB1 nB1 p sent dA2 nA2 q.
    pair_with_code E wB shown dB = (RespPaired (s_device_label (dm_settings dA)), dB1) \<and>
    dm_net dB1 = Some nB1 \<and> trust_peer (ns_trust nB1) (di_device (ns_identity nA)) = Some p \<and>
    pd_static_public p = di_public (ns_identity nA) \<and> ns_saved_trust nB1 = ns_trust nB1 \<and>
    serve_messages E wS sent AwaitLookup dA1 = (Some WireDone, ServedOk, dA2) \<and>
    (\<exists>l p'. ceremony_loop E wB nB (s_device_label (dm_settings dB)) (w_code wA)
       (map (w_call wB) (pairing_targets (w_found wB) (w_tailnet wB) (ns_table nB))) = Inr (sent, l, p')) \<and>
    dm_net dA2 = Some nA2 \<and> trust_peer (ns_trust nA2) (di_device (ns_identity nB)) = Some q \<and>
    pd_static_public q = di_public (ns_identity nB) \<and> ns_saved_trust nA2 = ns_trust nA2"
  by (rule pairing_succeeds [OF assms])

section \<open>An example\<close>

definition sample_addr :: socket_addr where
  "sample_addr = ([10, 0, 0, 1], 7420)"

definition shown_daemon :: daemon where
  "shown_daemon = snd (begin_pairing sample_env sample_world (sample_start 1))"

definition typing_world :: world where
  "typing_world = sample_world\<lparr>w_nonce := replicate 32 8,
     w_found := [PeerFound \<lparr>dp_device = DeviceId 1, dp_label = [], dp_platform = [], dp_fingerprint = [], dp_addresses = [sample_addr]\<rparr>],
     w_call := (\<lambda>_. None)(sample_addr := Some (answers sample_env sample_world shown_daemon))\<rparr>"

abbreviation sample_net :: "uuid \<Rightarrow> net_state" where
  "sample_net u \<equiv> \<lparr>ns_identity = sample_identity u (ucast u), ns_trust = trust_new (DeviceId u), ns_saved_trust = trust_new (DeviceId u),
     ns_pairing = Idle, ns_table = [], ns_nudged = False, ns_addresses = []\<rparr>"

lemma sample_start_net: "dm_net (sample_start u) = Some (sample_net u)"
  by (simp add: sample_start_def daemon_start_def Let_def default_settings_def bind_transport_def reachable_addresses_def
      reload_from_trust_def trust_new_def)

lemma sample_start_label: "s_device_label (dm_settings (sample_start u)) = []"
  by (simp add: sample_start_def daemon_start_def daemon_new_def Let_def default_settings_def split: option.split)

lemma sample_begin:
  "begin_pairing sample_env sample_world (sample_start 1) =
     (RespPairingCode (code_display (PairingCode [1, 2, 3, 4, 5, 6])) 181000, shown_daemon)"
  by (simp add: shown_daemon_def begin_pairing_def sample_start_net expire_if_stale_def state_begin_def is_busy_def Let_def
      sample_world_def initiator_create_def PAIRING_OFFER_TTL_SECS_def sat_add_def)

lemma sample_pairing_conditions:
  "ns_pairing (sample_net u) = Idle" "trust_wf (ns_trust (sample_net u))" "code_wf (w_code sample_world)"
  "w_now sample_world \<le> 181000" "w_identity_save_ok sample_world" "w_now typing_world \<le> 181000"
  "w_identity_save_ok typing_world" "w_call typing_world sample_addr = Some (answers sample_env sample_world shown_daemon)"
  "\<forall>a. a \<noteq> sample_addr \<longrightarrow> w_call typing_world a = None"
  by (simp_all add: trust_new_wf sample_world_def typing_world_def code_wf_def)

lemma sample_target: "sample_addr \<in> set (pairing_targets (w_found typing_world) (w_tailnet typing_world) (ns_table (sample_net 2)))"
  by (simp add: pairing_targets_def typing_world_def tailnet_targets_def sample_world_def)

lemmas sample_run_conditions = sample_start_net [of 1] sample_pairing_conditions(1,2) [of 1] sample_pairing_conditions(3)
  sample_begin sample_pairing_conditions(4,5) sample_start_net [of 2] sample_pairing_conditions(1,2) [of 2]
  sample_pairing_conditions(6,7) sample_target sample_pairing_conditions(8,9)

theorem two_daemons_pair_witness:
  "\<exists>d. pair_with_code sample_env typing_world (code_display (PairingCode [1, 2, 3, 4, 5, 6])) (sample_start 2) = (RespPaired [], d)"
  using two_daemons_pair [OF sample_run_conditions] unfolding sample_start_label by (elim exE conjE) (rule exI)


end
