(* ===== verification/Wire.thy ===== *)
theory Wire
  imports Prelude
begin

text \<open>
  Byte streams and length prefixes, which the network link (\<open>clipse-net/src/quic.rs\<close>,
  \<open>framing.rs\<close>) and the local protocol (\<open>clipse-ipc/src/codec.rs\<close>) share: \<open>u32::to_le_bytes\<close> and
  \<open>from_le_bytes\<close>, and \<open>read_exact\<close> on the receiving end of a stream. The end has the bytes that
  have arrived and not been read, and knows whether more can come; a read that has to wait leaves it
  as it is (every stream has one reader, so a read that waits in the middle of a frame and one that
  has not begun cannot be told apart).

  The locale \<open>wire_format\<close> is what a framing promises: a reader takes back what the writer put on
  the stream and waits while a frame is incomplete. From this follows, once for all framings, that
  any way the bytes are cut up on their way gives the same frames in the same order.
\<close>

unbundle bit_operations_syntax

section \<open>Little-endian lengths\<close>

definition le_bytes_u32 :: "u32 \<Rightarrow> bytes" where
  "le_bytes_u32 w = [ucast w, ucast (drop_bit 8 w), ucast (drop_bit 16 w), ucast (drop_bit 24 w)]"

fun from_le_bytes_u32 :: "bytes \<Rightarrow> u32" where
  "from_le_bytes_u32 [a, b, c, d] = ucast a OR push_bit 8 (ucast b) OR push_bit 16 (ucast c) OR push_bit 24 (ucast d)"
| "from_le_bytes_u32 _ = 0"

lemma length_le_bytes_u32 [simp]: "length (le_bytes_u32 w) = 4"
  by (simp add: le_bytes_u32_def)

lemma from_le_le_u32 [simp]: "from_le_bytes_u32 (le_bytes_u32 w) = w"
proof (rule bit_word_eqI)
  fix n assume n: "n < LENGTH(32)"
  then consider "n < 8" | "8 \<le> n" "n < 16" | "16 \<le> n" "n < 24" | "24 \<le> n" "n < 32"
    by simp (meson not_less)
  then show "bit (from_le_bytes_u32 (le_bytes_u32 w)) n = bit w n"
    by cases (auto simp: le_bytes_u32_def bit_simps)
qed

lemma unat_of_length: "length bs < 2 ^ 32 \<Longrightarrow> unat (of_nat (length bs) :: u32) = length bs"
  by (simp add: unat_of_nat)

section \<open>Streams\<close>

record stream =
  rs_bytes :: bytes
  rs_ended :: bool

datatype 'a polled = Pending | Ready 'a

definition read_exact :: "nat \<Rightarrow> stream \<Rightarrow> (bytes option \<times> stream) polled" where
  "read_exact n s =
     (if n \<le> length (rs_bytes s) then Ready (Some (take n (rs_bytes s)), s\<lparr>rs_bytes := drop n (rs_bytes s)\<rparr>)
      else if rs_ended s then Ready (None, s\<lparr>rs_bytes := []\<rparr>)
      else Pending)"

definition arrive :: "bytes \<Rightarrow> stream \<Rightarrow> stream" where
  "arrive bs s = s\<lparr>rs_bytes := rs_bytes s @ bs\<rparr>"

lemma read_exact_append [simp]:
  "length p = n \<Longrightarrow> read_exact n (s\<lparr>rs_bytes := p @ rest\<rparr>) = Ready (Some p, s\<lparr>rs_bytes := rest\<rparr>)"
  by (simp add: read_exact_def)

text \<open>Reading as many frames as there are: at most \<open>n\<close>, then the state of the stream.\<close>

fun drain :: "(stream \<Rightarrow> (('e + 'm) \<times> stream) polled) \<Rightarrow> nat \<Rightarrow> stream \<Rightarrow> 'm list \<times> stream" where
  "drain read 0 s = ([], s)"
| "drain read (Suc n) s =
     (case read s of
        Ready (Inr m, s') \<Rightarrow> map_prod ((#) m) id (drain read n s')
      | _ \<Rightarrow> ([], s))"

locale wire_format =
  fixes put :: "'m \<Rightarrow> bytes"
    and get :: "stream \<Rightarrow> (('e + 'm) \<times> stream) polled"
    and sendable :: "'m \<Rightarrow> bool"
  assumes get_put: "sendable m \<Longrightarrow> get (s\<lparr>rs_bytes := put m @ rest\<rparr>) = Ready (Inr m, s\<lparr>rs_bytes := rest\<rparr>)"
    and get_partial: "sendable m \<Longrightarrow> p @ q = put m \<Longrightarrow> q \<noteq> [] \<Longrightarrow> get \<lparr>rs_bytes = p, rs_ended = False\<rparr> = Pending"
    and get_empty: "get \<lparr>rs_bytes = [], rs_ended = False\<rparr> = Pending"
begin

definition on_wire :: "'m list \<Rightarrow> bytes" where
  "on_wire ms = concat (map put ms)"

lemma on_wire_simps [simp]: "on_wire [] = []" "on_wire (m # ms) = put m @ on_wire ms"
  by (simp_all add: on_wire_def)

lemma drain_all:
  "list_all sendable ms \<Longrightarrow> drain get (length ms) (s\<lparr>rs_bytes := on_wire ms @ rest\<rparr>) = (ms, s\<lparr>rs_bytes := rest\<rparr>)"
  by (induction ms) (simp_all add: get_put)

text \<open>
  However much of the stream has arrived, what can be read is the frames that are complete, and the
  next one is waited for.
\<close>

lemma drain_prefix:
  assumes "list_all sendable ms" "p @ q = on_wire ms"
  shows "\<exists>k \<le> length ms. \<exists>p'. drain get (length ms) \<lparr>rs_bytes = p, rs_ended = False\<rparr> =
      (take k ms, \<lparr>rs_bytes = p', rs_ended = False\<rparr>) \<and> p' @ q = on_wire (drop k ms) \<and>
      get \<lparr>rs_bytes = p', rs_ended = False\<rparr> = Pending"
  using assms
proof (induction ms arbitrary: p)
  case Nil
  then show ?case by (simp add: get_empty)
next
  case (Cons m ms)
  from Cons.prems(2) have "p @ q = put m @ on_wire ms" by simp
  then consider r where "p = put m @ r" "r @ q = on_wire ms" | r where "p @ r = put m" "r \<noteq> []"
    by (auto simp: append_eq_append_conv2) (metis append.right_neutral append_eq_append_conv2)
  then show ?case
  proof cases
    case 1
    with Cons.prems obtain k p' where k: "k \<le> length ms"
      "drain get (length ms) \<lparr>rs_bytes = r, rs_ended = False\<rparr> = (take k ms, \<lparr>rs_bytes = p', rs_ended = False\<rparr>)"
      "p' @ q = on_wire (drop k ms)" "get \<lparr>rs_bytes = p', rs_ended = False\<rparr> = Pending"
      using Cons.IH [of r] by auto
    have "get \<lparr>rs_bytes = p, rs_ended = False\<rparr> = Ready (Inr m, \<lparr>rs_bytes = r, rs_ended = False\<rparr>)"
      using get_put [of m r "\<lparr>rs_bytes = [], rs_ended = False\<rparr>"] Cons.prems(1) 1(1) by simp
    with k show ?thesis by (intro exI [of _ "Suc k"]) simp
  next
    case 2
    then have "get \<lparr>rs_bytes = p, rs_ended = False\<rparr> = Pending" using get_partial [of m p r] Cons.prems(1) by simp
    with Cons.prems(2) show ?thesis by (intro exI [of _ 0]) simp
  qed
qed

text \<open>So two deliveries of the same bytes, cut at any point, give the same frames as one.\<close>

lemma drain_in_pieces:
  assumes "list_all sendable ms" "p @ q = on_wire ms"
  shows "case drain get (length ms) \<lparr>rs_bytes = p, rs_ended = False\<rparr> of
    (got, s) \<Rightarrow> drain get (length ms - length got) (arrive q s) = (drop (length got) ms, \<lparr>rs_bytes = [], rs_ended = False\<rparr>)
      \<and> got = take (length got) ms"
proof -
  obtain k p' where k: "k \<le> length ms"
    "drain get (length ms) \<lparr>rs_bytes = p, rs_ended = False\<rparr> = (take k ms, \<lparr>rs_bytes = p', rs_ended = False\<rparr>)"
    "p' @ q = on_wire (drop k ms)"
    using drain_prefix [OF assms] by blast
  have "list_all sendable (drop k ms)" using assms(1) by (auto simp: list_all_iff dest: in_set_dropD)
  from drain_all [OF this, of "[]" "\<lparr>rs_bytes = [], rs_ended = False\<rparr>"] k(3)
  have "drain get (length (drop k ms)) (arrive q \<lparr>rs_bytes = p', rs_ended = False\<rparr>) =
      (drop k ms, \<lparr>rs_bytes = [], rs_ended = False\<rparr>)"
    by (simp add: arrive_def)
  with k(1,2) show ?thesis by simp
qed

end

end
