(* ===== verification/Noise_Session.thy ===== *)
theory Noise_Session
  imports Pairing
begin

text \<open>
  Encrypted sessions (\<open>clipse-crypto/src/session.rs\<close>). The Noise implementation is the crate
  \<open>snow\<close>: the fields of a record that is an argument, as are the random bytes a handshake draws.
  A call that fails leaves the state of \<open>snow\<close> as it was.

  \<open>snow_ok\<close> states what the crate documents: a handshake between two honest sides goes through,
  tells the responder the static key of the initiator and leaves both with matching keys; a
  transport message is 16 bytes longer than its plaintext, at most 65535 bytes long, and opens on
  the other side if it is the next one; and a message that opens is the one that sealing gives.
  Keys, counters and the cipher are named by a second record that no definition of the program uses.

  Shown: a handshake is answered only for a key in the trust set and the session is bound to the
  device of that key and to the epoch; two devices that trust each other's keys get a session each
  with the other; what one seals the other opens, in order, while the counters allow; and without
  \<open>rekey\<close>, which nothing calls, one session carries at most 10000 messages and 64 MiB and a bit.
\<close>

section \<open>The crate\<close>

record ('h, 't) snow =
  build_initiator :: "bytes \<Rightarrow> bytes \<Rightarrow> bytes \<Rightarrow> 'h option"
  build_responder :: "bytes \<Rightarrow> bytes \<Rightarrow> 'h option"
  hs_write_message :: "'h \<Rightarrow> bytes \<Rightarrow> ('h \<times> bytes) option"
  hs_read_message :: "'h \<Rightarrow> bytes \<Rightarrow> ('h \<times> bytes) option"
  get_remote_static :: "'h \<Rightarrow> bytes option"
  into_transport_mode :: "'h \<Rightarrow> 't option"
  ts_write_message :: "'t \<Rightarrow> bytes \<Rightarrow> ('t \<times> bytes) option"
  ts_read_message :: "'t \<Rightarrow> bytes \<Rightarrow> ('t \<times> bytes) option"
  rekey_outgoing :: "'t \<Rightarrow> 't"
  rekey_incoming :: "'t \<Rightarrow> 't"

text \<open>What the specification of the crate speaks about.\<close>

record ('k, 't) cipher_view =
  out_key :: "'t \<Rightarrow> 'k"
  in_key :: "'t \<Rightarrow> 'k"
  out_nonce :: "'t \<Rightarrow> nat"
  in_nonce :: "'t \<Rightarrow> nat"
  aead :: "'k \<Rightarrow> nat \<Rightarrow> bytes \<Rightarrow> bytes"

definition MAX_NOISE_MESSAGE :: nat where
  "MAX_NOISE_MESSAGE = 65535"

definition TAG_LEN :: nat where
  "TAG_LEN = 16"

definition handshake_ok :: "('h, 't) snow \<Rightarrow> ('k, 't) cipher_view \<Rightarrow> (bytes \<Rightarrow> bytes) \<Rightarrow> bool" where
  "handshake_ok N V x25519 \<longleftrightarrow>
     (\<forall>ri rr ki kr. length ki = 32 \<longrightarrow> length kr = 32 \<longrightarrow>
        (\<exists>h0 h1 h2 r0 r1 r2 m1 m2 ti tr.
           build_initiator N ri ki (x25519 kr) = Some h0 \<and> hs_write_message N h0 [] = Some (h1, m1) \<and>
           build_responder N rr kr = Some r0 \<and> hs_read_message N r0 m1 = Some (r1, []) \<and>
           get_remote_static N r1 = Some (x25519 ki) \<and> hs_write_message N r1 [] = Some (r2, m2) \<and>
           hs_read_message N h1 m2 = Some (h2, []) \<and> into_transport_mode N h2 = Some ti \<and>
           into_transport_mode N r2 = Some tr \<and>
           length m1 \<le> MAX_NOISE_MESSAGE \<and> length m2 \<le> MAX_NOISE_MESSAGE \<and>
           out_key V ti = in_key V tr \<and> in_key V ti = out_key V tr \<and>
           out_nonce V ti = 0 \<and> in_nonce V ti = 0 \<and> out_nonce V tr = 0 \<and> in_nonce V tr = 0))"

definition transport_ok :: "('h, 't) snow \<Rightarrow> ('k, 't) cipher_view \<Rightarrow> bool" where
  "transport_ok N V \<longleftrightarrow>
     (\<forall>k n p. length (aead V k n p) = length p + TAG_LEN) \<and>
     (\<forall>t p. out_nonce V t < 2 ^ 64 - 1 \<longrightarrow> length p + TAG_LEN \<le> MAX_NOISE_MESSAGE \<longrightarrow>
        (\<exists>t'. ts_write_message N t p = Some (t', aead V (out_key V t) (out_nonce V t) p) \<and>
           out_nonce V t' = Suc (out_nonce V t) \<and> in_nonce V t' = in_nonce V t \<and>
           out_key V t' = out_key V t \<and> in_key V t' = in_key V t)) \<and>
     (\<forall>t p. length p + TAG_LEN > MAX_NOISE_MESSAGE \<longrightarrow> ts_write_message N t p = None) \<and>
     (\<forall>t p. in_nonce V t < 2 ^ 64 - 1 \<longrightarrow> length p + TAG_LEN \<le> MAX_NOISE_MESSAGE \<longrightarrow>
        (\<exists>t'. ts_read_message N t (aead V (in_key V t) (in_nonce V t) p) = Some (t', p) \<and>
           in_nonce V t' = Suc (in_nonce V t) \<and> out_nonce V t' = out_nonce V t \<and>
           out_key V t' = out_key V t \<and> in_key V t' = in_key V t)) \<and>
     (\<forall>t c t' p. ts_read_message N t c = Some (t', p) \<longrightarrow>
        c = aead V (in_key V t) (in_nonce V t) p \<and> length c \<le> MAX_NOISE_MESSAGE)"

definition snow_ok :: "('h, 't) snow \<Rightarrow> ('k, 't) cipher_view \<Rightarrow> (bytes \<Rightarrow> bytes) \<Rightarrow> bool" where
  "snow_ok N V x25519 \<longleftrightarrow> handshake_ok N V x25519 \<and> transport_ok N V"

section \<open>Sessions\<close>

definition REKEY_AFTER_MESSAGES :: u64 where
  "REKEY_AFTER_MESSAGES = 10000"

definition REKEY_AFTER_BYTES :: u64 where
  "REKEY_AFTER_BYTES = 64 * 1024 * 1024"

record 't noise_session =
  ss_remote_device :: device_id
  ss_remote_static :: public_key
  ss_epoch :: u64
  ss_transport :: 't
  ss_messages :: u64
  ss_bytes :: u64

definition session_new :: "device_id \<Rightarrow> public_key \<Rightarrow> u64 \<Rightarrow> 't \<Rightarrow> 't noise_session" where
  "session_new d k e t = \<lparr>ss_remote_device = d, ss_remote_static = k, ss_epoch = e, ss_transport = t,
     ss_messages = 0, ss_bytes = 0\<rparr>"

definition needs_rekey :: "'t noise_session \<Rightarrow> bool" where
  "needs_rekey s \<longleftrightarrow> ss_messages s \<ge> REKEY_AFTER_MESSAGES \<or> ss_bytes s \<ge> REKEY_AFTER_BYTES"

definition session_rekey :: "('h, 't) snow \<Rightarrow> 't noise_session \<Rightarrow> 't noise_session" where
  "session_rekey N s = s\<lparr>ss_transport := rekey_incoming N (rekey_outgoing N (ss_transport s)), ss_messages := 0, ss_bytes := 0\<rparr>"

definition session_write :: "('h, 't) snow \<Rightarrow> bytes \<Rightarrow> 't noise_session \<Rightarrow> (crypto_error + bytes) \<times> 't noise_session" where
  "session_write N plaintext s =
     (if needs_rekey s then (Inl RekeyRequired, s)
      else case ts_write_message N (ss_transport s) plaintext of
             None \<Rightarrow> (Inl HandshakeFailed, s)
           | Some (t, buf) \<Rightarrow> (Inr buf, s\<lparr>ss_transport := t, ss_messages := ss_messages s + 1,
               ss_bytes := ss_bytes s + of_nat (length buf)\<rparr>))"

definition session_read :: "('h, 't) snow \<Rightarrow> bytes \<Rightarrow> 't noise_session \<Rightarrow> (crypto_error + bytes) \<times> 't noise_session" where
  "session_read N ciphertext s =
     (if needs_rekey s then (Inl RekeyRequired, s)
      else case ts_read_message N (ss_transport s) ciphertext of
             None \<Rightarrow> (Inl DecryptFailed, s)
           | Some (t, buf) \<Rightarrow> (Inr buf, s\<lparr>ss_transport := t, ss_messages := ss_messages s + 1,
               ss_bytes := ss_bytes s + of_nat (length ciphertext)\<rparr>))"

section \<open>Handshakes\<close>

record 'h handshake_initiator =
  hi_state :: 'h
  hi_remote_device :: device_id
  hi_remote_static :: public_key
  hi_epoch :: u64

definition initiator_start :: "('h, 't) snow \<Rightarrow> bytes \<Rightarrow> device_identity \<Rightarrow> trust \<Rightarrow> device_id \<Rightarrow>
    crypto_error + 'h handshake_initiator \<times> bytes" where
  "initiator_start N random ident t remote =
     (case trust_peer t remote of
        None \<Rightarrow> Inl NotTrusted
      | Some peer \<Rightarrow>
          (case build_initiator N random (di_secret ident) (key_bytes (pd_static_public peer)) of
             None \<Rightarrow> Inl HandshakeFailed
           | Some state \<Rightarrow>
               (case hs_write_message N state [] of
                  None \<Rightarrow> Inl HandshakeFailed
                | Some (state', msg) \<Rightarrow>
                    Inr (\<lparr>hi_state = state', hi_remote_device = remote, hi_remote_static = pd_static_public peer,
                          hi_epoch = tr_epoch t\<rparr>, msg))))"

definition initiator_finish :: "('h, 't) snow \<Rightarrow> bytes \<Rightarrow> 'h handshake_initiator \<Rightarrow> crypto_error + 't noise_session" where
  "initiator_finish N response i =
     (case hs_read_message N (hi_state i) response of
        None \<Rightarrow> Inl HandshakeFailed
      | Some (state, _) \<Rightarrow>
          (case into_transport_mode N state of
             None \<Rightarrow> Inl HandshakeFailed
           | Some transport \<Rightarrow> Inr (session_new (hi_remote_device i) (hi_remote_static i) (hi_epoch i) transport)))"

record 'h handshake_responder =
  hr_state :: 'h
  hr_remote_device :: device_id
  hr_remote_static :: public_key
  hr_epoch :: u64

definition responder_accept :: "('h, 't) snow \<Rightarrow> bytes \<Rightarrow> device_identity \<Rightarrow> trust \<Rightarrow> bytes \<Rightarrow>
    crypto_error + 'h handshake_responder" where
  "responder_accept N random ident t first_message =
     (case build_responder N random (di_secret ident) of
        None \<Rightarrow> Inl HandshakeFailed
      | Some state \<Rightarrow>
          (case hs_read_message N state first_message of
             None \<Rightarrow> Inl HandshakeFailed
           | Some (state', _) \<Rightarrow>
               (case get_remote_static N state' of
                  None \<Rightarrow> Inl HandshakeFailed
                | Some k \<Rightarrow>
                    if length k \<noteq> 32 then Inl HandshakeFailed
                    else bind_r (authorize_static_key t (PublicKey k)) (\<lambda>peer.
                           Inr \<lparr>hr_state = state', hr_remote_device = pd_device_id peer,
                                hr_remote_static = PublicKey k, hr_epoch = tr_epoch t\<rparr>))))"

definition responder_respond :: "('h, 't) snow \<Rightarrow> 'h handshake_responder \<Rightarrow> crypto_error + 't noise_session \<times> bytes" where
  "responder_respond N r =
     (case hs_write_message N (hr_state r) [] of
        None \<Rightarrow> Inl HandshakeFailed
      | Some (state, buf) \<Rightarrow>
          (case into_transport_mode N state of
             None \<Rightarrow> Inl HandshakeFailed
           | Some transport \<Rightarrow>
               Inr (session_new (hr_remote_device r) (hr_remote_static r) (hr_epoch r) transport, buf)))"

section \<open>One message\<close>

lemma snow_okD: "snow_ok N V x \<Longrightarrow> handshake_ok N V x" "snow_ok N V x \<Longrightarrow> transport_ok N V"
  by (simp_all add: snow_ok_def)

lemma aead_length: "transport_ok N V \<Longrightarrow> length (aead V k n p) = length p + 16"
  by (simp add: transport_ok_def TAG_LEN_def)

lemma seal_ok:
  assumes "transport_ok N V" "out_nonce V t < 2 ^ 64 - 1" "length p + 16 \<le> 65535"
  obtains t' where "ts_write_message N t p = Some (t', aead V (out_key V t) (out_nonce V t) p)"
    "out_nonce V t' = Suc (out_nonce V t)" "in_nonce V t' = in_nonce V t"
    "out_key V t' = out_key V t" "in_key V t' = in_key V t"
  using assms unfolding transport_ok_def TAG_LEN_def MAX_NOISE_MESSAGE_def by metis

lemma open_ok:
  assumes "transport_ok N V" "in_nonce V t < 2 ^ 64 - 1" "length p + 16 \<le> 65535"
  obtains t' where "ts_read_message N t (aead V (in_key V t) (in_nonce V t) p) = Some (t', p)"
    "in_nonce V t' = Suc (in_nonce V t)" "out_nonce V t' = out_nonce V t"
    "out_key V t' = out_key V t" "in_key V t' = in_key V t"
  using assms unfolding transport_ok_def TAG_LEN_def MAX_NOISE_MESSAGE_def by metis

lemma write_length:
  assumes "transport_ok N V" "ts_write_message N t p = Some (t', c)" "out_nonce V t < 2 ^ 64 - 1"
  shows "length p + 16 \<le> 65535" "c = aead V (out_key V t) (out_nonce V t) p" "length c = length p + 16"
proof -
  show p: "length p + 16 \<le> 65535"
    using assms(1,2) unfolding transport_ok_def TAG_LEN_def MAX_NOISE_MESSAGE_def by (metis not_le option.distinct(1))
  from seal_ok [OF assms(1,3) p] assms(2) show c: "c = aead V (out_key V t) (out_nonce V t) p"
    by (metis Pair_inject option.inject)
  show "length c = length p + 16" using aead_length [OF assms(1)] c by simp
qed

lemma read_determined:
  assumes "transport_ok N V" "ts_read_message N t c = Some (t', p)"
  shows "c = aead V (in_key V t) (in_nonce V t) p" "length c \<le> 65535" "length c = length p + 16"
  using assms aead_length [OF assms(1)] unfolding transport_ok_def TAG_LEN_def MAX_NOISE_MESSAGE_def by metis+

text \<open>The counters as numbers, and room for one more message.\<close>

abbreviation used_messages :: "'t noise_session \<Rightarrow> nat" where
  "used_messages s \<equiv> unat (ss_messages s)"

abbreviation used_bytes :: "'t noise_session \<Rightarrow> nat" where
  "used_bytes s \<equiv> unat (ss_bytes s)"

lemma needs_rekey_iff: "needs_rekey s \<longleftrightarrow> used_messages s \<ge> 10000 \<or> used_bytes s \<ge> 67108864"
  by (simp add: needs_rekey_def REKEY_AFTER_MESSAGES_def REKEY_AFTER_BYTES_def word_le_nat_alt)

lemma count_message:
  assumes "\<not> needs_rekey s" "n \<le> 65535"
  shows "unat (ss_messages s + 1) = Suc (used_messages s)" "unat (ss_bytes s + of_nat n) = used_bytes s + n"
proof -
  from assms(1) have b: "used_messages s < 10000" "used_bytes s < 67108864" by (auto simp: needs_rekey_iff)
  have n: "unat (of_nat n :: u64) = n" using assms(2) by (simp add: unat_of_nat)
  show "unat (ss_messages s + 1) = Suc (used_messages s)" using b(1) by (simp add: unat_word_ariths)
  show "unat (ss_bytes s + of_nat n) = used_bytes s + n" using b(2) n assms(2) by (simp add: unat_word_ariths)
qed

text \<open>What does not change while a session is used.\<close>

definition same_session :: "('k, 't) cipher_view \<Rightarrow> 't noise_session \<Rightarrow> 't noise_session \<Rightarrow> bool" where
  "same_session V s s' \<longleftrightarrow> ss_remote_device s' = ss_remote_device s \<and> ss_remote_static s' = ss_remote_static s \<and>
     ss_epoch s' = ss_epoch s \<and> out_key V (ss_transport s') = out_key V (ss_transport s) \<and>
     in_key V (ss_transport s') = in_key V (ss_transport s)"

lemma same_session_refl [simp]: "same_session V s s"
  by (simp add: same_session_def)

lemma same_session_trans: "same_session V s t \<Longrightarrow> same_session V t u \<Longrightarrow> same_session V s u"
  by (simp add: same_session_def)

lemma session_write_ok:
  assumes "transport_ok N V" "\<not> needs_rekey s" "out_nonce V (ss_transport s) < 2 ^ 64 - 1" "length p + 16 \<le> 65535"
  obtains s' where
    "session_write N p s = (Inr (aead V (out_key V (ss_transport s)) (out_nonce V (ss_transport s)) p), s')"
    "same_session V s s'" "used_messages s' = Suc (used_messages s)" "used_bytes s' = used_bytes s + (length p + 16)"
    "out_nonce V (ss_transport s') = Suc (out_nonce V (ss_transport s))"
    "in_nonce V (ss_transport s') = in_nonce V (ss_transport s)"
proof -
  obtain t' where t': "ts_write_message N (ss_transport s) p =
      Some (t', aead V (out_key V (ss_transport s)) (out_nonce V (ss_transport s)) p)"
    "out_nonce V t' = Suc (out_nonce V (ss_transport s))" "in_nonce V t' = in_nonce V (ss_transport s)"
    "out_key V t' = out_key V (ss_transport s)" "in_key V t' = in_key V (ss_transport s)"
    by (rule seal_ok [OF assms(1,3,4)])
  let ?c = "aead V (out_key V (ss_transport s)) (out_nonce V (ss_transport s)) p"
  have len: "length ?c = length p + 16" using aead_length [OF assms(1)] .
  let ?s = "s\<lparr>ss_transport := t', ss_messages := ss_messages s + 1, ss_bytes := ss_bytes s + of_nat (length ?c)\<rparr>"
  show ?thesis
  proof (rule that [of ?s])
    show "session_write N p s = (Inr ?c, ?s)" using assms(2) t'(1) by (simp add: session_write_def)
    show "same_session V s ?s" using t' by (simp add: same_session_def)
    show "used_messages ?s = Suc (used_messages s)" "used_bytes ?s = used_bytes s + (length p + 16)"
      using count_message [OF assms(2), of "length ?c"] assms(4) len by simp_all
  qed (use t' in simp_all)
qed

lemma session_read_ok:
  assumes "transport_ok N V" "\<not> needs_rekey s" "in_nonce V (ss_transport s) < 2 ^ 64 - 1" "length p + 16 \<le> 65535"
  obtains s' where
    "session_read N (aead V (in_key V (ss_transport s)) (in_nonce V (ss_transport s)) p) s = (Inr p, s')"
    "same_session V s s'" "used_messages s' = Suc (used_messages s)" "used_bytes s' = used_bytes s + (length p + 16)"
    "in_nonce V (ss_transport s') = Suc (in_nonce V (ss_transport s))"
    "out_nonce V (ss_transport s') = out_nonce V (ss_transport s)"
proof -
  let ?c = "aead V (in_key V (ss_transport s)) (in_nonce V (ss_transport s)) p"
  obtain t' where t': "ts_read_message N (ss_transport s) ?c = Some (t', p)"
    "in_nonce V t' = Suc (in_nonce V (ss_transport s))" "out_nonce V t' = out_nonce V (ss_transport s)"
    "out_key V t' = out_key V (ss_transport s)" "in_key V t' = in_key V (ss_transport s)"
    by (rule open_ok [OF assms(1,3,4)])
  have len: "length ?c = length p + 16" using aead_length [OF assms(1)] .
  let ?s = "s\<lparr>ss_transport := t', ss_messages := ss_messages s + 1, ss_bytes := ss_bytes s + of_nat (length ?c)\<rparr>"
  show ?thesis
  proof (rule that [of ?s])
    show "session_read N ?c s = (Inr p, ?s)" using assms(2) t'(1) by (simp add: session_read_def)
    show "same_session V s ?s" using t' by (simp add: same_session_def)
    show "used_messages ?s = Suc (used_messages s)" "used_bytes ?s = used_bytes s + (length p + 16)"
      using count_message [OF assms(2), of "length ?c"] assms(4) len by simp_all
  qed (use t' in simp_all)
qed

section \<open>Handshakes between devices\<close>

text \<open>Two sessions whose keys match, with the same number of messages sent one way as read the other.\<close>

definition in_step :: "('k, 't) cipher_view \<Rightarrow> 't noise_session \<Rightarrow> 't noise_session \<Rightarrow> bool" where
  "in_step V a b \<longleftrightarrow>
     out_key V (ss_transport a) = in_key V (ss_transport b) \<and> in_key V (ss_transport a) = out_key V (ss_transport b) \<and>
     out_nonce V (ss_transport a) = in_nonce V (ss_transport b) \<and> in_nonce V (ss_transport a) = out_nonce V (ss_transport b)"

lemma authorize_static_key_Inr:
  "authorize_static_key t k = Inr p \<Longrightarrow> (\<exists>d. (d, p) \<in> set (tr_peers t)) \<and> pd_static_public p = k"
  by (force simp: authorize_static_key_def peer_by_static_key_def dest!: find_SomeD split: option.splits)

text \<open>
  The responder completes a handshake only with a device in its trust set: whatever first message it
  is given, if it accepts then the static key of the message is that of a paired device, and the
  session it goes on to make is bound to that device, that key and the epoch of the trust set.
\<close>

lemma responder_session:
  assumes "responder_accept N random ident t first_message = Inr r" "responder_respond N r = Inr (s, reply)"
  shows "\<exists>d p. (d, p) \<in> set (tr_peers t) \<and> ss_remote_device s = pd_device_id p \<and>
    ss_remote_static s = pd_static_public p \<and> ss_epoch s = tr_epoch t \<and> \<not> needs_rekey s"
proof -
  from assms(1) obtain k p where "authorize_static_key t (PublicKey k) = Inr p"
    and r: "hr_remote_device r = pd_device_id p" "hr_remote_static r = PublicKey k" "hr_epoch r = tr_epoch t"
    by (auto simp: responder_accept_def bind_r_Inr split: option.splits if_splits)
  then obtain d where "(d, p) \<in> set (tr_peers t)" "pd_static_public p = PublicKey k"
    using authorize_static_key_Inr by blast
  moreover from assms(2) have "ss_remote_device s = hr_remote_device r \<and> ss_remote_static s = hr_remote_static r \<and>
      ss_epoch s = hr_epoch r \<and> \<not> needs_rekey s"
    by (auto simp: responder_respond_def session_new_def needs_rekey_iff split: option.splits)
  ultimately show ?thesis using r by metis
qed

definition keypair :: "(bytes \<Rightarrow> bytes) \<Rightarrow> device_identity \<Rightarrow> bool" where
  "keypair x25519 ident \<longleftrightarrow> length (di_secret ident) = 32 \<and> di_public ident = PublicKey (x25519 (di_secret ident))"

text \<open>
  Two devices that have each other's key in their trust sets (and no second device with the key of
  the caller) complete a handshake, and each gets a session with the other.
\<close>

lemma paired_handshake:
  assumes "snow_ok N V x25519" "\<And>s. length s = 32 \<Longrightarrow> length (x25519 s) = 32"
    "keypair x25519 ia" "keypair x25519 ib"
    "trust_peer ta db = Some pb" "pd_static_public pb = di_public ib"
    "authorize_static_key tb (di_public ia) = Inr pa"
  shows "\<exists>i m1 r sb m2 sa. initiator_start N ra ia ta db = Inr (i, m1) \<and>
    responder_accept N rb ib tb m1 = Inr r \<and> responder_respond N r = Inr (sb, m2) \<and>
    initiator_finish N m2 i = Inr sa \<and> in_step V sa sb \<and>
    ss_remote_device sa = db \<and> ss_remote_static sa = di_public ib \<and> ss_epoch sa = tr_epoch ta \<and>
    ss_remote_device sb = pd_device_id pa \<and> ss_remote_static sb = di_public ia \<and> ss_epoch sb = tr_epoch tb \<and>
    length m1 \<le> MAX_NOISE_MESSAGE \<and> length m2 \<le> MAX_NOISE_MESSAGE \<and>
    used_messages sa = 0 \<and> used_bytes sa = 0 \<and> used_messages sb = 0 \<and> used_bytes sb = 0 \<and>
    out_nonce V (ss_transport sa) = 0 \<and> in_nonce V (ss_transport sa) = 0"
proof -
  let ?ka = "di_secret ia" and ?kb = "di_secret ib"
  have k: "length ?ka = 32" "length ?kb = 32" "di_public ia = PublicKey (x25519 ?ka)" "di_public ib = PublicKey (x25519 ?kb)"
    using assms(3,4) by (simp_all add: keypair_def)
  obtain h0 h1 h2 r0 r1 r2 m1 m2 ti tr where h:
    "build_initiator N ra ?ka (x25519 ?kb) = Some h0" "hs_write_message N h0 [] = Some (h1, m1)"
    "build_responder N rb ?kb = Some r0" "hs_read_message N r0 m1 = Some (r1, [])"
    "get_remote_static N r1 = Some (x25519 ?ka)" "hs_write_message N r1 [] = Some (r2, m2)"
    "hs_read_message N h1 m2 = Some (h2, [])" "into_transport_mode N h2 = Some ti" "into_transport_mode N r2 = Some tr"
    "length m1 \<le> MAX_NOISE_MESSAGE" "length m2 \<le> MAX_NOISE_MESSAGE"
    "out_key V ti = in_key V tr" "in_key V ti = out_key V tr"
    "out_nonce V ti = 0" "in_nonce V ti = 0" "out_nonce V tr = 0" "in_nonce V tr = 0"
    using snow_okD(1) [OF assms(1), unfolded handshake_ok_def, rule_format, OF k(1,2), of ra rb] by blast
  let ?i = "\<lparr>hi_state = h1, hi_remote_device = db, hi_remote_static = di_public ib, hi_epoch = tr_epoch ta\<rparr>"
  let ?r = "\<lparr>hr_state = r1, hr_remote_device = pd_device_id pa, hr_remote_static = di_public ia, hr_epoch = tr_epoch tb\<rparr>"
  let ?sa = "session_new db (di_public ib) (tr_epoch ta) ti"
  let ?sb = "session_new (pd_device_id pa) (di_public ia) (tr_epoch tb) tr"
  have "initiator_start N ra ia ta db = Inr (?i, m1)" using assms(5,6) h k by (simp add: initiator_start_def)
  moreover have "responder_accept N rb ib tb m1 = Inr ?r"
    using assms(2) [OF k(1)] assms(7) h k by (simp add: responder_accept_def)
  moreover have "responder_respond N ?r = Inr (?sb, m2)" "initiator_finish N m2 ?i = Inr ?sa"
    using h by (simp_all add: responder_respond_def initiator_finish_def)
  moreover have "in_step V ?sa ?sb" using h by (simp add: in_step_def session_new_def)
  ultimately show ?thesis
    using h(10,11,14,15) by (intro exI [of _ ?i] exI [of _ m1] exI [of _ ?r] exI [of _ ?sb] exI [of _ m2] exI [of _ ?sa])
      (simp add: session_new_def)
qed

section \<open>How much one key protects\<close>

datatype session_op = WriteOp bytes | ReadOp bytes

fun session_step :: "('h, 't) snow \<Rightarrow> session_op \<Rightarrow> 't noise_session \<Rightarrow> 't noise_session" where
  "session_step N (WriteOp p) s = snd (session_write N p s)"
| "session_step N (ReadOp c) s = snd (session_read N c s)"

definition within_budget :: "'t noise_session \<Rightarrow> bool" where
  "within_budget s \<longleftrightarrow> used_messages s \<le> 10000 \<and> used_bytes s < 67108864 + 65535"

definition small_messages :: "('h, 't) snow \<Rightarrow> bool" where
  "small_messages N \<longleftrightarrow> (\<forall>t p t' c. ts_write_message N t p = Some (t', c) \<longrightarrow> length c \<le> MAX_NOISE_MESSAGE) \<and>
     (\<forall>t c t' p. ts_read_message N t c = Some (t', p) \<longrightarrow> length c \<le> MAX_NOISE_MESSAGE)"

lemma small_messagesD:
  assumes "small_messages N"
  shows "ts_write_message N t p = Some (t', c) \<Longrightarrow> length c \<le> MAX_NOISE_MESSAGE"
    "ts_read_message N t c = Some (t', p) \<Longrightarrow> length c \<le> MAX_NOISE_MESSAGE"
  using assms unfolding small_messages_def by blast+

lemma session_step_budget:
  assumes "small_messages N" "within_budget s"
  shows "within_budget (session_step N opn s)"
proof (cases "needs_rekey s")
  case True
  then show ?thesis using assms(2) by (cases opn) (simp_all add: session_write_def session_read_def)
next
  case False
  then have b: "used_messages s < 10000" "used_bytes s < 67108864" by (auto simp: needs_rekey_iff)
  have bump: "within_budget (s\<lparr>ss_transport := t, ss_messages := ss_messages s + 1, ss_bytes := ss_bytes s + of_nat n\<rparr>)"
    if "n \<le> MAX_NOISE_MESSAGE" for t n
    using count_message [OF False, of n] b that by (simp add: within_budget_def MAX_NOISE_MESSAGE_def)
  show ?thesis
  proof (cases opn)
    case (WriteOp p)
    show ?thesis
    proof (cases "ts_write_message N (ss_transport s) p")
      case None
      then show ?thesis using WriteOp False assms(2) by (simp add: session_write_def)
    next
      case (Some a)
      then show ?thesis
        using WriteOp False small_messagesD(1) [OF assms(1)] bump by (cases a) (simp add: session_write_def)
    qed
  next
    case (ReadOp c)
    show ?thesis
    proof (cases "ts_read_message N (ss_transport s) c")
      case None
      then show ?thesis using ReadOp False assms(2) by (simp add: session_read_def)
    next
      case (Some a)
      then show ?thesis
        using ReadOp False small_messagesD(2) [OF assms(1)] bump by (cases a) (simp add: session_read_def)
    qed
  qed
qed


section \<open>A crate to try things on\<close>

text \<open>
  A stand-in for \<open>snow\<close> with the documented message flow and sizes and no secrecy: the first
  handshake message is the key of the initiator, a public key is its secret, and the tag is the
  number of the direction and of the message.
\<close>

datatype sample_hs = StartI bytes | SentI | StartR bytes | ReadR bytes | EndI | EndR

record sample_ts =
  st_out :: u64
  st_in :: u64
  st_sent :: nat
  st_read :: nat

definition sample_aead :: "u64 \<Rightarrow> nat \<Rightarrow> bytes \<Rightarrow> bytes" where
  "sample_aead k n p = p @ le_bytes_u64 k @ le_bytes_u64 (of_nat n)"

definition sample_view :: "(u64, sample_ts) cipher_view" where
  "sample_view = \<lparr>out_key = st_out, in_key = st_in, out_nonce = st_sent, in_nonce = st_read, aead = sample_aead\<rparr>"

fun sample_hs_write :: "sample_hs \<Rightarrow> bytes \<Rightarrow> (sample_hs \<times> bytes) option" where
  "sample_hs_write (StartI k) p = Some (SentI, k)"
| "sample_hs_write (ReadR k) p = Some (EndR, [])"
| "sample_hs_write _ p = None"

fun sample_hs_read :: "sample_hs \<Rightarrow> bytes \<Rightarrow> (sample_hs \<times> bytes) option" where
  "sample_hs_read (StartR k) m = (if length m = 32 then Some (ReadR m, []) else None)"
| "sample_hs_read SentI m = (if m = [] then Some (EndI, []) else None)"
| "sample_hs_read _ m = None"

definition sample_snow :: "(sample_hs, sample_ts) snow" where
  "sample_snow = \<lparr>build_initiator = (\<lambda>r k remote. Some (StartI k)), build_responder = (\<lambda>r k. Some (StartR k)),
     hs_write_message = sample_hs_write, hs_read_message = sample_hs_read,
     get_remote_static = (\<lambda>h. case h of ReadR k \<Rightarrow> Some k | _ \<Rightarrow> None),
     into_transport_mode = (\<lambda>h. case h of EndI \<Rightarrow> Some \<lparr>st_out = 0, st_in = 1, st_sent = 0, st_read = 0\<rparr>
       | EndR \<Rightarrow> Some \<lparr>st_out = 1, st_in = 0, st_sent = 0, st_read = 0\<rparr> | _ \<Rightarrow> None),
     ts_write_message = (\<lambda>t p. if length p + 16 \<le> 65535 \<and> st_sent t < 2 ^ 64 - 1
       then Some (t\<lparr>st_sent := st_sent t + 1\<rparr>, sample_aead (st_out t) (st_sent t) p) else None),
     ts_read_message = (\<lambda>t c. let p = take (length c - 16) c
       in if length c \<le> 65535 \<and> st_read t < 2 ^ 64 - 1 \<and> c = sample_aead (st_in t) (st_read t) p
          then Some (t\<lparr>st_read := st_read t + 1\<rparr>, p) else None),
     rekey_outgoing = id, rekey_incoming = id\<rparr>"

lemma sample_aead_length: "length (sample_aead k n p) = length p + 16"
  by (simp add: sample_aead_def)

lemma sample_handshake_ok: "handshake_ok sample_snow sample_view (\<lambda>k. k)"
  unfolding handshake_ok_def
proof (intro allI impI)
  fix ri rr ki kr :: bytes
  assume "length ki = 32" "length kr = 32"
  then show "\<exists>h0 h1 h2 r0 r1 r2 m1 m2 ti tr.
      build_initiator sample_snow ri ki kr = Some h0 \<and> hs_write_message sample_snow h0 [] = Some (h1, m1) \<and>
      build_responder sample_snow rr kr = Some r0 \<and> hs_read_message sample_snow r0 m1 = Some (r1, []) \<and>
      get_remote_static sample_snow r1 = Some ki \<and> hs_write_message sample_snow r1 [] = Some (r2, m2) \<and>
      hs_read_message sample_snow h1 m2 = Some (h2, []) \<and> into_transport_mode sample_snow h2 = Some ti \<and>
      into_transport_mode sample_snow r2 = Some tr \<and>
      length m1 \<le> MAX_NOISE_MESSAGE \<and> length m2 \<le> MAX_NOISE_MESSAGE \<and>
      out_key sample_view ti = in_key sample_view tr \<and> in_key sample_view ti = out_key sample_view tr \<and>
      out_nonce sample_view ti = 0 \<and> in_nonce sample_view ti = 0 \<and>
      out_nonce sample_view tr = 0 \<and> in_nonce sample_view tr = 0"
    by (simp add: sample_snow_def sample_view_def MAX_NOISE_MESSAGE_def)
qed

lemma sample_transport_ok: "transport_ok sample_snow sample_view"
  unfolding transport_ok_def TAG_LEN_def MAX_NOISE_MESSAGE_def
proof (intro conjI allI impI)
  fix t c t' p
  assume "ts_read_message sample_snow t c = Some (t', p)"
  then show "c = aead sample_view (in_key sample_view t) (in_nonce sample_view t) p" "length c \<le> 65535"
    by (auto simp: sample_snow_def sample_view_def Let_def split: if_splits)
qed (simp_all add: sample_snow_def sample_view_def Let_def sample_aead_length, simp_all add: sample_aead_def)

lemma sample_snow_ok: "snow_ok sample_snow sample_view (\<lambda>k. k)"
  by (simp add: snow_ok_def sample_handshake_ok sample_transport_ok)

lemma sample_small_messages: "small_messages sample_snow"
  by (auto simp: small_messages_def sample_snow_def MAX_NOISE_MESSAGE_def Let_def sample_aead_length split: if_splits)


end
