(* ===== verification/Link_Fifo.thy ===== *)
theory Link_Fifo
  imports Secure_Link
begin

text \<open>
  The contract of a link: both ends of a connection with all that is on its way, against two queues
  of messages and blobs. Every run of the queues that stays within the budget of one key is a run of
  the links with the same results. Beyond the budget nothing is sent any more.
\<close>

section \<open>The two machines\<close>

datatype item = Msg sync_message | Blob bytes

datatype end_id = Caller | Callee

fun other_end :: "end_id \<Rightarrow> end_id" where
  "other_end Caller = Callee"
| "other_end Callee = Caller"

datatype conn_op = Transmit end_id item | TakeMsg end_id | TakeBlob end_id

text \<open>A queue for each end, of what has been sent to it.\<close>

type_synonym queues = "end_id \<Rightarrow> item list"

fun fifo_do :: "conn_op \<Rightarrow> queues \<Rightarrow> (item option \<times> queues) option" where
  "fifo_do (Transmit e i) q = Some (None, q(other_end e := q (other_end e) @ [i]))"
| "fifo_do (TakeMsg e) q = (case q e of Msg m # r \<Rightarrow> Some (Some (Msg m), q(e := r)) | _ \<Rightarrow> None)"
| "fifo_do (TakeBlob e) q = (case q e of Blob b # r \<Rightarrow> Some (Some (Blob b), q(e := r)) | _ \<Rightarrow> None)"

record wire =
  w_ctl :: stream
  w_blobs :: "stream list"

record 't conn =
  cn_link :: "end_id \<Rightarrow> 't secure_link"
  cn_in :: "end_id \<Rightarrow> wire"

definition set_link :: "end_id \<Rightarrow> 't secure_link \<Rightarrow> 't conn \<Rightarrow> 't conn" where
  "set_link e l c = c\<lparr>cn_link := (cn_link c)(e := l)\<rparr>"

definition update_wire :: "end_id \<Rightarrow> (wire \<Rightarrow> wire) \<Rightarrow> 't conn \<Rightarrow> 't conn" where
  "update_wire e f c = c\<lparr>cn_in := (cn_in c)(e := f (cn_in c e))\<rparr>"

fun conn_do :: "('h, 't) snow \<Rightarrow> rmp \<Rightarrow> conn_op \<Rightarrow> 't conn \<Rightarrow> (item option \<times> 't conn) option" where
  "conn_do N R (Transmit e (Msg m)) c =
     (case link_send N R m (cn_link c e) of
        (Inr bs, l) \<Rightarrow> Some (None, update_wire (other_end e) (\<lambda>w. w\<lparr>w_ctl := arrive bs (w_ctl w)\<rparr>) (set_link e l c))
      | _ \<Rightarrow> None)"
| "conn_do N R (Transmit e (Blob b)) c =
     (case link_send_blob N b (cn_link c e) of
        (Inr _, bs, l) \<Rightarrow> Some (None, update_wire (other_end e)
          (\<lambda>w. w\<lparr>w_blobs := w_blobs w @ [\<lparr>rs_bytes = bs, rs_ended = True\<rparr>]\<rparr>) (set_link e l c))
      | _ \<Rightarrow> None)"
| "conn_do N R (TakeMsg e) c =
     (case link_recv N R (w_ctl (cn_in c e)) (cn_link c e) of
        (Some (Inr m), s, l) \<Rightarrow> Some (Some (Msg m), update_wire e (\<lambda>w. w\<lparr>w_ctl := s\<rparr>) (set_link e l c))
      | _ \<Rightarrow> None)"
| "conn_do N R (TakeBlob e) c =
     (case w_blobs (cn_in c e) of
        [] \<Rightarrow> None
      | s # ss \<Rightarrow>
          (case link_recv_blob N [] s (cn_link c e) of
             (Some (Inr b), _, _, l) \<Rightarrow> Some (Some (Blob b), update_wire e (\<lambda>w. w\<lparr>w_blobs := ss\<rparr>) (set_link e l c))
           | _ \<Rightarrow> None))"

fun run_ops :: "('o \<Rightarrow> 's \<Rightarrow> ('a option \<times> 's) option) \<Rightarrow> 'o list \<Rightarrow> 's \<Rightarrow> ('a list \<times> 's) option" where
  "run_ops step [] s = Some ([], s)"
| "run_ops step (x # xs) s =
     (case step x s of
        None \<Rightarrow> None
      | Some (out, s1) \<Rightarrow>
          (case run_ops step xs s1 of
             None \<Rightarrow> None
           | Some (outs, s2) \<Rightarrow> Some (case_option [] (\<lambda>a. [a]) out @ outs, s2)))"

section \<open>Traffic\<close>

fun item_segs :: "rmp \<Rightarrow> item \<Rightarrow> bytes list" where
  "item_segs R (Msg m) = chunks SEGMENT_BYTES (message_plaintext (the (to_vec_named R m)))"
| "item_segs R (Blob b) = chunks BLOB_SEGMENT b"

fun item_ok :: "rmp \<Rightarrow> item \<Rightarrow> bool" where
  "item_ok R (Msg m) \<longleftrightarrow> (case to_vec_named R m of None \<Rightarrow> False | Some b \<Rightarrow> length b \<le> MAX_MESSAGE_BYTES)"
| "item_ok R (Blob b) \<longleftrightarrow> True"

definition item_msgs :: "rmp \<Rightarrow> item \<Rightarrow> nat" where
  "item_msgs R i = length (item_segs R i)"

definition item_bytes :: "rmp \<Rightarrow> item \<Rightarrow> nat" where
  "item_bytes R i = seg_cost (item_segs R i)"

definition queue_msgs :: "rmp \<Rightarrow> item list \<Rightarrow> nat" where
  "queue_msgs R q = sum_list (map (item_msgs R) q)"

definition queue_bytes :: "rmp \<Rightarrow> item list \<Rightarrow> nat" where
  "queue_bytes R q = sum_list (map (item_bytes R) q)"

fun sent_item :: "conn_op \<Rightarrow> item list" where
  "sent_item (Transmit e i) = [i]"
| "sent_item _ = []"

definition sent_items :: "conn_op list \<Rightarrow> item list" where
  "sent_items ops = concat (map sent_item ops)"

lemma queue_msgs_simps [simp]:
  "queue_msgs R [] = 0" "queue_msgs R (i # q) = item_msgs R i + queue_msgs R q"
  "queue_msgs R (p @ q) = queue_msgs R p + queue_msgs R q"
  by (simp_all add: queue_msgs_def)

lemma queue_bytes_simps [simp]:
  "queue_bytes R [] = 0" "queue_bytes R (i # q) = item_bytes R i + queue_bytes R q"
  "queue_bytes R (p @ q) = queue_bytes R p + queue_bytes R q"
  by (simp_all add: queue_bytes_def)

lemma item_segs_small: "segs_small (item_segs R i)"
  by (cases i) (simp_all add: segs_small_chunks SEGMENT_BYTES_def BLOB_SEGMENT_def)

lemma concat_item_segs:
  "concat (item_segs R (Msg m)) = message_plaintext (the (to_vec_named R m))" "concat (item_segs R (Blob b)) = b"
  by (simp_all add: concat_chunks SEGMENT_BYTES_def BLOB_SEGMENT_def)

section \<open>What is on the wire\<close>

fun laid_out :: "('k, 't) cipher_view \<Rightarrow> 'k \<Rightarrow> rmp \<Rightarrow> nat \<Rightarrow> item list \<Rightarrow> bytes \<times> stream list" where
  "laid_out V k R n [] = ([], [])"
| "laid_out V k R n (i # q) =
     (case laid_out V k R (n + item_msgs R i) q of (ctl, blobs) \<Rightarrow>
        case i of
          Msg m \<Rightarrow> (seg_bytes V k n (item_segs R i) @ ctl, blobs)
        | Blob b \<Rightarrow> (ctl, \<lparr>rs_bytes = seg_bytes V k n (item_segs R i), rs_ended = True\<rparr> # blobs))"

lemma laid_out_snoc:
  "laid_out V k R n (q @ [i]) =
     (case laid_out V k R n q of (ctl, blobs) \<Rightarrow>
        case i of
          Msg m \<Rightarrow> (ctl @ seg_bytes V k (n + queue_msgs R q) (item_segs R i), blobs)
        | Blob b \<Rightarrow> (ctl, blobs @ [\<lparr>rs_bytes = seg_bytes V k (n + queue_msgs R q) (item_segs R i), rs_ended = True\<rparr>]))"
proof (induction q arbitrary: n)
  case Nil
  then show ?case by (simp split: item.splits)
next
  case (Cons j q)
  show ?case using Cons.IH [of "n + item_msgs R j"] by (simp add: add.assoc split: item.splits prod.splits)
qed

abbreviation sess :: "'t conn \<Rightarrow> end_id \<Rightarrow> 't noise_session" where
  "sess c e \<equiv> lk_session (cn_link c e)"

definition direction :: "('k, 't) cipher_view \<Rightarrow> rmp \<Rightarrow> 't conn \<Rightarrow> end_id \<Rightarrow> item list \<Rightarrow> bool" where
  "direction V R c e q \<longleftrightarrow>
     out_key V (ss_transport (sess c (other_end e))) = in_key V (ss_transport (sess c e)) \<and>
     out_nonce V (ss_transport (sess c (other_end e))) = in_nonce V (ss_transport (sess c e)) + queue_msgs R q \<and>
     w_ctl (cn_in c e) = \<lparr>rs_bytes = fst (laid_out V (in_key V (ss_transport (sess c e))) R (in_nonce V (ss_transport (sess c e))) q),
       rs_ended = False\<rparr> \<and>
     w_blobs (cn_in c e) = snd (laid_out V (in_key V (ss_transport (sess c e))) R (in_nonce V (ss_transport (sess c e))) q) \<and>
     lk_decoder (cn_link c e) = [] \<and> list_all (item_ok R) q"

text \<open>Both directions, with the number of messages and bytes the connection has carried so far.\<close>

definition connected :: "('k, 't) cipher_view \<Rightarrow> rmp \<Rightarrow> nat \<Rightarrow> nat \<Rightarrow> 't conn \<Rightarrow> queues \<Rightarrow> bool" where
  "connected V R tm tb c q \<longleftrightarrow> (\<forall>e. direction V R c e (q e) \<and>
     used_messages (sess c e) + queue_msgs R (q e) \<le> tm \<and> used_bytes (sess c e) + queue_bytes R (q e) \<le> tb \<and>
     out_nonce V (ss_transport (sess c e)) \<le> tm)"

lemma other_end_simps [simp]: "other_end (other_end e) = e" "other_end e \<noteq> e" "e \<noteq> other_end e"
  by (cases e; simp)+

lemma all_ends: "(\<forall>d. P d) \<longleftrightarrow> P e \<and> P (other_end e)"
  by (metis end_id.exhaust other_end.simps)

section \<open>Sending\<close>

definition put_on_wire :: "('k, 't) cipher_view \<Rightarrow> 'k \<Rightarrow> rmp \<Rightarrow> nat \<Rightarrow> item \<Rightarrow> wire \<Rightarrow> wire" where
  "put_on_wire V k R n i w =
     (case i of
        Msg m \<Rightarrow> w\<lparr>w_ctl := arrive (seg_bytes V k n (item_segs R i)) (w_ctl w)\<rparr>
      | Blob b \<Rightarrow> w\<lparr>w_blobs := w_blobs w @ [\<lparr>rs_bytes = seg_bytes V k n (item_segs R i), rs_ended = True\<rparr>]\<rparr>)"

lemma put_on_wire_simps:
  "put_on_wire V k R n (Msg m) = (\<lambda>w. w\<lparr>w_ctl := arrive (seg_bytes V k n (item_segs R (Msg m))) (w_ctl w)\<rparr>)"
  "put_on_wire V k R n (Blob b) =
     (\<lambda>w. w\<lparr>w_blobs := w_blobs w @ [\<lparr>rs_bytes = seg_bytes V k n (item_segs R (Blob b)), rs_ended = True\<rparr>]\<rparr>)"
  by (simp_all add: put_on_wire_def fun_eq_iff)

lemma link_send_ok:
  assumes "transport_ok N V" "item_ok R (Msg m)"
    "can_carry (item_msgs R (Msg m)) (item_bytes R (Msg m)) (lk_session l)"
    "out_nonce V (ss_transport (lk_session l)) + item_msgs R (Msg m) \<le> 10000"
  shows "\<exists>s'. link_send N R m l = (Inr (seg_bytes V (out_key V (ss_transport (lk_session l)))
      (out_nonce V (ss_transport (lk_session l))) (item_segs R (Msg m))), l\<lparr>lk_session := s'\<rparr>) \<and>
    after_sending V (item_msgs R (Msg m)) (item_bytes R (Msg m)) (lk_session l) s'"
proof -
  obtain body where b: "to_vec_named R m = Some body" "length body \<le> MAX_MESSAGE_BYTES"
    using assms(2) by (auto split: option.splits)
  let ?segs = "chunks SEGMENT_BYTES (message_plaintext body)"
  have segs: "item_segs R (Msg m) = ?segs" using b(1) by simp
  have small: "segs_small ?segs" using item_segs_small [of R "Msg m"] segs by simp
  have carry: "can_carry (length ?segs) (seg_cost ?segs) (lk_session l)"
    "out_nonce V (ss_transport (lk_session l)) + length ?segs \<le> 10000"
    using assms(3,4) by (simp_all add: item_msgs_def item_bytes_def b(1))
  from write_segments_ok [OF assms(1) small carry] obtain s' where
    "write_segments N ?segs (lk_session l) = (Inr (seal_all V (out_key V (ss_transport (lk_session l)))
       (out_nonce V (ss_transport (lk_session l))) ?segs), s')"
    "after_sending V (length ?segs) (seg_cost ?segs) (lk_session l) s'"
    by blast
  with b seal_all_frames [OF assms(1) small] show ?thesis
    by (intro exI [of _ s']) (simp add: link_send_def encode_def seg_bytes_def item_msgs_def item_bytes_def)
qed

lemma link_send_blob_ok:
  assumes "transport_ok N V" "can_carry (item_msgs R (Blob b)) (item_bytes R (Blob b)) (lk_session l)"
    "out_nonce V (ss_transport (lk_session l)) + item_msgs R (Blob b) \<le> 10000"
  shows "\<exists>s'. link_send_blob N b l = (Inr (), seg_bytes V (out_key V (ss_transport (lk_session l)))
      (out_nonce V (ss_transport (lk_session l))) (item_segs R (Blob b)), l\<lparr>lk_session := s'\<rparr>) \<and>
    after_sending V (item_msgs R (Blob b)) (item_bytes R (Blob b)) (lk_session l) s'"
proof -
  let ?segs = "chunks BLOB_SEGMENT b"
  have small: "segs_small ?segs" using item_segs_small [of R "Blob b"] by simp
  have carry: "can_carry (length ?segs) (seg_cost ?segs) (lk_session l)"
    "out_nonce V (ss_transport (lk_session l)) + length ?segs \<le> 10000"
    using assms(2,3) by (simp_all add: item_msgs_def item_bytes_def)
  from blob_segments_ok [OF assms(1) small carry] obtain s' where
    "blob_segments N ?segs (lk_session l) = (Inr (), seg_bytes V (out_key V (ss_transport (lk_session l)))
       (out_nonce V (ss_transport (lk_session l))) ?segs, s')"
    "after_sending V (length ?segs) (seg_cost ?segs) (lk_session l) s'"
    by blast
  then show ?thesis by (intro exI [of _ s']) (simp add: link_send_blob_def item_msgs_def item_bytes_def)
qed

lemma conn_transmit:
  assumes "transport_ok N V" "item_ok R i" "can_carry (item_msgs R i) (item_bytes R i) (sess c e)"
    "out_nonce V (ss_transport (sess c e)) + item_msgs R i \<le> 10000"
  shows "\<exists>s'. conn_do N R (Transmit e i) c = Some (None, update_wire (other_end e)
      (put_on_wire V (out_key V (ss_transport (sess c e))) R (out_nonce V (ss_transport (sess c e))) i)
      (set_link e ((cn_link c e)\<lparr>lk_session := s'\<rparr>) c)) \<and>
    after_sending V (item_msgs R i) (item_bytes R i) (sess c e) s'"
proof (cases i)
  case (Msg m)
  from link_send_ok [OF assms(1) assms(2-) [unfolded Msg]] obtain s' where
    "link_send N R m (cn_link c e) = (Inr (seg_bytes V (out_key V (ss_transport (sess c e)))
       (out_nonce V (ss_transport (sess c e))) (item_segs R (Msg m))), (cn_link c e)\<lparr>lk_session := s'\<rparr>)"
    "after_sending V (item_msgs R (Msg m)) (item_bytes R (Msg m)) (sess c e) s'" by blast
  then show ?thesis by (intro exI [of _ s']) (simp add: Msg put_on_wire_simps)
next
  case (Blob b)
  from link_send_blob_ok [OF assms(1) assms(3-) [unfolded Blob]] obtain s' where
    "link_send_blob N b (cn_link c e) = (Inr (), seg_bytes V (out_key V (ss_transport (sess c e)))
       (out_nonce V (ss_transport (sess c e))) (item_segs R (Blob b)), (cn_link c e)\<lparr>lk_session := s'\<rparr>)"
    "after_sending V (item_msgs R (Blob b)) (item_bytes R (Blob b)) (sess c e) s'" by blast
  then show ?thesis by (intro exI [of _ s']) (simp add: Blob put_on_wire_simps)
qed

lemma connected_transmit:
  assumes "connected V R tm tb c q" "item_ok R i" "after_sending V (item_msgs R i) (item_bytes R i) (sess c e) s'"
  shows "connected V R (tm + item_msgs R i) (tb + item_bytes R i)
    (update_wire (other_end e) (put_on_wire V (out_key V (ss_transport (sess c e))) R (out_nonce V (ss_transport (sess c e))) i)
      (set_link e ((cn_link c e)\<lparr>lk_session := s'\<rparr>) c))
    (q(other_end e := q (other_end e) @ [i]))"
proof -
  let ?o = "other_end e"
  have d: "direction V R c e (q e)" "direction V R c ?o (q ?o)"
    "used_messages (sess c e) + queue_msgs R (q e) \<le> tm" "used_bytes (sess c e) + queue_bytes R (q e) \<le> tb"
    "used_messages (sess c ?o) + queue_msgs R (q ?o) \<le> tm" "used_bytes (sess c ?o) + queue_bytes R (q ?o) \<le> tb"
    "out_nonce V (ss_transport (sess c e)) \<le> tm" "out_nonce V (ss_transport (sess c ?o)) \<le> tm"
    using assms(1) by (auto simp: connected_def)
  note a = assms(3) [unfolded after_sending_def same_session_def]
  show ?thesis
    unfolding connected_def all_ends [of _ e]
  proof (intro conjI)
    show "direction V R (update_wire ?o (put_on_wire V (out_key V (ss_transport (sess c e))) R
        (out_nonce V (ss_transport (sess c e))) i) (set_link e ((cn_link c e)\<lparr>lk_session := s'\<rparr>) c)) e
        ((q(?o := q ?o @ [i])) e)"
      using d(1) a by (simp add: direction_def update_wire_def set_link_def)
    show "direction V R (update_wire ?o (put_on_wire V (out_key V (ss_transport (sess c e))) R
        (out_nonce V (ss_transport (sess c e))) i) (set_link e ((cn_link c e)\<lparr>lk_session := s'\<rparr>) c)) ?o
        ((q(?o := q ?o @ [i])) ?o)"
      using d(2) a assms(2)
      by (simp add: direction_def update_wire_def set_link_def put_on_wire_def laid_out_snoc arrive_def
          split: item.splits prod.splits)
  qed (use d a in \<open>simp_all add: update_wire_def set_link_def\<close>)
qed

section \<open>Receiving\<close>

lemma item_segs_msg:
  assumes "item_ok R (Msg m)"
  obtains body where "to_vec_named R m = Some body" "length body \<le> MAX_MESSAGE_BYTES"
    "concat (item_segs R (Msg m)) = message_plaintext body" "item_segs R (Msg m) \<noteq> []"
    "\<forall>p \<in> set (item_segs R (Msg m)). p \<noteq> []"
proof -
  obtain body where b: "to_vec_named R m = Some body" "length body \<le> MAX_MESSAGE_BYTES"
    using assms by (auto split: option.splits)
  have "message_plaintext body \<noteq> []" by (metis append_is_Nil_conv length_le_bytes_u32 list.size(3) message_plaintext_def zero_neq_numeral)
  then have "item_segs R (Msg m) \<noteq> []" using b(1) by (simp add: chunks_nonempty SEGMENT_BYTES_def)
  moreover have "\<forall>p \<in> set (item_segs R (Msg m)). p \<noteq> []" by (simp add: chunks_lengths)
  ultimately show ?thesis using that b concat_item_segs(1) [of R m] by simp
qed

definition take_off_wire :: "wire \<Rightarrow> item \<Rightarrow> bytes \<Rightarrow> wire" where
  "take_off_wire w i rest =
     (case i of Msg m \<Rightarrow> w\<lparr>w_ctl := \<lparr>rs_bytes = rest, rs_ended = False\<rparr>\<rparr> | Blob b \<Rightarrow> w\<lparr>w_blobs := tl (w_blobs w)\<rparr>)"

fun take_op :: "end_id \<Rightarrow> item \<Rightarrow> conn_op" where
  "take_op e (Msg m) = TakeMsg e"
| "take_op e (Blob b) = TakeBlob e"

lemma conn_take:
  assumes "transport_ok N V" "rmp_ok R" "direction V R c e (i # r)"
    "can_carry (item_msgs R i) (item_bytes R i) (sess c e)"
    "in_nonce V (ss_transport (sess c e)) + item_msgs R i \<le> 10000"
  shows "\<exists>s'. conn_do N R (take_op e i) c = Some (Some i, update_wire e
      (\<lambda>w. take_off_wire w i (fst (laid_out V (in_key V (ss_transport (sess c e))) R
          (in_nonce V (ss_transport (sess c e)) + item_msgs R i) r)))
      (set_link e ((cn_link c e)\<lparr>lk_session := s'\<rparr>) c)) \<and>
    after_reading V (item_msgs R i) (item_bytes R i) (sess c e) s'"
proof (cases i)
  case (Msg m)
  let ?l = "cn_link c e"
  have ok: "item_ok R (Msg m)" "lk_decoder ?l = []" using assms(3) Msg by (auto simp: direction_def)
  obtain body where b: "to_vec_named R m = Some body" "length body \<le> MAX_MESSAGE_BYTES"
    "concat (item_segs R (Msg m)) = message_plaintext body" "item_segs R (Msg m) \<noteq> []"
    "\<forall>p \<in> set (item_segs R (Msg m)). p \<noteq> []"
    by (rule item_segs_msg [OF ok(1)])
  have m: "from_slice R body = Some m" using assms(2) b(1) by (simp add: rmp_ok_def)
  have dec: "lk_decoder ?l @ concat (item_segs R (Msg m)) = message_plaintext body" using b(3) ok(2) by simp
  have ctl: "w_ctl (cn_in c e) = \<lparr>rs_bytes = seg_bytes V (in_key V (ss_transport (sess c e)))
      (in_nonce V (ss_transport (sess c e))) (item_segs R (Msg m)) @ fst (laid_out V (in_key V (ss_transport (sess c e))) R
      (in_nonce V (ss_transport (sess c e)) + item_msgs R (Msg m)) r), rs_ended = False\<rparr>"
    using assms(3) Msg by (simp add: direction_def split: prod.splits)
  from link_recv_rest [OF assms(1) item_segs_small b(4,5) dec b(2) m assms(4,5) [unfolded Msg item_msgs_def item_bytes_def]]
  obtain s' where "link_recv N R (w_ctl (cn_in c e)) ?l = (Some (Inr m), \<lparr>rs_bytes = fst (laid_out V (in_key V (ss_transport (sess c e))) R
      (in_nonce V (ss_transport (sess c e)) + item_msgs R (Msg m)) r), rs_ended = False\<rparr>, ?l\<lparr>lk_decoder := [], lk_session := s'\<rparr>)"
    "after_reading V (item_msgs R (Msg m)) (item_bytes R (Msg m)) (sess c e) s'"
    unfolding ctl item_msgs_def item_bytes_def by blast
  moreover have "?l\<lparr>lk_decoder := [], lk_session := s'\<rparr> = ?l\<lparr>lk_session := s'\<rparr>" for s' using ok(2) by simp
  ultimately show ?thesis by (intro exI [of _ s']) (simp add: Msg take_off_wire_def)
next
  case (Blob b)
  let ?l = "cn_link c e"
  obtain ss where blobs: "w_blobs (cn_in c e) = \<lparr>rs_bytes = seg_bytes V (in_key V (ss_transport (sess c e)))
      (in_nonce V (ss_transport (sess c e))) (item_segs R (Blob b)), rs_ended = True\<rparr> # ss"
    using assms(3) Blob by (simp add: direction_def split: prod.splits)
  from link_recv_blob_ok [OF assms(1) item_segs_small assms(4,5) [unfolded Blob item_msgs_def item_bytes_def], of "[]"]
  obtain s' where "link_recv_blob N [] \<lparr>rs_bytes = seg_bytes V (in_key V (ss_transport (sess c e)))
      (in_nonce V (ss_transport (sess c e))) (item_segs R (Blob b)), rs_ended = True\<rparr> ?l =
      (Some (Inr b), b, \<lparr>rs_bytes = [], rs_ended = True\<rparr>, ?l\<lparr>lk_session := s'\<rparr>)"
    "after_reading V (item_msgs R (Blob b)) (item_bytes R (Blob b)) (sess c e) s'"
    unfolding item_msgs_def item_bytes_def concat_item_segs(2) append_Nil by blast
  then show ?thesis by (intro exI [of _ s']) (simp add: Blob blobs take_off_wire_def update_wire_def set_link_def)
qed

lemma connected_take:
  assumes "connected V R tm tb c q" "q e = i # r" "after_reading V (item_msgs R i) (item_bytes R i) (sess c e) s'"
  shows "connected V R tm tb (update_wire e
      (\<lambda>w. take_off_wire w i (fst (laid_out V (in_key V (ss_transport (sess c e))) R
          (in_nonce V (ss_transport (sess c e)) + item_msgs R i) r)))
      (set_link e ((cn_link c e)\<lparr>lk_session := s'\<rparr>) c)) (q(e := r))" (is "connected V R tm tb ?c ?q")
proof -
  let ?o = "other_end e"
  have d: "direction V R c e (q e)" "direction V R c ?o (q ?o)"
    "used_messages (sess c e) + queue_msgs R (q e) \<le> tm" "used_bytes (sess c e) + queue_bytes R (q e) \<le> tb"
    "used_messages (sess c ?o) + queue_msgs R (q ?o) \<le> tm" "used_bytes (sess c ?o) + queue_bytes R (q ?o) \<le> tb"
    "out_nonce V (ss_transport (sess c e)) \<le> tm" "out_nonce V (ss_transport (sess c ?o)) \<le> tm"
    using assms(1) by (auto simp: connected_def)
  note a = assms(3) [unfolded after_reading_def same_session_def]
  show ?thesis
    unfolding connected_def all_ends [of _ e]
  proof (intro conjI)
    show "direction V R ?c e (?q e)"
      using d(1) a assms(2)
      by (simp add: direction_def update_wire_def set_link_def take_off_wire_def split: item.splits prod.splits)
    show "direction V R ?c ?o (?q ?o)"
      using d(2) a by (simp add: direction_def update_wire_def set_link_def)
  qed (use d a assms(2) in \<open>simp_all add: update_wire_def set_link_def\<close>)
qed

section \<open>The contract\<close>

lemma link_step:
  assumes "transport_ok N V" "rmp_ok R" "connected V R tm tb c q" "fifo_do opn q = Some (out, q')"
    "list_all (item_ok R) (sent_item opn)" "tm + queue_msgs R (sent_item opn) \<le> 10000"
    "tb + queue_bytes R (sent_item opn) \<le> 67108864"
  shows "\<exists>c'. conn_do N R opn c = Some (out, c') \<and>
    connected V R (tm + queue_msgs R (sent_item opn)) (tb + queue_bytes R (sent_item opn)) c' q'"
proof -
  have u: "used_messages (sess c e) + queue_msgs R (q e) \<le> tm" "used_bytes (sess c e) + queue_bytes R (q e) \<le> tb"
    "out_nonce V (ss_transport (sess c e)) \<le> tm" "direction V R c e (q e)" for e
    using assms(3) by (auto simp: connected_def)
  have taken: ?thesis if o: "opn = take_op e i" "q e = i # r" "out = Some i" "q' = q(e := r)" for e i r
  proof -
    have none: "sent_item opn = []" using o(1) by (cases i) simp_all
    have lim: "tm \<le> 10000" "tb \<le> 67108864" using assms(6,7) by (simp_all add: none)
    have "can_carry (item_msgs R i) (item_bytes R i) (sess c e)"
      using u(1,2) [of e] lim by (simp add: o(2) can_carry_def)
    moreover have "in_nonce V (ss_transport (sess c e)) + item_msgs R i \<le> 10000"
      using u(3) [of "other_end e"] u(4) [of e] lim by (simp add: direction_def o(2))
    ultimately obtain s' where s': "conn_do N R opn c = Some (Some i, update_wire e
        (\<lambda>w. take_off_wire w i (fst (laid_out V (in_key V (ss_transport (sess c e))) R
            (in_nonce V (ss_transport (sess c e)) + item_msgs R i) r)))
        (set_link e ((cn_link c e)\<lparr>lk_session := s'\<rparr>) c))"
      "after_reading V (item_msgs R i) (item_bytes R i) (sess c e) s'"
      using conn_take [OF assms(1,2) u(4) [of e, unfolded o(2)]] o(1) by blast
    show ?thesis using s'(1) connected_take [OF assms(3) o(2) s'(2)] by (simp add: none o(3,4))
  qed
  show ?thesis
  proof (cases opn)
    case (Transmit e i)
    have "can_carry (item_msgs R i) (item_bytes R i) (sess c e)" "out_nonce V (ss_transport (sess c e)) + item_msgs R i \<le> 10000"
      using u(1-3) [of e] assms(6,7) by (simp_all add: Transmit can_carry_def)
    then obtain s' where s': "conn_do N R (Transmit e i) c = Some (None, update_wire (other_end e)
        (put_on_wire V (out_key V (ss_transport (sess c e))) R (out_nonce V (ss_transport (sess c e))) i)
        (set_link e ((cn_link c e)\<lparr>lk_session := s'\<rparr>) c))"
      "after_sending V (item_msgs R i) (item_bytes R i) (sess c e) s'"
      using conn_transmit [OF assms(1), of R i c e] assms(5) Transmit by auto
    have q': "out = None" "q' = q(other_end e := q (other_end e) @ [i])" using assms(4) Transmit by auto
    have "item_ok R i" using assms(5) Transmit by simp
    from s'(1) connected_transmit [OF assms(3) this s'(2)] show ?thesis by (simp add: Transmit q')
  next
    case (TakeMsg e)
    then obtain m r where "q e = Msg m # r" "out = Some (Msg m)" "q' = q(e := r)"
      using assms(4) by (auto split: list.splits item.splits)
    with TakeMsg taken [of e "Msg m" r] show ?thesis by simp
  next
    case (TakeBlob e)
    then obtain b r where "q e = Blob b # r" "out = Some (Blob b)" "q' = q(e := r)"
      using assms(4) by (auto split: list.splits item.splits)
    with TakeBlob taken [of e "Blob b" r] show ?thesis by simp
  qed
qed

lemma sent_items_simps [simp]: "sent_items [] = []" "sent_items (x # xs) = sent_item x @ sent_items xs"
  by (simp_all add: sent_items_def)

lemma link_run:
  assumes "transport_ok N V" "rmp_ok R"
  shows "connected V R tm tb c q \<Longrightarrow> run_ops fifo_do ops q = Some (outs, q') \<Longrightarrow> list_all (item_ok R) (sent_items ops) \<Longrightarrow>
    tm + queue_msgs R (sent_items ops) \<le> 10000 \<Longrightarrow> tb + queue_bytes R (sent_items ops) \<le> 67108864 \<Longrightarrow>
    \<exists>c'. run_ops (conn_do N R) ops c = Some (outs, c') \<and>
      connected V R (tm + queue_msgs R (sent_items ops)) (tb + queue_bytes R (sent_items ops)) c' q'"
proof (induction ops arbitrary: tm tb c q outs)
  case (Cons x xs)
  from Cons.prems(2) obtain out q1 outs1 where f: "fifo_do x q = Some (out, q1)" "run_ops fifo_do xs q1 = Some (outs1, q')"
    "outs = case_option [] (\<lambda>a. [a]) out @ outs1"
    by (auto split: option.splits)
  from Cons.prems have pre: "list_all (item_ok R) (sent_item x)" "tm + queue_msgs R (sent_item x) \<le> 10000"
    "tb + queue_bytes R (sent_item x) \<le> 67108864" by simp_all
  obtain c1 where c1: "conn_do N R x c = Some (out, c1)"
    "connected V R (tm + queue_msgs R (sent_item x)) (tb + queue_bytes R (sent_item x)) c1 q1"
    using link_step [OF assms Cons.prems(1) f(1) pre] by blast
  from Cons.IH [OF c1(2) f(2)] Cons.prems(3-) obtain c2 where
    "run_ops (conn_do N R) xs c1 = Some (outs1, c2)"
    "connected V R (tm + queue_msgs R (sent_item x) + queue_msgs R (sent_items xs))
       (tb + queue_bytes R (sent_item x) + queue_bytes R (sent_items xs)) c2 q'"
    by (auto simp: add.assoc)
  with c1(1) f(3) show ?case by (simp add: add.assoc)
qed simp

text \<open>Both ends right after a handshake.\<close>

definition fresh_conn :: "('k, 't) cipher_view \<Rightarrow> 't conn \<Rightarrow> bool" where
  "fresh_conn V c \<longleftrightarrow> in_step V (sess c Caller) (sess c Callee) \<and>
     (\<forall>e. used_messages (sess c e) = 0 \<and> used_bytes (sess c e) = 0 \<and> out_nonce V (ss_transport (sess c e)) = 0 \<and>
        lk_decoder (cn_link c e) = [] \<and> cn_in c e = \<lparr>w_ctl = \<lparr>rs_bytes = [], rs_ended = False\<rparr>, w_blobs = []\<rparr>)"

lemma fresh_connected: "fresh_conn V c \<Longrightarrow> connected V R 0 0 c (\<lambda>_. [])"
  unfolding connected_def
proof
  fix e
  assume c: "fresh_conn V c"
  have "out_key V (ss_transport (sess c (other_end e))) = in_key V (ss_transport (sess c e)) \<and>
      in_nonce V (ss_transport (sess c e)) = 0"
    using c by (cases e) (auto simp: fresh_conn_def in_step_def)
  with c show "direction V R c e [] \<and> used_messages (sess c e) + queue_msgs R [] \<le> 0 \<and>
      used_bytes (sess c e) + queue_bytes R [] \<le> 0 \<and> out_nonce V (ss_transport (sess c e)) \<le> 0"
    by (simp add: fresh_conn_def direction_def)
qed

text \<open>
  C6. A connection is two queues: after a handshake, any sequence of sends and receives of messages and
  blobs by the two ends, in any interleaving, that would be possible if each direction were one queue
  in memory, goes through over the encrypted streams with the same messages and blobs received, as
  long as all that is sent on the connection is at most 10000 segments and 64 MiB.
\<close>

theorem link_refines_queues:
  assumes "snow_ok N V x25519" "rmp_ok R" "fresh_conn V c"
    "run_ops fifo_do ops (\<lambda>_. []) = Some (outs, q)" "list_all (item_ok R) (sent_items ops)"
    "queue_msgs R (sent_items ops) \<le> 10000" "queue_bytes R (sent_items ops) \<le> 67108864"
  shows "\<exists>c'. run_ops (conn_do N R) ops c = Some (outs, c') \<and>
    connected V R (queue_msgs R (sent_items ops)) (queue_bytes R (sent_items ops)) c' q"
  using link_run [OF snow_okD(2) [OF assms(1)] assms(2) fresh_connected [OF assms(3)] assms(4,5)] assms(6,7) by simp

section \<open>Where the budget ends\<close>

lemma seg_cost_butlast:
  "n > 0 \<Longrightarrow> xs \<noteq> [] \<Longrightarrow> seg_cost (butlast (chunks n xs)) = (length xs - 1) div n * (n + 16)"
proof (induction n xs rule: chunks.induct)
  case (1 n xs)
  have c: "chunks n xs = take n xs # chunks n (drop n xs)" using 1(2,3) by (subst chunks.simps) simp
  show ?case
  proof (cases "length xs \<le> n")
    case True
    then have "chunks n (drop n xs) = []" by (subst chunks.simps) simp
    moreover have "(length xs - 1) div n = 0" using True 1(2,3) by (cases xs) auto
    ultimately show ?thesis by (simp add: c)
  next
    case False
    then have ne: "drop n xs \<noteq> []" by simp
    have eq: "length xs - 1 = n + (length (drop n xs) - 1)" using False by simp
    have "(n + (length (drop n xs) - 1)) div n = Suc ((length (drop n xs) - 1) div n)"
      using div_add_self1 [of n "length (drop n xs) - 1"] 1(2) by simp
    then have "(length xs - 1) div n = Suc ((length (drop n xs) - 1) div n)" unfolding eq .
    moreover have "seg_cost (butlast (chunks n (drop n xs))) = (length (drop n xs) - 1) div n * (n + 16)"
      using 1 ne by simp
    ultimately show ?thesis
      using False chunks_nonempty [OF 1(2) ne] by (simp add: c algebra_simps)
  qed
qed

lemma blob_segments_budget:
  assumes "transport_ok N V" "segs \<noteq> []" "blob_segments N segs s = (Inr (), ws, s')"
    "out_nonce V (ss_transport s) + length segs < 2 ^ 64 - 1"
  shows "used_bytes s + seg_cost (butlast segs) < 67108864"
  using assms(2-)
proof (induction segs arbitrary: s ws)
  case (Cons p ps)
  have nk: "\<not> needs_rekey s" using Cons.prems(2) by (auto simp: session_write_def)
  from nk Cons.prems(2) obtain t' c where w: "ts_write_message N (ss_transport s) p = Some (t', c)"
    by (auto simp: session_write_def split: option.splits)
  have n: "out_nonce V (ss_transport s) < 2 ^ 64 - 1" using Cons.prems(3) by simp
  have p: "length p + 16 \<le> 65535" by (rule write_length(1) [OF assms(1) w n])
  obtain s1 where s1: "session_write N p s = (Inr (aead V (out_key V (ss_transport s)) (out_nonce V (ss_transport s)) p), s1)"
    "used_bytes s1 = used_bytes s + (length p + 16)" "out_nonce V (ss_transport s1) = Suc (out_nonce V (ss_transport s))"
    by (rule session_write_ok [OF assms(1) nk n p]) auto
  show ?case
  proof (cases "ps = []")
    case True
    then show ?thesis using nk by (auto simp: needs_rekey_iff)
  next
    case False
    from Cons.prems(2) s1(1) obtain ws' where "blob_segments N ps s1 = (Inr (), ws', s')"
      by (auto split: sum.splits prod.splits)
    from Cons.IH [OF False this] Cons.prems(3) s1(2,3) False show ?thesis by simp
  qed
qed simp


section \<open>A connection to try things on\<close>

definition sample_rmp :: rmp where
  "sample_rmp = \<lparr>to_vec_named = (\<lambda>m. if m = Want [] then Some [7] else None),
     from_slice = (\<lambda>b. if b = [7] then Some (Want []) else None)\<rparr>"

lemma sample_rmp_ok: "rmp_ok sample_rmp"
  by (auto simp: rmp_ok_def sample_rmp_def split: if_splits)

definition sample_link :: "u64 \<Rightarrow> u64 \<Rightarrow> sample_ts secure_link" where
  "sample_link outk ink = \<lparr>lk_info = \<lparr>li_device = DeviceId 2, li_addr = ([10, 0, 0, 1], 7420), li_reachability = ReachLan\<rparr>,
     lk_session = session_new (DeviceId 2) (PublicKey []) 0 \<lparr>st_out = outk, st_in = ink, st_sent = 0, st_read = 0\<rparr>, lk_decoder = []\<rparr>"

definition sample_conn :: "sample_ts conn" where
  "sample_conn = \<lparr>cn_link = (\<lambda>e. case e of Caller \<Rightarrow> sample_link 0 1 | Callee \<Rightarrow> sample_link 1 0),
     cn_in = (\<lambda>_. \<lparr>w_ctl = \<lparr>rs_bytes = [], rs_ended = False\<rparr>, w_blobs = []\<rparr>)\<rparr>"

lemma sample_conn_fresh: "fresh_conn sample_view sample_conn"
  by (auto simp: fresh_conn_def sample_conn_def sample_link_def session_new_def in_step_def sample_view_def split: end_id.splits)

theorem link_refines_queues_witness:
  "\<exists>c'. run_ops (conn_do sample_snow sample_rmp)
     [Transmit Caller (Msg (Want [])), Transmit Callee (Blob [1, 2, 3]), TakeBlob Caller, TakeMsg Callee] sample_conn =
     Some ([Blob [1, 2, 3], Msg (Want [])], c')"
proof -
  let ?ops = "[Transmit Caller (Msg (Want [])), Transmit Callee (Blob [1, 2, 3]), TakeBlob Caller, TakeMsg Callee]"
  have f: "run_ops fifo_do ?ops (\<lambda>_. []) =
      Some ([Blob [1, 2, 3], Msg (Want [])], ((\<lambda>_. [])(Callee := [Msg (Want [])], Caller := [Blob [1, 2, 3]]))(Caller := [], Callee := []))"
    by simp
  have ok: "list_all (item_ok sample_rmp) (sent_items ?ops)"
    by (simp add: sample_rmp_def MAX_MESSAGE_BYTES_def)
  have "chunks SEGMENT_BYTES (message_plaintext [7]) = [message_plaintext [7]]" "chunks BLOB_SEGMENT [1, 2, 3] = [[1, 2, 3 :: u8]]"
    by (simp_all add: chunks.simps SEGMENT_BYTES_def BLOB_SEGMENT_def message_plaintext_def le_bytes_u32_def)
  then have "queue_msgs sample_rmp (sent_items ?ops) \<le> 10000" "queue_bytes sample_rmp (sent_items ?ops) \<le> 67108864"
    by (simp_all add: item_msgs_def item_bytes_def sample_rmp_def message_plaintext_def)
  from link_refines_queues [OF sample_snow_ok sample_rmp_ok sample_conn_fresh f ok this] show ?thesis by blast
qed


theorem link_recv_timing_witness:
  "fst (link_recv sample_snow sample_rmp (arrive [0] \<lparr>rs_bytes = [1, 0, 0], rs_ended = False\<rparr>) (sample_link 0 1)) = None"
proof -
  have w: "link_recv sample_snow sample_rmp \<lparr>rs_bytes = [1, 0, 0], rs_ended = False\<rparr> (sample_link 0 1) =
      (None, \<lparr>rs_bytes = [1, 0, 0], rs_ended = False\<rparr>, sample_link 0 1)"
    by (simp add: link_recv.simps read_frame_def read_exact_def)
  have "link_recv sample_snow sample_rmp \<lparr>rs_bytes = [1, 0, 0, 0], rs_ended = False\<rparr> (sample_link 0 1) =
      (None, \<lparr>rs_bytes = [1, 0, 0, 0], rs_ended = False\<rparr>, sample_link 0 1)"
    by (simp add: link_recv.simps read_frame_def read_exact_def MAX_FRAME_BYTES_def)
  with link_recv_timing [where s = "\<lparr>rs_bytes = [1, 0, 0], rs_ended = False\<rparr>" and N = sample_snow and R = sample_rmp
      and l = "sample_link 0 1" and q = "[0]"] w
  show ?thesis by (simp add: arrive_def)
qed

end
