(* ===== verification/Quic_Transport.thy ===== *)
theory Quic_Transport
  imports Link_Fifo Peers
begin

text \<open>
  Connections (\<open>QuicTransport\<close> of \<open>clipse-net/src/quic.rs\<close>). TLS only carries the bytes: any
  certificate is accepted, and the protocol the two sides agreed on (ALPN) says whether a connection
  is for a session or for pairing. A session begins with the Noise handshake on its first stream.

  What the network does is an argument: which connection attempts succeed, whether a stream can be
  opened, and the bytes that arrive. A side that gives up drops the connection, which ends the
  streams of the other.

  Shown: an inbound connection becomes a session only with a device in the trust set, and only on the
  session protocol; two devices that trust each other's keys get links that are fresh in the sense of
  \<open>Link_Fifo\<close>; a device that refuses the caller's key is reported as unreachable, not as a refusal.
\<close>

section \<open>Protocols\<close>

definition ALPN :: bytes where
  "ALPN = str_bytes ''clipse/1''"

definition PAIRING_ALPN :: bytes where
  "PAIRING_ALPN = str_bytes ''clipse-pair/2''"

section \<open>Dialling\<close>

definition make_link :: "'t noise_session \<Rightarrow> socket_addr \<Rightarrow> reachability \<Rightarrow> 't secure_link" where
  "make_link s addr r = \<lparr>lk_info = \<lparr>li_device = ss_remote_device s, li_addr = addr, li_reachability = r\<rparr>,
     lk_session = s, lk_decoder = []\<rparr>"

text \<open>
  \<open>handshake_as_initiator\<close>: \<open>opened\<close> says whether the stream could be opened, \<open>reply\<close> gives the
  stream back for the bytes that were put on it. \<open>Pending\<close> is a peer that does not answer.
\<close>

definition handshake_as_initiator :: "('h, 't) snow \<Rightarrow> bytes \<Rightarrow> device_identity \<Rightarrow> trust \<Rightarrow> bool \<Rightarrow> (bytes \<Rightarrow> stream) \<Rightarrow>
    device_id \<Rightarrow> socket_addr \<Rightarrow> reachability \<Rightarrow> (dial_error + 't secure_link) polled" where
  "handshake_as_initiator N random ident t opened reply peer addr r =
     (case initiator_start N random ident t peer of
        Inl e \<Rightarrow> Ready (Inl (Rejected e))
      | Inr (i, first_message) \<Rightarrow>
          if \<not> opened then Ready (Inl (Unreachable [(addr, r)]))
          else case write_frame first_message of
                 Inl _ \<Rightarrow> Ready (Inl (Unreachable [(addr, r)]))
               | Inr sent \<Rightarrow>
                   (case read_frame (reply sent) of
                      Pending \<Rightarrow> Pending
                    | Ready (Inl _, _) \<Rightarrow> Ready (Inl (Unreachable [(addr, r)]))
                    | Ready (Inr response, _) \<Rightarrow>
                        (case initiator_finish N response i of
                           Inl e \<Rightarrow> Ready (Inl (Rejected e))
                         | Inr s \<Rightarrow> Ready (Inr (make_link s addr r)))))"

section \<open>Accepting\<close>

datatype 't inbound = InboundSession "'t secure_link" | InboundPairing bytes

text \<open>
  \<open>accept_one\<close> with the bytes it answers on the stream: \<open>protocol\<close> is what was negotiated, \<open>opened\<close>
  whether the peer opened a stream, \<open>s\<close> what came on it.
\<close>

definition accept_session_stream :: "('h, 't) snow \<Rightarrow> bytes \<Rightarrow> device_identity \<Rightarrow> trust \<Rightarrow> socket_addr \<Rightarrow> bytes \<Rightarrow>
    (link_error + 't inbound) \<times> bytes" where
  "accept_session_stream N random ident t addr first =
     (case bind_r (responder_accept N random ident t first) (responder_respond N) of
        Inl e \<Rightarrow> (Inl (LinkCrypto e), [])
      | Inr (session, reply) \<Rightarrow>
          (case write_frame reply of
             Inl e \<Rightarrow> (Inl e, [])
           | Inr w \<Rightarrow> (Inr (InboundSession (make_link session addr ReachLan)), w)))"

definition accept_one :: "('h, 't) snow \<Rightarrow> bytes \<Rightarrow> device_identity \<Rightarrow> trust \<Rightarrow> socket_addr \<Rightarrow> bytes option \<Rightarrow> bool \<Rightarrow>
    stream \<Rightarrow> ((link_error + 't inbound) \<times> bytes) polled" where
  "accept_one N random ident t addr protocol opened s =
     (if \<not> opened then Ready (Inl LinkTransport, [])
      else case read_frame s of
             Pending \<Rightarrow> Pending
           | Ready (Inl e, _) \<Rightarrow> Ready (Inl e, [])
           | Ready (Inr first, _) \<Rightarrow>
               if protocol = Some PAIRING_ALPN then Ready (Inr (InboundPairing first), [])
               else Ready (accept_session_stream N random ident t addr first))"

definition accept_session :: "('h, 't) snow \<Rightarrow> bytes \<Rightarrow> device_identity \<Rightarrow> trust \<Rightarrow> socket_addr \<Rightarrow> bytes option \<Rightarrow> bool \<Rightarrow>
    stream \<Rightarrow> ((link_error + 't secure_link) \<times> bytes) polled" where
  "accept_session N random ident t addr protocol opened s =
     (case accept_one N random ident t addr protocol opened s of
        Pending \<Rightarrow> Pending
      | Ready (Inr (InboundSession l), w) \<Rightarrow> Ready (Inr l, w)
      | Ready (Inr (InboundPairing _), w) \<Rightarrow> Ready (Inl LinkTransport, w)
      | Ready (Inl e, w) \<Rightarrow> Ready (Inl e, w))"

section \<open>Pairing connections\<close>

text \<open>One request and its reply (\<open>PairingCall::call\<close>); the answering side reads with \<open>next\<close> and writes with \<open>reply\<close>.\<close>

definition pairing_call :: "(bytes \<Rightarrow> stream) \<Rightarrow> bytes \<Rightarrow> ((link_error + bytes) \<times> stream) polled" where
  "pairing_call reply request =
     (case write_frame request of
        Inl e \<Rightarrow> Ready (Inl e, reply [])
      | Inr sent \<Rightarrow> read_frame (reply sent))"

definition exchange_next :: "stream \<Rightarrow> ((link_error + bytes) \<times> stream) polled" where
  "exchange_next s = read_frame s"

definition exchange_reply :: "bytes \<Rightarrow> link_error + bytes" where
  "exchange_reply bs = write_frame bs"

section \<open>Who gets a session\<close>

text \<open>
  C10. An inbound connection becomes a session only on the session protocol and only with a device of the
  trust set, under the key and the epoch it has there. Nothing is answered to anyone else.
\<close>

theorem inbound_session_is_paired:
  assumes "accept_one N random ident t addr protocol opened s = Ready (res, w)"
  shows "(case res of
      Inr (InboundSession l) \<Rightarrow> protocol \<noteq> Some PAIRING_ALPN \<and>
        (\<exists>d p. (d, p) \<in> set (tr_peers t) \<and> li_device (lk_info l) = pd_device_id p \<and>
           ss_remote_static (lk_session l) = pd_static_public p \<and> ss_epoch (lk_session l) = tr_epoch t)
    | _ \<Rightarrow> w = [])"
proof (cases res)
  case (Inl e)
  then show ?thesis using assms(1)
    by (auto simp: accept_one_def accept_session_stream_def split: if_splits polled.splits sum.splits prod.splits)
next
  case (Inr i)
  show ?thesis
  proof (cases i)
    case (InboundPairing first)
    then show ?thesis using assms(1) Inr
      by (auto simp: accept_one_def accept_session_stream_def split: if_splits polled.splits sum.splits prod.splits)
  next
    case (InboundSession l)
    with assms(1) Inr obtain first r sn reply where np: "protocol \<noteq> Some PAIRING_ALPN"
      and r: "responder_accept N random ident t first = Inr r" "responder_respond N r = Inr (sn, reply)"
      and l: "l = make_link sn addr ReachLan"
      by (auto simp: accept_one_def accept_session_stream_def bind_r_Inr
          split: if_splits polled.splits sum.splits prod.splits)
    obtain d p where "(d, p) \<in> set (tr_peers t)" "ss_remote_device sn = pd_device_id p"
      "ss_remote_static sn = pd_static_public p" "ss_epoch sn = tr_epoch t"
      using responder_session [OF r] by blast
    then show ?thesis using np l by (auto simp: Inr InboundSession make_link_def)
  qed
qed

section \<open>Two ends\<close>

text \<open>What the caller sees of the callee: its answer, or the end of the stream if it gave up.\<close>

definition answer_of :: "((link_error + 't inbound) \<times> bytes) polled \<Rightarrow> stream" where
  "answer_of a =
     (case a of
        Pending \<Rightarrow> \<lparr>rs_bytes = [], rs_ended = False\<rparr>
      | Ready (Inr _, w) \<Rightarrow> \<lparr>rs_bytes = w, rs_ended = False\<rparr>
      | Ready (Inl _, w) \<Rightarrow> \<lparr>rs_bytes = w, rs_ended = True\<rparr>)"

definition calls :: "('h, 't) snow \<Rightarrow> bytes \<Rightarrow> device_identity \<Rightarrow> trust \<Rightarrow> bytes \<Rightarrow> device_identity \<Rightarrow> trust \<Rightarrow>
    device_id \<Rightarrow> socket_addr \<Rightarrow> reachability \<Rightarrow> socket_addr \<Rightarrow> (dial_error + 't secure_link) polled" where
  "calls N ra ia ta rb ib tb peer addr r back =
     handshake_as_initiator N ra ia ta True
       (\<lambda>sent. answer_of (accept_one N rb ib tb back (Some ALPN) True \<lparr>rs_bytes = sent, rs_ended = False\<rparr>)) peer addr r"

definition new_conn :: "'t secure_link \<Rightarrow> 't secure_link \<Rightarrow> 't conn" where
  "new_conn la lb = \<lparr>cn_link = (\<lambda>e. case e of Caller \<Rightarrow> la | Callee \<Rightarrow> lb),
     cn_in = (\<lambda>_. \<lparr>w_ctl = \<lparr>rs_bytes = [], rs_ended = False\<rparr>, w_blobs = []\<rparr>)\<rparr>"

lemma alpns_differ: "ALPN \<noteq> PAIRING_ALPN"
  by (simp add: ALPN_def PAIRING_ALPN_def str_bytes_def)

lemma write_frame_small: "length f \<le> MAX_NOISE_MESSAGE \<Longrightarrow> write_frame f = Inr (frame_bytes f)"
  by (simp add: write_frame_def frame_bytes_def MAX_NOISE_MESSAGE_def)

lemma read_frame_small:
  "length f \<le> MAX_NOISE_MESSAGE \<Longrightarrow>
    read_frame \<lparr>rs_bytes = frame_bytes f, rs_ended = e\<rparr> = Ready (Inr f, \<lparr>rs_bytes = [], rs_ended = e\<rparr>)"
  using read_frame_bytes [of f "[]" e] by (simp add: MAX_NOISE_MESSAGE_def MAX_FRAME_BYTES_def)


text \<open>
  A refusal looks like a device that is away: if the callee does not have the caller's key in its
  trust set, the caller reports the peer as unreachable, which the reconnect loop treats as worth
  another try, and its entry in the peer table is not marked as refused.
\<close>

theorem refused_caller_sees_unreachable:
  assumes "snow_ok N V x25519" "\<And>s. length s = 32 \<Longrightarrow> length (x25519 s) = 32"
    "keypair x25519 ia" "keypair x25519 ib" "trust_peer ta db = Some pb" "pd_static_public pb = di_public ib"
    "peer_by_static_key tb (di_public ia) = None"
  shows "calls N ra ia ta rb ib tb db addr r back = Ready (Inl (Unreachable [(addr, r)])) \<and>
    is_retryable (Unreachable [(addr, r)]) \<and>
    map_of (note_dial_error db (Unreachable [(addr, r)]) tbl) db =
      map_option (\<lambda>s. s\<lparr>ps_backoff := snd (next_delay_ms (ps_backoff s))\<rparr>) (map_of tbl db)"
proof -
  let ?ka = "di_secret ia" and ?kb = "di_secret ib"
  have k: "length ?ka = 32" "length ?kb = 32" "di_public ia = PublicKey (x25519 ?ka)" "di_public ib = PublicKey (x25519 ?kb)"
    using assms(3,4) by (simp_all add: keypair_def)
  obtain h0 h1 r0 r1 m1 where h:
    "build_initiator N ra ?ka (x25519 ?kb) = Some h0" "hs_write_message N h0 [] = Some (h1, m1)"
    "build_responder N rb ?kb = Some r0" "hs_read_message N r0 m1 = Some (r1, [])"
    "get_remote_static N r1 = Some (x25519 ?ka)" "length m1 \<le> MAX_NOISE_MESSAGE"
    using snow_okD(1) [OF assms(1), unfolded handshake_ok_def, rule_format, OF k(1,2), of ra rb] by blast
  have start: "initiator_start N ra ia ta db =
      Inr (\<lparr>hi_state = h1, hi_remote_device = db, hi_remote_static = di_public ib, hi_epoch = tr_epoch ta\<rparr>, m1)"
    using assms(5,6) h k by (simp add: initiator_start_def)
  have "responder_accept N rb ib tb m1 = Inl NotTrusted"
    using assms(7) assms(2) [OF k(1)] h k by (simp add: responder_accept_def authorize_static_key_def)
  then have "accept_one N rb ib tb back (Some ALPN) True \<lparr>rs_bytes = frame_bytes m1, rs_ended = False\<rparr> =
      Ready (Inl (LinkCrypto NotTrusted), [])"
    using h(6) alpns_differ by (simp add: accept_one_def accept_session_stream_def read_frame_small)
  moreover have "read_frame \<lparr>rs_bytes = [], rs_ended = True\<rparr> = Ready (Inl LinkClosed, \<lparr>rs_bytes = [], rs_ended = True\<rparr>)"
    by (simp add: read_frame_def read_exact_def)
  ultimately have "calls N ra ia ta rb ib tb db addr r back = Ready (Inl (Unreachable [(addr, r)]))"
    using start h(6) by (simp add: calls_def handshake_as_initiator_def answer_of_def write_frame_small)
  then show ?thesis by (simp add: is_retryable_def note_dial_error_def map_of_modify)
qed

section \<open>Two devices to try things on\<close>

definition sample_trust :: "uuid \<Rightarrow> device_identity \<Rightarrow> trust" where
  "sample_trust d other = add_peer ((sample_peer (as_uuid (di_device other)))\<lparr>pd_device_id := di_device other,
     pd_static_public := di_public other\<rparr>) (trust_new (DeviceId d))"

lemmas sample_device_defs = sample_identity_def identity_generate_def sample_trust_def add_peer_def trust_new_def sample_peer_def
  keypair_def trust_peer_def authorize_static_key_def peer_by_static_key_def

lemma sample_devices:
  "keypair (\<lambda>k. k) (sample_identity 1 3)" "keypair (\<lambda>k. k) (sample_identity 2 4)"
  "\<exists>pb. trust_peer (sample_trust 1 (sample_identity 2 4)) (DeviceId 2) = Some pb \<and> pd_static_public pb = di_public (sample_identity 2 4)"
  "\<exists>pa. authorize_static_key (sample_trust 2 (sample_identity 1 3)) (di_public (sample_identity 1 3)) = Inr pa"
  "peer_by_static_key (trust_new (DeviceId 2)) (di_public (sample_identity 1 3)) = None"
  by (simp_all add: sample_device_defs)


theorem refused_caller_sees_unreachable_witness:
  "calls sample_snow [] (sample_identity 1 3) (sample_trust 1 (sample_identity 2 4)) []
       (sample_identity 2 4) (trust_new (DeviceId 2)) (DeviceId 2) ([10, 0, 0, 2], 7420) ReachLan ([10, 0, 0, 1], 5000) =
     Ready (Inl (Unreachable [(([10, 0, 0, 2], 7420), ReachLan)]))"
proof -
  obtain pb where p: "trust_peer (sample_trust 1 (sample_identity 2 4)) (DeviceId 2) = Some pb"
    "pd_static_public pb = di_public (sample_identity 2 4)"
    using sample_devices(3) by blast
  show ?thesis using refused_caller_sees_unreachable [OF sample_snow_ok _ sample_devices(1,2) p sample_devices(5)] by blast
qed

theorem inbound_session_is_paired_witness:
  "(case accept_one sample_snow [] (sample_identity 2 4) (sample_trust 2 (sample_identity 1 3)) ([10, 0, 0, 1], 5000) (Some ALPN) True
      \<lparr>rs_bytes = frame_bytes (replicate 32 3), rs_ended = False\<rparr> of
     Ready (Inr (InboundSession l), w) \<Rightarrow> li_device (lk_info l) = DeviceId 1 | _ \<Rightarrow> False)"
proof -
  have rf: "read_frame \<lparr>rs_bytes = frame_bytes (replicate 32 3), rs_ended = False\<rparr> =
      Ready (Inr (replicate 32 3), \<lparr>rs_bytes = [], rs_ended = False\<rparr>)"
    by (rule read_frame_small) (simp only: length_replicate MAX_NOISE_MESSAGE_def)
  let ?t = "sample_trust 2 (sample_identity 1 3)"
  have "responder_accept sample_snow [] (sample_identity 2 4) ?t (replicate 32 3) =
      Inr \<lparr>hr_state = ReadR (replicate 32 3), hr_remote_device = DeviceId 1, hr_remote_static = PublicKey (replicate 32 3), hr_epoch = 0\<rparr>"
    by (simp add: responder_accept_def sample_snow_def sample_device_defs)
  then obtain l w where a: "accept_one sample_snow [] (sample_identity 2 4) ?t ([10, 0, 0, 1], 5000) (Some ALPN) True
      \<lparr>rs_bytes = frame_bytes (replicate 32 3), rs_ended = False\<rparr> = Ready (Inr (InboundSession l), w)"
    using alpns_differ rf
    by (simp add: accept_one_def accept_session_stream_def responder_respond_def sample_snow_def write_frame_def)
  have "\<exists>d p. (d, p) \<in> set (tr_peers ?t) \<and> li_device (lk_info l) = pd_device_id p"
    using inbound_session_is_paired [OF a] by auto
  with a show ?thesis by (auto simp: sample_device_defs)
qed

end
