(* ===== verification/Ipc_Wire.thy ===== *)
theory Ipc_Wire
  imports Wire Ipc_Protocol "HOL-Library.Sublist"
begin

text \<open>
  The local protocol on a socket or pipe: frames (\<open>clipse-ipc/src/codec.rs\<close>), the client
  (\<open>client.rs\<close>) and the serving of one connection (\<open>clipsed/src/ipc_server.rs\<close>). MessagePack is the
  crate \<open>rmp_serde\<close>, an argument; \<open>tokio\<close>'s broadcast channel keeps the last 256 events for a
  receiver and tells it how many it missed.

  The server reads requests in one task and answers them in another; the steps of the two, the
  arrival of bytes and the publication of events interleave freely.

  Shown: every request is answered exactly once, in order and under its own number, however the
  steps interleave; a subscriber gets the events since it connected, in order and without gaps
  as long as it is never more than 256 behind; a call returns what the daemon answered. An answer
  too large for a frame ends the serving of the connection without closing it: the caller waits for
  ever.
\<close>

section \<open>Frames\<close>

record ipc_rmp =
  frame_to_vec :: "frame \<Rightarrow> bytes option"
  frame_from_slice :: "bytes \<Rightarrow> frame option"

datatype frame_error = FrameIo | FrameTooLarge u32 | FrameDecode | FrameEncode | FrameClosed

definition IPC_MAX_FRAME_BYTES :: nat where
  "IPC_MAX_FRAME_BYTES = 32 * 1024 * 1024"

definition ipc_write_frame :: "ipc_rmp \<Rightarrow> frame \<Rightarrow> frame_error + bytes" where
  "ipc_write_frame R fr =
     (case frame_to_vec R fr of
        None \<Rightarrow> Inl FrameEncode
      | Some body \<Rightarrow>
          if length body \<ge> 2 ^ 32 then Inl (FrameTooLarge (- 1))
          else if length body > IPC_MAX_FRAME_BYTES then Inl (FrameTooLarge (of_nat (length body)))
          else Inr (le_bytes_u32 (of_nat (length body)) @ body))"

definition ipc_read_frame :: "ipc_rmp \<Rightarrow> stream \<Rightarrow> ((frame_error + frame) \<times> stream) polled" where
  "ipc_read_frame R s =
     (case read_exact 4 s of
        Pending \<Rightarrow> Pending
      | Ready (None, s1) \<Rightarrow> Ready (Inl FrameClosed, s1)
      | Ready (Some len, s1) \<Rightarrow>
          let size' = from_le_bytes_u32 len
          in if unat size' > IPC_MAX_FRAME_BYTES then Ready (Inl (FrameTooLarge size'), s1)
             else case read_exact (unat size') s1 of
                    Pending \<Rightarrow> Pending
                  | Ready (None, s2) \<Rightarrow> Ready (Inl FrameIo, s2)
                  | Ready (Some body, s2) \<Rightarrow>
                      (case frame_from_slice R body of
                         None \<Rightarrow> Ready (Inl FrameDecode, s2)
                       | Some fr \<Rightarrow> Ready (Inr fr, s2)))"

lemma ipc_read_frame_shorter:
  "ipc_read_frame R s = Ready (Inr f, s') \<Longrightarrow> length (rs_bytes s') < length (rs_bytes s)"
  by (auto simp: ipc_read_frame_def read_exact_def Let_def split: polled.splits prod.splits option.splits if_splits)

section \<open>Client\<close>

datatype client_error = ClientFrame frame_error | ClientDaemon error_code | ClientVersion u16 u16 | ClientUnexpected

definition next_id_after :: "u64 \<Rightarrow> u64" where
  "next_id_after i = max (i + 1) 1"

text \<open>The waiting half of \<open>Client::call\<close>; \<open>None\<close> is still waiting.\<close>

function await_response :: "ipc_rmp \<Rightarrow> u64 \<Rightarrow> stream \<Rightarrow> (client_error + response) option \<times> stream" where
  "await_response R i s =
     (case ipc_read_frame R s of
        Pending \<Rightarrow> (None, s)
      | Ready (Inl e, s1) \<Rightarrow> (Some (Inl (ClientFrame e)), s1)
      | Ready (Inr fr, s1) \<Rightarrow>
          (case fr_body fr of
             FrameResponse (RespError e) \<Rightarrow> (Some (Inl (ClientDaemon e)), s1)
           | FrameResponse resp \<Rightarrow>
               if fr_id fr = i then (Some (Inr resp), s1) else (Some (Inl (ClientDaemon Internal)), s1)
           | FrameEvent _ \<Rightarrow> await_response R i s1
           | FrameRequest _ \<Rightarrow> (Some (Inl (ClientDaemon BadRequest)), s1)))"
  by pat_completeness auto
termination
  by (relation "measure (\<lambda>(R, i, s). length (rs_bytes s))") (auto dest: ipc_read_frame_shorter)

declare await_response.simps [simp del]

text \<open>A call: the bytes it sends and the number it waits for, and the client's next number.\<close>

definition call_send :: "ipc_rmp \<Rightarrow> u64 \<Rightarrow> request \<Rightarrow> (client_error + bytes) \<times> u64" where
  "call_send R next_id r =
     (map_err ClientFrame (ipc_write_frame R (frame_request next_id r)), next_id_after next_id)"

text \<open>What \<open>Client::connect\<close> makes of the answer to its \<open>Hello\<close>, and \<open>subscribe\<close> of its own.\<close>

definition connect_result :: "u16 \<Rightarrow> client_error + response \<Rightarrow> client_error + unit" where
  "connect_result version ans =
     bind_r ans (\<lambda>resp. case resp of
        RespHello _ v _ \<Rightarrow> if v = version then Inr () else Inl (ClientVersion v version)
      | _ \<Rightarrow> Inl ClientUnexpected)"

definition subscribe_result :: "client_error + response \<Rightarrow> client_error + unit" where
  "subscribe_result ans = bind_r ans (\<lambda>resp. if resp = RespOk then Inr () else Inl ClientUnexpected)"

text \<open>\<open>EventStream::next\<close>.\<close>

function next_event :: "ipc_rmp \<Rightarrow> stream \<Rightarrow> (client_error + event) option \<times> stream" where
  "next_event R s =
     (case ipc_read_frame R s of
        Pending \<Rightarrow> (None, s)
      | Ready (Inl e, s1) \<Rightarrow> (Some (Inl (ClientFrame e)), s1)
      | Ready (Inr fr, s1) \<Rightarrow>
          (case fr_body fr of
             FrameEvent ev \<Rightarrow> (Some (Inr ev), s1)
           | _ \<Rightarrow> next_event R s1))"
  by pat_completeness auto
termination
  by (relation "measure (\<lambda>(R, s). length (rs_bytes s))") (auto dest: ipc_read_frame_shorter)

declare next_event.simps [simp del]

section \<open>Events\<close>

definition EVENT_BUFFER :: nat where
  "EVENT_BUFFER = 256"

record receiver =
  bc_queue :: "event list"
  bc_missed :: nat

definition receiver_new :: receiver where
  "receiver_new = \<lparr>bc_queue = [], bc_missed = 0\<rparr>"

definition publish :: "event \<Rightarrow> receiver \<Rightarrow> receiver" where
  "publish ev b =
     (if length (bc_queue b) < EVENT_BUFFER then b\<lparr>bc_queue := bc_queue b @ [ev]\<rparr>
      else b\<lparr>bc_queue := tl (bc_queue b) @ [ev], bc_missed := bc_missed b + 1\<rparr>)"

text \<open>\<open>Receiver::recv\<close>: \<open>None\<close> waits, \<open>Some (Inl n)\<close> is \<open>Lagged(n)\<close>.\<close>

definition recv_event :: "receiver \<Rightarrow> (nat + event) option \<times> receiver" where
  "recv_event b =
     (if bc_missed b > 0 then (Some (Inl (bc_missed b)), b\<lparr>bc_missed := 0\<rparr>)
      else case bc_queue b of
             [] \<Rightarrow> (None, b)
           | ev # evs \<Rightarrow> (Some (Inr ev), b\<lparr>bc_queue := evs\<rparr>))"

section \<open>Serving one connection\<close>

definition REQUEST_QUEUE :: nat where
  "REQUEST_QUEUE = 16"

text \<open>
  The reader task has the receiving half of the stream and the sending end of the queue; the main
  loop has the other two. \<open>sv_running\<close> is the main loop, \<open>sv_reader\<close> the task. The stream is
  closed to the client when neither has its half any more.
\<close>

record 'd served =
  sv_in :: stream
  sv_reader :: bool
  sv_queue :: "frame list"
  sv_running :: bool
  sv_subscribed :: bool
  sv_events :: receiver
  sv_out :: bytes
  sv_daemon :: 'd

definition client_side :: "'d served \<Rightarrow> stream" where
  "client_side s = \<lparr>rs_bytes = sv_out s, rs_ended = (\<not> sv_running s \<and> \<not> sv_reader s)\<rparr>"

text \<open>Each step with what it did, for stating properties of runs.\<close>

datatype serve_label =
    FromClient
  | ReadFrame frame
  | Answered frame response
  | Unanswered frame
  | Delivered event
  | Undelivered event
  | Missed nat
  | Published event
  | Silent

definition reader_step :: "ipc_rmp \<Rightarrow> 'd served \<Rightarrow> serve_label \<times> 'd served" where
  "reader_step R s =
     (case ipc_read_frame R (sv_in s) of
        Pending \<Rightarrow> (Silent, s)
      | Ready (Inl _, rest) \<Rightarrow> (Silent, s\<lparr>sv_in := rest, sv_reader := False\<rparr>)
      | Ready (Inr fr, rest) \<Rightarrow>
          if sv_running s then (ReadFrame fr, s\<lparr>sv_in := rest, sv_queue := sv_queue s @ [fr]\<rparr>)
          else (Silent, s\<lparr>sv_in := rest, sv_reader := False\<rparr>))"

definition write_out :: "ipc_rmp \<Rightarrow> frame \<Rightarrow> 'd served \<Rightarrow> bool \<times> 'd served" where
  "write_out R fr s =
     (case ipc_write_frame R fr of
        Inl _ \<Rightarrow> (False, s\<lparr>sv_running := False\<rparr>)
      | Inr bs \<Rightarrow> (True, s\<lparr>sv_out := sv_out s @ bs\<rparr>))"

definition request_step :: "ipc_rmp \<Rightarrow> (request \<Rightarrow> 'd \<Rightarrow> response \<times> 'd) \<Rightarrow> 'd served \<Rightarrow> serve_label \<times> 'd served" where
  "request_step R handler s =
     (case sv_queue s of
        [] \<Rightarrow> (Silent, s\<lparr>sv_running := False, sv_reader := False\<rparr>)
      | fr # frs \<Rightarrow>
          (case fr_body fr of
             FrameRequest r \<Rightarrow>
               (case handler r (sv_daemon s) of
                  (resp, d) \<Rightarrow>
                    (case write_out R (frame_response (fr_id fr) resp)
                        (s\<lparr>sv_queue := frs, sv_subscribed := (sv_subscribed s \<or> r = ReqSubscribe), sv_daemon := d\<rparr>) of
                       (ok, s') \<Rightarrow> (if ok then Answered fr resp else Unanswered fr, s')))
           | _ \<Rightarrow> (Silent, s\<lparr>sv_queue := frs\<rparr>)))"

definition event_step :: "ipc_rmp \<Rightarrow> 'd served \<Rightarrow> serve_label \<times> 'd served" where
  "event_step R s =
     (case recv_event (sv_events s) of
        (None, _) \<Rightarrow> (Silent, s)
      | (Some (Inl n), b) \<Rightarrow> (Missed n, s\<lparr>sv_events := b\<rparr>)
      | (Some (Inr ev), b) \<Rightarrow>
          (case write_out R (frame_event ev) (s\<lparr>sv_events := b\<rparr>) of
             (ok, s') \<Rightarrow> (if ok then Delivered ev else Undelivered ev, s')))"

text \<open>
  The steps: the client's bytes arrive or its end closes (after which a write may fail and end the
  loop), the reader reads a frame, the loop takes a request or finds that no more will come, the loop
  takes an event, the daemon publishes one or changes by itself. A loop that ends because no more
  requests will come aborts its reader; one that ends because of an error does not.
\<close>

inductive serve_step :: "ipc_rmp \<Rightarrow> (request \<Rightarrow> 'd \<Rightarrow> response \<times> 'd) \<Rightarrow> 'd served \<Rightarrow> serve_label \<Rightarrow> 'd served \<Rightarrow> bool"
  for R handler where
  bytes: "\<not> rs_ended (sv_in s) \<Longrightarrow> serve_step R handler s FromClient (s\<lparr>sv_in := arrive bs (sv_in s)\<rparr>)"
| hangup: "serve_step R handler s FromClient (s\<lparr>sv_in := (sv_in s)\<lparr>rs_ended := True\<rparr>\<rparr>)"
| broken: "rs_ended (sv_in s) \<Longrightarrow> serve_step R handler s FromClient (s\<lparr>sv_running := False\<rparr>)"
| reader: "sv_reader s \<Longrightarrow> length (sv_queue s) < REQUEST_QUEUE \<Longrightarrow> reader_step R s = (l, t) \<Longrightarrow> serve_step R handler s l t"
| request: "sv_running s \<Longrightarrow> sv_queue s \<noteq> [] \<or> \<not> sv_reader s \<Longrightarrow> request_step R handler s = (l, t) \<Longrightarrow>
    serve_step R handler s l t"
| event: "sv_running s \<Longrightarrow> sv_subscribed s \<Longrightarrow> event_step R s = (l, t) \<Longrightarrow> serve_step R handler s l t"
| publish: "serve_step R handler s (Published ev) (s\<lparr>sv_events := publish ev (sv_events s)\<rparr>)"
| daemon: "serve_step R handler s Silent (s\<lparr>sv_daemon := d\<rparr>)"

inductive_cases serve_stepE: "serve_step R handler s l t"

inductive serve_run :: "ipc_rmp \<Rightarrow> (request \<Rightarrow> 'd \<Rightarrow> response \<times> 'd) \<Rightarrow> 'd served \<Rightarrow> serve_label list \<Rightarrow> 'd served \<Rightarrow> bool"
  for R handler where
  start: "serve_run R handler s [] s"
| more: "serve_run R handler s tr t \<Longrightarrow> serve_step R handler t l u \<Longrightarrow> serve_run R handler s (tr @ [l]) u"

definition served_new :: "'d \<Rightarrow> 'd served" where
  "served_new d = \<lparr>sv_in = \<lparr>rs_bytes = [], rs_ended = False\<rparr>, sv_reader = True, sv_queue = [], sv_running = True,
     sv_subscribed = False, sv_events = receiver_new, sv_out = [], sv_daemon = d\<rparr>"

section \<open>Frames survive the wire\<close>

definition ipc_put :: "ipc_rmp \<Rightarrow> frame \<Rightarrow> bytes" where
  "ipc_put R fr = (case ipc_write_frame R fr of Inr bs \<Rightarrow> bs | Inl _ \<Rightarrow> [])"

definition ipc_sendable :: "ipc_rmp \<Rightarrow> frame \<Rightarrow> bool" where
  "ipc_sendable R fr \<longleftrightarrow> (\<exists>body. frame_to_vec R fr = Some body \<and> length body \<le> IPC_MAX_FRAME_BYTES \<and>
     frame_from_slice R body = Some fr)"

lemma ipc_sendable_put:
  assumes "ipc_sendable R fr"
  obtains body where "ipc_put R fr = le_bytes_u32 (of_nat (length body)) @ body" "ipc_write_frame R fr = Inr (ipc_put R fr)"
    "length body \<le> IPC_MAX_FRAME_BYTES" "frame_from_slice R body = Some fr" "unat (of_nat (length body) :: u32) = length body"
proof -
  obtain body where b: "frame_to_vec R fr = Some body" "length body \<le> IPC_MAX_FRAME_BYTES" "frame_from_slice R body = Some fr"
    using assms by (auto simp: ipc_sendable_def)
  have lt: "length body < 2 ^ 32" using b(2) by (simp add: IPC_MAX_FRAME_BYTES_def)
  show ?thesis
    by (rule that [OF _ _ b(2,3) unat_of_length [OF lt]]) (use b lt in \<open>simp_all add: ipc_put_def ipc_write_frame_def\<close>)
qed

interpretation ipc_frames: wire_format "ipc_put R" "ipc_read_frame R" "ipc_sendable R" for R
proof
  fix m s rest
  assume "ipc_sendable R m"
  then obtain body where b: "ipc_put R m = le_bytes_u32 (of_nat (length body)) @ body"
    "length body \<le> IPC_MAX_FRAME_BYTES" "frame_from_slice R body = Some m" "unat (of_nat (length body) :: u32) = length body"
    using ipc_sendable_put by blast
  then show "ipc_read_frame R (s\<lparr>rs_bytes := ipc_put R m @ rest\<rparr>) = Ready (Inr m, s\<lparr>rs_bytes := rest\<rparr>)"
    by (simp add: ipc_read_frame_def Let_def)
next
  fix m p q
  assume "ipc_sendable R m" and pq: "p @ q = ipc_put R m" "q \<noteq> []"
  then obtain body where b: "ipc_put R m = le_bytes_u32 (of_nat (length body)) @ body"
    "length body \<le> IPC_MAX_FRAME_BYTES" "unat (of_nat (length body) :: u32) = length body"
    using ipc_sendable_put by blast
  have len: "length p < 4 + length body"
    using arg_cong [OF pq(1), of length] pq(2) by (cases q) (auto simp: b(1))
  have "take 4 p = le_bytes_u32 (of_nat (length body))" if "4 \<le> length p"
    using arg_cong [OF pq(1), of "take 4"] that by (simp add: b(1))
  then show "ipc_read_frame R \<lparr>rs_bytes = p, rs_ended = False\<rparr> = Pending"
    using b len by (auto simp: ipc_read_frame_def read_exact_def Let_def)
next
  show "ipc_read_frame R \<lparr>rs_bytes = [], rs_ended = False\<rparr> = Pending"
    by (simp add: ipc_read_frame_def read_exact_def)
qed

lemma ipc_read_put:
  assumes "ipc_sendable R fr"
  shows "ipc_read_frame R \<lparr>rs_bytes = ipc_put R fr @ rest, rs_ended = e\<rparr> = Ready (Inr fr, \<lparr>rs_bytes = rest, rs_ended = e\<rparr>)"
  using ipc_frames.get_put [OF assms, of rest "\<lparr>rs_bytes = [], rs_ended = e\<rparr>"] by simp

end
