(* ===== verification/Ipc_Serving.thy ===== *)
theory Ipc_Serving
  imports Ipc_Wire
begin

text \<open>
  Properties of the runs of one served connection: the order of the answers, the order and
  completeness of the events, what the calling client gets, and the answer that is too large.
\<close>

section \<open>Traces\<close>

definition is_request :: "frame \<Rightarrow> bool" where
  "is_request fr = (case fr_body fr of FrameRequest _ \<Rightarrow> True | _ \<Rightarrow> False)"

fun reads_of :: "serve_label \<Rightarrow> frame list" where
  "reads_of (ReadFrame fr) = [fr]"
| "reads_of _ = []"

fun answers_of :: "serve_label \<Rightarrow> (frame \<times> response) list" where
  "answers_of (Answered fr resp) = [(fr, resp)]"
| "answers_of _ = []"

fun unanswered_of :: "serve_label \<Rightarrow> frame list" where
  "unanswered_of (Unanswered fr) = [fr]"
| "unanswered_of _ = []"

fun outputs_of :: "serve_label \<Rightarrow> frame list" where
  "outputs_of (Answered fr resp) = [frame_response (fr_id fr) resp]"
| "outputs_of (Delivered ev) = [frame_event ev]"
| "outputs_of _ = []"

fun delivered_of :: "serve_label \<Rightarrow> event list" where
  "delivered_of (Delivered ev) = [ev]"
| "delivered_of _ = []"

fun undelivered_of :: "serve_label \<Rightarrow> event list" where
  "undelivered_of (Undelivered ev) = [ev]"
| "undelivered_of _ = []"

fun published_of :: "serve_label \<Rightarrow> event list" where
  "published_of (Published ev) = [ev]"
| "published_of _ = []"

fun missed_of :: "serve_label \<Rightarrow> nat" where
  "missed_of (Missed n) = n"
| "missed_of _ = 0"

definition along :: "(serve_label \<Rightarrow> 'a list) \<Rightarrow> serve_label list \<Rightarrow> 'a list" where
  "along f tr = concat (map f tr)"

definition missed :: "serve_label list \<Rightarrow> nat" where
  "missed tr = sum_list (map missed_of tr)"

lemma along_simps [simp]: "along f [] = []" "along f (tr @ [l]) = along f tr @ f l"
  by (simp_all add: along_def)

lemma missed_simps [simp]: "missed [] = 0" "missed (tr @ [l]) = missed tr + missed_of l"
  by (simp_all add: missed_def)

section \<open>One step\<close>

lemma write_out_cases:
  obtains "write_out R fr s = (False, s\<lparr>sv_running := False\<rparr>)"
    | "write_out R fr s = (True, s\<lparr>sv_out := sv_out s @ ipc_put R fr\<rparr>)"
  by (cases "ipc_write_frame R fr") (simp_all add: write_out_def ipc_put_def)

lemma reader_step_cases:
  assumes "reader_step R s = (l, t)"
  obtains "l = Silent" "\<exists>i b. t = s\<lparr>sv_in := i, sv_reader := b\<rparr>"
    | fr i where "l = ReadFrame fr" "sv_running s" "t = s\<lparr>sv_in := i, sv_queue := sv_queue s @ [fr]\<rparr>"
proof (cases "ipc_read_frame R (sv_in s)")
  case Pending
  have "\<exists>i b. s = s\<lparr>sv_in := i, sv_reader := b\<rparr>" by (intro exI [of _ "sv_in s"] exI [of _ "sv_reader s"]) simp
  with Pending show ?thesis using assms that(1) by (simp add: reader_step_def)
next
  case (Ready x)
  obtain res i where x: "x = (res, i)" by (cases x)
  have quiet: "l = Silent \<Longrightarrow> t = s\<lparr>sv_in := i, sv_reader := False\<rparr> \<Longrightarrow> thesis" using that(1) by blast
  show ?thesis
  proof (cases res)
    case (Inl e)
    then show ?thesis using assms Ready x by (intro quiet) (simp_all add: reader_step_def)
  next
    case (Inr fr)
    show ?thesis
    proof (cases "sv_running s")
      case True
      then show ?thesis using assms Ready x Inr by (intro that(2) [of fr i]) (simp_all add: reader_step_def)
    next
      case False
      then show ?thesis using assms Ready x Inr by (intro quiet) (simp_all add: reader_step_def)
    qed
  qed
qed

lemma request_step_cases:
  assumes "request_step R handler s = (l, t)"
  obtains "sv_queue s = []" "l = Silent" "t = s\<lparr>sv_running := False, sv_reader := False\<rparr>"
    | fr frs where "sv_queue s = fr # frs" "\<not> is_request fr" "l = Silent" "t = s\<lparr>sv_queue := frs\<rparr>"
    | fr frs r resp d where "sv_queue s = fr # frs" "fr_body fr = FrameRequest r" "handler r (sv_daemon s) = (resp, d)"
        "l = Answered fr resp" "t = s\<lparr>sv_queue := frs, sv_subscribed := (sv_subscribed s \<or> r = ReqSubscribe), sv_daemon := d,
           sv_out := sv_out s @ ipc_put R (frame_response (fr_id fr) resp)\<rparr>"
    | fr frs r resp d where "sv_queue s = fr # frs" "fr_body fr = FrameRequest r" "handler r (sv_daemon s) = (resp, d)"
        "l = Unanswered fr" "t = s\<lparr>sv_queue := frs, sv_subscribed := (sv_subscribed s \<or> r = ReqSubscribe), sv_daemon := d,
           sv_running := False\<rparr>"
proof (cases "sv_queue s")
  case Nil
  then show ?thesis using assms that(1) by (simp add: request_step_def)
next
  case (Cons fr frs)
  show ?thesis
  proof (cases "fr_body fr")
    case (FrameRequest r)
    obtain resp d where h: "handler r (sv_daemon s) = (resp, d)" by fastforce
    let ?s = "s\<lparr>sv_queue := frs, sv_subscribed := (sv_subscribed s \<or> r = ReqSubscribe), sv_daemon := d\<rparr>"
    show ?thesis
    proof (rule write_out_cases [of R "frame_response (fr_id fr) resp" ?s])
      assume "write_out R (frame_response (fr_id fr) resp) ?s = (False, ?s\<lparr>sv_running := False\<rparr>)"
      then show ?thesis using assms h FrameRequest Cons by (intro that(4)) (auto simp: request_step_def)
    next
      assume "write_out R (frame_response (fr_id fr) resp) ?s = (True, ?s\<lparr>sv_out := sv_out ?s @ ipc_put R (frame_response (fr_id fr) resp)\<rparr>)"
      then show ?thesis using assms h FrameRequest Cons by (intro that(3)) (auto simp: request_step_def)
    qed
  qed (use assms Cons that(2) in \<open>auto simp: request_step_def is_request_def\<close>)
qed

lemma event_step_cases:
  assumes "event_step R s = (l, t)"
  obtains "l = Silent" "t = s"
    | n b where "recv_event (sv_events s) = (Some (Inl n), b)" "l = Missed n" "t = s\<lparr>sv_events := b\<rparr>"
    | ev b where "recv_event (sv_events s) = (Some (Inr ev), b)" "l = Delivered ev"
        "t = s\<lparr>sv_events := b, sv_out := sv_out s @ ipc_put R (frame_event ev)\<rparr>"
    | ev b where "recv_event (sv_events s) = (Some (Inr ev), b)" "l = Undelivered ev" "t = s\<lparr>sv_events := b, sv_running := False\<rparr>"
proof -
  obtain r b where r: "recv_event (sv_events s) = (r, b)" by fastforce
  show ?thesis
  proof (cases r)
    case None
    then show ?thesis using assms r that(1) by (simp add: event_step_def)
  next
    case (Some x)
    show ?thesis
    proof (cases x)
      case (Inl n)
      then show ?thesis using assms r Some that(2) by (simp add: event_step_def)
    next
      case (Inr ev)
      let ?s = "s\<lparr>sv_events := b\<rparr>"
      show ?thesis
      proof (rule write_out_cases [of R "frame_event ev" ?s])
        assume "write_out R (frame_event ev) ?s = (False, ?s\<lparr>sv_running := False\<rparr>)"
        then show ?thesis using assms r Some Inr by (intro that(4)) (auto simp: event_step_def)
      next
        assume "write_out R (frame_event ev) ?s = (True, ?s\<lparr>sv_out := sv_out ?s @ ipc_put R (frame_event ev)\<rparr>)"
        then show ?thesis using assms r Some Inr by (intro that(3)) (auto simp: event_step_def)
      qed
    qed
  qed
qed

section \<open>Answers\<close>

definition answers_inv :: "ipc_rmp \<Rightarrow> serve_label list \<Rightarrow> 'd served \<Rightarrow> bool" where
  "answers_inv R tr s \<longleftrightarrow>
     sv_out s = concat (map (ipc_put R) (along outputs_of tr)) \<and>
     map fst (along answers_of tr) @ along unanswered_of tr @ filter is_request (sv_queue s) =
       filter is_request (along reads_of tr) \<and>
     length (along unanswered_of tr) \<le> 1 \<and> (sv_running s \<longrightarrow> along unanswered_of tr = [])"

lemma answers_inv_request:
  assumes "answers_inv R tr s" "sv_running s" "request_step R handler s = (l, t)"
  shows "answers_inv R (tr @ [l]) t"
  using assms(3)
proof (cases rule: request_step_cases)
  case (3 fr frs r resp d)
  then show ?thesis using assms(1,2) by (auto simp: answers_inv_def is_request_def)
next
  case (4 fr frs r resp d)
  then show ?thesis using assms(1,2) by (auto simp: answers_inv_def is_request_def)
qed (use assms(1,2) in \<open>auto simp: answers_inv_def\<close>)

lemma answers_inv_event:
  assumes "answers_inv R tr s" "event_step R s = (l, t)"
  shows "answers_inv R (tr @ [l]) t"
  using assms(2) by (cases rule: event_step_cases) (use assms(1) in \<open>simp_all add: answers_inv_def\<close>)

lemma answers_inv_reader:
  assumes "answers_inv R tr s" "reader_step R s = (l, t)"
  shows "answers_inv R (tr @ [l]) t"
  using assms(2) by (cases rule: reader_step_cases) (use assms(1) in \<open>auto simp: answers_inv_def\<close>)

lemma answers_inv_step:
  assumes "answers_inv R tr s" "serve_step R handler s l t"
  shows "answers_inv R (tr @ [l]) t"
  using assms(2)
proof cases
  case reader
  then show ?thesis using answers_inv_reader [OF assms(1)] by blast
next
  case request
  then show ?thesis using answers_inv_request [OF assms(1)] by blast
next
  case event
  then show ?thesis using answers_inv_event [OF assms(1)] by blast
qed (use assms(1) in \<open>simp_all add: answers_inv_def\<close>)

lemma answers_inv_run: "serve_run R handler (served_new d) tr s \<Longrightarrow> answers_inv R tr s"
proof (induction "served_new d" tr s rule: serve_run.induct)
  case start
  then show ?case by (simp add: answers_inv_def served_new_def)
qed (blast intro: answers_inv_step)

lemma answers_from_handler:
  "serve_run R handler s0 tr s \<Longrightarrow> (fr, resp) \<in> set (along answers_of tr) \<Longrightarrow>
     \<exists>r d. fr_body fr = FrameRequest r \<and> resp = fst (handler r d)"
proof (induction rule: serve_run.induct)
  case (more s tr t l u)
  show ?case
  proof (cases "(fr, resp) \<in> set (along answers_of tr)")
    case True
    then show ?thesis using more by blast
  next
    case False
    with more.prems have "(fr, resp) \<in> set (answers_of l)" by simp
    then have l: "l = Answered fr resp" by (cases l) auto
    from more.hyps(2) show ?thesis
    proof cases
      case reader
      from reader(3) show ?thesis by (cases rule: reader_step_cases) (simp_all add: l)
    next
      case request
      from request(3) show ?thesis by (cases rule: request_step_cases) (auto simp: l intro!: exI [of _ "sv_daemon t"])
    next
      case event
      from event(3) show ?thesis by (cases rule: event_step_cases) (simp_all add: l)
    qed (use l in simp_all)
  qed
qed simp

text \<open>
  C11. However reading, answering, events and the client interleave, the requests of a connection are
  answered in the order in which they came, each once and under its own number with what the daemon
  said; at most the last one taken is left without an answer, and only if writing it failed. What
  the client gets is exactly the answers and the events, frame by frame.
\<close>

theorem requests_answered_in_order:
  assumes "serve_run R handler (served_new d) tr s"
  shows "sv_out s = concat (map (ipc_put R) (along outputs_of tr)) \<and>
    map fst (along answers_of tr) @ along unanswered_of tr @ filter is_request (sv_queue s) =
      filter is_request (along reads_of tr) \<and>
    length (along unanswered_of tr) \<le> 1 \<and> (sv_running s \<longrightarrow> along unanswered_of tr = []) \<and>
    (\<forall>(fr, resp) \<in> set (along answers_of tr). \<exists>r d'. fr_body fr = FrameRequest r \<and> resp = fst (handler r d'))"
  using answers_inv_run [OF assms] answers_from_handler [OF assms] unfolding answers_inv_def by blast

section \<open>Events\<close>

definition events_inv :: "serve_label list \<Rightarrow> 'd served \<Rightarrow> bool" where
  "events_inv tr s \<longleftrightarrow>
     subseq (along delivered_of tr @ along undelivered_of tr @ bc_queue (sv_events s)) (along published_of tr) \<and>
     length (along published_of tr) = length (along delivered_of tr) + length (along undelivered_of tr) +
       length (bc_queue (sv_events s)) + missed tr + bc_missed (sv_events s) \<and>
     length (bc_queue (sv_events s)) \<le> EVENT_BUFFER \<and>
     (sv_running s \<longrightarrow> along undelivered_of tr = [])"

lemma publish_inv:
  assumes "events_inv tr s"
  shows "events_inv (tr @ [Published ev]) (s\<lparr>sv_events := publish ev (sv_events s)\<rparr>)"
proof (cases "length (bc_queue (sv_events s)) < EVENT_BUFFER")
  case True
  have "subseq ((along delivered_of tr @ along undelivered_of tr @ bc_queue (sv_events s)) @ [ev]) (along published_of tr @ [ev])"
    using assms by (intro list_emb_append_mono) (simp_all add: events_inv_def)
  with assms True show ?thesis by (simp add: events_inv_def publish_def)
next
  case False
  let ?q = "bc_queue (sv_events s)"
  have ne: "?q \<noteq> []" using False by (auto simp: EVENT_BUFFER_def)
  have "subseq (tl ?q) ?q" by (cases ?q) auto
  then have "subseq (along delivered_of tr @ along undelivered_of tr @ tl ?q) (along delivered_of tr @ along undelivered_of tr @ ?q)"
    by (intro list_emb_append_mono subseq_order.order_refl)
  also have "subseq \<dots> (along published_of tr)" using assms by (simp add: events_inv_def)
  finally have "subseq ((along delivered_of tr @ along undelivered_of tr @ tl ?q) @ [ev]) (along published_of tr @ [ev])"
    by (rule list_emb_append_mono) simp
  with assms False ne show ?thesis by (cases ?q) (simp_all add: events_inv_def publish_def)
qed

lemma recv_event_cases:
  assumes "recv_event b = (Some x, b')"
  obtains "x = Inl (bc_missed b)" "b' = b\<lparr>bc_missed := 0\<rparr>"
    | ev evs where "x = Inr ev" "bc_queue b = ev # evs" "b' = b\<lparr>bc_queue := evs\<rparr>"
  using assms that by (auto simp: recv_event_def split: if_splits list.splits)

lemma events_inv_event:
  assumes "events_inv tr s" "sv_running s" "event_step R s = (l, t)"
  shows "events_inv (tr @ [l]) t"
  using assms(3)
proof (cases rule: event_step_cases)
  case (2 n b)
  from 2(1) show ?thesis by (cases rule: recv_event_cases) (use assms 2 in \<open>auto simp: events_inv_def\<close>)
next
  case (3 ev b)
  from 3(1) show ?thesis by (cases rule: recv_event_cases) (use assms 3 in \<open>auto simp: events_inv_def\<close>)
next
  case (4 ev b)
  from 4(1) show ?thesis by (cases rule: recv_event_cases) (use assms 4 in \<open>auto simp: events_inv_def\<close>)
qed (use assms in \<open>auto simp: events_inv_def\<close>)

lemma events_inv_step:
  assumes "events_inv tr s" "serve_step R handler s l t"
  shows "events_inv (tr @ [l]) t"
  using assms(2)
proof cases
  case reader
  from reader(3) show ?thesis by (cases rule: reader_step_cases) (use assms(1) in \<open>auto simp: events_inv_def\<close>)
next
  case request
  from request(3) show ?thesis by (cases rule: request_step_cases) (use assms(1) in \<open>auto simp: events_inv_def\<close>)
next
  case event
  then show ?thesis using events_inv_event [OF assms(1)] by blast
next
  case (publish ev)
  then show ?thesis using publish_inv [OF assms(1)] by simp
qed (use assms(1) in \<open>simp_all add: events_inv_def\<close>)

lemma events_inv_run: "serve_run R handler (served_new d) tr s \<Longrightarrow> events_inv tr s"
proof (induction "served_new d" tr s rule: serve_run.induct)
  case start
  then show ?case by (simp add: events_inv_def served_new_def receiver_new_def)
qed (blast intro: events_inv_step)

text \<open>
  C23. A connection that is being served has been sent, or still has waiting, the events published since it
  was accepted, in order and none twice; none is missing unless the connection was more than 256
  events behind, and then exactly the number the channel counted. At most 256 events wait.
\<close>

theorem events_in_order:
  assumes "serve_run R handler (served_new d) tr s" "sv_running s"
  shows "subseq (along delivered_of tr @ bc_queue (sv_events s)) (along published_of tr) \<and>
    length (along published_of tr) =
      length (along delivered_of tr) + length (bc_queue (sv_events s)) + (missed tr + bc_missed (sv_events s)) \<and>
    (missed tr + bc_missed (sv_events s) = 0 \<longrightarrow>
       along delivered_of tr @ bc_queue (sv_events s) = along published_of tr) \<and>
    length (bc_queue (sv_events s)) \<le> EVENT_BUFFER"
proof -
  note inv = events_inv_run [OF assms(1), unfolded events_inv_def]
  have "along delivered_of tr @ bc_queue (sv_events s) = along published_of tr"
    if "missed tr + bc_missed (sv_events s) = 0"
    using inv assms(2) that subseq_same_length [of "along delivered_of tr @ bc_queue (sv_events s)" "along published_of tr"]
    by auto
  with inv assms(2) show ?thesis by auto
qed

section \<open>A call\<close>

lemma await_response_skips:
  assumes "\<forall>fr \<in> set fs. ipc_sendable R fr \<and> (\<exists>ev. fr_body fr = FrameEvent ev)"
  shows "await_response R i \<lparr>rs_bytes = concat (map (ipc_put R) fs) @ rest, rs_ended = e\<rparr> =
    await_response R i \<lparr>rs_bytes = rest, rs_ended = e\<rparr>"
  using assms
proof (induction fs)
  case (Cons fr fs)
  then obtain ev where fr: "ipc_sendable R fr" "fr_body fr = FrameEvent ev" by auto
  have "await_response R i \<lparr>rs_bytes = ipc_put R fr @ concat (map (ipc_put R) fs) @ rest, rs_ended = e\<rparr> =
      await_response R i \<lparr>rs_bytes = concat (map (ipc_put R) fs) @ rest, rs_ended = e\<rparr>"
    by (subst await_response.simps) (simp add: ipc_read_put [OF fr(1)] fr(2))
  with Cons show ?case by simp
qed simp

lemma await_response_hit:
  assumes "ipc_sendable R (frame_response i resp)"
  shows "await_response R i \<lparr>rs_bytes = ipc_put R (frame_response i resp) @ rest, rs_ended = e\<rparr> =
    (Some (case resp of RespError c \<Rightarrow> Inl (ClientDaemon c) | r \<Rightarrow> Inr r), \<lparr>rs_bytes = rest, rs_ended = e\<rparr>)"
  by (subst await_response.simps, simp only: ipc_read_put [OF assms] polled.case prod.case sum.case)
    (simp add: frame_response_def split: response.splits)

lemma outputs_answers:
  "along answers_of tr = [] \<Longrightarrow> fr \<in> set (along outputs_of tr) \<Longrightarrow> \<exists>ev. fr = frame_event ev"
proof (induction tr rule: rev_induct)
  case (snoc l tr)
  then show ?case by (cases l) auto
qed simp

lemma single_answer_split:
  assumes "along answers_of tr = [(q, resp)]"
  shows "\<exists>pre post. along outputs_of tr = pre @ frame_response (fr_id q) resp # post \<and> (\<forall>fr \<in> set pre. \<exists>ev. fr = frame_event ev)"
  using assms
proof (induction tr rule: rev_induct)
  case (snoc l tr)
  show ?case
  proof (cases "answers_of l = []")
    case True
    with snoc obtain pre post where "along outputs_of tr = pre @ frame_response (fr_id q) resp # post"
      "\<forall>fr \<in> set pre. \<exists>ev. fr = frame_event ev" by auto
    then show ?thesis by (intro exI [of _ pre] exI [of _ "post @ outputs_of l"]) simp
  next
    case False
    with snoc.prems have l: "l = Answered q resp" "along answers_of tr = []" by (cases l; auto)+
    have "\<forall>fr \<in> set (along outputs_of tr). \<exists>ev. fr = frame_event ev" using outputs_answers [OF l(2)] by blast
    then show ?thesis using l(1) by (intro exI [of _ "along outputs_of tr"] exI [of _ "[]"]) simp
  qed
qed simp

text \<open>
  A call gets the answer to its request: if the one request that a client sent has been taken from
  the queue and the connection is still served, then waiting for its number ends with what the daemon
  answered to it (an error as an error), whatever events were sent before or after.
\<close>

theorem call_gets_answer:
  assumes "serve_run R handler (served_new d) tr s" "along reads_of tr = [frame_request i r]" "sv_queue s = []"
    "sv_running s" "\<And>fr. fr \<in> set (along outputs_of tr) \<Longrightarrow> ipc_sendable R fr"
  shows "\<exists>d'. fst (await_response R i (client_side s)) =
    Some (case fst (handler r d') of RespError c \<Rightarrow> Inl (ClientDaemon c) | resp \<Rightarrow> Inr resp)"
proof -
  have "map fst (along answers_of tr) = [frame_request i r]"
    using answers_inv_run [OF assms(1)] assms(2-4) by (auto simp: answers_inv_def is_request_def frame_request_def)
  then obtain resp where a: "along answers_of tr = [(frame_request i r, resp)]" by auto
  then obtain d' where h: "resp = fst (handler r d')"
    using answers_from_handler [OF assms(1), of "frame_request i r" resp] by (auto simp: frame_request_def)
  obtain pre post where o: "along outputs_of tr = pre @ frame_response i resp # post" "\<forall>fr \<in> set pre. \<exists>ev. fr = frame_event ev"
    using single_answer_split [OF a] by (auto simp: frame_request_def)
  have "sv_out s = concat (map (ipc_put R) pre) @ ipc_put R (frame_response i resp) @ concat (map (ipc_put R) post)"
    using answers_inv_run [OF assms(1)] o(1) by (simp add: answers_inv_def)
  moreover have "\<forall>fr \<in> set pre. ipc_sendable R fr \<and> (\<exists>ev. fr_body fr = FrameEvent ev)"
    using assms(5) o by (auto simp: frame_event_def)
  moreover have "ipc_sendable R (frame_response i resp)" using assms(5) o(1) by simp
  ultimately have "fst (await_response R i (client_side s)) = Some (case resp of RespError c \<Rightarrow> Inl (ClientDaemon c) | r \<Rightarrow> Inr r)"
    by (simp add: client_side_def await_response_skips await_response_hit)
  then show ?thesis using h by (intro exI [of _ d']) simp
qed

section \<open>Too large\<close>

text \<open>A run in which the client neither sends nor hangs up.\<close>

definition client_waits :: "serve_label list \<Rightarrow> bool" where
  "client_waits tr \<longleftrightarrow> FromClient \<notin> set tr"

lemma stuck_step:
  assumes "serve_step R handler s l t" "l \<noteq> FromClient"
    "\<not> sv_running s" "sv_reader s" "sv_out s = []" "ipc_read_frame R (sv_in s) = Pending"
  shows "\<not> sv_running t \<and> sv_reader t \<and> sv_out t = [] \<and> ipc_read_frame R (sv_in t) = Pending"
  using assms(1)
proof cases
  case reader
  then show ?thesis using assms by (simp add: reader_step_def)
qed (use assms in simp_all)

text \<open>
  C39. An answer that does not fit into a frame leaves the caller waiting: the loop that serves the
  connection ends, but the task that reads from the connection keeps it open, so the caller of the one
  request gets neither an answer nor the end of the stream for as long as it sends nothing more.
\<close>

theorem oversized_answer_hangs:
  assumes "sv_running s" "sv_reader s" "sv_queue s = [frame_request i r]" "sv_out s = []"
    "ipc_read_frame R (sv_in s) = Pending" "handler r (sv_daemon s) = (resp, d)"
    "ipc_write_frame R (frame_response i resp) = Inl (FrameTooLarge n)" "request_step R handler s = (l, t)"
    "serve_run R handler t tr u" "client_waits tr"
  shows "fst (await_response R i (client_side u)) = None"
proof -
  have t: "\<not> sv_running t \<and> sv_reader t \<and> sv_out t = [] \<and> ipc_read_frame R (sv_in t) = Pending"
    using assms(2-8) by (auto simp: request_step_def write_out_def frame_request_def)
  have "\<not> sv_running u \<and> sv_reader u \<and> sv_out u = [] \<and> ipc_read_frame R (sv_in u) = Pending"
    using assms(9,10) t
  proof (induction rule: serve_run.induct)
    case (more s tr t l u)
    then have "l \<noteq> FromClient" "client_waits tr" by (auto simp: client_waits_def)
    with more stuck_step [OF more.hyps(2)] show ?case by blast
  qed simp
  then have "client_side u = \<lparr>rs_bytes = [], rs_ended = False\<rparr>" by (simp add: client_side_def)
  then show ?thesis by (subst await_response.simps) (simp add: ipc_frames.get_empty)
qed

section \<open>A connection to try things on\<close>

text \<open>A codec for one request, its answer and one event; the answer to anything else is too large.\<close>

definition sample_frames :: "(frame \<times> bytes) list" where
  "sample_frames = [(frame_request 1 ReqSubscribe, [1]), (frame_response 1 RespOk, [2]), (frame_event (Suppressed []), [3])]"

definition sample_ipc_rmp :: ipc_rmp where
  "sample_ipc_rmp = \<lparr>frame_to_vec = (\<lambda>fr. case map_of sample_frames fr of Some b \<Rightarrow> Some b
        | None \<Rightarrow> Some (replicate (32 * 1024 * 1024 + 1) 0)),
     frame_from_slice = (\<lambda>b. map_option fst (find (\<lambda>(fr, c). c = b) sample_frames))\<rparr>"

definition sample_handler :: "request \<Rightarrow> unit \<Rightarrow> response \<times> unit" where
  "sample_handler r d = (if r = ReqSubscribe then RespOk else RespClips [], ())"

lemma sample_sendable:
  "ipc_sendable sample_ipc_rmp (frame_request 1 ReqSubscribe)" "ipc_sendable sample_ipc_rmp (frame_response 1 RespOk)"
  "ipc_sendable sample_ipc_rmp (frame_event (Suppressed []))"
  by (simp_all add: ipc_sendable_def sample_ipc_rmp_def sample_frames_def frame_request_def frame_response_def frame_event_def
      IPC_MAX_FRAME_BYTES_def)

text \<open>The client subscribes, an event is published, the request is answered, the event is sent.\<close>

definition sample_trace :: "serve_label list" where
  "sample_trace = [FromClient, ReadFrame (frame_request 1 ReqSubscribe), Published (Suppressed []),
     Answered (frame_request 1 ReqSubscribe) RespOk, Delivered (Suppressed [])]"

definition sample_served :: "unit served" where
  "sample_served = (served_new ())\<lparr>sv_subscribed := True,
     sv_out := ipc_put sample_ipc_rmp (frame_response 1 RespOk) @ ipc_put sample_ipc_rmp (frame_event (Suppressed []))\<rparr>"

lemma sample_serve_run: "serve_run sample_ipc_rmp sample_handler (served_new ()) sample_trace sample_served"
proof -
  let ?R = "sample_ipc_rmp" and ?H = sample_handler and ?q = "frame_request 1 ReqSubscribe" and ?ev = "Suppressed []"
  let ?s0 = "served_new () :: unit served"
  let ?s1 = "?s0\<lparr>sv_in := arrive (ipc_put ?R ?q) (sv_in ?s0)\<rparr>"
  let ?s2 = "?s0\<lparr>sv_queue := [?q]\<rparr>"
  let ?s3 = "?s2\<lparr>sv_events := publish ?ev (sv_events ?s2)\<rparr>"
  let ?s4 = "?s3\<lparr>sv_queue := [], sv_subscribed := True, sv_out := ipc_put ?R (frame_response 1 RespOk)\<rparr>"
  note put = ipc_sendable_put [OF sample_sendable(1)]
  have w: "ipc_write_frame ?R (frame_response 1 RespOk) = Inr (ipc_put ?R (frame_response 1 RespOk))"
    "ipc_write_frame ?R (frame_event ?ev) = Inr (ipc_put ?R (frame_event ?ev))"
    using ipc_sendable_put [OF sample_sendable(2)] ipc_sendable_put [OF sample_sendable(3)] by blast+
  have rd: "ipc_read_frame ?R (sv_in ?s1) = Ready (Inr ?q, \<lparr>rs_bytes = [], rs_ended = False\<rparr>)"
    using ipc_read_put [OF sample_sendable(1), of "[]" False] by (simp add: served_new_def arrive_def)
  have 1: "serve_step ?R ?H ?s0 FromClient ?s1" by (rule serve_step.bytes) (simp add: served_new_def)
  have 2: "serve_step ?R ?H ?s1 (ReadFrame ?q) ?s2"
    by (rule serve_step.reader) (use rd in \<open>simp_all add: reader_step_def served_new_def REQUEST_QUEUE_def\<close>)
  have 3: "serve_step ?R ?H ?s2 (Published ?ev) ?s3" by (rule serve_step.publish)
  have 4: "serve_step ?R ?H ?s3 (Answered ?q RespOk) ?s4"
    by (rule serve_step.request)
      (use w in \<open>simp_all add: request_step_def served_new_def write_out_def frame_request_def sample_handler_def\<close>)
  have 5: "serve_step ?R ?H ?s4 (Delivered ?ev) sample_served"
    by (rule serve_step.event)
      (use w in \<open>simp_all add: event_step_def served_new_def write_out_def sample_served_def publish_def recv_event_def
        receiver_new_def EVENT_BUFFER_def\<close>)
  have "serve_run ?R ?H ?s0 ((((([] @ [FromClient]) @ [ReadFrame ?q]) @ [Published ?ev]) @ [Answered ?q RespOk]) @ [Delivered ?ev]) sample_served"
    by (rule serve_run.more [OF _ 5], rule serve_run.more [OF _ 4], rule serve_run.more [OF _ 3], rule serve_run.more [OF _ 2],
        rule serve_run.more [OF serve_run.start 1])
  then show ?thesis by (simp add: sample_trace_def)
qed

lemma sample_trace_simps:
  "along reads_of sample_trace = [frame_request 1 ReqSubscribe]"
  "along outputs_of sample_trace = [frame_response 1 RespOk, frame_event (Suppressed [])]"
  "along published_of sample_trace = [Suppressed []]" "missed sample_trace = 0"
  by (simp_all add: sample_trace_def along_def missed_def frame_request_def)

theorem requests_answered_in_order_witness:
  "map fst (along answers_of sample_trace) = [frame_request 1 ReqSubscribe]"
  using requests_answered_in_order [OF sample_serve_run] sample_trace_simps(1)
  by (auto simp: sample_served_def served_new_def is_request_def frame_request_def)

theorem events_in_order_witness:
  "along delivered_of sample_trace @ bc_queue (sv_events sample_served) = [Suppressed []]"
  using events_in_order [OF sample_serve_run] sample_trace_simps(3,4)
  by (simp add: sample_served_def served_new_def receiver_new_def)

theorem call_gets_answer_witness:
  "fst (await_response sample_ipc_rmp 1 (client_side sample_served)) = Some (Inr RespOk)"
proof -
  have "fr \<in> set (along outputs_of sample_trace) \<Longrightarrow> ipc_sendable sample_ipc_rmp fr" for fr
    using sample_sendable by (auto simp: sample_trace_simps(2))
  moreover have "sv_queue sample_served = []" "sv_running sample_served" by (simp_all add: sample_served_def served_new_def)
  ultimately show ?thesis
    using call_gets_answer [OF sample_serve_run sample_trace_simps(1)] by (simp add: sample_handler_def)
qed

theorem oversized_answer_hangs_witness:
  "fst (await_response sample_ipc_rmp 1 (client_side (snd (request_step sample_ipc_rmp sample_handler
     ((served_new ())\<lparr>sv_queue := [frame_request 1 ReqStatus]\<rparr>))))) = None"
proof -
  let ?s = "(served_new ())\<lparr>sv_queue := [frame_request 1 ReqStatus]\<rparr>"
  have "frame_to_vec sample_ipc_rmp (frame_response 1 (RespClips [])) = Some (replicate (32 * 1024 * 1024 + 1) 0)"
    by (simp add: sample_ipc_rmp_def sample_frames_def frame_request_def frame_response_def frame_event_def)
  then have w: "ipc_write_frame sample_ipc_rmp (frame_response 1 (RespClips [])) = Inl (FrameTooLarge (of_nat (32 * 1024 * 1024 + 1)))"
    by (simp only: ipc_write_frame_def option.case length_replicate IPC_MAX_FRAME_BYTES_def) simp
  have e: "ipc_read_frame sample_ipc_rmp (sv_in ?s) = Pending" using ipc_frames.get_empty by (simp add: served_new_def)
  show ?thesis
    by (rule oversized_answer_hangs [where s = ?s and r = ReqStatus and tr = "[]", OF _ _ _ _ e _ w surjective_pairing serve_run.start])
      (simp_all add: served_new_def sample_handler_def client_waits_def)
qed

end
