(* ===== verification/Os_Text.thy ===== *)
theory Os_Text
  imports Capture_Pipeline
begin

text \<open>
  The text operations of the Rust standard library that the platform backends use
  (\<open>clipse-clipboard/src/platform\<close>): UTF-16 (\<open>encode_utf16\<close>, \<open>String::from_utf16_lossy\<close>), \<open>str::lines\<close>,
  \<open>str::find\<close>, zero-padded decimals and \<open>usize::from_str\<close>. A UTF-16 code unit is a number below
  65536; strings are lists of code points as in \<open>Text\<close>.

  Shown: each reader takes back what the writer made of it, so that what these are composed to in
  the backends can be read back as well.
\<close>

section \<open>UTF-8\<close>

text \<open>Decoding is injective: valid bytes are the encoding of what they decode to.\<close>

lemma utf8_char_2:
  "2 \<le> a \<Longrightarrow> a < 32 \<Longrightarrow> d < 64 \<Longrightarrow> utf8_char (a * 64 + d) = [192 + a, 128 + d] \<and> is_scalar (a * 64 + d)"
  by (simp add: utf8_char_def is_scalar_def)

lemma div64: "d < 64 \<Longrightarrow> (x * 64 + d) div 64 = x \<and> (x * 64 + d) mod 64 = (d :: nat)"
  by simp

lemma utf8_char_3:
  assumes "a < 16" "b < 64" "d < 64" "a = 0 \<longrightarrow> 32 \<le> b" "a = 13 \<longrightarrow> b < 32"
  shows "utf8_char (a * 4096 + b * 64 + d) = [224 + a, 128 + b, 128 + d] \<and> is_scalar (a * 4096 + b * 64 + d)"
proof -
  define c where "c = a * 4096 + b * 64 + d"
  have c: "c = (a * 64 + b) * 64 + d" by (simp add: c_def)
  have "c div 4096 = c div 64 div 64" by (simp flip: div_mult2_eq)
  then have "c div 4096 = a" "c div 64 mod 64 = b" "c mod 64 = d"
    unfolding c using div64 [OF assms(2), of a] div64 [OF assms(3), of "a * 64 + b"] by simp_all
  moreover have "c < 65536" "2048 \<le> c" using assms by (auto simp: c_def)
  moreover have "is_scalar c"
    using assms by (cases "a < 13"; cases "a = 13"; simp add: c_def is_scalar_def)
  ultimately have "utf8_char c = [224 + a, 128 + b, 128 + d]" by (simp add: utf8_char_def)
  with \<open>is_scalar c\<close> show ?thesis by (simp add: c_def)
qed

lemma utf8_char_4:
  assumes "a < 5" "b < 64" "d < 64" "f < 64" "a = 0 \<longrightarrow> 16 \<le> b" "a = 4 \<longrightarrow> b < 16"
  shows "utf8_char (a * 262144 + b * 4096 + d * 64 + f) = [240 + a, 128 + b, 128 + d, 128 + f] \<and>
    is_scalar (a * 262144 + b * 4096 + d * 64 + f)"
proof -
  define c where "c = a * 262144 + b * 4096 + d * 64 + f"
  have c: "c = ((a * 64 + b) * 64 + d) * 64 + f" by (simp add: c_def)
  have "c div 4096 = c div 64 div 64" "c div 262144 = c div 64 div 64 div 64" by (simp_all flip: div_mult2_eq)
  then have "c div 262144 = a" "c div 4096 mod 64 = b" "c div 64 mod 64 = d" "c mod 64 = f"
    unfolding c using div64 [OF assms(2), of a] div64 [OF assms(3), of "a * 64 + b"]
      div64 [OF assms(4), of "(a * 64 + b) * 64 + d"] by simp_all
  moreover have "65536 \<le> c" "is_scalar c"
    using assms by (auto simp: c_def is_scalar_def)
  ultimately have "utf8_char c = [240 + a, 128 + b, 128 + d, 128 + f]" by (simp add: utf8_char_def)
  with \<open>is_scalar c\<close> show ?thesis by (simp add: c_def)
qed

lemma utf8_decode_inv:
  "utf8_decode ns = Some cs \<Longrightarrow> concat (map utf8_char cs) = ns \<and> list_all is_scalar cs"
proof (induction ns arbitrary: cs rule: utf8_decode.induct)
  case (2 n0 bs)
  note IH = 2(1-4) and step = 2(5)
  consider "n0 < 128" | "194 \<le> n0" "n0 \<le> 223" | "224 \<le> n0" "n0 \<le> 239" | "240 \<le> n0" "n0 \<le> 244"
    using step by (fastforce simp: utf8_decode.simps(2) split: if_split_asm)
  then show ?case
  proof cases
    case 1
    with step IH(1) show ?thesis by (auto simp: utf8_char_def is_scalar_def)
  next
    case 2
    with step obtain n1 bs' cs' where v: "bs = n1 # bs'" "is_cont n1" "utf8_decode bs' = Some cs'"
      "cs = ((n0 - 192) * 64 + (n1 - 128)) # cs'"
      by (auto split: list.splits if_splits)
    have "utf8_char (hd cs) = [n0, n1] \<and> is_scalar (hd cs)"
      using v 2 utf8_char_2 [of "n0 - 192" "n1 - 128"] by (auto simp: is_cont_def)
    then show ?thesis using v 2 IH(2) by simp
  next
    case 3
    with step obtain n1 n2 bs' cs' where v: "bs = n1 # n2 # bs'" "second_ok n0 n1" "is_cont n2" "utf8_decode bs' = Some cs'"
      "cs = ((n0 - 224) * 4096 + (n1 - 128) * 64 + (n2 - 128)) # cs'"
      by (auto split: list.splits if_splits)
    have "utf8_char (hd cs) = [n0, n1, n2] \<and> is_scalar (hd cs)"
      using v 3 utf8_char_3 [of "n0 - 224" "n1 - 128" "n2 - 128"] by (auto simp: is_cont_def second_ok_def split: if_splits)
    then show ?thesis using v 3 IH(3) by simp
  next
    case 4
    with step obtain n1 n2 n3 bs' cs' where v: "bs = n1 # n2 # n3 # bs'" "second_ok n0 n1" "is_cont n2" "is_cont n3"
      "utf8_decode bs' = Some cs'"
      "cs = ((n0 - 240) * 262144 + (n1 - 128) * 4096 + (n2 - 128) * 64 + (n3 - 128)) # cs'"
      by (auto split: list.splits if_splits)
    have "utf8_char (hd cs) = [n0, n1, n2, n3] \<and> is_scalar (hd cs)"
      using v 4 utf8_char_4 [of "n0 - 240" "n1 - 128" "n2 - 128" "n3 - 128"] by (auto simp: is_cont_def second_ok_def split: if_splits)
    then show ?thesis using v 4 IH(4) by simp
  qed
qed simp

lemma from_utf8_iff: "from_utf8 bs = Some cs \<longleftrightarrow> bs = utf8_encode cs \<and> list_all is_scalar cs"
proof
  assume "from_utf8 bs = Some cs"
  from utf8_decode_inv [OF this [unfolded from_utf8_def]]
  show "bs = utf8_encode cs \<and> list_all is_scalar cs" by (simp add: utf8_encode_def o_def)
qed (simp add: from_utf8_encode)

lemma from_utf8_lossy_valid: "from_utf8 bs = Some cs \<Longrightarrow> from_utf8_lossy bs = cs"
  by (simp add: from_utf8_def from_utf8_lossy_def utf8_lossy_valid)


section \<open>UTF-16\<close>

definition utf16_char :: "nat \<Rightarrow> nat list" where
  "utf16_char c = (if c < 65536 then [c] else [55296 + (c - 65536) div 1024, 56320 + (c - 65536) mod 1024])"

definition encode_utf16 :: "ustr \<Rightarrow> nat list" where
  "encode_utf16 s = concat (map utf16_char s)"

text \<open>\<open>from_utf16_lossy\<close>: a surrogate without its partner becomes U+FFFD.\<close>

fun from_utf16_lossy :: "nat list \<Rightarrow> ustr" where
  "from_utf16_lossy [] = []"
| "from_utf16_lossy (u # us) =
     (if u < 55296 \<or> 57344 \<le> u then u # from_utf16_lossy us
      else if 56320 \<le> u then 65533 # from_utf16_lossy us
      else case us of
             [] \<Rightarrow> [65533]
           | v # vs \<Rightarrow>
               if 56320 \<le> v \<and> v < 57344
               then (65536 + (u - 55296) * 1024 + (v - 56320)) # from_utf16_lossy vs
               else 65533 # from_utf16_lossy us)"

lemma from_utf16_char:
  assumes "is_scalar c"
  shows "from_utf16_lossy (utf16_char c @ us) = c # from_utf16_lossy us"
proof (cases "c < 65536")
  case False
  define d where "d = c - 65536"
  have c: "c = 65536 + d" and d: "d < 1048576" using False assms by (auto simp: d_def is_scalar_def)
  have "d div 1024 < 1024" using d by simp
  moreover have "d div 1024 * 1024 + d mod 1024 = d" by simp
  ultimately show ?thesis by (simp add: utf16_char_def c)
qed (use assms in \<open>simp add: utf16_char_def is_scalar_def\<close>)

lemma from_utf16_encode [simp]: "list_all is_scalar s \<Longrightarrow> from_utf16_lossy (encode_utf16 s) = s"
  by (induction s) (simp_all add: encode_utf16_def from_utf16_char)

lemma utf16_units: "is_scalar c \<Longrightarrow> u \<in> set (utf16_char c) \<Longrightarrow> u < 65536 \<and> (u = 0 \<longrightarrow> c = 0)"
  by (auto simp: utf16_char_def is_scalar_def split: if_splits)

lemma encode_utf16_units:
  assumes "list_all is_scalar s" "u \<in> set (encode_utf16 s)"
  shows "u < 65536" and "u = 0 \<Longrightarrow> 0 \<in> set s"
  using assms utf16_units by (fastforce simp: encode_utf16_def list_all_iff)+

text \<open>\<open>u16::to_le_bytes\<close> of every unit, and \<open>chunks_exact(2)\<close> with \<open>u16::from_le_bytes\<close>.\<close>

definition units_to_bytes :: "nat list \<Rightarrow> bytes" where
  "units_to_bytes us = concat (map (\<lambda>u. [of_nat u, of_nat (u div 256)]) us)"

fun bytes_to_units :: "bytes \<Rightarrow> nat list" where
  "bytes_to_units (a # b # bs) = (unat a + 256 * unat b) # bytes_to_units bs"
| "bytes_to_units _ = []"

lemma bytes_to_units_append:
  "\<forall>u \<in> set us. u < 65536 \<Longrightarrow> bytes_to_units (units_to_bytes us @ bs) = us @ bytes_to_units bs"
proof (induction us)
  case (Cons u us)
  have "unat (of_nat u :: u8) + 256 * unat (of_nat (u div 256) :: u8) = u"
  proof -
    have "u div 256 < 256" using Cons.prems by (simp add: less_mult_imp_div_less)
    then show ?thesis by (simp add: unat_of_nat)
  qed
  with Cons show ?case by (simp add: units_to_bytes_def)
qed (simp add: units_to_bytes_def)

section \<open>Lines\<close>

definition strip_cr :: "ustr \<Rightarrow> ustr" where
  "strip_cr l = (if l \<noteq> [] \<and> last l = 13 then butlast l else l)"

text \<open>\<open>str::lines\<close>: the line read so far is the first argument.\<close>

fun lines_from :: "ustr \<Rightarrow> ustr \<Rightarrow> ustr list" where
  "lines_from cur [] = (if cur = [] then [] else [cur])"
| "lines_from cur (c # cs) = (if c = 10 then strip_cr cur # lines_from [] cs else lines_from (cur @ [c]) cs)"

definition str_lines :: "ustr \<Rightarrow> ustr list" where
  "str_lines s = lines_from [] s"

definition plain_line :: "ustr \<Rightarrow> bool" where
  "plain_line l \<longleftrightarrow> l \<noteq> [] \<and> 10 \<notin> set l \<and> last l \<noteq> 13"

lemma lines_from_line: "10 \<notin> set l \<Longrightarrow> lines_from cur (l @ s) = lines_from (cur @ l) s"
  by (induction l arbitrary: cur) auto

lemma str_lines_join: "list_all plain_line ls \<Longrightarrow> str_lines (join [10] ls) = ls"
proof (induction "[10] :: ustr" ls rule: join.induct)
  case (2 s)
  then show ?case using lines_from_line [of s "[]" "[]"] by (simp add: str_lines_def plain_line_def)
next
  case (3 s t ts)
  then show ?case using lines_from_line [of s "[]" "10 # join [10] (t # ts)"]
    by (simp add: str_lines_def plain_line_def strip_cr_def)
qed (simp add: str_lines_def)

section \<open>Numbers and searching\<close>

text \<open>\<open>format!("{n:09}")\<close>.\<close>

definition dec9 :: "nat \<Rightarrow> ustr" where
  "dec9 n = replicate (9 - length (dec n)) 48 @ dec n"

definition is_digit :: "nat \<Rightarrow> bool" where
  "is_digit c \<longleftrightarrow> 48 \<le> c \<and> c \<le> 57"

definition digits_value :: "ustr \<Rightarrow> nat" where
  "digits_value s = foldl (\<lambda>n c. 10 * n + (c - 48)) 0 s"

text \<open>\<open>parse::<usize>()\<close> of a string of digits.\<close>

definition parse_usize :: "ustr \<Rightarrow> nat option" where
  "parse_usize s = (if s = [] \<or> digits_value s \<ge> 2 ^ 64 then None else Some (digits_value s))"

lemma dec_digits: "\<forall>c \<in> set (dec n). is_digit c"
  proof (induction n rule: dec.induct)
  case (1 n)
  then show ?case by (cases "n < 10") (simp_all add: dec.simps [of n] is_digit_def)
qed

lemma digits_value_snoc: "digits_value (s @ [c]) = 10 * digits_value s + (c - 48)"
  by (simp add: digits_value_def)

lemma digits_value_dec: "digits_value (dec n) = n"
proof (induction n rule: dec.induct)
  case (1 n)
  show ?case
  proof (cases "n < 10")
    case True
    then show ?thesis by (simp add: dec.simps [of n] digits_value_def)
  next
    case False
    then show ?thesis using 1 by (subst dec.simps) (simp add: digits_value_snoc)
  qed
qed

lemma digits_value_zeros: "digits_value (replicate k 48 @ s) = digits_value s"
  by (induction k) (simp_all add: digits_value_def)

lemma length_dec: "n < 10 ^ Suc k \<Longrightarrow> length (dec n) \<le> Suc k"
proof (induction k arbitrary: n)
  case 0
  then show ?case by (simp add: dec.simps [of n])
next
  case (Suc k)
  have "n div 10 < 10 ^ Suc k" using Suc.prems by (simp add: less_mult_imp_div_less mult.commute)
  from Suc.IH [OF this] show ?case by (cases "n < 10") (simp_all add: dec.simps [of n])
qed

lemma dec9_facts:
  assumes "n < 1000000000"
  shows "length (dec9 n) = 9" and "\<forall>c \<in> set (dec9 n). is_digit c" and "parse_usize (dec9 n) = Some n"
proof -
  have "length (dec n) \<le> 9" using length_dec [of n 8] assms by simp
  then show l: "length (dec9 n) = 9" by (simp add: dec9_def)
  show "\<forall>c \<in> set (dec9 n). is_digit c" using dec_digits by (auto simp: dec9_def is_digit_def)
  have "digits_value (dec9 n) = n" by (simp add: dec9_def digits_value_zeros digits_value_dec)
  moreover have "dec9 n \<noteq> []" using l by auto
  ultimately show "parse_usize (dec9 n) = Some n" using assms by (simp add: parse_usize_def)
qed

text \<open>\<open>&s[s.find(key)? + key.len()..]\<close>: what follows the first occurrence.\<close>

fun str_after :: "ustr \<Rightarrow> ustr \<Rightarrow> ustr option" where
  "str_after key [] = (if key = [] then Some [] else None)"
| "str_after key (c # s) =
     (if take (length key) (c # s) = key then Some (drop (length key) (c # s)) else str_after key s)"

lemma str_after_skip: "k \<notin> set a \<Longrightarrow> str_after (k # ks) (a @ s) = str_after (k # ks) s"
  by (induction a) auto

lemma str_after_hit: "key \<noteq> [] \<Longrightarrow> str_after key (key @ s) = Some s"
  by (cases key) auto

section \<open>Runs that end at zero\<close>

text \<open>The part before the first NUL: \<open>position(|&u| u == 0).unwrap_or(len)\<close>.\<close>

definition until_nul :: "nat list \<Rightarrow> nat list" where
  "until_nul us = takeWhile (\<lambda>u. u \<noteq> 0) us"

lemma until_nul_append: "0 \<notin> set us \<Longrightarrow> until_nul (us @ 0 # vs) = us"
  unfolding until_nul_def by (subst takeWhile_append2) (auto intro: gr0I)

end
