(* ===== verification/Clipboard_Backend.thy ===== *)
theory Clipboard_Backend
  imports Os_Text
begin

text \<open>
  What a platform backend is to the rest of the program (\<open>clipse-clipboard/src/capture.rs\<close>, trait
  \<open>Clipboard\<close>, and \<open>watch.rs\<close>): it reads the clipboard, it writes it, and a thread of its own hands
  every change to \<open>classify\<close> and \<open>deliver\<close>.

  The locale \<open>clipboard_backend\<close> is what the rest relies on: what was written is what the next
  reading finds, up to the order of the formats, for the payloads the platform can represent. From
  it follows, once for all platforms, that the guard recognises the echo of a write, and also what
  happens when the thread sees the change before the guard is armed. The theories \<open>Win_Clipboard\<close>
  and \<open>Unix_Clipboard\<close> interpret it on the models of the four backends.

  The second part is the loop of the watch thread. What the loop observes in each round is a list;
  the writes of other threads, which arm the guard, stand between the rounds. The backends differ in
  how they notice a change (\<open>step\<close>), the rest of the round is the same.
\<close>

section \<open>Errors and payloads\<close>

datatype clipboard_error = Platform | WatcherStartup | InvalidPayload | ClipboardCore

type_synonym payloads = "(clip_format \<times> bytes) list"

abbreviation labels_of :: "payloads \<Rightarrow> string list" where
  "labels_of ps \<equiv> map (\<lambda>(fmt, _). label fmt) ps"

text \<open>The part of every \<open>Clipboard::read\<close> that turns a reading into its answer.\<close>

fun read_answer :: "raw_poll \<Rightarrow> capture option" where
  "read_answer (PollData c) = Some c"
| "read_answer PollConcealed = None"
| "read_answer PollEmpty = None"

text \<open>Every backend asks for the formats in an order of its own.\<close>

definition found :: "payloads \<Rightarrow> clip_format \<Rightarrow> payloads" where
  "found ps fmt = (case map_of ps fmt of None \<Rightarrow> [] | Some bs \<Rightarrow> [(fmt, bs)])"

lemma map_of_rev_distinct: "distinct (map fst xs) \<Longrightarrow> map_of (rev xs) = map_of xs"
  by (rule map_of_eqI) (auto simp: map_of_eq_Some_iff rev_map [symmetric])

lemma mset_found:
  assumes "distinct (map fst ps)" "distinct fmts" "fst ` set ps \<subseteq> set fmts"
  shows "mset (concat (map (found ps) fmts)) = mset ps"
proof -
  have key: "fst p = fmt" if "p \<in> set (found ps fmt)" for p fmt
    using that by (auto simp: found_def split: option.splits)
  have "distinct (found ps fmt)" for fmt by (simp add: found_def split: option.split)
  then have "distinct (concat (map (found ps) fmts))"
    using assms(2) by (induction fmts) (auto dest: key)
  moreover have "set (concat (map (found ps) fmts)) = set ps"
    using assms(1,3) by (force simp: found_def map_of_eq_Some_iff split: option.splits)
  moreover have "distinct ps" using assms(1) by (simp add: distinct_map)
  ultimately show ?thesis by (metis set_eq_iff_mset_eq_distinct)
qed

section \<open>The watch thread\<close>

datatype 's round = Idle 's | Reading 's nat raw_poll "(bool \<times> try_send) list" | Finished

datatype 'n observed = Wrote nat content_hash | Tick 'n

fun watch_loop :: "'x crates_scheme \<Rightarrow> patterns \<Rightarrow> watch_config \<Rightarrow> ('n \<Rightarrow> 's \<Rightarrow> 's round) \<Rightarrow> 's \<Rightarrow> 'n observed list \<Rightarrow>
    own_write_guard \<Rightarrow> capture_event list \<times> own_write_guard" where
  "watch_loop X R cfg step s [] g = ([], g)"
| "watch_loop X R cfg step s (Wrote t h # os) g = watch_loop X R cfg step s os (record_write t h g)"
| "watch_loop X R cfg step s (Tick n # os) g =
     (case step n s of
        Finished \<Rightarrow> ([], g)
      | Idle s' \<Rightarrow> watch_loop X R cfg step s' os g
      | Reading s' now poll rounds \<Rightarrow>
          (case classify X R now cfg poll g of
             (ev, g') \<Rightarrow>
               if deliver rounds = Some True
               then (case watch_loop X R cfg step s' os g' of (evs, g'') \<Rightarrow> (ev # evs, g''))
               else ([], g')))"

text \<open>
  What the thread is there for: the readings it took, classified one after the other.
\<close>

datatype change = Armed nat content_hash | Seen nat raw_poll

fun classify_all :: "'x crates_scheme \<Rightarrow> patterns \<Rightarrow> watch_config \<Rightarrow> change list \<Rightarrow> own_write_guard \<Rightarrow>
    capture_event list \<times> own_write_guard" where
  "classify_all X R cfg [] g = ([], g)"
| "classify_all X R cfg (Armed t h # cs) g = classify_all X R cfg cs (record_write t h g)"
| "classify_all X R cfg (Seen now poll # cs) g =
     (case classify X R now cfg poll g of
        (ev, g') \<Rightarrow> (case classify_all X R cfg cs g' of (evs, g'') \<Rightarrow> (ev # evs, g'')))"

fun changes :: "('n \<Rightarrow> 's \<Rightarrow> 's round) \<Rightarrow> 's \<Rightarrow> 'n observed list \<Rightarrow> change list" where
  "changes step s [] = []"
| "changes step s (Wrote t h # os) = Armed t h # changes step s os"
| "changes step s (Tick n # os) =
     (case step n s of
        Finished \<Rightarrow> []
      | Idle s' \<Rightarrow> changes step s' os
      | Reading s' now poll rounds \<Rightarrow> Seen now poll # changes step s' os)"

text \<open>A run in which nobody asks for shutdown and the consumer keeps up.\<close>

fun undisturbed :: "('n \<Rightarrow> 's \<Rightarrow> 's round) \<Rightarrow> 's \<Rightarrow> 'n observed list \<Rightarrow> bool" where
  "undisturbed step s [] \<longleftrightarrow> True"
| "undisturbed step s (Wrote t h # os) \<longleftrightarrow> undisturbed step s os"
| "undisturbed step s (Tick n # os) \<longleftrightarrow>
     (case step n s of
        Finished \<Rightarrow> False
      | Idle s' \<Rightarrow> undisturbed step s' os
      | Reading s' now poll rounds \<Rightarrow> deliver rounds = Some True \<and> undisturbed step s' os)"

lemma watch_loop_changes:
  "undisturbed step s os \<Longrightarrow> watch_loop X R cfg step s os g = classify_all X R cfg (changes step s os) g"
proof (induction step s os arbitrary: g rule: undisturbed.induct)
  case (3 step s n os)
  then show ?case by (auto split: round.splits prod.splits)
qed simp_all

text \<open>Whatever happens, the events that were sent are a prefix of what the thread would send undisturbed.\<close>

lemma watch_loop_prefix:
  "\<exists>post. fst (classify_all X R cfg (changes step s os) g) = fst (watch_loop X R cfg step s os g) @ post"
proof (induction X R cfg step s os g rule: watch_loop.induct)
  case (3 X R cfg step s n os g)
  show ?case
  proof (cases "step n s")
    case (Idle s')
    then show ?thesis using 3(1) by simp
  next
    case (Reading s' now poll rounds)
    obtain ev g' where c: "classify X R now cfg poll g = (ev, g')" by force
    then show ?thesis using 3(2) [OF Reading c [symmetric]]
      by (auto simp: Reading split: prod.splits)
  qed simp
qed simp_all

section \<open>Echoes\<close>

lemma write_echo_suppressed:
  assumes "mset (cap_payloads c) = mset ps" "distinct (labels_of ps)" "ps \<noteq> []"
    "total_bytes c \<le> wc_max_payload_bytes cfg" "\<forall>app. cap_app c = Some app \<longrightarrow> \<not> is_blocked (wc_app_blocklist cfg) app"
    "now - t \<le> og_ttl g"
  shows "fst (classify X R now cfg (PollData c) (record_write t (hash_payloads X ps) g)) = SuppressedCapture OwnWrite"
proof -
  have "sort_key (\<lambda>(fmt, _). label fmt) ps = sort_key (\<lambda>(fmt, _). label fmt) (cap_payloads c)"
    by (rule sort_key_perm_eq [OF assms(1) [symmetric] assms(2)])
  then have "hash_payloads X ps = capture_hash X c" by (simp add: capture_hash_def hash_payloads_def)
  moreover have "cap_payloads c \<noteq> []" using assms(1,3) by auto
  moreover have "(case cap_app c of None \<Rightarrow> None
      | Some app \<Rightarrow> if is_blocked (wc_app_blocklist cfg) app then Some app else None) = None"
    using assms(5) by (auto split: option.splits)
  ultimately show ?thesis using assms(4,6)
    by (simp add: classify_def own_check_def record_write_def leD)
qed

text \<open>Size and application do not suppress a reading.\<close>

definition passes :: "watch_config \<Rightarrow> raw_poll \<Rightarrow> bool" where
  "passes cfg p \<longleftrightarrow> (case p of
     PollData c \<Rightarrow> total_bytes c \<le> wc_max_payload_bytes cfg \<and>
       (\<forall>app. cap_app c = Some app \<longrightarrow> \<not> is_blocked (wc_app_blocklist cfg) app)
   | _ \<Rightarrow> False)"

locale clipboard_backend =
  fixes put :: "payloads \<Rightarrow> 'os \<Rightarrow> 'os option"
    and poll :: "'os \<Rightarrow> raw_poll"
    and faithful :: "payloads \<Rightarrow> 'os \<Rightarrow> bool"
  assumes reads_back: "faithful ps s \<Longrightarrow> put ps s = Some s' \<Longrightarrow> \<exists>c. poll s' = PollData c \<and> mset (cap_payloads c) = mset ps"
    and faithful_formats: "faithful ps s \<Longrightarrow> ps \<noteq> [] \<and> distinct (labels_of ps)"
begin

lemma echo_suppressed:
  assumes "faithful ps s" "put ps s = Some s'" "passes cfg (poll s')" "now - t \<le> og_ttl g"
  shows "fst (classify X R now cfg (poll s') (record_write t (hash_payloads X ps) g)) = SuppressedCapture OwnWrite"
proof -
  obtain c where c: "poll s' = PollData c" "mset (cap_payloads c) = mset ps" using reads_back [OF assms(1,2)] by blast
  show ?thesis unfolding c(1)
    by (rule write_echo_suppressed [OF c(2)]) (use faithful_formats [OF assms(1)] assms(3,4) in \<open>simp_all add: c(1) passes_def\<close>)
qed

text \<open>
  The guard is armed after the write: a thread that reads in between takes the echo for a copy of
  the user's.
\<close>

lemma early_reading_captured:
  assumes "faithful ps s" "put ps s = Some s'" "passes cfg (poll s')" "og_pending g = None" "detect_secret_in_payloads R ps = None"
  shows "\<exists>c. fst (classify X R now cfg (poll s') g) = Captured c \<and> mset (cap_payloads c) = mset ps"
proof -
  obtain c where c: "poll s' = PollData c" "mset (cap_payloads c) = mset ps" using reads_back [OF assms(1,2)] by blast
  have "set (cap_payloads c) = set ps" using c(2) by (metis set_mset_mset)
  then have "detect_secret_in_payloads R (cap_payloads c) = None" using assms(5) by (simp add: no_secret_in_payloads)
  moreover have "cap_payloads c \<noteq> []" using c(2) faithful_formats [OF assms(1)] by auto
  ultimately have "fst (classify X R now cfg (poll s') g) = Captured c"
    using assms(3,4) unfolding classify_captured by (simp add: c(1) passes_def own_check_def)
  with c(2) show ?thesis by blast
qed

end

end
