(* ===== verification/Win_Clipboard.thy ===== *)
theory Win_Clipboard
  imports Clipboard_Backend Wire
begin

text \<open>
  The Windows backend (\<open>clipse-clipboard/src/platform/windows.rs\<close>): reading and writing the Win32
  clipboard formats, the \<open>CF_HTML\<close> and \<open>CF_HDROP\<close> layouts, the retries and the message loop.

  The clipboard of the system is the record \<open>win_clipboard\<close>: for each format the memory block, or
  what goes wrong with it, and the application that owns the clipboard. The calls into Win32 that
  can fail are arguments (\<open>win32\<close>). A block that was written may be longer than what was written
  to it, because \<open>GlobalSize\<close> reports the size of the allocation; what stands in the extra bytes is
  an argument as well.

  Shown: what is written can be read back, format by format, whatever the extra bytes are for text,
  HTML and file lists; so the echo of a write is recognised. The exceptions are stated as well.
\<close>

section \<open>The clipboard of the system\<close>

datatype win_format = CfUnicodeText | CfHtml | CfRtf | CfPng | CfHdrop | CfExclude

text \<open>
  \<open>SlotNoHandle\<close>: the format is announced but \<open>GetClipboardData\<close> fails. \<open>SlotNoLock\<close>: the block
  cannot be locked.
\<close>

datatype win_slot = SlotNoHandle | SlotNoLock | SlotBlock bytes

record win_clipboard =
  wb_slots :: "win_format \<rightharpoonup> win_slot"
  wb_owner :: "ustr option"

record win32 =
  os_open :: bool
  os_empty :: bool
  os_set :: "win_format \<Rightarrow> bool"
  os_padding :: "win_format \<Rightarrow> bytes"

section \<open>Layouts\<close>

definition strip_trailing_nuls :: "bytes \<Rightarrow> bytes" where
  "strip_trailing_nuls bs = rev (dropWhile (\<lambda>b. b = 0) (rev bs))"

definition find_offset :: "ustr \<Rightarrow> ustr \<Rightarrow> nat option" where
  "find_offset header key =
     (case str_after key header of
        None \<Rightarrow> None
      | Some after_key \<Rightarrow> parse_usize (takeWhile is_digit after_key))"

definition parse_cf_html :: "bytes \<Rightarrow> bytes" where
  "parse_cf_html bs =
     (let header = from_utf8_lossy bs
      in case (find_offset header (lit ''StartFragment:''), find_offset header (lit ''EndFragment:'')) of
           (Some start, Some end) \<Rightarrow>
             if start < end \<and> end \<le> length bs then take (end - start) (drop start bs) else bs
         | _ \<Rightarrow> bs)"

definition CRLF :: ustr where
  "CRLF = [13, 10]"

definition PREFIX :: ustr where
  "PREFIX = lit ''<html>'' @ CRLF @ lit ''<body>'' @ CRLF @ lit ''<!--StartFragment-->''"

definition SUFFIX :: ustr where
  "SUFFIX = lit ''<!--EndFragment-->'' @ CRLF @ lit ''</body>'' @ CRLF @ lit ''</html>'' @ CRLF"

definition header_of :: "nat \<Rightarrow> nat \<Rightarrow> nat \<Rightarrow> nat \<Rightarrow> ustr" where
  "header_of start_html end_html start_fragment end_fragment =
     lit ''Version:0.9'' @ CRLF @ lit ''StartHTML:'' @ dec9 start_html @ CRLF @ lit ''EndHTML:'' @ dec9 end_html @ CRLF @
     lit ''StartFragment:'' @ dec9 start_fragment @ CRLF @ lit ''EndFragment:'' @ dec9 end_fragment @ CRLF"

definition build_cf_html :: "bytes \<Rightarrow> bytes" where
  "build_cf_html fragment =
     (let header_len = length (utf8_encode (header_of 0 0 0 0));
          start_html = header_len;
          start_fragment = start_html + length (utf8_encode PREFIX);
          end_fragment = start_fragment + length fragment;
          end_html = end_fragment + length (utf8_encode SUFFIX)
      in utf8_encode (header_of start_html end_html start_fragment end_fragment) @ utf8_encode PREFIX @ fragment @
         utf8_encode SUFFIX)"

text \<open>
  The header of a drop list, \<open>DropFilesHeader\<close>: five 32-bit fields, of which the first is the offset of
  the list and the last says that it is UTF-16. The signed fields are kept as bit patterns.
\<close>

record drop_files_header =
  p_files :: u32
  pt_x :: u32
  pt_y :: u32
  f_nc :: u32
  f_wide :: u32

definition HEADER_LEN :: nat where
  "HEADER_LEN = 20"

definition header_bytes :: "drop_files_header \<Rightarrow> bytes" where
  "header_bytes h = le_bytes_u32 (p_files h) @ le_bytes_u32 (pt_x h) @ le_bytes_u32 (pt_y h) @ le_bytes_u32 (f_nc h) @
     le_bytes_u32 (f_wide h)"

definition read_header :: "bytes \<Rightarrow> drop_files_header" where
  "read_header raw = \<lparr>p_files = from_le_bytes_u32 (take 4 raw), pt_x = from_le_bytes_u32 (take 4 (drop 4 raw)),
     pt_y = from_le_bytes_u32 (take 4 (drop 8 raw)), f_nc = from_le_bytes_u32 (take 4 (drop 12 raw)),
     f_wide = from_le_bytes_u32 (take 4 (drop 16 raw))\<rparr>"

function split_double_null_utf16 :: "nat list \<Rightarrow> ustr list" where
  "split_double_null_utf16 units =
     (case dropWhile (\<lambda>u. u \<noteq> 0) units of
        [] \<Rightarrow> []
      | _ # rest \<Rightarrow>
          let segment = takeWhile (\<lambda>u. u \<noteq> 0) units
          in if segment = [] then [] else from_utf16_lossy segment # split_double_null_utf16 rest)"
  by pat_completeness auto
termination
proof (relation "measure length", goal_cases)
  case (2 units x rest)
  have "length (x # rest) \<le> length units" unfolding 2(1) [symmetric] by (rule length_dropWhile_le)
  then show ?case by simp
qed simp

declare split_double_null_utf16.simps [simp del]

text \<open>The legacy list: \<open>split(0)\<close>, up to the first empty segment.\<close>

function split_ansi :: "bytes \<Rightarrow> ustr list" where
  "split_ansi bs =
     (let segment = takeWhile (\<lambda>b. b \<noteq> 0) bs
      in if segment = [] then []
         else from_utf8_lossy segment #
              (case dropWhile (\<lambda>b. b \<noteq> 0) bs of [] \<Rightarrow> [] | _ # rest \<Rightarrow> split_ansi rest))"
  by pat_completeness auto
termination
proof (relation "measure length", goal_cases)
  case (2 bs segment x rest)
  have "length (x # rest) \<le> length bs" unfolding 2(3) [symmetric] by (rule length_dropWhile_le)
  then show ?case by simp
qed simp

declare split_ansi.simps [simp del]

definition parse_hdrop :: "bytes \<Rightarrow> bytes option" where
  "parse_hdrop raw =
     (if length raw < HEADER_LEN then None
      else let header = read_header raw; offset = unat (p_files header)
           in if offset > length raw then None
              else let list = drop offset raw;
                       paths = if f_wide header \<noteq> 0 then split_double_null_utf16 (bytes_to_units list) else split_ansi list
                   in if paths = [] then None else Some (utf8_encode (join [10] paths)))"

definition build_hdrop :: "bytes \<Rightarrow> bytes" where
  "build_hdrop bs =
     (let text = from_utf8_lossy bs;
          units = concat (map (\<lambda>line. encode_utf16 line @ [0]) (filter (\<lambda>l. l \<noteq> []) (str_lines text))) @ [0]
      in header_bytes \<lparr>p_files = of_nat HEADER_LEN, pt_x = 0, pt_y = 0, f_nc = 0, f_wide = 1\<rparr> @ units_to_bytes units)"

section \<open>Reading\<close>

definition read_global_bytes :: "win_slot \<Rightarrow> clipboard_error + bytes option" where
  "read_global_bytes slot =
     (case slot of SlotNoHandle \<Rightarrow> Inr None | SlotNoLock \<Rightarrow> Inl Platform | SlotBlock bs \<Rightarrow> Inr (Some bs))"

definition read_unicode_text :: "win_slot \<Rightarrow> clipboard_error + bytes option" where
  "read_unicode_text slot =
     bind_r (read_global_bytes slot) (\<lambda>r. Inr (map_option (\<lambda>raw. utf8_encode (from_utf16_lossy (until_nul (bytes_to_units raw)))) r))"

definition read_registered_format :: "win_slot \<Rightarrow> clipboard_error + bytes option" where
  "read_registered_format slot = read_global_bytes slot"

definition read_hdrop :: "win_slot \<Rightarrow> clipboard_error + bytes option" where
  "read_hdrop slot =
     bind_r (read_global_bytes slot) (\<lambda>r. Inr (case r of None \<Rightarrow> None | Some raw \<Rightarrow> parse_hdrop raw))"

text \<open>One \<open>if\<close> of \<open>poll_clipboard\<close>: a format that is there and can be read adds its payload.\<close>

definition read_format :: "win_clipboard \<Rightarrow> win_format \<Rightarrow> (win_slot \<Rightarrow> clipboard_error + bytes option) \<Rightarrow> (bytes \<Rightarrow> bytes) \<Rightarrow>
    clip_format \<Rightarrow> clipboard_error + payloads" where
  "read_format cb f reader post fmt =
     (case wb_slots cb f of
        None \<Rightarrow> Inr []
      | Some slot \<Rightarrow> bind_r (reader slot) (\<lambda>r. Inr (case r of None \<Rightarrow> [] | Some bs \<Rightarrow> [(fmt, post bs)])))"

definition poll_clipboard :: "win_clipboard \<Rightarrow> clipboard_error + raw_poll" where
  "poll_clipboard cb =
     (if wb_slots cb CfExclude \<noteq> None then Inr PollConcealed
      else bind_r (read_format cb CfUnicodeText read_unicode_text id Text) (\<lambda>text.
           bind_r (read_format cb CfHtml read_registered_format parse_cf_html Html) (\<lambda>html.
           bind_r (read_format cb CfRtf read_registered_format strip_trailing_nuls Rtf) (\<lambda>rtf.
           bind_r (read_format cb CfPng read_registered_format id Png) (\<lambda>png.
           bind_r (read_format cb CfHdrop read_hdrop id FileList) (\<lambda>files.
             let payloads = text @ html @ rtf @ png @ files
             in Inr (if payloads = [] then PollEmpty
                     else PollData \<lparr>cap_payloads = payloads, cap_app = wb_owner cb\<rparr>)))))))"

definition ATTEMPTS :: nat where
  "ATTEMPTS = 5"

text \<open>
  \<open>with_clipboard_open\<close> and \<open>poll_with_retry\<close>. What an attempt finds, whether the clipboard could be opened and
  its content then, is an argument; any error counts as a failed attempt.
\<close>

definition with_clipboard_open :: "bool \<Rightarrow> clipboard_error + 'a \<Rightarrow> clipboard_error + 'a" where
  "with_clipboard_open opened result = (if opened then result else Inl Platform)"

type_synonym attempts = "nat \<Rightarrow> bool \<times> win_clipboard"

fun retry_poll :: "nat \<Rightarrow> nat \<Rightarrow> attempts \<Rightarrow> raw_poll" where
  "retry_poll 0 attempt obs = PollEmpty"
| "retry_poll (Suc n) attempt obs =
     (case with_clipboard_open (fst (obs attempt)) (poll_clipboard (snd (obs attempt))) of
        Inr outcome \<Rightarrow> outcome
      | Inl _ \<Rightarrow> retry_poll n (attempt + 1) obs)"

definition poll_with_retry :: "attempts \<Rightarrow> raw_poll" where
  "poll_with_retry obs = retry_poll ATTEMPTS 0 obs"

definition win_read :: "attempts \<Rightarrow> capture option" where
  "win_read obs = read_answer (poll_with_retry obs)"

section \<open>Writing\<close>

definition set_global :: "win32 \<Rightarrow> win_format \<Rightarrow> bytes \<Rightarrow> win_clipboard \<Rightarrow> (clipboard_error + unit) \<times> win_clipboard" where
  "set_global W f bs cb =
     (if os_set W f then (Inr (), cb\<lparr>wb_slots := (wb_slots cb)(f \<mapsto> SlotBlock (bs @ os_padding W f))\<rparr>) else (Inl Platform, cb))"

definition write_one :: "win32 \<Rightarrow> clip_format \<Rightarrow> bytes \<Rightarrow> win_clipboard \<Rightarrow> (clipboard_error + unit) \<times> win_clipboard" where
  "write_one W fmt bs cb =
     (case fmt of
        Text \<Rightarrow> set_global W CfUnicodeText (units_to_bytes (encode_utf16 (from_utf8_lossy bs) @ [0])) cb
      | Html \<Rightarrow> set_global W CfHtml (build_cf_html bs) cb
      | Rtf \<Rightarrow> set_global W CfRtf (bs @ [0]) cb
      | Png \<Rightarrow> set_global W CfPng bs cb
      | FileList \<Rightarrow> set_global W CfHdrop (build_hdrop bs) cb
      | _ \<Rightarrow> (Inr (), cb))"

fun write_all :: "win32 \<Rightarrow> payloads \<Rightarrow> win_clipboard \<Rightarrow> (clipboard_error + unit) \<times> win_clipboard" where
  "write_all W [] cb = (Inr (), cb)"
| "write_all W ((fmt, bs) # ps) cb =
     (case write_one W fmt bs cb of
        (Inl e, cb') \<Rightarrow> (Inl e, cb')
      | (Inr _, cb') \<Rightarrow> write_all W ps cb')"

text \<open>
  \<open>WindowsClipboard::write\<close>: what it leaves on the clipboard and in the guard. The daemon becomes the
  owner of the clipboard when it empties it (\<open>self_app\<close> is what \<open>owning_app\<close> makes of it).
\<close>

definition win_put :: "win32 \<Rightarrow> ustr option \<Rightarrow> payloads \<Rightarrow> win_clipboard \<Rightarrow> (clipboard_error + unit) \<times> win_clipboard" where
  "win_put W self_app ps cb =
     (if \<not> os_open W then (Inl Platform, cb)
      else if \<not> os_empty W then (Inl Platform, cb)
      else write_all W ps \<lparr>wb_slots = Map.empty, wb_owner = self_app\<rparr>)"

definition win_write :: "'x crates_scheme \<Rightarrow> win32 \<Rightarrow> ustr option \<Rightarrow> nat \<Rightarrow> payloads \<Rightarrow> win_clipboard \<times> own_write_guard \<Rightarrow>
    (clipboard_error + unit) \<times> win_clipboard \<times> own_write_guard" where
  "win_write X W self_app now ps s =
     (case win_put W self_app ps (fst s) of
        (Inl e, cb) \<Rightarrow> (Inl e, cb, snd s)
      | (Inr _, cb) \<Rightarrow> (Inr (), cb, record_write now (hash_payloads X ps) (snd s)))"

section \<open>The message loop\<close>

datatype win_message =
    WinQuit
  | WinClipboardUpdate nat attempts "(bool \<times> try_send) list"
  | WinAppStop
  | WinOther

definition win_step :: "win_message \<Rightarrow> unit \<Rightarrow> unit round" where
  "win_step msg s =
     (case msg of
        WinQuit \<Rightarrow> Finished
      | WinClipboardUpdate now obs rounds \<Rightarrow> Reading s now (poll_with_retry obs) rounds
      | WinAppStop \<Rightarrow> Finished
      | WinOther \<Rightarrow> Idle s)"

definition message_loop :: "'x crates_scheme \<Rightarrow> patterns \<Rightarrow> watch_config \<Rightarrow> win_message observed list \<Rightarrow> own_write_guard \<Rightarrow>
    capture_event list \<times> own_write_guard" where
  "message_loop X R cfg msgs g = watch_loop X R cfg win_step () msgs g"

text \<open>
  \<open>start\<close>: whether the thread could be spawned, its window created and the listener registered.
\<close>

record win_session =
  ws_spawned :: bool
  ws_window :: bool
  ws_listener :: bool

definition win_start :: "win_session \<Rightarrow> clipboard_error + watch_mode" where
  "win_start S =
     (if \<not> ws_spawned S then Inl WatcherStartup
      else if \<not> ws_window S then Inl Platform
      else if \<not> ws_listener S then Inl Platform
      else Inr WatchAutomatic)"

section \<open>Text\<close>

lemma read_unicode_text_block:
  assumes "from_utf8 bs = Some cs" "0 \<notin> set cs"
  shows "read_unicode_text (SlotBlock (units_to_bytes (encode_utf16 (from_utf8_lossy bs) @ [0]) @ pad)) = Inr (Some bs)"
proof -
  have cs: "list_all is_scalar cs" "bs = utf8_encode cs" using assms(1) by (simp_all add: from_utf8_iff)
  have "\<forall>u \<in> set (encode_utf16 cs @ [0]). u < 65536" using encode_utf16_units(1) [OF cs(1)] by auto
  then have "bytes_to_units (units_to_bytes (encode_utf16 cs @ [0]) @ pad) = encode_utf16 cs @ 0 # bytes_to_units pad"
    by (subst bytes_to_units_append) simp_all
  moreover have "0 \<notin> set (encode_utf16 cs)" using encode_utf16_units(2) [OF cs(1), of 0] assms(2) by blast
  ultimately show ?thesis
    unfolding from_utf8_lossy_valid [OF assms(1)]
    by (simp add: read_unicode_text_def read_global_bytes_def until_nul_append cs)
qed

section \<open>HTML\<close>

lemma utf8_encode_ascii: "\<forall>c \<in> set s. c < 128 \<Longrightarrow> utf8_encode s = map of_nat s"
  by (induction s) (simp_all add: utf8_encode_def utf8_char_def)

lemma lossy_ascii: "\<forall>c \<in> set s. c < 128 \<Longrightarrow> from_utf8_lossy (map of_nat s @ bs) = s @ from_utf8_lossy bs"
proof (induction s)
  case (Cons c s)
  then have "unat (of_nat c :: u8) = c" by (simp add: unat_of_nat)
  with Cons show ?case by (simp add: from_utf8_lossy_def utf8_lossy.simps(2))
qed simp

lemma header_facts:
  assumes "a < 1000000000" "b < 1000000000" "c < 1000000000" "d < 1000000000"
  shows "length (header_of a b c d) = 101" and "\<forall>x \<in> set (header_of a b c d). x < 128"
  using dec9_facts(1,2) assms by (fastforce simp: header_of_def CRLF_def is_digit_def)+

lemma find_offset_number:
  assumes "str_after key h = Some (dec9 n @ 13 # s)" "n < 1000000000"
  shows "find_offset h key = Some n"
proof -
  have "takeWhile is_digit (dec9 n @ 13 # s) = dec9 n"
    using dec9_facts(2) [OF assms(2)] by (subst takeWhile_append2) (auto simp: is_digit_def)
  then show ?thesis using assms dec9_facts(3) by (simp add: find_offset_def)
qed

lemma header_offsets:
  assumes "a < 1000000000" "b < 1000000000" "c < 1000000000" "d < 1000000000"
  shows "find_offset (header_of a b c d @ s) (lit ''StartFragment:'') = Some c"
    and "find_offset (header_of a b c d @ s) (lit ''EndFragment:'') = Some d"
proof -
  have no: "83 \<notin> set (dec9 n)" "69 \<notin> set (dec9 n)" if "n < 1000000000" for n
    using dec9_facts(2) [OF that] by (auto simp: is_digit_def)
  have "str_after (lit ''StartFragment:'') (header_of a b c d @ s) =
      Some (dec9 c @ 13 # 10 # lit ''EndFragment:'' @ dec9 d @ 13 # 10 # s)"
    using no [OF assms(1)] no [OF assms(2)] by (simp add: header_of_def CRLF_def str_after_skip)
  then show "find_offset (header_of a b c d @ s) (lit ''StartFragment:'') = Some c"
    using assms(3) by (rule find_offset_number)
  have "str_after (lit ''EndFragment:'') (header_of a b c d @ s) = Some (dec9 d @ 13 # 10 # s)"
    using no [OF assms(1)] no [OF assms(2)] no [OF assms(3)] by (simp add: header_of_def CRLF_def str_after_skip)
  then show "find_offset (header_of a b c d @ s) (lit ''EndFragment:'') = Some d"
    using assms(4) by (rule find_offset_number)
qed

text \<open>A fragment is read back, whatever follows the block, unless it is empty or its offsets need more than nine digits.\<close>

lemma cf_html_roundtrip:
  assumes "f \<noteq> []" "length f + 175 < 1000000000"
  shows "parse_cf_html (build_cf_html f @ pad) = f"
proof -
  let ?h = "header_of 101 (175 + length f) 137 (137 + length f)"
  have pre: "utf8_encode PREFIX = map of_nat PREFIX" "length PREFIX = 36" "length SUFFIX = 38" "utf8_encode SUFFIX = map of_nat SUFFIX"
    by (simp_all add: utf8_encode_ascii PREFIX_def SUFFIX_def CRLF_def)
  have h: "length ?h = 101" "\<forall>x \<in> set ?h. x < 128" "utf8_encode ?h = map of_nat ?h"
    using header_facts [of 101 "175 + length f" 137 "137 + length f"] assms(2) by (simp_all add: utf8_encode_ascii)
  have "length (utf8_encode (header_of 0 0 0 0)) = 101"
    using header_facts [of 0 0 0 0] by (simp add: utf8_encode_ascii)
  then have b: "build_cf_html f = map of_nat ?h @ map of_nat PREFIX @ f @ map of_nat SUFFIX"
    unfolding build_cf_html_def Let_def pre length_map using h(3) by (simp add: add.commute [of _ "length f"])
  have "take (length f) (drop 137 (build_cf_html f @ pad)) = f"
    unfolding b using h(1) pre(2) by simp
  moreover have "137 + length f \<le> length (build_cf_html f @ pad)" unfolding b using h(1) pre by simp
  moreover have "from_utf8_lossy (build_cf_html f @ pad) =
      ?h @ from_utf8_lossy (map of_nat PREFIX @ f @ map of_nat SUFFIX @ pad)"
    unfolding b using lossy_ascii [OF h(2)] by simp
  ultimately show ?thesis
    using assms header_offsets [of 101 "175 + length f" 137 "137 + length f"] by (simp add: parse_cf_html_def)
qed

section \<open>File lists\<close>

lemma split_double_null_segment:
  assumes "0 \<notin> set seg"
  shows "split_double_null_utf16 (seg @ 0 # rest) =
    (if seg = [] then [] else from_utf16_lossy seg # split_double_null_utf16 rest)"
proof -
  have "dropWhile (\<lambda>u. u \<noteq> 0) (seg @ 0 # rest) = 0 # rest" "takeWhile (\<lambda>u. u \<noteq> 0) (seg @ 0 # rest) = seg"
    using assms by (induction seg) auto
  then show ?thesis by (subst split_double_null_utf16.simps) (simp add: Let_def)
qed

definition path_line :: "ustr \<Rightarrow> bool" where
  "path_line l \<longleftrightarrow> plain_line l \<and> list_all is_scalar l \<and> 0 \<notin> set l"

lemma split_double_null_paths:
  "list_all path_line ls \<Longrightarrow>
   split_double_null_utf16 (concat (map (\<lambda>l. encode_utf16 l @ [0]) ls) @ 0 # rest) = ls"
proof (induction ls)
  case Nil
  then show ?case using split_double_null_segment [of "[]" rest] by simp
next
  case (Cons l ls)
  then have l: "list_all is_scalar l" "0 \<notin> set (encode_utf16 l)" "l \<noteq> []"
    using encode_utf16_units(2) [of l 0] by (auto simp: path_line_def plain_line_def)
  have "encode_utf16 l \<noteq> []" using l(3) by (cases l) (auto simp: encode_utf16_def utf16_char_def)
  with l Cons show ?case by (simp add: split_double_null_segment)
qed

lemma read_header_bytes: "read_header (header_bytes h @ rest) = h"
  by (simp add: read_header_def header_bytes_def)

lemma hdrop_roundtrip:
  assumes "from_utf8 bs = Some (join [10] ls)" "list_all path_line ls" "ls \<noteq> []"
  shows "parse_hdrop (build_hdrop bs @ pad) = Some bs"
proof -
  have lines: "str_lines (from_utf8_lossy bs) = ls" "filter (\<lambda>l. l \<noteq> []) ls = ls"
    using assms(2) str_lines_join [of ls]
    by (auto simp: from_utf8_lossy_valid [OF assms(1)] path_line_def list_all_iff plain_line_def intro!: filter_True)
  let ?units = "concat (map (\<lambda>l. encode_utf16 l @ [0]) ls) @ [0]"
  let ?h = "\<lparr>p_files = of_nat HEADER_LEN, pt_x = 0, pt_y = 0, f_nc = 0, f_wide = 1\<rparr>"
  have b: "build_hdrop bs = header_bytes ?h @ units_to_bytes ?units" by (simp add: build_hdrop_def lines)
  have h: "length (header_bytes ?h) = HEADER_LEN" "unat (p_files ?h) = HEADER_LEN"
    by (simp_all add: header_bytes_def HEADER_LEN_def)
  have "\<forall>u \<in> set ?units. u < 65536"
    using assms(2) encode_utf16_units(1) by (auto simp: list_all_iff path_line_def)
  then have "bytes_to_units (units_to_bytes ?units @ pad) = ?units @ bytes_to_units pad"
    by (rule bytes_to_units_append)
  then have "split_double_null_utf16 (bytes_to_units (units_to_bytes ?units @ pad)) = ls"
    using split_double_null_paths [OF assms(2), of "bytes_to_units pad"] by simp
  moreover have "utf8_encode (join [10] ls) = bs" using assms(1) by (simp add: from_utf8_iff)
  ultimately show ?thesis
    using h assms(3) by (simp add: parse_hdrop_def b read_header_bytes)
qed

section \<open>What is written is read back\<close>

text \<open>
  Payloads the platform can represent. The padding matters where the layout does not say where the
  content ends.
\<close>

fun win_faithful :: "win32 \<Rightarrow> clip_format \<times> bytes \<Rightarrow> bool" where
  "win_faithful W (Text, bs) \<longleftrightarrow> (case from_utf8 bs of None \<Rightarrow> False | Some cs \<Rightarrow> 0 \<notin> set cs)"
| "win_faithful W (Html, bs) \<longleftrightarrow> bs \<noteq> [] \<and> length bs + 175 < 1000000000"
| "win_faithful W (Rtf, bs) \<longleftrightarrow> (bs = [] \<or> last bs \<noteq> 0) \<and> list_all (\<lambda>b. b = 0) (os_padding W CfRtf)"
| "win_faithful W (Png, bs) \<longleftrightarrow> os_padding W CfPng = []"
| "win_faithful W (FileList, bs) \<longleftrightarrow>
     (case from_utf8 bs of
        None \<Rightarrow> False
      | Some cs \<Rightarrow> let ls = str_lines cs in ls \<noteq> [] \<and> list_all path_line ls \<and> join [10] ls = cs)"
| "win_faithful W (_, bs) \<longleftrightarrow> False"

definition win_representable :: "win32 \<Rightarrow> payloads \<Rightarrow> bool" where
  "win_representable W ps \<longleftrightarrow> ps \<noteq> [] \<and> distinct (labels_of ps) \<and> list_all (win_faithful W) ps"

fun win_image :: "clip_format \<Rightarrow> bytes \<Rightarrow> (win_format \<times> bytes) option" where
  "win_image Text bs = Some (CfUnicodeText, units_to_bytes (encode_utf16 (from_utf8_lossy bs) @ [0]))"
| "win_image Html bs = Some (CfHtml, build_cf_html bs)"
| "win_image Rtf bs = Some (CfRtf, bs @ [0])"
| "win_image Png bs = Some (CfPng, bs)"
| "win_image FileList bs = Some (CfHdrop, build_hdrop bs)"
| "win_image _ bs = None"

lemma write_one_win_image:
  "write_one W fmt bs cb = (case win_image fmt bs of None \<Rightarrow> (Inr (), cb) | Some (f, w) \<Rightarrow> set_global W f w cb)"
  by (cases fmt) (simp_all add: write_one_def)

lemma win_image_inj: "win_image fmt bs = Some (f, w) \<Longrightarrow> win_image fmt' bs' = Some (f, w') \<Longrightarrow> fmt = fmt'"
  by (cases fmt; cases fmt'; auto)

lemma write_all_other:
  assumes "write_all W ps cb = (Inr u, cb')" "\<forall>(fmt, bs) \<in> set ps. \<forall>w. win_image fmt bs \<noteq> Some (f, w)"
  shows "wb_slots cb' f = wb_slots cb f" and "wb_owner cb' = wb_owner cb"
  using assms
  by (induction W ps cb rule: write_all.induct)
    (fastforce simp: write_one_win_image set_global_def split: prod.splits sum.splits option.splits if_splits)+

lemma write_all_slot:
  assumes "write_all W ps cb = (Inr u, cb')" "distinct (map fst ps)" "(fmt, bs) \<in> set ps" "win_image fmt bs = Some (f, w)"
  shows "wb_slots cb' f = Some (SlotBlock (w @ os_padding W f))"
  using assms(1-3)
proof (induction W ps cb rule: write_all.induct)
  case (2 W fmt0 bs0 ps cb)
  obtain cb1 where w1: "write_one W fmt0 bs0 cb = (Inr (), cb1)" and rest: "write_all W ps cb1 = (Inr u, cb')"
    using 2(2) by (auto split: prod.splits sum.splits)
  show ?case
  proof (cases "(fmt, bs) = (fmt0, bs0)")
    case True
    then have "wb_slots cb1 f = Some (SlotBlock (w @ os_padding W f))"
      using w1 assms(4) by (auto simp: write_one_win_image set_global_def split: if_splits)
    moreover have "\<forall>(fmt1, bs1) \<in> set ps. \<forall>w. win_image fmt1 bs1 \<noteq> Some (f, w)"
      using 2(3) True win_image_inj [OF assms(4)] by force
    ultimately show ?thesis using write_all_other(1) [OF rest] by simp
  next
    case False
    then show ?thesis using 2(1) [OF w1 [symmetric] refl rest] 2(3,4) by auto
  qed
qed simp

text \<open>One format of the clipboard as it is after a write, read back.\<close>

lemma read_back_format:
  assumes write_all: "write_all W ps \<lparr>wb_slots = Map.empty, wb_owner = a\<rparr> = (Inr u, cb)" and ps: "distinct (map fst ps)"
    and target: "\<And>bs. \<exists>w. win_image fmt bs = Some (f, w)"
    and reader: "\<And>bs w. (fmt, bs) \<in> set ps \<Longrightarrow> win_image fmt bs = Some (f, w) \<Longrightarrow>
      \<exists>bs'. reader (SlotBlock (w @ os_padding W f)) = Inr (Some bs') \<and> post bs' = bs"
  shows "read_format cb f reader post fmt = Inr (found ps fmt)"
proof (cases "map_of ps fmt")
  case None
  then have nf: "fmt \<notin> fst ` set ps" by (simp add: map_of_eq_None_iff)
  obtain w0 where w0: "win_image fmt [] = Some (f, w0)" using target by blast
  have "win_image fmt' bs \<noteq> Some (f, w)" if "(fmt', bs) \<in> set ps" for fmt' bs w
    using win_image_inj [OF _ w0, of fmt' bs w] that nf by force
  then have "\<forall>(fmt', bs) \<in> set ps. \<forall>w. win_image fmt' bs \<noteq> Some (f, w)" by auto
  then show ?thesis using write_all_other(1) [OF write_all] None by (simp add: read_format_def found_def)
next
  case (Some bs)
  then have mem: "(fmt, bs) \<in> set ps" by (rule map_of_SomeD)
  obtain w where w: "win_image fmt bs = Some (f, w)" using target by blast
  show ?thesis using reader [OF mem w] write_all_slot [OF write_all ps mem w] Some
    by (auto simp: read_format_def found_def)
qed

lemma strip_trailing_nuls_padding:
  assumes "bs = [] \<or> last bs \<noteq> 0" "list_all (\<lambda>b. b = 0) pad"
  shows "strip_trailing_nuls (bs @ pad) = bs"
proof -
  have "dropWhile (\<lambda>b. b = 0) (rev bs) = rev bs"
    using assms(1) by (cases bs rule: rev_cases) auto
  then show ?thesis using assms(2) by (simp add: strip_trailing_nuls_def dropWhile_append list_all_iff)
qed

lemma label_inj_win: "win_faithful W (f, b) \<Longrightarrow> win_faithful W (f', b') \<Longrightarrow> label f = label f' \<Longrightarrow> f = f'"
  by (cases f; cases f'; simp)

lemma representable_formats:
  assumes "win_representable W ps"
  shows "distinct (map fst ps)" and "fst ` set ps \<subseteq> set [Text, Html, Rtf, Png, FileList]"
proof -
  have "distinct (map label (map fst ps))" using assms by (simp add: win_representable_def case_prod_unfold comp_def)
  then show "distinct (map fst ps)" unfolding distinct_map [of label] by simp
  have "f \<in> set [Text, Html, Rtf, Png, FileList]" if "win_faithful W (f, b)" for f b using that by (cases f) auto
  then have "fst p \<in> set [Text, Html, Rtf, Png, FileList]" if "p \<in> set ps" for p
    using assms that unfolding win_representable_def list_all_iff by (metis prod.collapse)
  then show "fst ` set ps \<subseteq> set [Text, Html, Rtf, Png, FileList]" by blast
qed

lemma hdrop_faithful:
  assumes "win_faithful W (FileList, bs)"
  shows "parse_hdrop (build_hdrop bs @ pad) = Some bs"
proof -
  obtain cs where "from_utf8 bs = Some cs" "str_lines cs \<noteq> []" "list_all path_line (str_lines cs)" "join [10] (str_lines cs) = cs"
    using assms by (auto simp: Let_def split: option.splits)
  then show ?thesis using hdrop_roundtrip [of bs "str_lines cs"] by simp
qed

lemma poll_after_write:
  assumes rep: "win_representable W ps" and put: "win_put W a ps cb0 = (Inr u, cb)"
  shows "poll_clipboard cb =
    Inr (PollData \<lparr>cap_payloads = concat (map (found ps) [Text, Html, Rtf, Png, FileList]), cap_app = a\<rparr>)"
proof -
  note formats = representable_formats [OF rep]
  have w: "write_all W ps \<lparr>wb_slots = Map.empty, wb_owner = a\<rparr> = (Inr u, cb)"
    using put by (simp add: win_put_def split: if_splits)
  have ok: "win_faithful W (fmt, bs)" if "(fmt, bs) \<in> set ps" for fmt bs
    using rep that by (auto simp: win_representable_def list_all_iff)
  note reading = read_back_format [OF w formats(1)]
  have "read_format cb CfUnicodeText read_unicode_text id Text = Inr (found ps Text)"
    by (rule reading) (auto dest!: ok split: option.splits intro: read_unicode_text_block)
  moreover have "read_format cb CfHtml read_registered_format parse_cf_html Html = Inr (found ps Html)"
    by (rule reading) (auto dest!: ok simp: read_registered_format_def read_global_bytes_def cf_html_roundtrip)
  moreover have "read_format cb CfRtf read_registered_format strip_trailing_nuls Rtf = Inr (found ps Rtf)"
    by (rule reading) (auto dest!: ok simp: read_registered_format_def read_global_bytes_def strip_trailing_nuls_padding)
  moreover have "read_format cb CfPng read_registered_format id Png = Inr (found ps Png)"
    by (rule reading) (auto dest!: ok simp: read_registered_format_def read_global_bytes_def)
  moreover have "read_format cb CfHdrop read_hdrop id FileList = Inr (found ps FileList)"
    by (rule reading) (auto dest!: ok simp: read_hdrop_def read_global_bytes_def hdrop_faithful simp del: win_faithful.simps)
  moreover have "wb_slots cb CfExclude = None"
    using write_all_other(1) [OF w, of CfExclude] by (auto elim: win_image.elims)
  moreover have "wb_owner cb = a" using write_all_other(2) [OF w, of CfExclude] by (auto elim: win_image.elims)
  moreover have "concat (map (found ps) [Text, Html, Rtf, Png, FileList]) \<noteq> []"
    using mset_found [OF formats(1) _ formats(2)] rep by (auto simp: win_representable_def)
  ultimately show ?thesis by (simp add: poll_clipboard_def)
qed

definition win_stored :: "win32 \<Rightarrow> ustr option \<Rightarrow> payloads \<Rightarrow> win_clipboard \<Rightarrow> win_clipboard option" where
  "win_stored W a ps cb = (case win_put W a ps cb of (Inr _, cb') \<Rightarrow> Some cb' | _ \<Rightarrow> None)"

lemma poll_opened: "poll_clipboard cb = Inr p \<Longrightarrow> obs 0 = (True, cb) \<Longrightarrow> poll_with_retry obs = p"
  by (simp add: poll_with_retry_def ATTEMPTS_def eval_nat_numeral with_clipboard_open_def)

interpretation win: clipboard_backend "win_stored W a" "\<lambda>cb. poll_with_retry (\<lambda>_. (True, cb))" "\<lambda>ps _. win_representable W ps" for W a
proof
  fix ps s s' assume rep: "win_representable W ps" and put: "win_stored W a ps s = Some s'"
  then obtain u where "win_put W a ps s = (Inr u, s')" by (auto simp: win_stored_def split: prod.splits sum.splits)
  from poll_opened [OF poll_after_write [OF rep this]]
  show "\<exists>c. poll_with_retry (\<lambda>_. (True, s')) = PollData c \<and> mset (cap_payloads c) = mset ps"
    using mset_found [OF representable_formats(1) [OF rep] _ representable_formats(2) [OF rep]] by simp
next
  fix ps and s :: win_clipboard assume "win_representable W ps"
  then show "ps \<noteq> [] \<and> distinct (labels_of ps)" by (simp add: win_representable_def)
qed

lemma win_write_put:
  "win_write X W a t ps (cb0, g) = (Inr u, cb, g') \<longleftrightarrow>
     win_put W a ps cb0 = (Inr (), cb) \<and> g' = record_write t (hash_payloads X ps) g"
  by (auto simp: win_write_def split: prod.splits sum.splits)

text \<open>
  C30. What the daemon puts on the Windows clipboard is what the next reading finds, byte for byte and in
  every format, as long as the platform can represent it; and if the change is noticed within the
  time limit, it is recognised as the daemon's own and not captured.
\<close>

theorem win_write_reads_back:
  assumes "win_representable W ps" "win_write X W a t ps (cb0, g) = (Inr u, cb, g')" "obs 0 = (True, cb)" "deliver rounds = Some True"
  shows "\<exists>c. win_read obs = Some c \<and> mset (cap_payloads c) = mset ps \<and> cap_app c = a \<and>
    (total_bytes c \<le> wc_max_payload_bytes cfg \<and> (\<forall>app. a = Some app \<longrightarrow> \<not> is_blocked (wc_app_blocklist cfg) app) \<and>
       now - t \<le> og_ttl g \<longrightarrow>
     fst (message_loop X R cfg [Tick (WinClipboardUpdate now obs rounds)] g') = [SuppressedCapture OwnWrite])"
proof -
  have put: "win_put W a ps cb0 = (Inr (), cb)" and g': "g' = record_write t (hash_payloads X ps) g"
    using assms(2) by (simp_all add: win_write_put)
  note formats = representable_formats [OF assms(1)]
  let ?c = "\<lparr>cap_payloads = concat (map (found ps) [Text, Html, Rtf, Png, FileList]), cap_app = a\<rparr>"
  have p: "poll_with_retry obs = PollData ?c" using poll_after_write [OF assms(1) put] assms(3) by (rule poll_opened)
  have m: "mset (cap_payloads ?c) = mset ps" using mset_found [OF formats(1) _ formats(2)] by simp
  have "fst (classify X R now cfg (PollData ?c) g') = SuppressedCapture OwnWrite"
    if "total_bytes ?c \<le> wc_max_payload_bytes cfg" "\<forall>app. a = Some app \<longrightarrow> \<not> is_blocked (wc_app_blocklist cfg) app"
      "now - t \<le> og_ttl g"
    unfolding g' by (rule write_echo_suppressed [OF m]) (use assms(1) that in \<open>simp_all add: win_representable_def\<close>)
  then have "fst (message_loop X R cfg [Tick (WinClipboardUpdate now obs rounds)] g') = [SuppressedCapture OwnWrite]"
    if "total_bytes ?c \<le> wc_max_payload_bytes cfg" "\<forall>app. a = Some app \<longrightarrow> \<not> is_blocked (wc_app_blocklist cfg) app"
      "now - t \<le> og_ttl g"
    using that assms(4) by (auto simp: message_loop_def win_step_def p split: prod.splits)
  then show ?thesis using m by (intro exI [of _ ?c]) (simp add: win_read_def p)
qed

section \<open>What is not read back\<close>

text \<open>An empty fragment comes back with the whole of its wrapper.\<close>

lemma empty_html_not_read_back: "parse_cf_html (build_cf_html []) = build_cf_html []"
proof -
  have l: "length (header_of 101 175 137 137) = 101" "\<forall>x \<in> set (header_of 101 175 137 137). x < 128"
    by (rule header_facts; simp)+
  have "length (utf8_encode (header_of 0 0 0 0)) = 101" using header_facts [of 0 0 0 0] by (simp add: utf8_encode_ascii)
  then have b: "build_cf_html [] = map of_nat (header_of 101 175 137 137) @ map of_nat PREFIX @ map of_nat SUFFIX"
    unfolding build_cf_html_def Let_def using l by (simp add: utf8_encode_ascii PREFIX_def SUFFIX_def CRLF_def)
  show ?thesis
    using header_offsets [of 101 175 137 137] lossy_ascii [OF l(2)] unfolding parse_cf_html_def Let_def b by simp
qed

text \<open>An image comes back with whatever follows it in its block, so its echo is not recognised.\<close>

lemma padded_image_read_back:
  assumes "win_put W a [(Png, bs)] cb0 = (Inr u, cb)"
  shows "poll_clipboard cb = Inr (PollData \<lparr>cap_payloads = [(Png, bs @ os_padding W CfPng)], cap_app = a\<rparr>)"
  using assms
  by (auto simp: win_put_def write_one_def set_global_def poll_clipboard_def read_format_def read_registered_format_def
      read_global_bytes_def split: if_splits)

text \<open>Text comes back up to its first NUL.\<close>

lemma text_cut_at_nul:
  "read_unicode_text (SlotBlock (units_to_bytes (encode_utf16 (from_utf8_lossy [97, 0, 98]) @ [0]))) = Inr (Some [97])"
  by (simp add: from_utf8_lossy_def utf8_lossy.simps(2) encode_utf16_def utf16_char_def units_to_bytes_def
      read_unicode_text_def read_global_bytes_def until_nul_def utf8_encode_def utf8_char_def)

text \<open>
  A write that fails half-way has emptied the clipboard and left the formats written so far, and has
  not armed the guard.
\<close>

lemma failed_write_leaves_part:
  assumes "os_open W" "os_empty W" "os_set W CfUnicodeText" "\<not> os_set W CfPng"
  shows "win_write X W a t [(Text, bs), (Png, bs')] (cb0, g) =
    (Inl Platform, snd (set_global W CfUnicodeText (units_to_bytes (encode_utf16 (from_utf8_lossy bs) @ [0]))
       \<lparr>wb_slots = Map.empty, wb_owner = a\<rparr>), g)"
  using assms by (simp add: win_write_def win_put_def write_one_def set_global_def)

text \<open>
  The guard is armed after the clipboard is closed: a message loop that is quicker captures the
  daemon's own write.
\<close>

lemma early_update_captured:
  assumes "win_representable W ps" "win_put W a ps cb0 = (Inr u, cb)" "passes cfg (poll_with_retry (\<lambda>_. (True, cb)))"
    "og_pending g = None" "detect_secret_in_payloads R ps = None" "deliver rounds = Some True"
  shows "\<exists>c. fst (message_loop X R cfg [Tick (WinClipboardUpdate now (\<lambda>_. (True, cb)) rounds), Wrote t (hash_payloads X ps)] g) =
      [Captured c] \<and> mset (cap_payloads c) = mset ps"
proof -
  have "win_stored W a ps cb0 = Some cb" using assms(2) by (simp add: win_stored_def)
  from win.early_reading_captured [OF assms(1) this assms(3-5), of X now] show ?thesis
    using assms(6) by (auto simp: message_loop_def win_step_def split: prod.splits)
qed

section \<open>A sample\<close>

definition sample_win32 :: win32 where
  "sample_win32 = \<lparr>os_open = True, os_empty = True, os_set = (\<lambda>_. True), os_padding = (\<lambda>f. if f = CfPng then [] else [0, 0])\<rparr>"

definition sample_payloads :: payloads where
  "sample_payloads = [(Html, str_bytes ''<b>hi</b>''), (Text, str_bytes ''hi''), (Png, [137, 80])]"

theorem win_write_reads_back_witness:
  "\<exists>cb c. snd (win_put sample_win32 (Some (lit ''clipsed.exe'')) sample_payloads \<lparr>wb_slots = Map.empty, wb_owner = None\<rparr>) = cb \<and>
     win_read (\<lambda>_. (True, cb)) = Some c \<and> mset (cap_payloads c) = mset sample_payloads"
proof -
  let ?cb0 = "\<lparr>wb_slots = Map.empty, wb_owner = None\<rparr>"
  obtain cb where cb: "win_put sample_win32 (Some (lit ''clipsed.exe'')) sample_payloads ?cb0 = (Inr (), cb)"
    by (simp add: win_put_def write_one_def set_global_def sample_win32_def sample_payloads_def)
  have rep: "win_representable sample_win32 sample_payloads"
    by (simp add: win_representable_def sample_win32_def sample_payloads_def from_utf8_def str_bytes_def)
  obtain g' where "win_write sample_crates sample_win32 (Some (lit ''clipsed.exe'')) 5 sample_payloads (?cb0, own_guard_new 9) = (Inr (), cb, g')"
    using cb by (simp add: win_write_put)
  from win_write_reads_back [OF rep this, where obs = "\<lambda>_. (True, cb)" and rounds = "[(False, SentOk)]"
      and now = 7 and cfg = default_watch_config and R = no_patterns] cb
  show ?thesis by auto
qed

end
