(* ===== verification/Win_System.thy ===== *)
theory Win_System
  imports Win_Clipboard
begin

text \<open>
  Two things the Windows backend asks the system for (\<open>clipse-clipboard/src/platform/windows.rs\<close>): a
  window of its own, whose class needs a name nobody has registered (\<open>create_message_window\<close>), and the
  name of the application that owns the clipboard (\<open>owning_app\<close>). What the calls into Win32 answer is an
  argument.

  Shown: no two watchers of a process ask for the same class name; an application is named by the
  file it runs from, and the blocklist sees that name, unless the path is longer than the buffer:
  then the capture has no application and passes the blocklist.
\<close>

section \<open>Class names\<close>

lemma dec_value: "foldl (\<lambda>v d. v * 10 + (d - 48)) 0 (dec n) = n"
  by (induction n rule: dec.induct) (subst dec.simps, simp)

lemma dec_inject [simp]: "dec m = dec n \<longleftrightarrow> m = n"
  by (metis dec_value)

definition class_name :: "u64 \<Rightarrow> nat list" where
  "class_name i = encode_utf16 (lit ''ClipseClipboardWatcher-'' @ dec (unat i)) @ [0]"

lemma dec_ascii: "c \<in> set (dec n) \<Longrightarrow> c < 128"
proof (induction n rule: dec.induct)
  case (1 n)
  then show ?case by (subst (asm) dec.simps) (auto split: if_splits)
qed

lemma encode_utf16_ascii: "\<forall>c \<in> set s. c < 128 \<Longrightarrow> encode_utf16 s = s"
  by (induction s) (simp_all add: encode_utf16_def utf16_char_def)

lemma class_name_inject [simp]: "class_name i = class_name j \<longleftrightarrow> i = j"
proof -
  have "class_name k = lit ''ClipseClipboardWatcher-'' @ dec (unat k) @ [0]" for k
    by (subst class_name_def, subst encode_utf16_ascii) (auto dest: dec_ascii)
  then show ?thesis by (simp add: word_unat_eq_iff)
qed

text \<open>
  The process: the counter of \<open>create_message_window\<close> and the classes registered so far, by whomever. The
  class is never taken back. \<open>RegisterClassExW\<close> refuses a name that is taken.
\<close>

record win_process =
  wp_counter :: u64
  wp_classes :: "nat list list"

record window_calls =
  wn_module :: bool
  wn_register :: bool
  wn_create :: bool

definition create_message_window :: "window_calls \<Rightarrow> win_process \<Rightarrow> (clipboard_error + unit) \<times> win_process" where
  "create_message_window C p =
     (if \<not> wn_module C then (Inl Platform, p)
      else let name = class_name (wp_counter p); p' = p\<lparr>wp_counter := wp_counter p + 1\<rparr>
           in if name \<in> set (wp_classes p) \<or> \<not> wn_register C then (Inl Platform, p')
              else (if wn_create C then Inr () else Inl Platform, p'\<lparr>wp_classes := name # wp_classes p\<rparr>))"

fun create_windows :: "window_calls list \<Rightarrow> win_process \<Rightarrow> (clipboard_error + unit) list \<times> win_process" where
  "create_windows [] p = ([], p)"
| "create_windows (C # Cs) p =
     (case create_message_window C p of (r, p') \<Rightarrow> (case create_windows Cs p' of (rs, p'') \<Rightarrow> (r # rs, p'')))"

text \<open>The names still to come are free.\<close>

definition names_free :: "nat \<Rightarrow> win_process \<Rightarrow> bool" where
  "names_free n p \<longleftrightarrow> (\<forall>k < n. class_name (wp_counter p + of_nat k) \<notin> set (wp_classes p))"

lemma counter_moves_on: "k < 2 ^ 64 - 1 \<Longrightarrow> 1 + of_nat k \<noteq> (0 :: u64)"
  using word_of_nat_eq_0_iff [of "Suc k", where 'a = 64] by (auto dest: dvd_imp_le)

lemma create_keeps_free:
  assumes "names_free (Suc n) p" "n < 2 ^ 64"
  shows "names_free n (snd (create_message_window C p))"
proof (cases "wn_module C")
  case True
  have later: "class_name (wp_counter p + 1 + of_nat k) \<notin> set (wp_classes p)" if "k < n" for k
    using assms(1) that by (auto simp: names_free_def add.assoc dest: spec [of _ "Suc k"])
  have other: "wp_counter p + 1 + of_nat k \<noteq> wp_counter p" if "k < n" for k
    using counter_moves_on [of k] that assms(2) by (simp add: add.assoc)
  show ?thesis using later other True by (auto simp: create_message_window_def names_free_def Let_def)
next
  case False
  then show ?thesis using assms(1) by (simp add: create_message_window_def names_free_def)
qed

text \<open>
  Watchers started one after the other never refuse each other a window: each creation gives what the
  system's own calls give.
\<close>

theorem window_names_never_clash:
  assumes "names_free (length Cs) p" "length Cs \<le> 2 ^ 64"
  shows "fst (create_windows Cs p) = map (\<lambda>C. if wn_module C \<and> wn_register C \<and> wn_create C then Inr () else Inl Platform) Cs"
  using assms
proof (induction Cs arbitrary: p)
  case (Cons C Cs)
  have "names_free (length Cs) (snd (create_message_window C p))" using create_keeps_free Cons.prems by simp
  moreover have "class_name (wp_counter p) \<notin> set (wp_classes p)" using Cons.prems(1) by (auto simp: names_free_def dest: spec [of _ 0])
  ultimately show ?case using Cons.IH [of "snd (create_message_window C p)"] Cons.prems(2)
    by (auto simp: create_message_window_def Let_def split: prod.split)
qed simp

section \<open>The owning application\<close>

text \<open>
  \<open>Path::file_name\<close> on Windows: a drive is not part of the name, separators are of either kind, empty and
  single-dot components do not count. Network shares and verbatim prefixes are not told apart from
  directories; a path that is nothing but such a prefix is none of a program.
\<close>

definition is_separator :: "nat \<Rightarrow> bool" where
  "is_separator c \<longleftrightarrow> c = 92 \<or> c = 47"

fun components_from :: "ustr \<Rightarrow> ustr \<Rightarrow> ustr list" where
  "components_from cur [] = [cur]"
| "components_from cur (c # cs) = (if is_separator c then cur # components_from [] cs else components_from (cur @ [c]) cs)"

definition drop_drive :: "ustr \<Rightarrow> ustr" where
  "drop_drive path =
     (case path of
        c # d # rest \<Rightarrow> if d = 58 \<and> (65 \<le> c \<and> c \<le> 90 \<or> 97 \<le> c \<and> c \<le> 122) then rest else path
      | _ \<Rightarrow> path)"

definition file_name :: "ustr \<Rightarrow> ustr option" where
  "file_name path =
     (case rev (filter (\<lambda>part. part \<noteq> [] \<and> part \<noteq> [46]) (components_from [] (drop_drive path))) of
        [] \<Rightarrow> None
      | part # _ \<Rightarrow> if part = [46, 46] then None else Some part)"

text \<open>
  The window that owns the clipboard, its process, whether that may be opened, and the path of its
  image in UTF-16 units. \<open>QueryFullProcessImageNameW\<close> fails when the buffer has no room for the path
  and the terminating null.
\<close>

record win_owner =
  wn_window :: bool
  wn_pid :: nat
  wn_opens :: bool
  wn_image :: "nat list option"

definition IMAGE_BUFFER :: nat where
  "IMAGE_BUFFER = 260"

definition query_image_name :: "win_owner \<Rightarrow> nat \<Rightarrow> nat list option" where
  "query_image_name w room =
     (case wn_image w of None \<Rightarrow> None | Some path \<Rightarrow> if length path + 1 \<le> room then Some path else None)"

definition owning_app :: "win_owner \<Rightarrow> ustr option" where
  "owning_app w =
     (if \<not> wn_window w then None
      else if wn_pid w = 0 then None
      else if \<not> wn_opens w then None
      else (case query_image_name w IMAGE_BUFFER of
              None \<Rightarrow> None
            | Some path \<Rightarrow> file_name (from_utf16_lossy path)))"

lemma components_last:
  "\<forall>c \<in> set name. \<not> is_separator c \<Longrightarrow> \<exists>parts. components_from cur (dir @ 92 # name) = parts @ [name]"
proof (induction dir arbitrary: cur)
  case Nil
  have "components_from cur' name = [cur' @ name]" for cur' using Nil by (induction name arbitrary: cur') auto
  then show ?case by (simp add: is_separator_def)
next
  case (Cons c dir)
  show ?case
  proof (cases "is_separator c")
    case True
    obtain parts where "components_from [] (dir @ 92 # name) = parts @ [name]" using Cons by blast
    then have "components_from cur ((c # dir) @ 92 # name) = (cur # parts) @ [name]" using True by simp
    then show ?thesis by blast
  next
    case False
    then show ?thesis using Cons by simp
  qed
qed

lemma file_name_last:
  assumes "\<forall>c \<in> set name. \<not> is_separator c" "name \<notin> {[], [46], [46, 46]}"
  shows "file_name (dir @ 92 # name) = Some name"
proof -
  have "\<exists>dir'. drop_drive (dir @ 92 # name) = dir' @ 92 # name"
    by (cases dir; cases "tl dir") (auto simp: drop_drive_def split: list.split)
  then obtain dir' where d: "drop_drive (dir @ 92 # name) = dir' @ 92 # name" by blast
  obtain parts where "components_from [] (dir' @ 92 # name) = parts @ [name]" using components_last [OF assms(1)] by blast
  with d assms(2) show ?thesis by (simp add: file_name_def)
qed

theorem owner_named_by_image:
  assumes "wn_window w" "wn_pid w \<noteq> 0" "wn_opens w" "wn_image w = Some (encode_utf16 (dir @ 92 # name))"
    and "list_all is_scalar (dir @ 92 # name)" "length (encode_utf16 (dir @ 92 # name)) < 260"
    and "\<forall>c \<in> set name. \<not> is_separator c" "name \<notin> {[], [46], [46, 46]}"
  shows "owning_app w = Some name"
  using assms(1-6) file_name_last [OF assms(7,8)] from_utf16_encode [OF assms(5)]
  by (simp add: owning_app_def query_image_name_def IMAGE_BUFFER_def)

text \<open>
  A program installed under a long path is not named, so no entry of the blocklist applies to it: what it
  copies is captured like anything else.
\<close>

lemma long_path_not_named: "wn_image w = Some path \<Longrightarrow> 260 \<le> length path \<Longrightarrow> owning_app w = None"
  by (simp add: owning_app_def query_image_name_def IMAGE_BUFFER_def)

theorem long_path_escapes_blocklist:
  assumes "wn_image w = Some path" "260 \<le> length path" "wb_owner cb = owning_app w"
    and "poll_clipboard cb = Inr (PollData c)"
  shows "fst (classify X R now cfg (PollData c) g) \<noteq> SuppressedCapture (BlockedApp app)"
proof -
  have "cap_app c = wb_owner cb"
    using assms(4) by (auto simp: poll_clipboard_def Let_def bind_r_Inr split: if_splits)
  then have "cap_app c = None" using long_path_not_named assms by simp
  then show ?thesis by (auto simp: classify_def split: prod.splits bool.splits option.splits)
qed

end
