(* ===== verification/Unix_Clipboard.thy ===== *)
theory Unix_Clipboard
  imports Clipboard_Backend
begin

text \<open>
  The macOS and Linux backends (\<open>clipse-clipboard/src/platform/macos.rs\<close> and \<open>linux.rs\<close>, the latter
  with its modules \<open>x11\<close> and \<open>wayland\<close>).

  The clipboards of the three systems are their content: the pasteboard with its types and items, the
  conversions the owner of the X11 selection answers, the MIME types of a Wayland offer. Calls that
  can fail are arguments. A copy on Wayland is offered under the MIME types \<open>offers\<close> says, which is
  the business of the library.

  Shown: what is written is read back on macOS in every supported format, and on Linux for clips of
  one format, so that the echo of the write is recognised; a clip of several formats is written as its
  text alone on Linux, and its echo is captured as a new clip. The polling loops of macOS and Wayland
  report exactly the changes, and not what was there before.
\<close>

section \<open>macOS\<close>

datatype mac_type = MacString | MacHTML | MacRTF | MacPNG | MacTIFF | MacFileUrl | MacConcealed | MacTransient | MacOtherType

record pasteboard =
  pb_types :: "mac_type list"
  pb_data :: "mac_type \<rightharpoonup> bytes"
  pb_items :: "(mac_type \<rightharpoonup> bytes) list option"
  pb_front_app :: "ustr option"

definition has_type :: "pasteboard \<Rightarrow> mac_type \<Rightarrow> bool" where
  "has_type pb ty \<longleftrightarrow> ty \<in> set (pb_types pb)"

definition data_for :: "pasteboard \<Rightarrow> mac_type \<Rightarrow> bytes option" where
  "data_for pb ty = (case pb_data pb ty of None \<Rightarrow> None | Some bs \<Rightarrow> if bs = [] then None else Some bs)"

text \<open>\<open>stringForType\<close> gives a string where the item has the type and its data is text.\<close>

definition string_for_type :: "mac_type \<Rightarrow> (mac_type \<rightharpoonup> bytes) \<Rightarrow> ustr option" where
  "string_for_type ty item = Option.bind (item ty) from_utf8"

definition file_urls :: "pasteboard \<Rightarrow> bytes option" where
  "file_urls pb =
     (case pb_items pb of
        None \<Rightarrow> None
      | Some items \<Rightarrow>
          let paths = List.map_filter (string_for_type MacFileUrl) items
          in if paths = [] then None else Some (utf8_encode (join [10] paths)))"

definition opt_payload :: "clip_format \<Rightarrow> bytes option \<Rightarrow> payloads" where
  "opt_payload fmt r = (case r of None \<Rightarrow> [] | Some bs \<Rightarrow> [(fmt, bs)])"

definition poll_pasteboard :: "pasteboard \<Rightarrow> raw_poll" where
  "poll_pasteboard pb =
     (if has_type pb MacConcealed \<or> has_type pb MacTransient then PollConcealed
      else let payloads =
             opt_payload Text (data_for pb MacString) @ opt_payload Html (data_for pb MacHTML) @
             opt_payload Rtf (data_for pb MacRTF) @
             (case data_for pb MacPNG of
                Some bs \<Rightarrow> [(Png, bs)]
              | None \<Rightarrow> opt_payload (Other ''image/tiff'') (data_for pb MacTIFF)) @
             opt_payload FileList (file_urls pb)
           in if payloads = [] then PollEmpty
              else PollData \<lparr>cap_payloads = payloads, cap_app = pb_front_app pb\<rparr>)"

definition mac_read :: "pasteboard \<Rightarrow> capture option" where
  "mac_read pb = read_answer (poll_pasteboard pb)"

fun write_type_for :: "clip_format \<Rightarrow> mac_type option" where
  "write_type_for Text = Some MacString"
| "write_type_for Html = Some MacHTML"
| "write_type_for Rtf = Some MacRTF"
| "write_type_for Png = Some MacPNG"
| "write_type_for FileList = Some MacFileUrl"
| "write_type_for (Other name) = (if name = ''image/tiff'' then Some MacTIFF else None)"
| "write_type_for Jpeg = None"
| "write_type_for Svg = None"

text \<open>
  \<open>clearContents\<close>, and \<open>setData:forType:\<close>, which fills the one item of the cleared pasteboard.
\<close>

definition clear_contents :: "pasteboard \<Rightarrow> pasteboard" where
  "clear_contents pb = pb\<lparr>pb_types := [], pb_data := Map.empty, pb_items := Some []\<rparr>"

definition set_data :: "mac_type \<Rightarrow> bytes \<Rightarrow> pasteboard \<Rightarrow> pasteboard" where
  "set_data ty bs pb =
     pb\<lparr>pb_types := pb_types pb @ [ty], pb_data := (pb_data pb)(ty \<mapsto> bs), pb_items := Some [(pb_data pb)(ty \<mapsto> bs)]\<rparr>"

fun mac_set_all :: "(mac_type \<Rightarrow> bool) \<Rightarrow> payloads \<Rightarrow> pasteboard \<Rightarrow> (clipboard_error + unit) \<times> pasteboard" where
  "mac_set_all accepts [] pb = (Inr (), pb)"
| "mac_set_all accepts ((fmt, bs) # ps) pb =
     (case write_type_for fmt of
        None \<Rightarrow> mac_set_all accepts ps pb
      | Some ty \<Rightarrow> if accepts ty then mac_set_all accepts ps (set_data ty bs pb) else (Inl Platform, pb))"

definition mac_put :: "(mac_type \<Rightarrow> bool) \<Rightarrow> payloads \<Rightarrow> pasteboard \<Rightarrow> (clipboard_error + unit) \<times> pasteboard" where
  "mac_put accepts ps pb = mac_set_all accepts ps (clear_contents pb)"

definition mac_write :: "'x crates_scheme \<Rightarrow> (mac_type \<Rightarrow> bool) \<Rightarrow> nat \<Rightarrow> payloads \<Rightarrow> pasteboard \<times> own_write_guard \<Rightarrow>
    (clipboard_error + unit) \<times> pasteboard \<times> own_write_guard" where
  "mac_write X accepts now ps s =
     (case mac_put accepts ps (fst s) of
        (Inl e, pb) \<Rightarrow> (Inl e, pb, snd s)
      | (Inr _, pb) \<Rightarrow> (Inr (), pb, record_write now (hash_payloads X ps) (snd s)))"

text \<open>One round of \<open>poll_loop\<close>: the two looks at the shutdown flag, the change count, and what a reading would find.\<close>

record mac_tick =
  mt_stop :: bool
  mt_stop_after_sleep :: bool
  mt_change :: int
  mt_pasteboard :: pasteboard
  mt_now :: nat
  mt_rounds :: "(bool \<times> try_send) list"

definition mac_step :: "mac_tick \<Rightarrow> int \<Rightarrow> int round" where
  "mac_step t last_change =
     (if mt_stop t then Finished
      else if mt_stop_after_sleep t then Finished
      else if mt_change t = last_change then Idle last_change
      else Reading (mt_change t) (mt_now t) (poll_pasteboard (mt_pasteboard t)) (mt_rounds t))"

definition mac_poll_loop :: "'x crates_scheme \<Rightarrow> patterns \<Rightarrow> watch_config \<Rightarrow> int \<Rightarrow> mac_tick observed list \<Rightarrow> own_write_guard \<Rightarrow>
    capture_event list \<times> own_write_guard" where
  "mac_poll_loop X R cfg seed ticks g = watch_loop X R cfg mac_step seed ticks g"

definition mac_start :: "bool \<Rightarrow> clipboard_error + watch_mode" where
  "mac_start spawned = (if spawned then Inr WatchAutomatic else Inl WatcherStartup)"

section \<open>X11\<close>

datatype x_target = Utf8String | XHtml | XRtf | XPng | XUriList | XPasswordHint

text \<open>What the owner of the selection answers to a conversion; no answer is \<open>None\<close>.\<close>

type_synonym x_selection = "x_target \<rightharpoonup> bytes"

definition x_load :: "x_selection \<Rightarrow> x_target \<Rightarrow> bytes option" where
  "x_load sel target = (case sel target of None \<Rightarrow> None | Some bs \<Rightarrow> if bs = [] then None else Some bs)"

definition ascii_lower :: "u8 \<Rightarrow> u8" where
  "ascii_lower b = (if 65 \<le> b \<and> b \<le> 90 then b + 32 else b)"

definition eq_ignore_ascii_case :: "bytes \<Rightarrow> bytes \<Rightarrow> bool" where
  "eq_ignore_ascii_case a b \<longleftrightarrow> map ascii_lower a = map ascii_lower b"

definition is_secret_hint :: "bytes option \<Rightarrow> bool" where
  "is_secret_hint r = (case r of None \<Rightarrow> False | Some hint \<Rightarrow> eq_ignore_ascii_case hint (str_bytes ''secret''))"

definition uri_list_to_paths :: "bytes \<Rightarrow> bytes" where
  "uri_list_to_paths bs =
     utf8_encode (join [10] (filter (\<lambda>l. l \<noteq> [] \<and> hd l \<noteq> 35) (map trim (str_lines (from_utf8_lossy bs)))))"

definition x11_poll :: "x_selection \<Rightarrow> raw_poll" where
  "x11_poll sel =
     (if is_secret_hint (x_load sel XPasswordHint) then PollConcealed
      else let payloads =
             opt_payload Text (x_load sel Utf8String) @ opt_payload Html (x_load sel XHtml) @
             opt_payload Rtf (x_load sel XRtf) @ opt_payload Png (x_load sel XPng) @
             opt_payload FileList (map_option uri_list_to_paths (x_load sel XUriList))
           in if payloads = [] then PollEmpty else PollData \<lparr>cap_payloads = payloads, cap_app = None\<rparr>)"

definition x11_read :: "x_selection \<Rightarrow> capture option" where
  "x11_read sel = read_answer (x11_poll sel)"

text \<open>The representation that is written, on X11 and on Wayland.\<close>

definition chosen :: "payloads \<Rightarrow> (clip_format \<times> bytes) option" where
  "chosen ps = (case find (\<lambda>(f, _). f = Text) ps of
      Some p \<Rightarrow> Some p
    | None \<Rightarrow> (case ps of [] \<Rightarrow> None | p # _ \<Rightarrow> Some p))"

fun x_target_of :: "clip_format \<Rightarrow> x_target" where
  "x_target_of Html = XHtml"
| "x_target_of Rtf = XRtf"
| "x_target_of Png = XPng"
| "x_target_of FileList = XUriList"
| "x_target_of Text = Utf8String"
| "x_target_of Jpeg = Utf8String"
| "x_target_of Svg = Utf8String"
| "x_target_of (Other name) = Utf8String"

definition x11_write :: "'x crates_scheme \<Rightarrow> bool \<Rightarrow> nat \<Rightarrow> payloads \<Rightarrow> x_selection \<times> own_write_guard \<Rightarrow>
    (clipboard_error + unit) \<times> x_selection \<times> own_write_guard" where
  "x11_write X stored now ps s =
     (case chosen ps of
        None \<Rightarrow> (Inr (), s)
      | Some (fmt, bs) \<Rightarrow>
          if \<not> stored then (Inl Platform, s)
          else (Inr (), [x_target_of fmt \<mapsto> bs], record_write now (hash_payloads X ps) (snd s)))"

datatype x11_observation =
    X11Stopping
  | X11SelectionNotify nat x_selection "(bool \<times> try_send) list"
  | X11OtherEvent
  | X11NoEvent
  | X11Lost

definition x11_step :: "x11_observation \<Rightarrow> unit \<Rightarrow> unit round" where
  "x11_step ob s =
     (case ob of
        X11Stopping \<Rightarrow> Finished
      | X11SelectionNotify now sel rounds \<Rightarrow> Reading s now (x11_poll sel) rounds
      | X11OtherEvent \<Rightarrow> Idle s
      | X11NoEvent \<Rightarrow> Idle s
      | X11Lost \<Rightarrow> Finished)"

definition x11_event_loop :: "'x crates_scheme \<Rightarrow> patterns \<Rightarrow> watch_config \<Rightarrow> x11_observation observed list \<Rightarrow> own_write_guard \<Rightarrow>
    capture_event list \<times> own_write_guard" where
  "x11_event_loop X R cfg obs g = watch_loop X R cfg x11_step () obs g"

section \<open>Wayland\<close>

type_synonym wl_offer = "string \<rightharpoonup> bytes"

definition PASSWORD_HINT_MIME :: string where
  "PASSWORD_HINT_MIME = ''x-kde-passwordManagerHint''"

definition read_mime :: "wl_offer \<Rightarrow> string \<Rightarrow> bytes option" where
  "read_mime off mime = (case off mime of None \<Rightarrow> None | Some bs \<Rightarrow> if bs = [] then None else Some bs)"

definition read_mimes :: "(string \<times> clip_format) list" where
  "read_mimes = [(''text/plain;charset=utf-8'', Text), (''text/html'', Html), (''text/rtf'', Rtf), (''image/png'', Png),
     (''text/uri-list'', FileList)]"

definition read_clipboard :: "wl_offer \<Rightarrow> raw_poll" where
  "read_clipboard off =
     (if is_secret_hint (read_mime off PASSWORD_HINT_MIME) then PollConcealed
      else let payloads = concat (map (\<lambda>(mime, fmt). opt_payload fmt (read_mime off mime)) read_mimes)
           in if payloads = [] then PollEmpty else PollData \<lparr>cap_payloads = payloads, cap_app = None\<rparr>)"

definition wl_read :: "wl_offer \<Rightarrow> capture option" where
  "wl_read off = read_answer (read_clipboard off)"

fun mime_of :: "clip_format \<Rightarrow> string" where
  "mime_of Text = ''text/plain;charset=utf-8''"
| "mime_of Html = ''text/html''"
| "mime_of Rtf = ''text/rtf''"
| "mime_of Png = ''image/png''"
| "mime_of Jpeg = ''image/jpeg''"
| "mime_of Svg = ''image/svg+xml''"
| "mime_of FileList = ''text/uri-list''"
| "mime_of (Other name) = name"

definition wl_write :: "'x crates_scheme \<Rightarrow> (string \<Rightarrow> string list) \<Rightarrow> bool \<Rightarrow> nat \<Rightarrow> payloads \<Rightarrow> wl_offer \<times> own_write_guard \<Rightarrow>
    (clipboard_error + unit) \<times> wl_offer \<times> own_write_guard" where
  "wl_write X offers copied now ps s =
     (case chosen ps of
        None \<Rightarrow> (Inr (), s)
      | Some (fmt, bs) \<Rightarrow>
          if \<not> copied then (Inl Platform, s)
          else (Inr (), (\<lambda>m. if m \<in> set (offers (mime_of fmt)) then Some bs else None), record_write now (hash_payloads X ps) (snd s)))"

fun same :: "'x crates_scheme \<Rightarrow> raw_poll \<Rightarrow> raw_poll \<Rightarrow> bool" where
  "same X PollEmpty PollEmpty \<longleftrightarrow> True"
| "same X PollConcealed PollConcealed \<longleftrightarrow> True"
| "same X (PollData x) (PollData y) \<longleftrightarrow> capture_hash X x = capture_hash X y"
| "same X _ _ \<longleftrightarrow> False"

record wl_tick =
  wt_stop :: bool
  wt_stop_after_sleep :: bool
  wt_offer :: wl_offer
  wt_now :: nat
  wt_rounds :: "(bool \<times> try_send) list"

definition wl_step :: "'x crates_scheme \<Rightarrow> wl_tick \<Rightarrow> raw_poll \<Rightarrow> raw_poll round" where
  "wl_step X t last_poll =
     (if wt_stop t then Finished
      else if wt_stop_after_sleep t then Finished
      else let current = read_clipboard (wt_offer t)
           in if same X current last_poll then Idle last_poll
              else Reading current (wt_now t) current (wt_rounds t))"

definition wl_poll_loop :: "'x crates_scheme \<Rightarrow> patterns \<Rightarrow> watch_config \<Rightarrow> wl_offer \<Rightarrow> wl_tick observed list \<Rightarrow> own_write_guard \<Rightarrow>
    capture_event list \<times> own_write_guard" where
  "wl_poll_loop X R cfg at_start ticks g = watch_loop X R cfg (wl_step X) (read_clipboard at_start) ticks g"

section \<open>Choosing a backend on Linux\<close>

datatype linux_backend = X11Clipboard | WaylandClipboard | UnavailableClipboard

text \<open>
  What \<open>start\<close> finds: the two environment variables, the answer of \<open>probe\<close> (\<open>Some reason\<close> if the
  compositor does not let programs watch), whether the connection for events and the two for readings
  (of the thread and of the handle) come up, and whether a thread can be spawned.
\<close>

record linux_session =
  ls_wayland_display :: bool
  ls_display :: bool
  ls_probe :: "ustr option"
  ls_spawned :: bool
  ls_subscribed :: bool
  ls_thread_reader :: bool
  ls_handle_reader :: bool

text \<open>The mode reported, the backend, and whether a thread is watching.\<close>

record watcher =
  w_mode :: watch_mode
  w_backend :: linux_backend
  w_watching :: bool

definition x11_start :: "linux_session \<Rightarrow> clipboard_error + watcher" where
  "x11_start S =
     (if \<not> ls_spawned S then Inl WatcherStartup
      else if \<not> ls_subscribed S then Inl Platform
      else if \<not> ls_handle_reader S then Inl Platform
      else Inr \<lparr>w_mode = WatchAutomatic, w_backend = X11Clipboard, w_watching = ls_thread_reader S\<rparr>)"

definition wayland_start :: "linux_session \<Rightarrow> clipboard_error + watcher" where
  "wayland_start S =
     (if \<not> ls_spawned S then Inl WatcherStartup
      else Inr \<lparr>w_mode = WatchAutomatic, w_backend = WaylandClipboard, w_watching = True\<rparr>)"

definition degraded :: "linux_session \<Rightarrow> ustr \<Rightarrow> clipboard_error + watcher" where
  "degraded S reason =
     (if ls_display S
      then (if ls_handle_reader S
            then Inr \<lparr>w_mode = WatchManualPush reason, w_backend = X11Clipboard, w_watching = False\<rparr>
            else Inl Platform)
      else Inr \<lparr>w_mode = WatchManualPush reason, w_backend = UnavailableClipboard, w_watching = False\<rparr>)"

definition linux_start :: "linux_session \<Rightarrow> clipboard_error + watcher" where
  "linux_start S =
     (if ls_wayland_display S
      then (case ls_probe S of None \<Rightarrow> wayland_start S | Some reason \<Rightarrow> degraded S reason)
      else if ls_display S then x11_start S
      else Inl WatcherStartup)"

definition unavailable_read :: "clipboard_error + capture option" where
  "unavailable_read = Inr None"

definition unavailable_write :: "payloads \<Rightarrow> clipboard_error + unit" where
  "unavailable_write ps = Inl Platform"

section \<open>macOS reads back what it wrote\<close>

definition mac_formats :: "clip_format list" where
  "mac_formats = [Text, Html, Rtf, Png, Other ''image/tiff'', FileList]"

fun mac_faithful :: "clip_format \<times> bytes \<Rightarrow> bool" where
  "mac_faithful (FileList, bs) \<longleftrightarrow> from_utf8 bs \<noteq> None"
| "mac_faithful (fmt, bs) \<longleftrightarrow> fmt \<in> set mac_formats \<and> bs \<noteq> []"

definition mac_representable :: "payloads \<Rightarrow> bool" where
  "mac_representable ps \<longleftrightarrow> ps \<noteq> [] \<and> distinct (labels_of ps) \<and> list_all mac_faithful ps \<and>
     \<not> {Png, Other ''image/tiff''} \<subseteq> fst ` set ps"

lemma mac_faithful_format: "mac_faithful (fmt, bs) \<Longrightarrow> fmt \<in> set mac_formats"
  by (cases fmt) (auto simp: mac_formats_def)

definition mac_image :: "payloads \<Rightarrow> (mac_type \<times> bytes) list" where
  "mac_image ps = map (\<lambda>(fmt, bs). (the (write_type_for fmt), bs)) ps"

lemma mac_set_all_image:
  assumes "mac_set_all accepts ps pb = (Inr u, pb')" "fst ` set ps \<subseteq> set mac_formats"
  shows "pb_data pb' = pb_data pb ++ map_of (rev (mac_image ps))" and "pb_types pb' = pb_types pb @ map fst (mac_image ps)"
    and "pb_front_app pb' = pb_front_app pb" and "ps \<noteq> [] \<Longrightarrow> pb_items pb' = Some [pb_data pb']"
proof -
  have "pb_data pb' = pb_data pb ++ map_of (rev (mac_image ps)) \<and> pb_types pb' = pb_types pb @ map fst (mac_image ps) \<and>
      pb_front_app pb' = pb_front_app pb \<and> (ps \<noteq> [] \<longrightarrow> pb_items pb' = Some [pb_data pb'])"
    using assms
  proof (induction accepts ps pb rule: mac_set_all.induct)
    case (2 accepts fmt bs ps pb)
    then obtain ty where ty: "write_type_for fmt = Some ty" by (auto simp: mac_formats_def)
    have next_pb: "pb_data (set_data ty bs pb) = (pb_data pb)(ty \<mapsto> bs)" "pb_types (set_data ty bs pb) = pb_types pb @ [ty]"
      "pb_front_app (set_data ty bs pb) = pb_front_app pb" "pb_items (set_data ty bs pb) = Some [(pb_data pb)(ty \<mapsto> bs)]"
      unfolding set_data_def by simp_all
    have "accepts ty" and rest: "mac_set_all accepts ps (set_data ty bs pb) = (Inr u, pb')"
      using 2(3) ty by (auto split: if_splits)
    have IH: "pb_data pb' = (pb_data pb)(ty \<mapsto> bs) ++ map_of (rev (mac_image ps)) \<and>
       pb_types pb' = pb_types pb @ [ty] @ map fst (mac_image ps) \<and>
       pb_front_app pb' = pb_front_app pb \<and> (ps \<noteq> [] \<longrightarrow> pb_items pb' = Some [pb_data pb'])"
    proof -
      have "fst ` set ps \<subseteq> set mac_formats" using 2(4) by simp
      from 2(2) [OF ty \<open>accepts ty\<close> rest this] show ?thesis unfolding next_pb append_assoc .
    qed
    have "(pb_data pb)(ty \<mapsto> bs) ++ map_of (rev (mac_image ps)) = pb_data pb ++ map_of (rev (mac_image ((fmt, bs) # ps)))"
      by (simp add: mac_image_def ty)
    moreover have "ps = [] \<Longrightarrow> pb_items pb' = Some [pb_data pb']" using rest IH next_pb(4) by (simp add: mac_image_def)
    ultimately show ?case using IH by (auto simp: mac_image_def ty)
  qed (simp add: mac_image_def)
  then show "pb_data pb' = pb_data pb ++ map_of (rev (mac_image ps))" "pb_types pb' = pb_types pb @ map fst (mac_image ps)"
    "pb_front_app pb' = pb_front_app pb" "ps \<noteq> [] \<Longrightarrow> pb_items pb' = Some [pb_data pb']" by auto
qed

lemma write_type_inj:
  "f \<in> set mac_formats \<Longrightarrow> f' \<in> set mac_formats \<Longrightarrow> the (write_type_for f) = the (write_type_for f') \<Longrightarrow> f = f'"
  by (auto simp: mac_formats_def)

lemma map_of_mac_image:
  assumes "fst ` set ps \<subseteq> set mac_formats" "f \<in> set mac_formats"
  shows "map_of (mac_image ps) (the (write_type_for f)) = map_of ps f"
  using assms by (induction ps) (auto simp: mac_image_def dest: write_type_inj)

lemma mac_poll_after_write:
  assumes rep: "mac_representable ps" and put: "mac_put accepts ps pb0 = (Inr u, pb)"
  shows "poll_pasteboard pb = PollData \<lparr>cap_payloads = concat (map (found ps) mac_formats), cap_app = pb_front_app pb0\<rparr>"
proof -
  have faithful: "mac_faithful p" if "p \<in> set ps" for p using rep that by (auto simp: mac_representable_def list_all_iff)
  have formats: "fst ` set ps \<subseteq> set mac_formats" using faithful mac_faithful_format by force
  have "distinct (map label (map fst ps))" using rep by (simp add: mac_representable_def case_prod_unfold comp_def)
  then have dist: "distinct (map fst ps)" unfolding distinct_map [of label] by simp
  have "inj_on (\<lambda>f. the (write_type_for f)) (set (map fst ps))"
    using formats write_type_inj by (metis (no_types, lifting) inj_onI list.set_map subsetD)
  then have di: "distinct (map fst (mac_image ps))"
    using dist by (simp add: mac_image_def case_prod_unfold comp_def distinct_map inj_on_def image_iff)
  note image = mac_set_all_image [OF put [unfolded mac_put_def] formats]
  have data: "pb_data pb (the (write_type_for f)) = map_of ps f" if "f \<in> set mac_formats" for f
    using map_of_mac_image [OF formats that] by (simp add: image(1) clear_contents_def map_of_rev_distinct [OF di])
  have payload: "data_for pb (the (write_type_for f)) = map_of ps f" if "f \<in> set mac_formats" "f \<noteq> FileList" for f
  proof (cases "map_of ps f")
    case (Some bs)
    then have "bs \<noteq> []" using faithful [OF map_of_SomeD [OF Some]] that by (cases f) (auto simp: mac_formats_def)
    then show ?thesis using data [OF that(1)] Some by (simp add: data_for_def)
  qed (simp add: data_for_def data [OF that(1)])
  have "ps \<noteq> []" using rep by (simp add: mac_representable_def)
  then have items: "pb_items pb = Some [pb_data pb]" by (rule image(4))
  have files: "file_urls pb = map_of ps FileList"
  proof (cases "map_of ps FileList")
    case None
    then show ?thesis using data [of FileList] by (simp add: file_urls_def items string_for_type_def map_filter_simps mac_formats_def)
  next
    case (Some bs)
    then obtain cs where cs: "from_utf8 bs = Some cs" using faithful [OF map_of_SomeD [OF Some]] by auto
    then have "utf8_encode cs = bs" by (simp add: from_utf8_iff)
    then show ?thesis using data [of FileList] Some cs
      by (simp add: file_urls_def items string_for_type_def map_filter_simps mac_formats_def)
  qed
  have types: "\<not> has_type pb MacConcealed" "\<not> has_type pb MacTransient"
    using formats by (auto simp: has_type_def image(2) clear_contents_def mac_image_def mac_formats_def)
  have one: "map_of ps Png = None \<or> map_of ps (Other ''image/tiff'') = None"
    using rep by (auto simp: mac_representable_def map_of_eq_None_iff)
  have "concat (map (found ps) mac_formats) \<noteq> []"
    using mset_found [OF dist _ formats] \<open>ps \<noteq> []\<close> by (auto simp: mac_formats_def)
  then show ?thesis
    using payload [of Text] payload [of Html] payload [of Rtf] payload [of Png] payload [of "Other ''image/tiff''"] one types
    by (auto simp: poll_pasteboard_def files image(3) clear_contents_def mac_formats_def found_def opt_payload_def split: option.splits)
qed

definition mac_stored :: "(mac_type \<Rightarrow> bool) \<Rightarrow> payloads \<Rightarrow> pasteboard \<Rightarrow> pasteboard option" where
  "mac_stored accepts ps pb = (case mac_put accepts ps pb of (Inr _, pb') \<Rightarrow> Some pb' | _ \<Rightarrow> None)"

interpretation mac: clipboard_backend "mac_stored accepts" poll_pasteboard "\<lambda>ps _. mac_representable ps" for accepts
proof
  fix ps s s' assume rep: "mac_representable ps" and put: "mac_stored accepts ps s = Some s'"
  then obtain u where "mac_put accepts ps s = (Inr u, s')" by (auto simp: mac_stored_def split: prod.splits sum.splits)
  note poll = mac_poll_after_write [OF rep this]
  have "distinct (map label (map fst ps))" using rep by (simp add: mac_representable_def case_prod_unfold comp_def)
  then have "distinct (map fst ps)" unfolding distinct_map [of label] by simp
  moreover have "fst ` set ps \<subseteq> set mac_formats"
    using rep mac_faithful_format by (force simp: mac_representable_def list_all_iff)
  ultimately show "\<exists>c. poll_pasteboard s' = PollData c \<and> mset (cap_payloads c) = mset ps"
    using mset_found [of ps mac_formats] by (simp add: poll mac_formats_def)
qed (simp add: mac_representable_def)

section \<open>Linux reads back clips of one format\<close>

definition linux_formats :: "clip_format list" where
  "linux_formats = [Text, Html, Rtf, Png, FileList]"

definition x11_stored :: "payloads \<Rightarrow> x_selection \<Rightarrow> x_selection option" where
  "x11_stored ps sel = Some (case chosen ps of None \<Rightarrow> sel | Some (fmt, bs) \<Rightarrow> [x_target_of fmt \<mapsto> bs])"

fun x11_representable :: "payloads \<Rightarrow> bool" where
  "x11_representable [(fmt, bs)] \<longleftrightarrow> fmt \<in> set linux_formats \<and> bs \<noteq> [] \<and> (fmt = FileList \<longrightarrow> uri_list_to_paths bs = bs)"
| "x11_representable _ \<longleftrightarrow> False"

interpretation x11: clipboard_backend x11_stored x11_poll "\<lambda>ps _. x11_representable ps"
proof
  fix ps and s s' :: x_selection assume "x11_representable ps" "x11_stored ps s = Some s'"
  then show "\<exists>c. x11_poll s' = PollData c \<and> mset (cap_payloads c) = mset ps"
    by (cases ps rule: x11_representable.cases)
      (auto simp: x11_stored_def chosen_def x11_poll_def x_load_def is_secret_hint_def opt_payload_def linux_formats_def)
next
  fix ps and s :: x_selection assume "x11_representable ps"
  then show "ps \<noteq> [] \<and> distinct (labels_of ps)" by (cases ps rule: x11_representable.cases) auto
qed

definition wl_stored :: "(string \<Rightarrow> string list) \<Rightarrow> payloads \<Rightarrow> wl_offer \<Rightarrow> wl_offer option" where
  "wl_stored offers ps off = Some (case chosen ps of None \<Rightarrow> off
     | Some (fmt, bs) \<Rightarrow> (\<lambda>m. if m \<in> set (offers (mime_of fmt)) then Some bs else None))"

text \<open>A copy is offered under its own type and under none of the others that are asked for.\<close>

definition offers_only :: "(string \<Rightarrow> string list) \<Rightarrow> string \<Rightarrow> bool" where
  "offers_only offers mime \<longleftrightarrow>
     mime \<in> set (offers mime) \<and> list_all (\<lambda>m. m \<noteq> mime \<longrightarrow> m \<notin> set (offers mime)) (PASSWORD_HINT_MIME # map fst read_mimes)"

fun wl_representable :: "(string \<Rightarrow> string list) \<Rightarrow> payloads \<Rightarrow> bool" where
  "wl_representable offers [(fmt, bs)] \<longleftrightarrow> fmt \<in> set linux_formats \<and> bs \<noteq> [] \<and> offers_only offers (mime_of fmt)"
| "wl_representable offers _ \<longleftrightarrow> False"

interpretation wayland: clipboard_backend "wl_stored offers" read_clipboard "\<lambda>ps _. wl_representable offers ps" for offers
proof
  fix ps and s s' :: wl_offer assume rep: "wl_representable offers ps" and put: "wl_stored offers ps s = Some s'"
  obtain fmt bs where ps: "ps = [(fmt, bs)]" and fmt: "fmt \<in> set linux_formats" and bs: "bs \<noteq> []" "offers_only offers (mime_of fmt)"
    using rep by (cases "(offers, ps)" rule: wl_representable.cases) auto
  have s': "s' m = (if m \<in> set (offers (mime_of fmt)) then Some bs else None)" for m
    using put by (auto simp: wl_stored_def chosen_def ps)
  have mimes: "read_mime s' m = (if m = mime_of fmt then Some bs else None)" if "m \<in> set (PASSWORD_HINT_MIME # map fst read_mimes)" for m
    using bs that unfolding offers_only_def list_all_iff read_mime_def s' by auto
  have eq: "map (\<lambda>(mime, f). opt_payload f (read_mime s' mime)) read_mimes =
      map (\<lambda>(mime, f). if mime = mime_of fmt then [(f, bs)] else []) read_mimes"
  proof (rule map_cong [OF refl])
    fix p assume "p \<in> set read_mimes"
    then have "fst p \<in> set (PASSWORD_HINT_MIME # map fst read_mimes)" by simp
    from mimes [OF this] show "(case p of (mime, f) \<Rightarrow> opt_payload f (read_mime s' mime)) =
        (case p of (mime, f) \<Rightarrow> if mime = mime_of fmt then [(f, bs)] else [])"
      by (cases p) (simp add: opt_payload_def)
  qed
  have "concat (map (\<lambda>(mime, f). opt_payload f (read_mime s' mime)) read_mimes) = [(fmt, bs)]"
  proof -
    consider "fmt = Text" | "fmt = Html" | "fmt = Rtf" | "fmt = Png" | "fmt = FileList"
      using fmt by (auto simp: linux_formats_def)
    then show ?thesis unfolding eq by cases (simp_all add: read_mimes_def)
  qed
  moreover have "mime_of fmt \<noteq> PASSWORD_HINT_MIME" using fmt by (auto simp: linux_formats_def PASSWORD_HINT_MIME_def)
  then have "read_mime s' PASSWORD_HINT_MIME = None" using mimes by simp
  ultimately have "read_clipboard s' = PollData \<lparr>cap_payloads = [(fmt, bs)], cap_app = None\<rparr>"
    unfolding read_clipboard_def by (simp only: is_secret_hint_def option.case if_False Let_def list.distinct)
  then show "\<exists>c. read_clipboard s' = PollData c \<and> mset (cap_payloads c) = mset ps" by (simp add: ps)
next
  fix ps and s :: wl_offer assume "wl_representable offers ps"
  then show "ps \<noteq> [] \<and> distinct (labels_of ps)" by (cases "(offers, ps)" rule: wl_representable.cases) auto
qed

section \<open>Rich clips on Linux\<close>

lemma chosen_text: "find (\<lambda>(f, _). f = Text) ps = Some (Text, bs) \<Longrightarrow> chosen ps = Some (Text, bs)"
  by (simp add: chosen_def)

lemma plain_text_captured:
  assumes "bs \<noteq> []" "of_nat (length bs) \<le> wc_max_payload_bytes cfg" "detect_secret_in_payloads R [(Text, bs)] = None"
    "hash_payloads X ps \<noteq> hash_payloads X [(Text, bs)]"
  shows "fst (classify X R now cfg (PollData \<lparr>cap_payloads = [(Text, bs)], cap_app = None\<rparr>) (record_write t (hash_payloads X ps) g)) =
    Captured \<lparr>cap_payloads = [(Text, bs)], cap_app = None\<rparr>"
  using assms by (auto simp: classify_captured total_bytes_def capture_hash_def own_check_def record_write_def)

text \<open>
  A clip of several formats that the daemon puts on an X11 clipboard is captured again: only its text
  is written, while the guard waits for the hash of all its formats, so the reading that follows looks
  like a copy of the user's and becomes a new clip.
\<close>

theorem x11_rich_echo_captured:
  assumes "find (\<lambda>(f, _). f = Text) ps = Some (Text, bs)" "bs \<noteq> []" "hash_payloads X ps \<noteq> hash_payloads X [(Text, bs)]"
    "of_nat (length bs) \<le> wc_max_payload_bytes cfg" "detect_secret_in_payloads R [(Text, bs)] = None" "deliver rounds = Some True"
  shows "\<exists>sel' g'. x11_write X True t ps (sel, g) = (Inr (), sel', g') \<and>
    fst (x11_event_loop X R cfg [Tick (X11SelectionNotify now sel' rounds)] g') =
      [Captured \<lparr>cap_payloads = [(Text, bs)], cap_app = None\<rparr>]"
proof -
  have w: "x11_write X True t ps (sel, g) = (Inr (), [Utf8String \<mapsto> bs], record_write t (hash_payloads X ps) g)"
    by (simp add: x11_write_def chosen_text [OF assms(1)])
  have "x11_poll [Utf8String \<mapsto> bs] = PollData \<lparr>cap_payloads = [(Text, bs)], cap_app = None\<rparr>"
    using assms(2) by (simp add: x11_poll_def x_load_def is_secret_hint_def opt_payload_def)
  then have "fst (x11_event_loop X R cfg [Tick (X11SelectionNotify now [Utf8String \<mapsto> bs] rounds)]
      (record_write t (hash_payloads X ps) g)) = [Captured \<lparr>cap_payloads = [(Text, bs)], cap_app = None\<rparr>]"
    using plain_text_captured [OF assms(2,4,5,3), of now t g] assms(6)
    by (auto simp: x11_event_loop_def x11_step_def split: prod.splits)
  with w show ?thesis by blast
qed

section \<open>Polling\<close>

text \<open>The same in one word: \<open>same\<close> compares what \<open>poll_key\<close> gives.\<close>

datatype poll_content = KeyEmpty | KeyConcealed | KeyData content_hash

fun poll_key :: "'x crates_scheme \<Rightarrow> raw_poll \<Rightarrow> poll_content" where
  "poll_key X PollEmpty = KeyEmpty"
| "poll_key X PollConcealed = KeyConcealed"
| "poll_key X (PollData c) = KeyData (capture_hash X c)"

lemma same_key: "same X a b \<longleftrightarrow> poll_key X a = poll_key X b"
  by (cases a; cases b; simp)

fun seen_polls :: "change list \<Rightarrow> raw_poll list" where
  "seen_polls [] = []"
| "seen_polls (Armed t h # cs) = seen_polls cs"
| "seen_polls (Seen now p # cs) = p # seen_polls cs"

fun ticks_of :: "'n observed list \<Rightarrow> 'n list" where
  "ticks_of [] = []"
| "ticks_of (Wrote t h # os) = ticks_of os"
| "ticks_of (Tick n # os) = n # ticks_of os"

lemma remdups_adj_same: "remdups_adj (k # k # ks) = remdups_adj (k # ks)"
  by simp

lemma wl_changes:
  "undisturbed (wl_step X) s os \<Longrightarrow>
   map (poll_key X) (seen_polls (changes (wl_step X) s os)) =
     tl (remdups_adj (poll_key X s # map (\<lambda>t. poll_key X (read_clipboard (wt_offer t))) (ticks_of os)))"
proof (induction "wl_step X" s os rule: undisturbed.induct)
  case (3 s n os)
  show ?case
  proof (cases "wl_step X n s")
    case (Idle s')
    then have "s' = s" "poll_key X (read_clipboard (wt_offer n)) = poll_key X s"
      by (auto simp: wl_step_def Let_def same_key split: if_splits)
    with 3(1) [OF Idle] 3(3) Idle show ?thesis by simp
  next
    case (Reading s' now poll rounds)
    then have eq: "s' = read_clipboard (wt_offer n)" "poll = s'" "poll_key X s' \<noteq> poll_key X s"
      by (auto simp: wl_step_def Let_def same_key split: if_splits)
    have "map (poll_key X) (seen_polls (changes (wl_step X) s' os)) =
        tl (remdups_adj (poll_key X s' # map (\<lambda>t. poll_key X (read_clipboard (wt_offer t))) (ticks_of os)))"
      using 3(2) [OF Reading] 3(3) Reading by simp
    then show ?thesis using eq by (simp add: Reading)
  next
    case Finished
    with 3(3) show ?thesis by simp
  qed
qed simp_all

text \<open>
  C31. The Wayland loop reports each change of the clipboard once, and nothing else: in a run that is not
  disturbed, the readings it classifies are those that differ from the reading before, in order, and
  what was on the clipboard when it started is not among them unless it comes back.
\<close>

theorem wl_reports_each_change:
  assumes "undisturbed (wl_step X) (read_clipboard at_start) obs"
  shows "\<exists>cs. wl_poll_loop X R cfg at_start obs g = classify_all X R cfg cs g \<and>
    map (poll_key X) (seen_polls cs) =
      tl (remdups_adj (map (poll_key X) (read_clipboard at_start # map (\<lambda>t. read_clipboard (wt_offer t)) (ticks_of obs))))"
  using watch_loop_changes [OF assms, of X R cfg g] wl_changes [OF assms]
  by (intro exI [of _ "changes (wl_step X) (read_clipboard at_start) obs"]) (simp add: wl_poll_loop_def comp_def)

text \<open>
  On macOS a change is a change of the pasteboard's counter: the readings are taken at the rounds that
  find another count than the round before.
\<close>

lemma mac_changes:
  "undisturbed mac_step n os \<Longrightarrow>
   length (seen_polls (changes mac_step n os)) = length (remdups_adj (n # map mt_change (ticks_of os))) - 1"
proof (induction mac_step n os rule: undisturbed.induct)
  case (3 n t os)
  show ?case
  proof (cases "mac_step t n")
    case (Idle n')
    then have "n' = n" "mt_change t = n" by (auto simp: mac_step_def split: if_splits)
    with 3(1) [OF Idle] 3(3) Idle show ?thesis by simp
  next
    case (Reading n' now poll rounds)
    then have "n' = mt_change t" "mt_change t \<noteq> n" by (auto simp: mac_step_def split: if_splits)
    with 3(2) [OF Reading] 3(3) Reading show ?thesis by (simp add: remdups_adj_length_ge1 Suc_diff_1)
  next
    case Finished
    with 3(3) show ?thesis by simp
  qed
qed simp_all

section \<open>Echoes that are recognised\<close>

text \<open>
  On macOS the echo of a write is recognised, for every clip the platform can represent; on Linux for
  clips of a single format.
\<close>

lemma mac_echo_suppressed:
  assumes "mac_representable ps" "mac_put accepts ps pb0 = (Inr u, pb)" "passes cfg (poll_pasteboard pb)" "now - t \<le> og_ttl g"
  shows "fst (classify X R now cfg (poll_pasteboard pb) (record_write t (hash_payloads X ps) g)) = SuppressedCapture OwnWrite"
  using mac.echo_suppressed [OF assms(1) _ assms(3,4), of accepts pb0] assms(2) by (simp add: mac_stored_def)

lemma linux_echo_suppressed:
  assumes "now - t \<le> og_ttl g"
  shows "x11_representable ps \<Longrightarrow> x11_stored ps sel = Some sel' \<Longrightarrow> passes cfg (x11_poll sel') \<Longrightarrow>
      fst (classify X R now cfg (x11_poll sel') (record_write t (hash_payloads X ps) g)) = SuppressedCapture OwnWrite"
    and "wl_representable offers ps \<Longrightarrow> wl_stored offers ps off = Some off' \<Longrightarrow> passes cfg (read_clipboard off') \<Longrightarrow>
      fst (classify X R now cfg (read_clipboard off') (record_write t (hash_payloads X ps) g)) = SuppressedCapture OwnWrite"
  using x11.echo_suppressed [OF _ _ _ assms] wayland.echo_suppressed [OF _ _ _ assms] by blast+

section \<open>Where the Linux backends differ\<close>

text \<open>
  The same list of files is one text on X11 and another on Wayland, which keeps the line ends and the
  comments of the offer.
\<close>

lemma file_lists_differ:
  defines "uris \<equiv> str_bytes ''# c'' @ [13, 10] @ str_bytes ''file:///a'' @ [13, 10]"
  shows "x11_poll [XUriList \<mapsto> uris] = PollData \<lparr>cap_payloads = [(FileList, str_bytes ''file:///a'')], cap_app = None\<rparr>"
    and "read_clipboard [''text/uri-list'' \<mapsto> uris] = PollData \<lparr>cap_payloads = [(FileList, uris)], cap_app = None\<rparr>"
proof -
  have "uri_list_to_paths uris = str_bytes ''file:///a''"
    by (simp add: uris_def str_bytes_def uri_list_to_paths_def from_utf8_lossy_def utf8_lossy.simps(2) str_lines_def strip_cr_def
        trim_def is_whitespace_def utf8_encode_def utf8_char_def)
  moreover have "uris \<noteq> []" by (simp add: uris_def)
  ultimately show "x11_poll [XUriList \<mapsto> uris] = PollData \<lparr>cap_payloads = [(FileList, str_bytes ''file:///a'')], cap_app = None\<rparr>"
    "read_clipboard [''text/uri-list'' \<mapsto> uris] = PollData \<lparr>cap_payloads = [(FileList, uris)], cap_app = None\<rparr>"
    by (simp_all add: x11_poll_def x_load_def is_secret_hint_def opt_payload_def read_clipboard_def read_mime_def
        PASSWORD_HINT_MIME_def read_mimes_def)
qed

text \<open>A JPEG image is written to an X11 clipboard as if it were text.\<close>

lemma x11_image_as_text:
  "bs \<noteq> [] \<Longrightarrow> x11_stored [(Jpeg, bs)] sel = Some sel' \<Longrightarrow>
     x11_poll sel' = PollData \<lparr>cap_payloads = [(Text, bs)], cap_app = None\<rparr>"
  by (auto simp: x11_stored_def chosen_def x11_poll_def x_load_def is_secret_hint_def opt_payload_def)

text \<open>
  A watcher that says it watches may have no thread that does: on X11 the thread reports that it is
  ready before it opens the connection it reads with.
\<close>

lemma automatic_without_watching:
  assumes "\<not> ls_wayland_display S" "ls_display S" "ls_spawned S" "ls_subscribed S" "ls_handle_reader S" "\<not> ls_thread_reader S"
  shows "\<exists>w. linux_start S = Inr w \<and> w_mode w = WatchAutomatic \<and> \<not> w_watching w"
  using assms by (simp add: linux_start_def x11_start_def)

section \<open>Samples\<close>

theorem x11_rich_echo_captured_witness:
  "\<exists>sel' g'. x11_write sample_crates True 1 [(Text, str_bytes ''hi''), (Html, str_bytes ''<b>hi</b>'')] (Map.empty, own_guard_new 5) = (Inr (), sel', g') \<and>
     fst (x11_event_loop sample_crates no_patterns default_watch_config [Tick (X11SelectionNotify 2 sel' [(False, SentOk)])] g') =
       [Captured \<lparr>cap_payloads = [(Text, str_bytes ''hi'')], cap_app = None\<rparr>]"
proof (rule x11_rich_echo_captured)
  show "hash_payloads sample_crates [(Text, str_bytes ''hi''), (Html, str_bytes ''<b>hi</b>'')] \<noteq> hash_payloads sample_crates [(Text, str_bytes ''hi'')]"
    by code_simp
  show "detect_secret_in_payloads no_patterns [(Text, str_bytes ''hi'')] = None" by code_simp
qed (simp_all add: str_bytes_def default_watch_config_def DEFAULT_MAX_PAYLOAD_BYTES_def)

definition sample_wl_tick :: "wl_offer \<Rightarrow> wl_tick" where
  "sample_wl_tick off = \<lparr>wt_stop = False, wt_stop_after_sleep = False, wt_offer = off, wt_now = 3, wt_rounds = [(False, SentOk)]\<rparr>"

theorem wl_reports_each_change_witness:
  "\<exists>cs. wl_poll_loop sample_crates no_patterns default_watch_config Map.empty
       [Tick (sample_wl_tick Map.empty), Tick (sample_wl_tick [''image/png'' \<mapsto> [1]]), Tick (sample_wl_tick [''image/png'' \<mapsto> [1]])] (own_guard_new 5) =
     classify_all sample_crates no_patterns default_watch_config cs (own_guard_new 5) \<and> length (seen_polls cs) = 1"
proof -
  let ?obs = "[Tick (sample_wl_tick Map.empty), Tick (sample_wl_tick [''image/png'' \<mapsto> [1]]), Tick (sample_wl_tick [''image/png'' \<mapsto> [1]])]"
  have polls: "read_clipboard Map.empty = PollEmpty"
    "read_clipboard [''image/png'' \<mapsto> [1]] = PollData \<lparr>cap_payloads = [(Png, [1])], cap_app = None\<rparr>"
    by (simp_all add: read_clipboard_def read_mime_def is_secret_hint_def PASSWORD_HINT_MIME_def read_mimes_def opt_payload_def)
  have u: "undisturbed (wl_step sample_crates) (read_clipboard Map.empty) ?obs"
    by (simp add: polls wl_step_def sample_wl_tick_def Let_def)
  from wl_reports_each_change [OF u, of no_patterns default_watch_config "own_guard_new 5"]
  obtain cs where "wl_poll_loop sample_crates no_patterns default_watch_config Map.empty ?obs (own_guard_new 5) =
      classify_all sample_crates no_patterns default_watch_config cs (own_guard_new 5)"
    and "map (poll_key sample_crates) (seen_polls cs) = [KeyData (capture_hash sample_crates \<lparr>cap_payloads = [(Png, [1])], cap_app = None\<rparr>)]"
    by (auto simp: polls sample_wl_tick_def)
  then show ?thesis by (intro exI [of _ cs]) (metis One_nat_def length_Cons length_map list.size(3))
qed

end
