(* ===== verification/Watch_Lifecycle.thy ===== *)
theory Watch_Lifecycle
  imports Win_Clipboard Unix_Clipboard
begin

text \<open>
  The life of a watcher (\<open>watch\<close>, \<open>Watcher\<close> and its \<open>drop\<close> in \<open>clipse-clipboard/src/watch.rs\<close>, \<open>start\<close> and
  the watch threads of \<open>platform/windows.rs\<close>, \<open>macos.rs\<close> and \<open>linux.rs\<close>), as interleavings: the thread
  that holds the handle, the watch thread, the daemon that takes events from the bounded channel, and
  whatever the system does meanwhile each make one atomic step at a time. A step is atomic where the
  source touches something shared once: the shutdown flag, the channel, the message queue.

  A platform is a record of four functions: what its thread does next, what the thread in \<open>start\<close>
  waits for, what the stopper does besides raising the flag, and what may come from outside. The
  locale \<open>stoppable\<close> says what such a thread owes to the one that drops the handle; the four threads
  of the source are its interpretations.

  Shown: dropping the handle returns, whatever the consumer does; at most one event is sent after
  the flag is raised and none after the drop; the daemon gets exactly what \<open>classify\<close> makes of the
  readings, in order; and when \<open>start\<close> fails. Also a thread that is left behind on X11, and the
  window that is left to the system.
\<close>

section \<open>The channel\<close>

record event_channel =
  ec_capacity :: nat
  ec_queue :: "capture_event list"
  ec_open :: bool

text \<open>\<open>try_send\<close> of a bounded channel of \<open>tokio\<close>.\<close>

definition channel_send :: "capture_event \<Rightarrow> event_channel \<Rightarrow> try_send \<times> event_channel" where
  "channel_send ev ch =
     (if \<not> ec_open ch then (ChannelClosed, ch)
      else if ec_capacity ch \<le> length (ec_queue ch) then (ChannelFull, ch)
      else (SentOk, ch\<lparr>ec_queue := ec_queue ch @ [ev]\<rparr>))"

text \<open>The loop of \<open>deliver\<close>, cut where it looks at the flag, where it sends and where it sleeps.\<close>

datatype deliver_at = DeliverLoad | DeliverSend | DeliverSleep

definition deliver_round :: "bool \<Rightarrow> capture_event \<Rightarrow> deliver_at \<Rightarrow> event_channel \<Rightarrow> (deliver_at + bool) \<times> event_channel" where
  "deliver_round stopping ev d ch =
     (case d of
        DeliverLoad \<Rightarrow> (if stopping then Inr False else Inl DeliverSend, ch)
      | DeliverSend \<Rightarrow>
          (case channel_send ev ch of
             (SentOk, ch') \<Rightarrow> (Inr True, ch')
           | (ChannelClosed, ch') \<Rightarrow> (Inr False, ch')
           | (ChannelFull, ch') \<Rightarrow> (Inl DeliverSleep, ch'))
      | DeliverSleep \<Rightarrow> (Inl DeliverLoad, ch))"

text \<open>A look, a send and a sleep together are a round of \<open>deliver\<close>.\<close>

lemma deliver_round_deliver:
  "deliver ((stopping, fst (channel_send ev ch)) # rounds) =
     (if fst (deliver_round stopping ev DeliverLoad ch) = Inr False then Some False
      else case fst (deliver_round stopping ev DeliverSend ch) of Inr b \<Rightarrow> Some b | Inl d \<Rightarrow> deliver rounds)"
  by (simp add: deliver_round_def split: prod.split try_send.split)

section \<open>The parties\<close>

text \<open>
  A watch thread is at some point of its body, in \<open>deliver\<close> (with the point it goes on from), or
  has returned. What the body does in one step: go on, take a reading, or return.
\<close>

datatype 'b thread_at = Doing 'b | Delivering deliver_at capture_event 'b | Ended

datatype 'b body_step = Goto 'b | TakeReading 'b nat raw_poll | EndThread

text \<open>The thread that called \<open>watch\<close>: in \<open>start\<close>, holding the handle, in the stopper, or done with it.\<close>

datatype owner_at = OwnerStarting | OwnerHolds | OwnerStopping | OwnerJoining | OwnerDone | OwnerFailed clipboard_error

record ('a, 'b, 'os, 'e) watch_backend =
  pf_body :: "'a \<Rightarrow> bool \<Rightarrow> 'b \<Rightarrow> 'os \<Rightarrow> ('b body_step \<times> 'os) option"
  pf_ready :: "bool \<Rightarrow> 'os \<Rightarrow> ((clipboard_error + unit) \<times> 'os) option"
  pf_notify :: "bool \<Rightarrow> 'os \<Rightarrow> 'os"
  pf_outside :: "'e \<Rightarrow> 'os \<Rightarrow> 'os"

text \<open>\<open>lf_sent\<close>, \<open>lf_received\<close> and \<open>lf_seen\<close> record what happened; no step looks at them.\<close>

record ('b, 'os) life =
  lf_at :: "'b thread_at"
  lf_owner :: owner_at
  lf_stopping :: bool
  lf_channel :: event_channel
  lf_guard :: own_write_guard
  lf_os :: 'os
  lf_sent :: "capture_event list"
  lf_received :: "capture_event list"
  lf_seen :: "change list"

datatype ('a, 'e) life_label =
    ThreadRuns 'a
  | OwnerRuns
  | HandleDropped
  | WriteRecorded nat content_hash
  | Outside 'e
  | EventTaken
  | ReceiverDropped

definition close_channel :: "('b, 'os) life \<Rightarrow> ('b, 'os) life" where
  "close_channel s = s\<lparr>lf_channel := (lf_channel s)\<lparr>ec_open := False\<rparr>\<rparr>"

text \<open>\<open>watch\<close>: a fresh channel and a fresh guard; the receiver goes away again if \<open>start\<close> fails.\<close>

definition life_begin :: "watch_config \<Rightarrow> bool \<Rightarrow> 'b \<Rightarrow> 'os \<Rightarrow> ('b, 'os) life" where
  "life_begin cfg spawned b os =
     \<lparr>lf_at = (if spawned then Doing b else Ended),
      lf_owner = (if spawned then OwnerStarting else OwnerFailed WatcherStartup),
      lf_stopping = False,
      lf_channel = \<lparr>ec_capacity = wc_channel_capacity cfg, ec_queue = [], ec_open = spawned\<rparr>,
      lf_guard = own_guard_new (wc_own_write_ttl cfg), lf_os = os, lf_sent = [], lf_received = [], lf_seen = []\<rparr>"

section \<open>Steps\<close>

definition thread_step :: "'x crates_scheme \<Rightarrow> patterns \<Rightarrow> watch_config \<Rightarrow> ('a, 'b, 'os, 'e) watch_backend \<Rightarrow> 'a \<Rightarrow>
    ('b, 'os) life \<Rightarrow> ('b, 'os) life option" where
  "thread_step X R cfg P a s =
     (case lf_at s of
        Ended \<Rightarrow> None
      | Doing b \<Rightarrow>
          (case pf_body P a (lf_stopping s) b (lf_os s) of
             None \<Rightarrow> None
           | Some (Goto b', os) \<Rightarrow> Some (s\<lparr>lf_at := Doing b', lf_os := os\<rparr>)
           | Some (EndThread, os) \<Rightarrow> Some (s\<lparr>lf_at := Ended, lf_os := os\<rparr>)
           | Some (TakeReading b' now poll, os) \<Rightarrow>
               (case classify X R now cfg poll (lf_guard s) of
                  (ev, g) \<Rightarrow> Some (s\<lparr>lf_at := Delivering DeliverLoad ev b', lf_os := os, lf_guard := g,
                                  lf_seen := lf_seen s @ [Seen now poll]\<rparr>)))
      | Delivering d ev b \<Rightarrow>
          (case deliver_round (lf_stopping s) ev d (lf_channel s) of
             (Inl d', ch) \<Rightarrow> Some (s\<lparr>lf_at := Delivering d' ev b, lf_channel := ch\<rparr>)
           | (Inr True, ch) \<Rightarrow> Some (s\<lparr>lf_at := Doing b, lf_channel := ch, lf_sent := lf_sent s @ [ev]\<rparr>)
           | (Inr False, ch) \<Rightarrow> Some (s\<lparr>lf_at := Ended, lf_channel := ch\<rparr>)))"

text \<open>
  \<open>start\<close> waiting for the thread, and the stopper: raise the flag (\<open>HandleDropped\<close>), then notify, then
  join.
\<close>

definition owner_step :: "('a, 'b, 'os, 'e) watch_backend \<Rightarrow> ('b, 'os) life \<Rightarrow> ('b, 'os) life option" where
  "owner_step P s =
     (case lf_owner s of
        OwnerStarting \<Rightarrow>
          (case pf_ready P (lf_at s = Ended) (lf_os s) of
             None \<Rightarrow> None
           | Some (Inr _, os) \<Rightarrow> Some (s\<lparr>lf_owner := OwnerHolds, lf_os := os\<rparr>)
           | Some (Inl e, os) \<Rightarrow> Some (close_channel (s\<lparr>lf_owner := OwnerFailed e, lf_os := os\<rparr>)))
      | OwnerStopping \<Rightarrow> Some (s\<lparr>lf_owner := OwnerJoining, lf_os := pf_notify P (lf_at s = Ended) (lf_os s)\<rparr>)
      | OwnerJoining \<Rightarrow> if lf_at s = Ended then Some (s\<lparr>lf_owner := OwnerDone\<rparr>) else None
      | _ \<Rightarrow> None)"

definition take_event :: "('b, 'os) life \<Rightarrow> ('b, 'os) life option" where
  "take_event s =
     (case ec_queue (lf_channel s) of
        [] \<Rightarrow> None
      | ev # evs \<Rightarrow>
          if ec_open (lf_channel s)
          then Some (s\<lparr>lf_channel := (lf_channel s)\<lparr>ec_queue := evs\<rparr>, lf_received := lf_received s @ [ev]\<rparr>)
          else None)"

text \<open>One step of one party; \<open>None\<close> means that it cannot run now.\<close>

definition watch_step :: "'x crates_scheme \<Rightarrow> patterns \<Rightarrow> watch_config \<Rightarrow> ('a, 'b, 'os, 'e) watch_backend \<Rightarrow> ('a, 'e) life_label \<Rightarrow>
    ('b, 'os) life \<Rightarrow> ('b, 'os) life option" where
  "watch_step X R cfg P l s =
     (case l of
        ThreadRuns a \<Rightarrow> thread_step X R cfg P a s
      | OwnerRuns \<Rightarrow> owner_step P s
      | HandleDropped \<Rightarrow> if lf_owner s = OwnerHolds then Some (s\<lparr>lf_owner := OwnerStopping, lf_stopping := True\<rparr>) else None
      | WriteRecorded t h \<Rightarrow>
          if lf_owner s = OwnerHolds
          then Some (s\<lparr>lf_guard := record_write t h (lf_guard s), lf_seen := lf_seen s @ [Armed t h]\<rparr>) else None
      | Outside e \<Rightarrow> Some (s\<lparr>lf_os := pf_outside P e (lf_os s)\<rparr>)
      | EventTaken \<Rightarrow> take_event s
      | ReceiverDropped \<Rightarrow> Some (close_channel s))"

text \<open>A schedule; a party that is asked to run when it cannot does nothing.\<close>

fun watch_run :: "'x crates_scheme \<Rightarrow> patterns \<Rightarrow> watch_config \<Rightarrow> ('a, 'b, 'os, 'e) watch_backend \<Rightarrow> ('a, 'e) life_label list \<Rightarrow>
    ('b, 'os) life \<Rightarrow> ('b, 'os) life" where
  "watch_run X R cfg P [] s = s"
| "watch_run X R cfg P (l # ls) s =
     watch_run X R cfg P ls (case watch_step X R cfg P l s of None \<Rightarrow> s | Some t \<Rightarrow> t)"

fun thread_runs :: "('a, 'e) life_label list \<Rightarrow> nat" where
  "thread_runs [] = 0"
| "thread_runs (ThreadRuns a # ls) = Suc (thread_runs ls)"
| "thread_runs (_ # ls) = thread_runs ls"

lemma watch_run_append: "watch_run X R cfg P (ls @ ms) s = watch_run X R cfg P ms (watch_run X R cfg P ls s)"
  by (induction X R cfg P ls s rule: watch_run.induct) simp_all

lemma watch_run_inv_on:
  assumes "I s" "\<forall>l \<in> set ls. Q l" "\<And>l u v. Q l \<Longrightarrow> I u \<Longrightarrow> watch_step X R cfg P l u = Some v \<Longrightarrow> I v"
  shows "I (watch_run X R cfg P ls s)"
  using assms(1,2)
proof (induction ls arbitrary: s)
  case (Cons l ls)
  then show ?case using assms(3) [of l s] by (cases "watch_step X R cfg P l s") auto
qed simp

lemmas watch_run_inv = watch_run_inv_on [where Q = "\<lambda>_. True", simplified]

lemmas step_defs = watch_step_def thread_step_def owner_step_def take_event_def close_channel_def

lemmas step_splits = life_label.splits thread_at.splits option.splits prod.splits body_step.splits sum.splits bool.splits
  owner_at.splits list.splits if_splits

section \<open>What the daemon gets\<close>

lemma classify_all_append:
  "classify_all X R cfg (cs @ ds) g =
     (case classify_all X R cfg cs g of (evs, g') \<Rightarrow> (case classify_all X R cfg ds g' of (evs', g'') \<Rightarrow> (evs @ evs', g'')))"
  by (induction X R cfg cs g rule: classify_all.induct) (auto split: prod.splits)

lemma deliver_round_cases:
  "deliver_round stopping ev d ch = (r, ch') \<Longrightarrow>
     r = Inr True \<and> d = DeliverSend \<and> ec_open ch \<and> length (ec_queue ch) < ec_capacity ch \<and> ch' = ch\<lparr>ec_queue := ec_queue ch @ [ev]\<rparr> \<or>
     r = Inr False \<and> ch' = ch \<and> (d = DeliverLoad \<and> stopping \<or> d = DeliverSend \<and> \<not> ec_open ch) \<or>
     r = Inl DeliverSend \<and> ch' = ch \<and> d = DeliverLoad \<and> \<not> stopping \<or>
     r = Inl DeliverSleep \<and> ch' = ch \<and> d = DeliverSend \<and> ec_open ch \<and> ec_capacity ch \<le> length (ec_queue ch) \<or>
     r = Inl DeliverLoad \<and> ch' = ch \<and> d = DeliverSleep"
  by (auto simp: deliver_round_def channel_send_def split: deliver_at.splits if_splits)

text \<open>Every step as one of the cases that matter to the channel and the guard.\<close>

lemma thread_step_cases:
  assumes "thread_step X R cfg P a s = Some t"
  obtains (Moved) b at' os where "lf_at s = Doing b" "at' = Ended \<or> (\<exists>b'. at' = Doing b')" "t = s\<lparr>lf_at := at', lf_os := os\<rparr>"
    | (Taken) b b' now poll os ev g where "lf_at s = Doing b"
        "pf_body P a (lf_stopping s) b (lf_os s) = Some (TakeReading b' now poll, os)"
        "classify X R now cfg poll (lf_guard s) = (ev, g)"
        "t = s\<lparr>lf_at := Delivering DeliverLoad ev b', lf_os := os, lf_guard := g, lf_seen := lf_seen s @ [Seen now poll]\<rparr>"
    | (Sent) ev b where "lf_at s = Delivering DeliverSend ev b" "ec_open (lf_channel s)"
        "length (ec_queue (lf_channel s)) < ec_capacity (lf_channel s)"
        "t = s\<lparr>lf_at := Doing b, lf_channel := (lf_channel s)\<lparr>ec_queue := ec_queue (lf_channel s) @ [ev]\<rparr>,
               lf_sent := lf_sent s @ [ev]\<rparr>"
    | (GaveUp) d ev b where "lf_at s = Delivering d ev b" "d = DeliverLoad \<and> lf_stopping s \<or> d = DeliverSend \<and> \<not> ec_open (lf_channel s)"
        "t = s\<lparr>lf_at := Ended\<rparr>"
    | (Waited) d d' ev b where "lf_at s = Delivering d ev b" "t = s\<lparr>lf_at := Delivering d' ev b\<rparr>"
        "d = DeliverLoad \<and> d' = DeliverSend \<and> \<not> lf_stopping s \<or> d = DeliverSend \<and> d' = DeliverSleep \<or> d = DeliverSleep \<and> d' = DeliverLoad"
proof (cases "lf_at s")
  case (Doing b)
  show thesis
  proof (cases "\<exists>b' now poll os. pf_body P a (lf_stopping s) b (lf_os s) = Some (TakeReading b' now poll, os)")
    case True
    then obtain b' now poll os where r: "pf_body P a (lf_stopping s) b (lf_os s) = Some (TakeReading b' now poll, os)" by blast
    obtain ev g where c: "classify X R now cfg poll (lf_guard s) = (ev, g)" by force
    show thesis by (rule Taken [OF Doing r c]) (use assms in \<open>simp add: thread_step_def Doing r c\<close>)
  next
    case False
    then show thesis using assms Moved [OF Doing] by (auto simp: thread_step_def Doing split: option.splits body_step.splits prod.splits)
  qed
next
  case (Delivering d ev b)
  obtain r ch where r: "deliver_round (lf_stopping s) ev d (lf_channel s) = (r, ch)" by force
  have t: "Some t = (case r of Inl d' \<Rightarrow> Some (s\<lparr>lf_at := Delivering d' ev b, lf_channel := ch\<rparr>)
      | Inr True \<Rightarrow> Some (s\<lparr>lf_at := Doing b, lf_channel := ch, lf_sent := lf_sent s @ [ev]\<rparr>)
      | Inr False \<Rightarrow> Some (s\<lparr>lf_at := Ended, lf_channel := ch\<rparr>))"
    using assms by (simp add: thread_step_def Delivering r)
  have same: "s\<lparr>lf_at := x, lf_channel := lf_channel s\<rparr> = s\<lparr>lf_at := x\<rparr>" for x by (cases s) simp
  from deliver_round_cases [OF r] show thesis
  proof (elim disjE conjE)
    assume "r = Inr True" "d = DeliverSend" "ec_open (lf_channel s)" "length (ec_queue (lf_channel s)) < ec_capacity (lf_channel s)"
      "ch = (lf_channel s)\<lparr>ec_queue := ec_queue (lf_channel s) @ [ev]\<rparr>"
    then show thesis using Sent [of ev b] Delivering t by simp
  qed (use t Delivering GaveUp [OF Delivering] Waited [OF Delivering] in \<open>simp_all add: same\<close>)
qed (use assms in \<open>simp add: thread_step_def\<close>)

definition undelivered :: "('b, 'os) life \<Rightarrow> capture_event list" where
  "undelivered s = (case lf_at s of Delivering d ev b \<Rightarrow> [ev] | _ \<Rightarrow> [])"

definition watch_inv :: "'x crates_scheme \<Rightarrow> patterns \<Rightarrow> watch_config \<Rightarrow> own_write_guard \<Rightarrow> ('b, 'os) life \<Rightarrow> bool" where
  "watch_inv X R cfg g0 s \<longleftrightarrow>
     (\<exists>rest. classify_all X R cfg (lf_seen s) g0 = (lf_sent s @ rest, lf_guard s) \<and>
        (lf_at s \<noteq> Ended \<longrightarrow> rest = undelivered s) \<and> length rest \<le> 1) \<and>
     lf_sent s = lf_received s @ ec_queue (lf_channel s) \<and> length (ec_queue (lf_channel s)) \<le> ec_capacity (lf_channel s) \<and>
     ec_capacity (lf_channel s) = wc_channel_capacity cfg"

lemma watch_inv_begin: "watch_inv X R cfg (own_guard_new (wc_own_write_ttl cfg)) (life_begin cfg spawned b os)"
  by (simp add: watch_inv_def life_begin_def undelivered_def)

lemma thread_step_inv:
  assumes "watch_inv X R cfg g0 s" "thread_step X R cfg P a s = Some t"
  shows "watch_inv X R cfg g0 t"
  using assms(2)
proof (cases rule: thread_step_cases)
  case (Taken b b' now poll os ev g)
  then show ?thesis using assms(1) by (auto simp: watch_inv_def undelivered_def classify_all_append)
qed (use assms(1) in \<open>auto simp: watch_inv_def undelivered_def\<close>)

lemma other_step_inv:
  assumes "watch_inv X R cfg g0 s" "watch_step X R cfg P l s = Some t" "\<forall>a. l \<noteq> ThreadRuns a"
  shows "watch_inv X R cfg g0 t"
  using assms by (cases l) (auto simp: step_defs watch_inv_def undelivered_def classify_all_append split: step_splits)

lemma watch_step_inv: "watch_inv X R cfg g0 s \<Longrightarrow> watch_step X R cfg P l s = Some t \<Longrightarrow> watch_inv X R cfg g0 t"
  using thread_step_inv other_step_inv by (cases "\<exists>a. l = ThreadRuns a") (fastforce simp: watch_step_def)+

lemma watch_run_keeps_inv: "watch_inv X R cfg g0 s \<Longrightarrow> watch_inv X R cfg g0 (watch_run X R cfg P ls s)"
  by (rule watch_run_inv [OF _ watch_step_inv])

text \<open>
  Whatever the schedule, what the daemon has received is, in order and without a gap, what \<open>classify\<close>
  makes of the readings; it is behind by the channel's capacity and one event at most, and the last
  reading is lost only with the thread that took it.
\<close>

theorem watcher_delivers_readings:
  assumes "watch_run X R cfg P ls (life_begin cfg spawned b os) = s"
    and "fst (classify_all X R cfg (lf_seen s) (own_guard_new (wc_own_write_ttl cfg))) = evs"
  shows "\<exists>rest. evs = lf_received s @ rest \<and> length rest \<le> wc_channel_capacity cfg + 1 \<and>
    (lf_at s = Ended \<or> rest = ec_queue (lf_channel s) @ undelivered s)"
proof -
  have "watch_inv X R cfg (own_guard_new (wc_own_write_ttl cfg)) s"
    unfolding assms(1) [symmetric] by (rule watch_run_keeps_inv [OF watch_inv_begin])
  then obtain rest where "classify_all X R cfg (lf_seen s) (own_guard_new (wc_own_write_ttl cfg)) = (lf_sent s @ rest, lf_guard s)"
      "lf_at s \<noteq> Ended \<longrightarrow> rest = undelivered s" "length rest \<le> 1"
      "lf_sent s = lf_received s @ ec_queue (lf_channel s)" "length (ec_queue (lf_channel s)) \<le> wc_channel_capacity cfg"
    unfolding watch_inv_def by auto
  with assms(2) show ?thesis by (intro exI [of _ "ec_queue (lf_channel s) @ rest"]) auto
qed

section \<open>After the flag is raised\<close>

text \<open>A send that was about to happen when the flag was raised still happens; no other does.\<close>

definition sends_left :: "('b, 'os) life \<Rightarrow> nat" where
  "sends_left s = (case lf_at s of Delivering DeliverSend ev b \<Rightarrow> 1 | _ \<Rightarrow> 0)"

definition quiet :: "nat \<Rightarrow> ('b, 'os) life \<Rightarrow> bool" where
  "quiet n s \<longleftrightarrow> lf_stopping s \<and> length (lf_sent s) + sends_left s \<le> n"

lemma stopping_step:
  assumes "quiet n s" "watch_step X R cfg P l s = Some t"
  shows "quiet n t"
proof (cases "\<exists>a. l = ThreadRuns a")
  case True
  then obtain a where "thread_step X R cfg P a s = Some t" using assms(2) by (auto simp: watch_step_def)
  then show ?thesis using assms(1) by (cases rule: thread_step_cases) (auto simp: sends_left_def quiet_def)
next
  case False
  then show ?thesis using assms by (cases l) (auto simp: step_defs sends_left_def quiet_def split: step_splits)
qed

lemma sends_after_flag:
  assumes "lf_stopping s"
  shows "length (lf_sent (watch_run X R cfg P ls s)) \<le> length (lf_sent s) + 1"
proof -
  have "quiet (length (lf_sent s) + 1) s" using assms by (simp add: quiet_def sends_left_def split: thread_at.split deliver_at.split)
  then have "quiet (length (lf_sent s) + 1) (watch_run X R cfg P ls s)" by (rule watch_run_inv [OF _ stopping_step])
  then show ?thesis by (simp add: quiet_def)
qed

definition finished :: "capture_event list \<Rightarrow> ('b, 'os) life \<Rightarrow> bool" where
  "finished evs s \<longleftrightarrow> lf_at s = Ended \<and> lf_sent s = evs"

lemma ended_step: "finished evs s \<Longrightarrow> watch_step X R cfg P l s = Some t \<Longrightarrow> finished evs t"
  by (cases l) (auto simp: finished_def step_defs split: step_splits)

lemma nothing_after_end:
  assumes "lf_at s = Ended"
  shows "lf_at (watch_run X R cfg P ls s) = Ended \<and> lf_sent (watch_run X R cfg P ls s) = lf_sent s"
proof -
  have "finished (lf_sent s) (watch_run X R cfg P ls s)"
    by (rule watch_run_inv [OF _ ended_step]) (use assms in \<open>simp_all add: finished_def\<close>)
  then show ?thesis by (simp add: finished_def)
qed

text \<open>The owner is done only once the thread has returned.\<close>

definition joined_ended :: "('b, 'os) life \<Rightarrow> bool" where
  "joined_ended s \<longleftrightarrow> (lf_owner s = OwnerDone \<longrightarrow> lf_at s = Ended) \<and> (lf_owner s \<in> {OwnerStopping, OwnerJoining} \<longrightarrow> lf_stopping s)"

lemma joined_step: "joined_ended s \<Longrightarrow> watch_step X R cfg P l s = Some t \<Longrightarrow> joined_ended t"
proof (cases "\<exists>a. l = ThreadRuns a")
  case True
  assume j: "joined_ended s" and "watch_step X R cfg P l s = Some t"
  then obtain a where "thread_step X R cfg P a s = Some t" using True by (auto simp: watch_step_def)
  then show ?thesis using j by (cases rule: thread_step_cases) (auto simp: joined_ended_def)
next
  case False
  assume "joined_ended s" "watch_step X R cfg P l s = Some t"
  then show ?thesis using False by (cases l) (auto simp: joined_ended_def step_defs split: step_splits)
qed

lemma joined_run: "joined_ended (watch_run X R cfg P ls (life_begin cfg spawned b os))"
  by (rule watch_run_inv [OF _ joined_step]) (simp_all add: joined_ended_def life_begin_def)

text \<open>
  Raising the flag lets at most one more event through, and once the drop has returned there is none,
  whatever happens afterwards.
\<close>

theorem dropped_watcher_is_silent:
  assumes "watch_run X R cfg P before (life_begin cfg spawned b os) = s"
  shows "(lf_stopping s \<longrightarrow> length (lf_sent (watch_run X R cfg P after s)) \<le> length (lf_sent s) + 1) \<and>
    (lf_owner s = OwnerDone \<longrightarrow> lf_sent (watch_run X R cfg P after s) = lf_sent s)"
  using sends_after_flag [of s X R cfg P after] nothing_after_end [of s X R cfg P after]
    joined_run [of X R cfg P before spawned b os] assms
  by (simp add: joined_ended_def)

section \<open>Dropping returns\<close>

text \<open>
  \<open>called b os\<close>: at this point of its body, and with what else there is, the thread comes to notice the
  flag by itself; \<open>ahead b os\<close> bounds the steps of the body until then.
\<close>

definition told :: "('b \<Rightarrow> 'os \<Rightarrow> bool) \<Rightarrow> ('b, 'os) life \<Rightarrow> bool" where
  "told called s \<longleftrightarrow> lf_stopping s \<and>
     (case lf_at s of
        Ended \<Rightarrow> True
      | Doing b \<Rightarrow> called b (lf_os s)
      | Delivering d ev b \<Rightarrow> d = DeliverSend \<longrightarrow> called b (lf_os s))"

definition to_go :: "('b \<Rightarrow> 'os \<Rightarrow> nat) \<Rightarrow> ('b, 'os) life \<Rightarrow> nat" where
  "to_go ahead s =
     (case lf_at s of
        Ended \<Rightarrow> 0
      | Doing b \<Rightarrow> ahead b (lf_os s) + 2
      | Delivering d ev b \<Rightarrow> (case d of DeliverLoad \<Rightarrow> 1 | DeliverSleep \<Rightarrow> 2 | DeliverSend \<Rightarrow> ahead b (lf_os s) + 3))"

locale stoppable =
  fixes P :: "('a, 'b, 'os, 'e) watch_backend"
    and called :: "'b \<Rightarrow> 'os \<Rightarrow> bool"
    and ahead :: "'b \<Rightarrow> 'os \<Rightarrow> nat"
  assumes runs: "called b os \<Longrightarrow> pf_body P a True b os \<noteq> None"
    and goes_on: "called b os \<Longrightarrow> pf_body P a True b os = Some (Goto b', os') \<Longrightarrow> called b' os' \<and> ahead b' os' < ahead b os"
    and outside: "called b os \<Longrightarrow> called b (pf_outside P e os) \<and> ahead b (pf_outside P e os) \<le> ahead b os"
    and notified: "called b os \<Longrightarrow> called b (pf_notify P ended os) \<and> ahead b (pf_notify P ended os) \<le> ahead b os"
    and started: "called b os \<Longrightarrow> pf_ready P ended os = Some (r, os') \<Longrightarrow> called b os' \<and> ahead b os' \<le> ahead b os"
begin

lemma told_thread_runs: "told called s \<Longrightarrow> lf_at s \<noteq> Ended \<Longrightarrow> thread_step X R cfg P a s \<noteq> None"
proof (cases "lf_at s")
  case (Doing b)
  assume "told called s"
  then have "pf_body P a (lf_stopping s) b (lf_os s) \<noteq> None" using runs by (simp add: told_def Doing)
  then show ?thesis by (auto simp: thread_step_def Doing split: body_step.splits prod.splits)
next
  case (Delivering d ev b)
  obtain r ch where "deliver_round (lf_stopping s) ev d (lf_channel s) = (r, ch)" by force
  then show ?thesis by (auto simp: thread_step_def Delivering split: sum.splits bool.splits)
qed simp

lemma told_body:
  assumes "told called s" "lf_at s = Doing b" "thread_step X R cfg P a s = Some t"
  shows "told called t \<and> to_go ahead t < to_go ahead s"
proof -
  have c: "called b (lf_os s)" "lf_stopping s" using assms(1,2) by (simp_all add: told_def)
  have "called b' os \<and> ahead b' os < ahead b (lf_os s)" if "pf_body P a True b (lf_os s) = Some (Goto b', os)" for b' os
    using goes_on [OF c(1) that] .
  with assms(3) c show ?thesis
    by (auto simp: thread_step_def assms(2) told_def to_go_def split: option.splits prod.splits body_step.splits)
qed

lemma told_thread:
  assumes "told called s" "thread_step X R cfg P a s = Some t"
  shows "told called t \<and> to_go ahead t < to_go ahead s"
proof (cases "lf_at s")
  case (Doing b)
  then show ?thesis using told_body assms by blast
next
  case (Delivering d ev b)
  from assms(2) show ?thesis
    by (cases rule: thread_step_cases) (use assms(1) Delivering in \<open>auto simp: told_def to_go_def\<close>)
next
  case Ended
  with assms(2) show ?thesis by (simp add: thread_step_def)
qed

lemma told_os:
  assumes "told called s" "\<And>b. called b (lf_os s) \<Longrightarrow> called b os \<and> ahead b os \<le> ahead b (lf_os s)"
    "lf_at t = lf_at s" "lf_stopping t" "lf_os t = os"
  shows "told called t \<and> to_go ahead t \<le> to_go ahead s"
  using assms by (auto simp: told_def to_go_def split: thread_at.splits deliver_at.splits)

lemma told_other:
  assumes "told called s" "watch_step X R cfg P l s = Some t" "\<forall>a. l \<noteq> ThreadRuns a"
  shows "told called t \<and> to_go ahead t \<le> to_go ahead s"
proof (rule told_os [OF assms(1)])
  show "lf_at t = lf_at s" "lf_stopping t"
    using assms by (cases l; auto simp: step_defs told_def split: step_splits)+
  show "called b (lf_os t) \<and> ahead b (lf_os t) \<le> ahead b (lf_os s)" if "called b (lf_os s)" for b
    using assms(2,3) outside [OF that] notified [OF that] started [OF that] that
    by (cases l) (auto simp: step_defs split: step_splits)
qed simp

text \<open>However the others are scheduled, the thread returns after as many steps of its own as it has to go.\<close>

lemma told_ends: "told called s \<Longrightarrow> to_go ahead s \<le> thread_runs ls \<Longrightarrow> lf_at (watch_run X R cfg P ls s) = Ended"
proof (induction ls arbitrary: s)
  case Nil
  then show ?case by (auto simp: to_go_def split: thread_at.splits deliver_at.splits)
next
  case (Cons l ls)
  show ?case
  proof (cases "lf_at s = Ended \<or> (\<exists>a. l = ThreadRuns a)")
    case False
    then have "thread_runs (l # ls) = thread_runs ls" by (cases l) auto
    with Cons False told_other [OF Cons.prems(1), of X R cfg l] show ?thesis
      by (cases "watch_step X R cfg P l s") (auto intro: order_trans)
  next
    case True
    then show ?thesis
    proof
      assume "lf_at s = Ended"
      then show ?thesis using nothing_after_end [of s X R cfg P "l # ls"] by blast
    next
      assume "\<exists>a. l = ThreadRuns a"
      then obtain a where l: "l = ThreadRuns a" by blast
      show ?thesis
      proof (cases "lf_at s = Ended")
        case True
        then show ?thesis using nothing_after_end [of s X R cfg P "l # ls"] by blast
      next
        case False
        then obtain t where t: "thread_step X R cfg P a s = Some t" using told_thread_runs [OF Cons.prems(1)] by fastforce
        from told_thread [OF Cons.prems(1) t] Cons show ?thesis by (simp add: l t watch_step_def)
      qed
    qed
  qed
qed

lemma drop_returns:
  assumes "told called s" "lf_owner s = OwnerJoining" "to_go ahead s \<le> thread_runs ls"
  shows "lf_owner (watch_run X R cfg P (ls @ [OwnerRuns]) s) = OwnerDone"
proof -
  let ?t = "watch_run X R cfg P ls s"
  have "lf_owner ?t \<in> {OwnerJoining, OwnerDone}"
    by (rule watch_run_inv [where I = "\<lambda>u. lf_owner u \<in> {OwnerJoining, OwnerDone}"])
      (use assms(2) in \<open>auto simp: step_defs split: step_splits\<close>)
  then show ?thesis using told_ends [OF assms(1,3), of X R cfg]
    by (auto simp: watch_run_append watch_step_def owner_step_def)
qed

end

section \<open>Windows\<close>

text \<open>
  The thread of \<open>message_loop\<close>, from the creation of its window. Windows posts \<open>WM_CLIPBOARDUPDATE\<close> to
  the queue of the thread, in order, and so does \<open>PostMessageW\<close>, unless the window is gone or the
  queue has the 10000 messages that Windows allows. What the calls answer is the argument of the step.
\<close>

datatype win_posted = PostedUpdate | PostedStop | PostedQuit | PostedOther

datatype win_call = CallCreateWindow | CallAddListener | CallRemoveListener | CallDestroyWindow

datatype win_at = CreateWindow | AddListener | ReportReady | GetMessage | ReadClipboard

record win_answer =
  wa_created :: bool
  wa_listening :: bool
  wa_now :: nat
  wa_attempts :: attempts

record win_os =
  wo_messages :: "win_posted list"
  wo_ready :: "(clipboard_error + unit) option"
  wo_ready_open :: bool
  wo_calls :: "win_call list"

definition win_os_begin :: win_os where
  "win_os_begin = \<lparr>wo_messages = [], wo_ready = None, wo_ready_open = True, wo_calls = []\<rparr>"

definition MESSAGE_LIMIT :: nat where
  "MESSAGE_LIMIT = 10000"

abbreviation called_also :: "win_call list \<Rightarrow> win_os \<Rightarrow> win_os" where
  "called_also cs os \<equiv> os\<lparr>wo_calls := wo_calls os @ cs\<rparr>"

definition win_body :: "win_answer \<Rightarrow> bool \<Rightarrow> win_at \<Rightarrow> win_os \<Rightarrow> (win_at body_step \<times> win_os) option" where
  "win_body a stopping at os =
     (case at of
        CreateWindow \<Rightarrow>
          Some (if wa_created a then (Goto AddListener, called_also [CallCreateWindow] os)
                else (EndThread, os\<lparr>wo_ready := Some (Inl Platform)\<rparr>))
      | AddListener \<Rightarrow>
          Some (if wa_listening a then (Goto ReportReady, called_also [CallAddListener] os)
                else (EndThread, called_also [CallDestroyWindow] (os\<lparr>wo_ready := Some (Inl Platform)\<rparr>)))
      | ReportReady \<Rightarrow>
          Some (if wo_ready_open os then (Goto GetMessage, os\<lparr>wo_ready := Some (Inr ())\<rparr>)
                else (EndThread, called_also [CallRemoveListener, CallDestroyWindow] os))
      | GetMessage \<Rightarrow>
          (case wo_messages os of
             [] \<Rightarrow> None
           | msg # msgs \<Rightarrow>
               Some (case msg of
                  PostedQuit \<Rightarrow> (EndThread, os\<lparr>wo_messages := msgs\<rparr>)
                | PostedUpdate \<Rightarrow> (Goto ReadClipboard, os\<lparr>wo_messages := msgs\<rparr>)
                | PostedStop \<Rightarrow> (EndThread, called_also [CallRemoveListener, CallDestroyWindow] (os\<lparr>wo_messages := msgs\<rparr>))
                | PostedOther \<Rightarrow> (Goto GetMessage, os\<lparr>wo_messages := msgs\<rparr>)))
      | ReadClipboard \<Rightarrow> Some (TakeReading GetMessage (wa_now a) (poll_with_retry (wa_attempts a)), os))"

text \<open>\<open>ready_rx.recv()\<close>: an answer, or that the sender is gone with the thread.\<close>

definition win_ready :: "bool \<Rightarrow> win_os \<Rightarrow> ((clipboard_error + unit) \<times> win_os) option" where
  "win_ready ended os =
     (case wo_ready os of
        Some r \<Rightarrow> Some (r, os\<lparr>wo_ready_open := False\<rparr>)
      | None \<Rightarrow> if ended then Some (Inl WatcherStartup, os\<lparr>wo_ready_open := False\<rparr>) else None)"

definition post_message :: "win_posted \<Rightarrow> win_os \<Rightarrow> win_os" where
  "post_message msg os =
     (if CallCreateWindow \<in> set (wo_calls os) \<and> CallDestroyWindow \<notin> set (wo_calls os) \<and> length (wo_messages os) < MESSAGE_LIMIT
      then os\<lparr>wo_messages := wo_messages os @ [msg]\<rparr> else os)"

definition win_notify :: "bool \<Rightarrow> win_os \<Rightarrow> win_os" where
  "win_notify ended os = (if ended then os else post_message PostedStop os)"

definition win_platform :: "(win_answer, win_at, win_os, win_posted) watch_backend" where
  "win_platform = \<lparr>pf_body = win_body, pf_ready = win_ready, pf_notify = win_notify, pf_outside = post_message\<rparr>"

abbreviation win_watch :: "watch_config \<Rightarrow> bool \<Rightarrow> (win_at, win_os) life" where
  "win_watch cfg spawned \<equiv> life_begin cfg spawned CreateWindow win_os_begin"

text \<open>
  The thread is called as long as a message is pending that makes it look at the flag or return.
\<close>

definition win_called :: "win_at \<Rightarrow> win_os \<Rightarrow> bool" where
  "win_called at os \<longleftrightarrow> at = ReadClipboard \<or> (\<exists>msg \<in> set (wo_messages os). msg \<noteq> PostedOther)"

definition win_ahead :: "win_at \<Rightarrow> win_os \<Rightarrow> nat" where
  "win_ahead at os =
     (let n = length (takeWhile (\<lambda>msg. msg = PostedOther) (wo_messages os))
      in case at of CreateWindow \<Rightarrow> n + 4 | AddListener \<Rightarrow> n + 3 | ReportReady \<Rightarrow> n + 2 | GetMessage \<Rightarrow> n + 1 | ReadClipboard \<Rightarrow> 0)"

lemma posted_called:
  "win_called at os \<Longrightarrow> win_called at (post_message msg os) \<and> win_ahead at (post_message msg os) \<le> win_ahead at os"
proof -
  assume c: "win_called at os"
  have "takeWhile (\<lambda>msg. msg = PostedOther) (xs @ [m]) = takeWhile (\<lambda>msg. msg = PostedOther) xs"
    if "\<exists>x \<in> set xs. x \<noteq> PostedOther" for xs m using that by (induction xs) auto
  with c show ?thesis by (auto simp: win_called_def win_ahead_def post_message_def Let_def split: win_at.splits)
qed

interpretation win_thread: stoppable win_platform win_called win_ahead
proof
  fix b os a b' os' r ended
  show "win_called b os \<Longrightarrow> pf_body win_platform a True b os \<noteq> None"
    by (auto simp: win_platform_def win_body_def win_called_def split: win_at.splits list.splits)
  show "win_called b' os' \<and> win_ahead b' os' < win_ahead b os"
    if "win_called b os" "pf_body win_platform a True b os = Some (Goto b', os')"
    using that by (auto simp: win_platform_def win_body_def win_called_def win_ahead_def Let_def
        split: win_at.splits list.splits win_posted.splits if_splits)
  show "win_called b (pf_outside win_platform e os) \<and> win_ahead b (pf_outside win_platform e os) \<le> win_ahead b os"
    if "win_called b os" for e using posted_called [OF that] by (simp add: win_platform_def)
  show "win_called b (pf_notify win_platform ended os) \<and> win_ahead b (pf_notify win_platform ended os) \<le> win_ahead b os"
    if "win_called b os" using posted_called [OF that] that by (simp add: win_platform_def win_notify_def)
  show "win_called b os' \<and> win_ahead b os' \<le> win_ahead b os"
    if "win_called b os" "pf_ready win_platform ended os = Some (r, os')"
    using that by (auto simp: win_platform_def win_ready_def win_called_def win_ahead_def Let_def split: option.splits if_splits win_at.splits)
qed

text \<open>
  Where the thread is, what it has called so far and what \<open>start\<close> knows belong together. The answers of
  the system are those of a \<open>win_session\<close>.
\<close>

definition answers_as :: "win_session \<Rightarrow> (win_answer, win_posted) life_label \<Rightarrow> bool" where
  "answers_as S l \<longleftrightarrow> (\<forall>a. l = ThreadRuns a \<longrightarrow> wa_created a = ws_window S \<and> wa_listening a = ws_listener S)"

definition win_serving :: "win_session \<Rightarrow> (win_at, win_os) life \<Rightarrow> bool" where
  "win_serving S s \<longleftrightarrow> wo_ready (lf_os s) = Some (Inr ()) \<and> win_start S = Inr WatchAutomatic \<and> (\<forall>e. lf_owner s \<noteq> OwnerFailed e)"

definition win_starting :: "(win_at, win_os) life \<Rightarrow> bool" where
  "win_starting s \<longleftrightarrow> wo_ready (lf_os s) = None \<and> wo_ready_open (lf_os s) \<and> lf_owner s = OwnerStarting"

definition win_inv :: "win_session \<Rightarrow> (win_at, win_os) life \<Rightarrow> bool" where
  "win_inv S s \<longleftrightarrow>
     (case lf_at s of
        Doing CreateWindow \<Rightarrow> win_starting s \<and> wo_calls (lf_os s) = []
      | Doing AddListener \<Rightarrow> win_starting s \<and> wo_calls (lf_os s) = [CallCreateWindow] \<and> ws_window S
      | Doing ReportReady \<Rightarrow> win_starting s \<and> wo_calls (lf_os s) = [CallCreateWindow, CallAddListener] \<and> ws_window S \<and> ws_listener S
      | Ended \<Rightarrow>
          wo_ready (lf_os s) = Some (Inl Platform) \<and> win_start S = Inl Platform \<and> lf_owner s \<in> {OwnerStarting, OwnerFailed Platform} \<and>
            wo_calls (lf_os s) \<in> {[], [CallCreateWindow, CallDestroyWindow]} \<or>
          win_serving S s \<and> wo_calls (lf_os s) \<in> {[CallCreateWindow, CallAddListener],
            [CallCreateWindow, CallAddListener, CallRemoveListener, CallDestroyWindow]}
      | Delivering d ev b \<Rightarrow> win_serving S s \<and> wo_calls (lf_os s) = [CallCreateWindow, CallAddListener] \<and> b = GetMessage
      | _ \<Rightarrow> win_serving S s \<and> wo_calls (lf_os s) = [CallCreateWindow, CallAddListener])"

lemmas win_inv_defs = win_inv_def win_serving_def win_starting_def

lemma win_body_inv:
  assumes "ws_spawned S" "answers_as S (ThreadRuns a)" "win_inv S s" "lf_at s = Doing b" "thread_step X R cfg win_platform a s = Some t"
  shows "win_inv S t"
  using assms
  by (cases b) (auto simp: thread_step_def answers_as_def win_inv_defs win_platform_def win_body_def win_start_def
      split: list.splits win_posted.splits prod.splits if_splits)

lemma win_thread_inv:
  assumes "ws_spawned S" "answers_as S (ThreadRuns a)" "win_inv S s" "thread_step X R cfg win_platform a s = Some t"
  shows "win_inv S t"
proof (cases "lf_at s")
  case (Delivering d ev b)
  from assms(4) show ?thesis by (cases rule: thread_step_cases) (use assms(3) Delivering in \<open>auto simp: win_inv_defs\<close>)
next
  case Ended
  then show ?thesis using assms(4) by (simp add: thread_step_def)
qed (use win_body_inv assms in blast)

lemma post_message_frame [simp]:
  "wo_ready (post_message m os) = wo_ready os" "wo_ready_open (post_message m os) = wo_ready_open os"
  "wo_calls (post_message m os) = wo_calls os"
  by (simp_all add: post_message_def)

lemma win_same_inv:
  "win_inv S s \<Longrightarrow> lf_at t = lf_at s \<Longrightarrow> lf_owner t = lf_owner s \<Longrightarrow> wo_ready (lf_os t) = wo_ready (lf_os s) \<Longrightarrow>
   wo_ready_open (lf_os t) = wo_ready_open (lf_os s) \<Longrightarrow> wo_calls (lf_os t) = wo_calls (lf_os s) \<Longrightarrow> win_inv S t"
  by (simp add: win_inv_defs split: thread_at.splits win_at.splits)

lemma win_owner_inv:
  assumes "win_inv S s" "owner_step win_platform s = Some t"
  shows "win_inv S t"
proof (cases "lf_owner s")
  case OwnerStarting
  with assms show ?thesis
    by (auto simp: owner_step_def win_platform_def win_ready_def win_inv_defs close_channel_def
        split: option.splits sum.splits thread_at.splits win_at.splits if_splits)
qed (use assms in \<open>auto simp: owner_step_def win_platform_def win_notify_def win_inv_defs
        split: thread_at.splits win_at.splits if_splits\<close>)

lemma win_step_inv:
  assumes "ws_spawned S" "answers_as S l" "win_inv S s" "watch_step X R cfg win_platform l s = Some t"
  shows "win_inv S t"
proof (cases l)
  case (ThreadRuns a)
  then show ?thesis using win_thread_inv assms by (simp add: watch_step_def)
next
  case OwnerRuns
  then show ?thesis using win_owner_inv assms by (simp add: watch_step_def)
next
  case HandleDropped
  then show ?thesis using assms by (auto simp: watch_step_def win_inv_defs split: thread_at.splits win_at.splits if_splits)
next
  case (Outside e)
  then show ?thesis using assms(4) by (auto simp: watch_step_def win_platform_def intro: win_same_inv [OF assms(3)])
qed (use assms(4) in \<open>auto simp: step_defs split: list.splits if_splits intro: win_same_inv [OF assms(3)]\<close>)

lemma win_run_inv:
  assumes "ws_spawned S" "\<forall>l \<in> set ls. answers_as S l"
  shows "win_inv S (watch_run X R cfg win_platform ls (win_watch cfg True))"
  by (rule watch_run_inv_on [OF _ assms(2)]) (use win_step_inv assms(1) in \<open>auto simp: win_inv_defs life_begin_def win_os_begin_def\<close>)

text \<open>The interleaved \<open>start\<close> has the answer of \<open>win_start\<close>, and has it after three steps of the thread at most.\<close>

definition start_left :: "(win_at, win_os) life \<Rightarrow> nat" where
  "start_left s = (case lf_at s of Doing CreateWindow \<Rightarrow> 3 | Doing AddListener \<Rightarrow> 2 | Doing ReportReady \<Rightarrow> 1 | _ \<Rightarrow> 0)"

lemma start_left_zero: "win_inv S s \<Longrightarrow> start_left s = 0 \<Longrightarrow> wo_ready (lf_os s) \<noteq> None"
  by (auto simp: win_inv_defs start_left_def split: thread_at.splits win_at.splits)

abbreviation after_step :: "('s \<Rightarrow> 's option) \<Rightarrow> 's \<Rightarrow> 's" where
  "after_step f s \<equiv> (case f s of None \<Rightarrow> s | Some t \<Rightarrow> t)"

lemma start_left_thread:
  "win_inv S s \<Longrightarrow> start_left (after_step (thread_step X R cfg win_platform a) s) \<le> start_left s - 1"
  by (auto simp: thread_step_def start_left_def win_platform_def win_body_def win_inv_def deliver_round_def channel_send_def
      split: thread_at.splits win_at.splits deliver_at.splits list.splits win_posted.splits prod.splits if_splits)

lemma start_left_step:
  assumes "win_inv S s"
  shows "start_left (after_step (watch_step X R cfg win_platform l) s) \<le> start_left s - thread_runs [l]"
proof (cases "\<exists>a. l = ThreadRuns a")
  case True
  then show ?thesis using start_left_thread [OF assms] by (auto simp: watch_step_def)
next
  case False
  then show ?thesis by (cases l) (auto simp: step_defs start_left_def split: step_splits)
qed

lemma start_left_run:
  assumes "ws_spawned S" "win_inv S s" "\<forall>l \<in> set ls. answers_as S l"
  shows "start_left (watch_run X R cfg win_platform ls s) \<le> start_left s - thread_runs ls"
  using assms(2,3)
proof (induction ls arbitrary: s)
  case (Cons l ls)
  let ?t = "case watch_step X R cfg win_platform l s of None \<Rightarrow> s | Some t \<Rightarrow> t"
  have "win_inv S ?t" using win_step_inv [OF assms(1), of l s X R cfg] Cons.prems by (auto split: option.splits)
  then have ih: "start_left (watch_run X R cfg win_platform ls ?t) \<le> start_left ?t - thread_runs ls" using Cons by simp
  have "start_left ?t \<le> start_left s - thread_runs [l]" using start_left_step Cons.prems(1) by blast
  moreover have "thread_runs (l # ls) = thread_runs [l] + thread_runs ls" by (cases l) auto
  ultimately show ?case using ih by simp
qed simp

theorem win_start_answers:
  assumes "ws_spawned S" "\<forall>l \<in> set ls. answers_as S l"
    and "watch_run X R cfg win_platform (ls @ [OwnerRuns]) (win_watch cfg True) = s"
  shows "(3 \<le> thread_runs ls \<longrightarrow> lf_owner s \<noteq> OwnerStarting) \<and>
    (lf_owner s \<noteq> OwnerStarting \<longrightarrow>
       win_start S = (case lf_owner s of OwnerFailed e \<Rightarrow> Inl e | _ \<Rightarrow> Inr WatchAutomatic))"
proof
  let ?u = "watch_run X R cfg win_platform ls (win_watch cfg True)"
  have u: "win_inv S ?u" by (rule win_run_inv [OF assms(1,2)])
  have s: "win_inv S s" using win_run_inv [OF assms(1), of "ls @ [OwnerRuns]" X R cfg] assms(2,3) by (auto simp: answers_as_def)
  show "3 \<le> thread_runs ls \<longrightarrow> lf_owner s \<noteq> OwnerStarting"
  proof
    assume "3 \<le> thread_runs ls"
    then have "start_left ?u = 0"
      using start_left_run [OF assms(1) _ assms(2), of "win_watch cfg True" X R cfg] win_run_inv [OF assms(1), of "[]" X R cfg]
      by (simp add: start_left_def life_begin_def)
    from start_left_zero [OF u this] assms(3) show "lf_owner s \<noteq> OwnerStarting"
      by (auto simp: watch_run_append watch_step_def owner_step_def win_platform_def win_ready_def close_channel_def
          split: owner_at.splits option.splits sum.splits if_splits)
  qed
  show "lf_owner s \<noteq> OwnerStarting \<longrightarrow> win_start S = (case lf_owner s of OwnerFailed e \<Rightarrow> Inl e | _ \<Rightarrow> Inr WatchAutomatic)"
    using s by (auto simp: win_inv_defs split: thread_at.splits win_at.splits owner_at.splits)
qed

text \<open>
  C38. Dropping the watcher on Windows returns: once the flag is raised, and the queue of the thread is not
  full of messages that mean nothing to it, the thread returns after as many steps of its own as there
  are messages, and four, whatever the consumer, the system and the rest of the daemon do meanwhile. At
  most one more event is sent until then, and none afterwards.
\<close>

theorem dropping_watcher_returns:
  assumes "watch_run X R cfg win_platform before (win_watch cfg True) = s" "\<forall>l \<in> set before. answers_as S l"
    and "lf_owner s = OwnerStopping" "ws_spawned S"
    and "length (wo_messages (lf_os s)) < MESSAGE_LIMIT"
    and "length (wo_messages (lf_os s)) + 4 \<le> thread_runs after"
    and "watch_run X R cfg win_platform (OwnerRuns # after @ [OwnerRuns]) s = u"
  shows "lf_owner u = OwnerDone \<and> length (lf_sent u) \<le> length (lf_sent s) + 1 \<and>
    (\<forall>later. lf_sent (watch_run X R cfg win_platform later u) = lf_sent u)"
proof -
  let ?os = "win_notify (lf_at s = Ended) (lf_os s)"
  let ?t = "s\<lparr>lf_owner := OwnerJoining, lf_os := ?os\<rparr>"
  have inv: "win_inv S s" using win_run_inv [OF assms(4,2), of X R cfg] assms(1) by simp
  have stop: "lf_stopping s" using joined_run [of X R cfg win_platform before True CreateWindow win_os_begin] assms(1,3)
    by (simp add: joined_ended_def)
  have msgs: "wo_messages ?os = wo_messages (lf_os s) @ [PostedStop]" if "lf_at s \<noteq> Ended"
    using inv that assms(3,5)
    by (auto simp: win_notify_def post_message_def win_inv_defs split: thread_at.splits win_at.splits)
  have at: "lf_at s = Ended \<or> lf_at s = Doing GetMessage \<or> lf_at s = Doing ReadClipboard \<or> (\<exists>d ev. lf_at s = Delivering d ev GetMessage)"
    using inv assms(3) by (auto simp: win_inv_defs split: thread_at.splits win_at.splits)
  have told: "told win_called ?t"
    using at msgs stop by (auto simp: told_def win_called_def)
  have others: "length (takeWhile (\<lambda>msg. msg = PostedOther) (wo_messages (lf_os s) @ [PostedStop])) \<le> length (wo_messages (lf_os s))"
    by (simp add: takeWhile_append length_takeWhile_le)
  have "to_go win_ahead ?t \<le> thread_runs after"
    using at msgs others assms(6) by (auto simp: to_go_def win_ahead_def Let_def split: deliver_at.split)
  moreover have "watch_step X R cfg win_platform OwnerRuns s = Some ?t"
    by (simp add: watch_step_def owner_step_def assms(3) win_platform_def)
  ultimately have owner: "lf_owner u = OwnerDone"
    using win_thread.drop_returns [OF told, of after X R cfg] assms(7) by simp
  then have "lf_at u = Ended"
    using joined_run [of X R cfg win_platform "before @ OwnerRuns # after @ [OwnerRuns]" True CreateWindow win_os_begin] assms(1,7)
    by (simp only: watch_run_append joined_ended_def)
  then show ?thesis using nothing_after_end owner sends_after_flag [OF stop] assms(7) by blast
qed

definition sample_answer :: win_answer where
  "sample_answer = \<lparr>wa_created = True, wa_listening = True, wa_now = 0, wa_attempts = (\<lambda>_. (False, \<lparr>wb_slots = Map.empty, wb_owner = None\<rparr>))\<rparr>"

definition sample_started :: "(win_answer, win_posted) life_label list" where
  "sample_started = [ThreadRuns sample_answer, ThreadRuns sample_answer, ThreadRuns sample_answer, OwnerRuns]"

lemmas run_eval = watch_step_def thread_step_def owner_step_def take_event_def close_channel_def deliver_round_def channel_send_def
  life_begin_def classify_def

lemmas win_eval = run_eval win_platform_def win_body_def win_ready_def win_notify_def post_message_def win_os_begin_def MESSAGE_LIMIT_def
  sample_answer_def sample_started_def

theorem dropping_watcher_returns_witness:
  "lf_owner (watch_run sample_crates no_patterns default_watch_config win_platform
     ((sample_started @ [Outside PostedUpdate, HandleDropped]) @ OwnerRuns # replicate 5 (ThreadRuns sample_answer) @ [OwnerRuns])
     (win_watch default_watch_config True)) = OwnerDone"
proof -
  let ?S = "\<lparr>ws_spawned = True, ws_window = True, ws_listener = True\<rparr>"
  let ?before = "sample_started @ [Outside PostedUpdate, HandleDropped]"
  let ?s = "watch_run sample_crates no_patterns default_watch_config win_platform ?before (win_watch default_watch_config True)"
  have at: "lf_owner ?s = OwnerStopping" "wo_messages (lf_os ?s) = [PostedUpdate]" by (simp_all add: win_eval)
  let ?u = "watch_run sample_crates no_patterns default_watch_config win_platform
     (OwnerRuns # replicate 5 (ThreadRuns sample_answer) @ [OwnerRuns]) ?s"
  have "lf_owner ?u = OwnerDone \<and> length (lf_sent ?u) \<le> length (lf_sent ?s) + 1 \<and>
    (\<forall>later. lf_sent (watch_run sample_crates no_patterns default_watch_config win_platform later ?u) = lf_sent ?u)"
    by (rule dropping_watcher_returns [OF refl _ _ _ _ _ refl, where S = ?S])
      (simp_all only: at, simp_all add: answers_as_def sample_started_def sample_answer_def MESSAGE_LIMIT_def numeral_eq_Suc)
  then show ?thesis unfolding watch_run_append [of _ _ _ _ ?before] by blast
qed

text \<open>
  The arm for the stop message removes the listener and destroys the window. When the thread learns of the
  stop in \<open>deliver\<close>, or its consumer is gone, neither is called: the window ends with the thread that
  owns it.
\<close>

lemma window_left_to_system:
  "\<exists>ls. lf_owner (watch_run X R cfg win_platform ls (win_watch cfg True)) = OwnerDone \<and>
     wo_calls (lf_os (watch_run X R cfg win_platform ls (win_watch cfg True))) = [CallCreateWindow, CallAddListener]"
  by (rule exI [of _ "sample_started @ [Outside PostedUpdate, ThreadRuns sample_answer, ThreadRuns sample_answer, HandleDropped,
        ThreadRuns sample_answer, OwnerRuns, OwnerRuns]"])
    (simp add: win_eval watch_run_append poll_with_retry_def with_clipboard_open_def ATTEMPTS_def numeral_eq_Suc)

lemma stop_message_tears_down:
  assumes "thread_step X R cfg win_platform a s = Some t" "lf_at s = Doing GetMessage" "wo_messages (lf_os s) = PostedStop # msgs"
  shows "lf_at t = Ended \<and> wo_calls (lf_os t) = wo_calls (lf_os s) @ [CallRemoveListener, CallDestroyWindow]"
  using assms by (auto simp: thread_step_def win_platform_def win_body_def)

section \<open>macOS and Wayland\<close>

text \<open>
  Both loops remember what they saw last, sleep, look at the flag before and after, and read when
  something changed. \<open>seed\<close> and \<open>look\<close> are what differs: what is remembered, and what a look at the
  clipboard makes of it. \<open>start\<close> waits for nothing, and the stopper only raises the flag.
\<close>

datatype 's poll_at = PollSeed | PollTop 's | PollSleep 's | PollCheck 's | PollLook 's

definition poll_body :: "('n \<Rightarrow> 's) \<Rightarrow> ('n \<Rightarrow> 's \<Rightarrow> 's \<times> (nat \<times> raw_poll) option) \<Rightarrow> 'n \<Rightarrow> bool \<Rightarrow> 's poll_at \<Rightarrow> unit \<Rightarrow>
    ('s poll_at body_step \<times> unit) option" where
  "poll_body seed look n stopping at os =
     Some (case at of
        PollSeed \<Rightarrow> Goto (PollTop (seed n))
      | PollTop s \<Rightarrow> if stopping then EndThread else Goto (PollSleep s)
      | PollSleep s \<Rightarrow> Goto (PollCheck s)
      | PollCheck s \<Rightarrow> if stopping then EndThread else Goto (PollLook s)
      | PollLook s \<Rightarrow>
          (case look n s of
             (s', None) \<Rightarrow> Goto (PollTop s')
           | (s', Some (now, poll)) \<Rightarrow> TakeReading (PollTop s') now poll), ())"

definition poll_platform :: "('n \<Rightarrow> 's) \<Rightarrow> ('n \<Rightarrow> 's \<Rightarrow> 's \<times> (nat \<times> raw_poll) option) \<Rightarrow> ('n, 's poll_at, unit, unit) watch_backend" where
  "poll_platform seed look =
     \<lparr>pf_body = poll_body seed look, pf_ready = (\<lambda>ended os. Some (Inr (), os)), pf_notify = (\<lambda>ended os. os), pf_outside = (\<lambda>e os. os)\<rparr>"

definition mac_look :: "mac_tick \<Rightarrow> int \<Rightarrow> int \<times> (nat \<times> raw_poll) option" where
  "mac_look t last_change =
     (if mt_change t = last_change then (last_change, None)
      else (mt_change t, Some (mt_now t, poll_pasteboard (mt_pasteboard t))))"

definition wl_look :: "'x crates_scheme \<Rightarrow> wl_tick \<Rightarrow> raw_poll \<Rightarrow> raw_poll \<times> (nat \<times> raw_poll) option" where
  "wl_look X t last_poll =
     (let current = read_clipboard (wt_offer t)
      in if same X current last_poll then (last_poll, None) else (current, Some (wt_now t, current)))"

abbreviation mac_platform :: "(mac_tick, int poll_at, unit, unit) watch_backend" where
  "mac_platform \<equiv> poll_platform mt_change mac_look"

abbreviation wl_platform :: "'x crates_scheme \<Rightarrow> (wl_tick, raw_poll poll_at, unit, unit) watch_backend" where
  "wl_platform X \<equiv> poll_platform (\<lambda>t. read_clipboard (wt_offer t)) (wl_look X)"

text \<open>The looks are those of the sequential loops.\<close>

lemma mac_look_step:
  "\<not> mt_stop t \<Longrightarrow> \<not> mt_stop_after_sleep t \<Longrightarrow>
   mac_step t s = (case mac_look t s of (s', None) \<Rightarrow> Idle s' | (s', Some (now, poll)) \<Rightarrow> Reading s' now poll (mt_rounds t))"
  by (simp add: mac_step_def mac_look_def)

lemma wl_look_step:
  "\<not> wt_stop t \<Longrightarrow> \<not> wt_stop_after_sleep t \<Longrightarrow>
   wl_step X t s = (case wl_look X t s of (s', None) \<Rightarrow> Idle s' | (s', Some (now, poll)) \<Rightarrow> Reading s' now poll (wt_rounds t))"
  by (simp add: wl_step_def wl_look_def Let_def)

fun poll_ahead :: "'s poll_at \<Rightarrow> unit \<Rightarrow> nat" where
  "poll_ahead PollSeed os = 1"
| "poll_ahead (PollTop s) os = 0"
| "poll_ahead (PollSleep s) os = 1"
| "poll_ahead (PollCheck s) os = 0"
| "poll_ahead (PollLook s) os = 1"

lemma poll_ahead_le [simp]: "poll_ahead at os \<le> Suc 0" "poll_ahead at os \<le> 2"
  by (cases at; simp)+

interpretation poll_thread: stoppable "poll_platform seed look" "\<lambda>at os. True" poll_ahead for seed look
  by unfold_locales (auto simp: poll_platform_def poll_body_def split: poll_at.splits prod.splits option.splits if_splits)

text \<open>Dropping the watcher returns after four steps of the thread at most.\<close>

theorem polling_watcher_drop_returns:
  assumes "lf_owner s = OwnerStopping" "lf_stopping s" "4 \<le> thread_runs after"
  shows "lf_owner (watch_run X R cfg (poll_platform seed look) (OwnerRuns # after @ [OwnerRuns]) s) = OwnerDone"
proof -
  let ?t = "s\<lparr>lf_owner := OwnerJoining\<rparr>"
  have told: "told (\<lambda>at os. True) ?t" using assms(2) by (simp add: told_def split: thread_at.split)
  have "to_go poll_ahead ?t \<le> 4" by (auto simp: to_go_def split: thread_at.split deliver_at.split)
  moreover have "watch_step X R cfg (poll_platform seed look) OwnerRuns s = Some ?t"
    by (simp add: watch_step_def owner_step_def assms(1) poll_platform_def)
  ultimately show ?thesis using poll_thread.drop_returns [OF told, of after X R cfg seed look] assms(3) by simp
qed

section \<open>X11\<close>

text \<open>
  \<open>event_loop\<close>: the connection for events is reported to \<open>start\<close>, which then opens the one of the handle; the
  thread opens its own for readings. Whether a connection comes up is decided by the session.
\<close>

datatype x11_at = XConnect | XReportReady | XOpenReader | XTop | XPollEvent | XSleep

datatype x11_event = XSelectionNotify nat x_selection | XOtherEvent | XNoEvent | XConnectionLost

record x11_os =
  xo_session :: linux_session
  xo_ready :: "(clipboard_error + unit) option"
  xo_ready_open :: bool

definition x11_body :: "x11_event \<Rightarrow> bool \<Rightarrow> x11_at \<Rightarrow> x11_os \<Rightarrow> (x11_at body_step \<times> x11_os) option" where
  "x11_body ev stopping at os =
     Some (case at of
        XConnect \<Rightarrow>
          if ls_subscribed (xo_session os) then (Goto XReportReady, os) else (EndThread, os\<lparr>xo_ready := Some (Inl Platform)\<rparr>)
      | XReportReady \<Rightarrow> if xo_ready_open os then (Goto XOpenReader, os\<lparr>xo_ready := Some (Inr ())\<rparr>) else (EndThread, os)
      | XOpenReader \<Rightarrow> if ls_thread_reader (xo_session os) then (Goto XTop, os) else (EndThread, os)
      | XTop \<Rightarrow> if stopping then (EndThread, os) else (Goto XPollEvent, os)
      | XPollEvent \<Rightarrow>
          (case ev of
             XSelectionNotify now sel \<Rightarrow> (TakeReading XTop now (x11_poll sel), os)
           | XOtherEvent \<Rightarrow> (Goto XTop, os)
           | XNoEvent \<Rightarrow> (Goto XSleep, os)
           | XConnectionLost \<Rightarrow> (EndThread, os))
      | XSleep \<Rightarrow> (Goto XTop, os))"

definition x11_ready :: "bool \<Rightarrow> x11_os \<Rightarrow> ((clipboard_error + unit) \<times> x11_os) option" where
  "x11_ready ended os =
     (case xo_ready os of
        Some (Inl e) \<Rightarrow> Some (Inl e, os\<lparr>xo_ready_open := False\<rparr>)
      | Some (Inr _) \<Rightarrow>
          Some (if ls_handle_reader (xo_session os) then Inr () else Inl Platform, os\<lparr>xo_ready_open := False\<rparr>)
      | None \<Rightarrow> if ended then Some (Inl WatcherStartup, os\<lparr>xo_ready_open := False\<rparr>) else None)"

definition x11_platform :: "(x11_event, x11_at, x11_os, unit) watch_backend" where
  "x11_platform = \<lparr>pf_body = x11_body, pf_ready = x11_ready, pf_notify = (\<lambda>ended os. os), pf_outside = (\<lambda>e os. os)\<rparr>"

abbreviation x11_watch :: "watch_config \<Rightarrow> linux_session \<Rightarrow> (x11_at, x11_os) life" where
  "x11_watch cfg S \<equiv> life_begin cfg (ls_spawned S) XConnect \<lparr>xo_session = S, xo_ready = None, xo_ready_open = True\<rparr>"

fun x11_ahead :: "x11_at \<Rightarrow> x11_os \<Rightarrow> nat" where
  "x11_ahead XConnect os = 3"
| "x11_ahead XReportReady os = 2"
| "x11_ahead XOpenReader os = 1"
| "x11_ahead XTop os = 0"
| "x11_ahead XPollEvent os = 2"
| "x11_ahead XSleep os = 1"

lemma x11_ahead_le [simp]: "x11_ahead at os \<le> 3" "x11_ahead at os \<le> 4"
  by (cases at; simp)+

lemma x11_ahead_same: "x11_ahead at u \<le> x11_ahead at v"
  by (cases at) simp_all

interpretation x11_thread: stoppable x11_platform "\<lambda>at os. True" x11_ahead
proof
  fix b os a b' os' r ended e
  show "True \<and> x11_ahead b' os' < x11_ahead b os" if "pf_body x11_platform a True b os = Some (Goto b', os')"
    using that by (auto simp: x11_platform_def x11_body_def split: x11_at.splits x11_event.splits if_splits)
qed (simp_all add: x11_platform_def x11_body_def x11_ahead_same)

theorem x11_watcher_drop_returns:
  assumes "lf_owner s = OwnerStopping" "lf_stopping s" "6 \<le> thread_runs after"
  shows "lf_owner (watch_run X R cfg x11_platform (OwnerRuns # after @ [OwnerRuns]) s) = OwnerDone"
proof -
  let ?t = "s\<lparr>lf_owner := OwnerJoining\<rparr>"
  have told: "told (\<lambda>at os. True) ?t" using assms(2) by (simp add: told_def split: thread_at.split)
  have "to_go x11_ahead ?t \<le> 6" by (auto simp: to_go_def split: thread_at.split deliver_at.split)
  moreover have "watch_step X R cfg x11_platform OwnerRuns s = Some ?t"
    by (simp add: watch_step_def owner_step_def assms(1) x11_platform_def)
  ultimately show ?thesis using x11_thread.drop_returns [OF told, of after X R cfg] assms(3) by simp
qed

text \<open>
  When the connection of the handle cannot be opened, \<open>start\<close> fails as \<open>x11_start\<close> says, but the thread it
  has started is never told to stop: as long as the selection does not change it goes on waking up
  for nothing. It ends with the next change, because nobody receives the event.
\<close>

abbreviation idle_rounds :: "nat \<Rightarrow> (x11_event, unit) life_label list" where
  "idle_rounds n \<equiv> concat (replicate n [ThreadRuns XNoEvent, ThreadRuns XNoEvent, ThreadRuns XNoEvent])"

definition orphaned :: "(x11_at, x11_os) life \<Rightarrow> bool" where
  "orphaned s \<longleftrightarrow> lf_at s = Doing XTop \<and> lf_owner s = OwnerFailed Platform \<and> \<not> lf_stopping s \<and> \<not> ec_open (lf_channel s)"

lemma orphan_idles: "orphaned s \<Longrightarrow> orphaned (watch_run X R cfg x11_platform (idle_rounds n) s)"
proof (induction n arbitrary: s)
  case (Suc n)
  let ?three = "[ThreadRuns XNoEvent, ThreadRuns XNoEvent, ThreadRuns XNoEvent]"
  have "orphaned (watch_run X R cfg x11_platform ?three s)"
    using Suc.prems by (simp add: orphaned_def watch_step_def thread_step_def x11_platform_def x11_body_def)
  from Suc.IH [OF this] show ?case by (simp only: replicate_Suc concat.simps watch_run_append)
qed simp

theorem x11_failed_start_leaves_thread:
  assumes "ls_spawned S" "ls_subscribed S" "ls_thread_reader S" "\<not> ls_handle_reader S"
  shows "x11_start S = Inl Platform \<and>
    (\<exists>ls. \<forall>n. let s = watch_run X R cfg x11_platform (ls @ idle_rounds n) (x11_watch cfg S)
      in lf_owner s = OwnerFailed Platform \<and> lf_at s \<noteq> Ended \<and>
         lf_at (watch_run X R cfg x11_platform
           [ThreadRuns XNoEvent, ThreadRuns (XSelectionNotify now sel), ThreadRuns XNoEvent, ThreadRuns XNoEvent] s) = Ended)"
proof
  let ?ls = "[ThreadRuns XNoEvent, ThreadRuns XNoEvent, OwnerRuns, ThreadRuns XNoEvent]"
  have "orphaned (watch_run X R cfg x11_platform ?ls (x11_watch cfg S))"
    using assms by (simp add: orphaned_def run_eval x11_platform_def x11_body_def x11_ready_def)
  then have o: "orphaned (watch_run X R cfg x11_platform (?ls @ idle_rounds n) (x11_watch cfg S))" for n
    using orphan_idles by (simp only: watch_run_append)
  have gone: "lf_at (watch_run X R cfg x11_platform
       [ThreadRuns XNoEvent, ThreadRuns (XSelectionNotify now sel), ThreadRuns XNoEvent, ThreadRuns XNoEvent] s) = Ended"
    if "orphaned s" for s
    using that by (simp add: orphaned_def watch_step_def thread_step_def x11_platform_def x11_body_def deliver_round_def
        channel_send_def split: prod.split)
  show "\<exists>ls. \<forall>n. let s = watch_run X R cfg x11_platform (ls @ idle_rounds n) (x11_watch cfg S)
      in lf_owner s = OwnerFailed Platform \<and> lf_at s \<noteq> Ended \<and>
         lf_at (watch_run X R cfg x11_platform
           [ThreadRuns XNoEvent, ThreadRuns (XSelectionNotify now sel), ThreadRuns XNoEvent, ThreadRuns XNoEvent] s) = Ended"
    using o gone [OF o] by (intro exI [of _ ?ls]) (simp only: Let_def orphaned_def, simp)
qed (use assms in \<open>simp add: x11_start_def\<close>)

end
