(* ===== verification/Local_Files.thy ===== *)
theory Local_Files
  imports Daemon
begin

text \<open>
  The two small files that make an installation what it is: the configuration with the device id
  (\<open>clipsed/src/config.rs\<close>) and the device key with the trust set (\<open>clipsed/src/identity.rs\<close>), in the
  data directory of \<open>clipse-core/src/paths.rs\<close>, and the part of \<open>run\<close> (\<open>clipsed/src/lib.rs\<close>) that reads
  or creates them.

  The data directory is a map from file names to contents. Files are written through a temporary
  file and a rename. Any write can be interrupted, because it fails or because the process dies: then
  the temporary file has some prefix of the content. What is renamed is complete. The TOML and JSON
  codecs (crates \<open>toml\<close> and \<open>serde_json\<close>) are parameters with their round trip as hypothesis.

  Starting a daemon is a sequence of phases with one access to the directory each, so that a start
  can stop between any two of them, and two starts can interleave.

  Shown: however often a start, a save or the process is interrupted, the next start finds the same
  device, the same key and a trust set that was saved, and never a damaged file; two first starts at
  the same time can leave files that no later start accepts.
\<close>

section \<open>Files\<close>

type_synonym dir = "string \<rightharpoonup> bytes"

datatype file_error = FileRead | FileWrite | FileParse | FileSerialise | FileMismatch device_id device_id

datatype file_text = TextMissing | TextUnreadable | TextIs ustr

text \<open>\<open>std::fs::read_to_string\<close>, which refuses bytes that are not UTF-8.\<close>

definition read_to_string :: "string \<Rightarrow> dir \<Rightarrow> file_text" where
  "read_to_string name fs =
     (case fs name of
        None \<Rightarrow> TextMissing
      | Some bs \<Rightarrow> (case from_utf8 bs of None \<Rightarrow> TextUnreadable | Some s \<Rightarrow> TextIs s))"

text \<open>
  How a write ends: it goes through, or it stops before the directory is there, after some bytes of
  the temporary file, or before the rename.
\<close>

datatype fault = NoFault | NoDirectory | PartWritten nat | NotRenamed

definition write_atomically :: "fault \<Rightarrow> string \<Rightarrow> string \<Rightarrow> bytes \<Rightarrow> dir \<Rightarrow> (file_error + unit) \<times> dir" where
  "write_atomically fault path tmp bs fs =
     (case fault of
        NoDirectory \<Rightarrow> (Inl FileWrite, fs)
      | PartWritten n \<Rightarrow> (Inl FileWrite, fs(tmp \<mapsto> take n bs))
      | NotRenamed \<Rightarrow> (Inl FileWrite, fs(tmp \<mapsto> bs))
      | NoFault \<Rightarrow> (Inr (), (fs(tmp := None))(path \<mapsto> bs)))"

definition CONFIG :: string where
  "CONFIG = ''config.toml''"

definition CONFIG_TMP :: string where
  "CONFIG_TMP = ''config.toml.tmp''"

definition IDENTITY :: string where
  "IDENTITY = ''identity.json''"

definition IDENTITY_TMP :: string where
  "IDENTITY_TMP = ''identity.json.tmp''"

lemmas file_names = CONFIG_def CONFIG_TMP_def IDENTITY_def IDENTITY_TMP_def

section \<open>Configuration and identity\<close>

record config =
  cf_device :: device_id
  cf_settings :: settings

record identity =
  id_identity :: device_identity
  id_trust :: trust

record codecs =
  to_toml :: "config \<Rightarrow> bytes option"
  from_toml :: "ustr \<Rightarrow> config option"
  to_json :: "identity \<Rightarrow> bytes option"
  from_json :: "ustr \<Rightarrow> identity option"

text \<open>What is serialised is text that is read back as it was.\<close>

definition codecs_ok :: "codecs \<Rightarrow> bool" where
  "codecs_ok C \<longleftrightarrow>
     (\<forall>c bs. to_toml C c = Some bs \<longrightarrow> (\<exists>s. from_utf8 bs = Some s \<and> from_toml C s = Some c)) \<and>
     (\<forall>i bs. to_json C i = Some bs \<longrightarrow> (\<exists>s. from_utf8 bs = Some s \<and> from_json C s = Some i))"

definition config_save :: "codecs \<Rightarrow> fault \<Rightarrow> config \<Rightarrow> dir \<Rightarrow> (file_error + unit) \<times> dir" where
  "config_save C fault c fs =
     (case to_toml C c of None \<Rightarrow> (Inl FileSerialise, fs) | Some bs \<Rightarrow> write_atomically fault CONFIG CONFIG_TMP bs fs)"

definition save_parts :: "codecs \<Rightarrow> fault \<Rightarrow> identity \<Rightarrow> dir \<Rightarrow> (file_error + unit) \<times> dir" where
  "save_parts C fault i fs =
     (case to_json C i of None \<Rightarrow> (Inl FileSerialise, fs) | Some bs \<Rightarrow> write_atomically fault IDENTITY IDENTITY_TMP bs fs)"

text \<open>
  The two \<open>load_or_create\<close>, each as its read and, where nothing is there, the write that follows. The
  fresh values are arguments: the device id and label of a new configuration, the key of a new
  identity.
\<close>

datatype 'a loaded = Loaded 'a | Absent | LoadError file_error

definition config_load :: "codecs \<Rightarrow> dir \<Rightarrow> config loaded" where
  "config_load C fs =
     (case read_to_string CONFIG fs of
        TextMissing \<Rightarrow> Absent
      | TextUnreadable \<Rightarrow> LoadError FileRead
      | TextIs s \<Rightarrow> (case from_toml C s of None \<Rightarrow> LoadError FileParse | Some c \<Rightarrow> Loaded c))"

definition identity_load :: "codecs \<Rightarrow> device_id \<Rightarrow> dir \<Rightarrow> identity loaded" where
  "identity_load C device fs =
     (case read_to_string IDENTITY fs of
        TextMissing \<Rightarrow> Absent
      | TextUnreadable \<Rightarrow> LoadError FileRead
      | TextIs s \<Rightarrow>
          (case from_json C s of
             None \<Rightarrow> LoadError FileParse
           | Some i \<Rightarrow>
               if di_device (id_identity i) \<noteq> device then LoadError (FileMismatch (di_device (id_identity i)) device)
               else Loaded i))"

record seeds =
  sd_device :: device_id
  sd_label :: ustr
  sd_secret :: bytes

definition config_new :: "seeds \<Rightarrow> config" where
  "config_new r = \<lparr>cf_device = sd_device r, cf_settings = default_settings (sd_label r)\<rparr>"

definition identity_new :: "(bytes \<Rightarrow> bytes) \<Rightarrow> seeds \<Rightarrow> device_id \<Rightarrow> identity" where
  "identity_new x25519 r device = \<lparr>id_identity = identity_generate x25519 (sd_secret r) device, id_trust = trust_new device\<rparr>"

section \<open>Starting\<close>

datatype phase =
    ReadConfig
  | SaveConfig config
  | ReadIdentity config
  | SaveIdentity config identity
  | Ready config identity
  | Failed file_error

fun start_step :: "codecs \<Rightarrow> (bytes \<Rightarrow> bytes) \<Rightarrow> seeds \<Rightarrow> fault \<Rightarrow> phase \<Rightarrow> dir \<Rightarrow> phase \<times> dir" where
  "start_step C x25519 r fault ReadConfig fs =
     (case config_load C fs of
        Loaded c \<Rightarrow> (ReadIdentity c, fs)
      | Absent \<Rightarrow> (SaveConfig (config_new r), fs)
      | LoadError e \<Rightarrow> (Failed e, fs))"
| "start_step C x25519 r fault (SaveConfig c) fs =
     (case config_save C fault c fs of
        (Inl e, fs') \<Rightarrow> (Failed e, fs')
      | (Inr _, fs') \<Rightarrow> (ReadIdentity c, fs'))"
| "start_step C x25519 r fault (ReadIdentity c) fs =
     (case identity_load C (cf_device c) fs of
        Loaded i \<Rightarrow> (Ready c i, fs)
      | Absent \<Rightarrow> (SaveIdentity c (identity_new x25519 r (cf_device c)), fs)
      | LoadError e \<Rightarrow> (Failed e, fs))"
| "start_step C x25519 r fault (SaveIdentity c i) fs =
     (case save_parts C fault i fs of
        (Inl e, fs') \<Rightarrow> (Failed e, fs')
      | (Inr _, fs') \<Rightarrow> (Ready c i, fs'))"
| "start_step C x25519 r fault (Ready c i) fs = (Ready c i, fs)"
| "start_step C x25519 r fault (Failed e) fs = (Failed e, fs)"

text \<open>A start with a fault for each of its accesses; it is over after four.\<close>

fun start_run :: "codecs \<Rightarrow> (bytes \<Rightarrow> bytes) \<Rightarrow> seeds \<Rightarrow> fault list \<Rightarrow> phase \<Rightarrow> dir \<Rightarrow> phase \<times> dir" where
  "start_run C x25519 r [] p fs = (p, fs)"
| "start_run C x25519 r (f # faults) p fs =
     (case start_step C x25519 r f p fs of (p', fs') \<Rightarrow> start_run C x25519 r faults p' fs')"

section \<open>The life of an installation\<close>

text \<open>
  One process at a time: it is launched, goes through the phases of its start, saves its trust set and
  its settings while it runs, and can die at any moment. \<open>in_saved\<close> lists the trust sets that were
  handed to a save, whether or not the save went through.
\<close>

record inst =
  in_dir :: dir
  in_proc :: "(seeds \<times> phase) option"
  in_saved :: "trust list"

definition inst_new :: inst where
  "inst_new = \<lparr>in_dir = Map.empty, in_proc = None, in_saved = []\<rparr>"

inductive life_step :: "codecs \<Rightarrow> (bytes \<Rightarrow> bytes) \<Rightarrow> inst \<Rightarrow> inst \<Rightarrow> bool" for C x25519 where
  launch: "in_proc s = None \<Longrightarrow> life_step C x25519 s (s\<lparr>in_proc := Some (r, ReadConfig)\<rparr>)"
| advance: "in_proc s = Some (r, p) \<Longrightarrow> start_step C x25519 r fault p (in_dir s) = (p', fs') \<Longrightarrow>
    life_step C x25519 s (s\<lparr>in_proc := Some (r, p'), in_dir := fs'\<rparr>)"
| save_trust: "in_proc s = Some (r, Ready c i) \<Longrightarrow> save_parts C fault (i\<lparr>id_trust := t\<rparr>) (in_dir s) = (res, fs') \<Longrightarrow>
    life_step C x25519 s (s\<lparr>in_proc := Some (r, Ready c (i\<lparr>id_trust := t\<rparr>)), in_dir := fs', in_saved := in_saved s @ [t]\<rparr>)"
| save_settings: "in_proc s = Some (r, Ready c i) \<Longrightarrow> config_save C fault (c\<lparr>cf_settings := st\<rparr>) (in_dir s) = (res, fs') \<Longrightarrow>
    life_step C x25519 s (s\<lparr>in_proc := Some (r, Ready (c\<lparr>cf_settings := st\<rparr>) i), in_dir := fs'\<rparr>)"
| die: "life_step C x25519 s (s\<lparr>in_proc := None\<rparr>)"

definition stored_config :: "codecs \<Rightarrow> dir \<Rightarrow> config \<Rightarrow> bool" where
  "stored_config C fs c \<longleftrightarrow> (\<exists>bs. fs CONFIG = Some bs \<and> to_toml C c = Some bs)"

definition stored_identity :: "codecs \<Rightarrow> dir \<Rightarrow> identity \<Rightarrow> bool" where
  "stored_identity C fs i \<longleftrightarrow> (\<exists>bs. fs IDENTITY = Some bs \<and> to_json C i = Some bs)"

lemma stored_loads:
  assumes "codecs_ok C"
  shows "stored_config C fs c \<Longrightarrow> config_load C fs = Loaded c"
    and "stored_identity C fs i \<Longrightarrow>
      identity_load C d fs = (if di_device (id_identity i) = d then Loaded i else LoadError (FileMismatch (di_device (id_identity i)) d))"
    and "fs CONFIG = None \<Longrightarrow> config_load C fs = Absent" and "fs IDENTITY = None \<Longrightarrow> identity_load C d fs = Absent"
  using assms
  by (fastforce simp: stored_config_def stored_identity_def config_load_def identity_load_def read_to_string_def codecs_ok_def)+

lemma stored_unique:
  assumes "codecs_ok C"
  shows "stored_config C fs c \<Longrightarrow> stored_config C fs c' \<Longrightarrow> c = c'"
    and "stored_identity C fs i \<Longrightarrow> stored_identity C fs i' \<Longrightarrow> i = i'"
proof -
  show "c = c'" if "stored_config C fs c" "stored_config C fs c'"
    using stored_loads(1) [OF assms that(1)] stored_loads(1) [OF assms that(2)] by simp
  show "i = i'" if "stored_identity C fs i" "stored_identity C fs i'"
    using stored_loads(2) [OF assms that(1), of "di_device (id_identity i)"]
      stored_loads(2) [OF assms that(2), of "di_device (id_identity i)"] by (simp split: if_splits)
qed

text \<open>A save is all or nothing, and touches no other file.\<close>

lemma config_save_result:
  assumes "config_save C fault c fs = (res, fs')"
  shows "fs' IDENTITY = fs IDENTITY" and "res = Inr u \<Longrightarrow> stored_config C fs' c"
    and "fs' CONFIG = fs CONFIG \<or> stored_config C fs' c" and "res = Inl e \<Longrightarrow> e = FileWrite \<or> e = FileSerialise"
  using assms
  by (auto simp: config_save_def write_atomically_def stored_config_def file_names split: option.splits fault.splits)

lemma save_parts_result:
  assumes "save_parts C fault i fs = (res, fs')"
  shows "fs' CONFIG = fs CONFIG" and "res = Inr u \<Longrightarrow> stored_identity C fs' i"
    and "fs' IDENTITY = fs IDENTITY \<or> stored_identity C fs' i" and "res = Inl e \<Longrightarrow> e = FileWrite \<or> e = FileSerialise"
  using assms
  by (auto simp: save_parts_def write_atomically_def stored_identity_def file_names split: option.splits fault.splits)

lemma stored_frame:
  "fs' CONFIG = fs CONFIG \<Longrightarrow> stored_config C fs' c = stored_config C fs c"
  "fs' IDENTITY = fs IDENTITY \<Longrightarrow> stored_identity C fs' i = stored_identity C fs i"
  by (simp_all add: stored_config_def stored_identity_def)

section \<open>What every directory looks like\<close>

definition disk_inv :: "codecs \<Rightarrow> trust list \<Rightarrow> dir \<Rightarrow> bool" where
  "disk_inv C saved fs \<longleftrightarrow>
     fs CONFIG = None \<and> fs IDENTITY = None \<or>
     (\<exists>c. stored_config C fs c \<and>
        (fs IDENTITY = None \<or>
         (\<exists>i. stored_identity C fs i \<and> di_device (id_identity i) = cf_device c \<and>
            id_trust i \<in> insert (trust_new (cf_device c)) (set saved))))"

fun phase_inv :: "codecs \<Rightarrow> dir \<Rightarrow> phase \<Rightarrow> bool" where
  "phase_inv C fs ReadConfig \<longleftrightarrow> True"
| "phase_inv C fs (SaveConfig c) \<longleftrightarrow> fs CONFIG = None \<and> fs IDENTITY = None"
| "phase_inv C fs (ReadIdentity c) \<longleftrightarrow> stored_config C fs c"
| "phase_inv C fs (SaveIdentity c i) \<longleftrightarrow>
     stored_config C fs c \<and> fs IDENTITY = None \<and> di_device (id_identity i) = cf_device c \<and> id_trust i = trust_new (cf_device c)"
| "phase_inv C fs (Ready c i) \<longleftrightarrow>
     (\<exists>c0 i0. stored_config C fs c0 \<and> cf_device c0 = cf_device c \<and> stored_identity C fs i0 \<and> id_identity i0 = id_identity i \<and>
        di_device (id_identity i) = cf_device c)"
| "phase_inv C fs (Failed e) \<longleftrightarrow> e = FileWrite \<or> e = FileSerialise"

definition inst_inv :: "codecs \<Rightarrow> inst \<Rightarrow> bool" where
  "inst_inv C s \<longleftrightarrow> disk_inv C (in_saved s) (in_dir s) \<and> (\<forall>r p. in_proc s = Some (r, p) \<longrightarrow> phase_inv C (in_dir s) p)"

text \<open>What a directory has of the installation is kept: the device once it is there, and the key.\<close>

definition keeps :: "codecs \<Rightarrow> dir \<Rightarrow> dir \<Rightarrow> bool" where
  "keeps C fs fs' \<longleftrightarrow>
     (\<forall>c. stored_config C fs c \<longrightarrow> (\<exists>c'. stored_config C fs' c' \<and> cf_device c' = cf_device c)) \<and>
     (\<forall>i. stored_identity C fs i \<longrightarrow> (\<exists>i'. stored_identity C fs' i' \<and> id_identity i' = id_identity i))"

lemma keeps_refl [simp]: "keeps C fs fs"
  by (auto simp: keeps_def)

lemma keeps_trans: "keeps C a b \<Longrightarrow> keeps C b d \<Longrightarrow> keeps C a d"
  unfolding keeps_def by (metis (no_types, opaque_lifting))

lemma save_config_inv:
  assumes ok: "codecs_ok C" and disk: "disk_inv C saved fs" and save: "config_save C fault c fs = (res, fs')"
    and same: "\<And>c0. stored_config C fs c0 \<Longrightarrow> cf_device c0 = cf_device c"
  shows "disk_inv C saved fs'" and "keeps C fs fs'"
proof -
  note r = config_save_result [OF save]
  have id: "stored_identity C fs' i = stored_identity C fs i" for i using r(1) by (rule stored_frame(2))
  from r(3) consider "fs' CONFIG = fs CONFIG" | "stored_config C fs' c" by blast
  then have "disk_inv C saved fs' \<and> keeps C fs fs'"
  proof cases
    case 1
    then have "stored_config C fs' c = stored_config C fs c" for c by (rule stored_frame(1))
    then show ?thesis using disk 1 r(1) by (auto simp: disk_inv_def keeps_def id)
  next
    case 2
    then show ?thesis using disk same r(1) by (auto simp: disk_inv_def keeps_def id)
  qed
  then show "disk_inv C saved fs'" "keeps C fs fs'" by simp_all
qed

lemma save_identity_inv:
  assumes ok: "codecs_ok C" and disk: "disk_inv C saved fs" and save: "save_parts C fault i fs = (res, fs')"
    and cfg: "stored_config C fs c" "di_device (id_identity i) = cf_device c"
    and trust: "id_trust i \<in> insert (trust_new (cf_device c)) (set saved')" "set saved \<subseteq> set saved'"
    and same: "\<And>i0. stored_identity C fs i0 \<Longrightarrow> id_identity i0 = id_identity i"
  shows "disk_inv C saved' fs'" and "keeps C fs fs'"
proof -
  note r = save_parts_result [OF save]
  have cf: "stored_config C fs' c = stored_config C fs c" for c using r(1) by (rule stored_frame(1))
  from r(3) consider "fs' IDENTITY = fs IDENTITY" | "stored_identity C fs' i" by blast
  then have "disk_inv C saved' fs' \<and> keeps C fs fs'"
  proof cases
    case 1
    then have "stored_identity C fs' i = stored_identity C fs i" for i by (rule stored_frame(2))
    then show ?thesis using disk 1 r(1) trust(2) by (auto simp: disk_inv_def keeps_def cf)
  next
    case 2
    then show ?thesis using cfg trust(1) same by (auto simp: disk_inv_def keeps_def cf)
  qed
  then show "disk_inv C saved' fs'" "keeps C fs fs'" by simp_all
qed

lemma disk_identity:
  assumes "codecs_ok C" "disk_inv C saved fs" "stored_config C fs c"
  shows "fs IDENTITY = None \<or>
    (\<exists>i. stored_identity C fs i \<and> di_device (id_identity i) = cf_device c \<and>
       id_trust i \<in> insert (trust_new (cf_device c)) (set saved))"
  using assms(2) unfolding disk_inv_def
proof (elim disjE exE conjE)
  fix c0 assume "stored_config C fs c0"
  then have "c0 = c" by (rule stored_unique(1) [OF assms(1) _ assms(3)])
  assume "fs IDENTITY = None"
  then show ?thesis by simp
next
  fix c0 i assume "stored_config C fs c0" and i: "stored_identity C fs i" "di_device (id_identity i) = cf_device c0"
    "id_trust i \<in> insert (trust_new (cf_device c0)) (set saved)"
  then have "c0 = c" by (intro stored_unique(1) [OF assms(1) _ assms(3)])
  with i show ?thesis by blast
qed (use assms(3) in \<open>simp_all add: stored_config_def\<close>)

lemma phase_inv_Ready:
  "stored_config C fs c \<Longrightarrow> stored_identity C fs i \<Longrightarrow> di_device (id_identity i) = cf_device c \<Longrightarrow> phase_inv C fs (Ready c i)"
  unfolding phase_inv.simps by (intro exI [of _ c] exI [of _ i]) simp

lemma start_step_inv:
  assumes ok: "codecs_ok C" and disk: "disk_inv C saved fs" and phase: "phase_inv C fs p"
    and step: "start_step C x25519 r fault p fs = (p', fs')"
  shows "disk_inv C saved fs' \<and> phase_inv C fs' p' \<and> keeps C fs fs'"
proof (cases p)
  case ReadConfig
  from disk consider "fs CONFIG = None" "fs IDENTITY = None" | c where "stored_config C fs c"
    by (auto simp: disk_inv_def)
  then show ?thesis
    using step disk stored_loads(1,3) [OF ok, of fs] by cases (auto simp: ReadConfig)
next
  case (SaveConfig c)
  have none: "\<not> stored_config C fs c0" "\<not> stored_identity C fs i0" for c0 i0
    using phase by (simp_all add: SaveConfig stored_config_def stored_identity_def)
  obtain res fs1 where save: "config_save C fault c fs = (res, fs1)" by force
  note inv = save_config_inv [OF ok disk save] and r = config_save_result [OF save]
  show ?thesis using inv none step r(2,4) by (auto simp: SaveConfig save split: sum.splits)
next
  case (ReadIdentity c)
  then have cfg: "stored_config C fs c" using phase by simp
  from disk_identity [OF ok disk cfg]
  consider "fs IDENTITY = None" | i where "stored_identity C fs i" "di_device (id_identity i) = cf_device c"
    by (elim disjE exE conjE)
  then show ?thesis
  proof cases
    case 1
    then show ?thesis using step disk cfg stored_loads(4) [OF ok, of fs]
      by (auto simp: ReadIdentity identity_new_def identity_generate_def)
  next
    case (2 i)
    then have "phase_inv C fs (Ready c i)" using cfg by (intro phase_inv_Ready)
    moreover have "p' = Ready c i" "fs' = fs" using step 2(2) stored_loads(2) [OF ok 2(1), of "cf_device c"] by (simp_all add: ReadIdentity)
    ultimately show ?thesis using disk by (simp del: phase_inv.simps)
  qed
next
  case (SaveIdentity c i)
  then have p: "stored_config C fs c" "fs IDENTITY = None" "di_device (id_identity i) = cf_device c" "id_trust i = trust_new (cf_device c)"
    using phase by simp_all
  have none: "\<not> stored_identity C fs i0" for i0 using p(2) by (simp add: stored_identity_def)
  obtain res fs1 where save: "save_parts C fault i fs = (res, fs1)" by force
  note inv = save_identity_inv [OF ok disk save p(1,3), where saved' = saved] and r = save_parts_result [OF save]
  have "stored_config C fs1 c" using p(1) stored_frame(1) [of fs1 fs] r(1) by simp
  then have "res = Inr () \<Longrightarrow> phase_inv C fs1 (Ready c i)" using r(2) p(3) by (intro phase_inv_Ready)
  then show ?thesis using inv p none step r(4) by (auto simp: SaveIdentity save simp del: phase_inv.simps(5) split: sum.splits)
qed (use step disk phase in auto)

lemma life_step_inv:
  assumes ok: "codecs_ok C" and step: "life_step C x25519 s s'" and inv: "inst_inv C s"
  shows "inst_inv C s' \<and> keeps C (in_dir s) (in_dir s')"
  using step
proof cases
  case (advance r p fault p' fs')
  then show ?thesis using start_step_inv [OF ok _ _ advance(3)] inv by (auto simp: inst_inv_def)
next
  case (save_trust r c i fault t res fs')
  let ?i = "i\<lparr>id_trust := t\<rparr>"
  obtain c0 i0 where c0: "stored_config C (in_dir s) c0" "cf_device c0 = cf_device c"
    and i0: "stored_identity C (in_dir s) i0" "id_identity i0 = id_identity i" and dev: "di_device (id_identity i) = cf_device c"
    using inv save_trust(2) by (auto simp: inst_inv_def)
  have disk: "disk_inv C (in_saved s) (in_dir s)" using inv by (simp add: inst_inv_def)
  have new: "disk_inv C (in_saved s @ [t]) fs'" "keeps C (in_dir s) fs'"
    by (rule save_identity_inv [OF ok disk save_trust(3) c0(1), where saved' = "in_saved s @ [t]"];
        use c0 dev i0(2) stored_unique(2) [OF ok i0(1)] in auto)+
  have "stored_config C fs' c0" using c0(1) save_parts_result(1) [OF save_trust(3)] by (simp add: stored_config_def)
  moreover obtain i1 where "stored_identity C fs' i1" "id_identity i1 = id_identity i"
    using new(2) i0 unfolding keeps_def by metis
  ultimately show ?thesis using new c0(2) dev save_trust(1) by (auto simp: inst_inv_def)
next
  case (save_settings r c i fault st res fs')
  obtain c0 i0 where c0: "stored_config C (in_dir s) c0" "cf_device c0 = cf_device c"
    and i0: "stored_identity C (in_dir s) i0" "id_identity i0 = id_identity i" and dev: "di_device (id_identity i) = cf_device c"
    using inv save_settings(2) by (auto simp: inst_inv_def)
  have disk: "disk_inv C (in_saved s) (in_dir s)" using inv by (simp add: inst_inv_def)
  have new: "disk_inv C (in_saved s) fs'" "keeps C (in_dir s) fs'"
    by (rule save_config_inv [OF ok disk save_settings(3)]; use c0(2) stored_unique(1) [OF ok c0(1)] in auto)+
  have "stored_identity C fs' i0" using i0(1) config_save_result(1) [OF save_settings(3)] by (simp add: stored_identity_def)
  moreover obtain c1 where "stored_config C fs' c1" "cf_device c1 = cf_device c"
    using new(2) c0 unfolding keeps_def by metis
  ultimately show ?thesis using new i0(2) dev save_settings(1) by (auto simp: inst_inv_def)
qed (use inv in \<open>auto simp: inst_inv_def\<close>)

lemma life_inv:
  assumes "codecs_ok C" "(life_step C x25519)\<^sup>*\<^sup>* s s'" "inst_inv C s"
  shows "inst_inv C s' \<and> keeps C (in_dir s) (in_dir s')"
  using assms(2,3)
proof (induction rule: rtranclp_induct)
  case (step a b)
  then show ?case using life_step_inv [OF assms(1) step(2)] keeps_trans by blast
qed simp

lemma inst_new_inv: "inst_inv C inst_new"
  by (simp add: inst_inv_def inst_new_def disk_inv_def)


text \<open>
  A start that nothing interrupts completes, in whatever state earlier ones have left the directory.
\<close>

theorem start_recovers:
  assumes "codecs_ok C" "(life_step C x25519)\<^sup>*\<^sup>* inst_new s" "to_toml C (config_new r) \<noteq> None"
    "\<And>d. to_json C (identity_new x25519 r d) \<noteq> None"
  shows "\<exists>c i fs'. start_run C x25519 r [NoFault, NoFault, NoFault, NoFault] ReadConfig (in_dir s) = (Ready c i, fs') \<and>
    stored_config C fs' c \<and> stored_identity C fs' i \<and> di_device (id_identity i) = cf_device c"
proof -
  let ?fs = "in_dir s"
  have disk: "disk_inv C (in_saved s) ?fs" using life_inv [OF assms(1,2) inst_new_inv] by (simp add: inst_inv_def)
  have rest: "\<exists>i fs'. start_run C x25519 r [NoFault, NoFault] (ReadIdentity c) fs = (Ready c i, fs') \<and>
      stored_config C fs' c \<and> stored_identity C fs' i \<and> di_device (id_identity i) = cf_device c"
    if c: "stored_config C fs c" and d: "disk_inv C (in_saved s) fs" for c fs
  proof -
    from disk_identity [OF assms(1) d c]
    consider "fs IDENTITY = None" | i where "stored_identity C fs i" "di_device (id_identity i) = cf_device c"
      by (elim disjE exE conjE)
    then show ?thesis
    proof cases
      case 1
      let ?i = "identity_new x25519 r (cf_device c)"
      obtain bs where bs: "to_json C ?i = Some bs" using assms(4) by blast
      then have save: "save_parts C NoFault ?i fs = (Inr (), (fs(IDENTITY_TMP := None))(IDENTITY \<mapsto> bs))"
        by (simp add: save_parts_def write_atomically_def)
      have "stored_config C ((fs(IDENTITY_TMP := None))(IDENTITY \<mapsto> bs)) c"
        using c save_parts_result(1) [OF save] by (simp add: stored_config_def)
      moreover have "stored_identity C ((fs(IDENTITY_TMP := None))(IDENTITY \<mapsto> bs)) ?i" by (rule save_parts_result(2) [OF save refl])
      ultimately show ?thesis using stored_loads(4) [OF assms(1), of fs] 1
        by (simp add: save) (simp add: identity_new_def identity_generate_def)
    next
      case (2 i)
      then show ?thesis using stored_loads(2) [OF assms(1) 2(1), of "cf_device c"] c by simp
    qed
  qed
  have two: "\<exists>i fs'. start_run C x25519 r [NoFault, NoFault, NoFault] (ReadIdentity c) fs = (Ready c i, fs') \<and>
      stored_config C fs' c \<and> stored_identity C fs' i \<and> di_device (id_identity i) = cf_device c"
    if "stored_config C fs c" "disk_inv C (in_saved s) fs" for c fs
    using rest [OF that] by (auto split: prod.splits)
  show ?thesis
  proof (cases "?fs CONFIG")
    case None
    let ?c = "config_new r"
    obtain bs where bs: "to_toml C ?c = Some bs" using assms(3) by blast
    let ?fs1 = "(?fs(CONFIG_TMP := None))(CONFIG \<mapsto> bs)"
    have save: "config_save C NoFault ?c ?fs = (Inr (), ?fs1)" by (simp add: bs config_save_def write_atomically_def)
    have "disk_inv C (in_saved s) ?fs1" by (rule save_config_inv(1) [OF assms(1) disk save]) (use None in \<open>simp add: stored_config_def\<close>)
    moreover have "stored_config C ?fs1 ?c" by (rule config_save_result(2) [OF save refl])
    ultimately show ?thesis using rest [of ?fs1 ?c] stored_loads(3) [OF assms(1), of ?fs] None by (auto simp: save)
  next
    case (Some bs)
    then obtain c where c: "stored_config C ?fs c" using disk by (auto simp: disk_inv_def)
    then show ?thesis using two [OF c disk] stored_loads(1) [OF assms(1) c] by (auto simp del: start_run.simps(2) simp: start_run.simps(2) [of _ _ _ _ "[NoFault, NoFault, NoFault]"])
  qed
qed

section \<open>Two first starts at once\<close>

text \<open>
  Two processes and the directory they share: a schedule says who moves.
\<close>

fun interleave :: "codecs \<Rightarrow> (bytes \<Rightarrow> bytes) \<Rightarrow> bool list \<Rightarrow> (seeds \<times> phase) \<Rightarrow> (seeds \<times> phase) \<Rightarrow> dir \<Rightarrow> phase \<times> phase \<times> dir" where
  "interleave C x25519 [] (ra, pa) (rb, pb) fs = (pa, pb, fs)"
| "interleave C x25519 (True # sched) (ra, pa) (rb, pb) fs =
     (case start_step C x25519 ra NoFault pa fs of (pa', fs') \<Rightarrow> interleave C x25519 sched (ra, pa') (rb, pb) fs')"
| "interleave C x25519 (False # sched) (ra, pa) (rb, pb) fs =
     (case start_step C x25519 rb NoFault pb fs of (pb', fs') \<Rightarrow> interleave C x25519 sched (ra, pa) (rb, pb') fs')"

text \<open>
  Two programs that start for the first time on the same directory, the application and the service,
  say, can leave it useless: both find no configuration, one completes its start, the other replaces
  the configuration by its own and then refuses the key of the first. If the first is not shut down in
  order after that, no later start succeeds.
\<close>

theorem first_starts_race:
  assumes "codecs_ok C" "to_toml C (config_new ra) \<noteq> None" "to_toml C (config_new rb) \<noteq> None"
    "to_json C (identity_new x25519 ra (sd_device ra)) \<noteq> None" "sd_device ra \<noteq> sd_device rb"
  shows "\<exists>sched c i fs. interleave C x25519 sched (ra, ReadConfig) (rb, ReadConfig) Map.empty =
      (Ready c i, Failed (FileMismatch (sd_device ra) (sd_device rb)), fs) \<and>
    (\<forall>r f1 f2 faults. fst (start_run C x25519 r (f1 # f2 # faults) ReadConfig fs) = Failed (FileMismatch (sd_device ra) (sd_device rb)))"
proof -
  let ?ca = "config_new ra" and ?cb = "config_new rb" and ?ia = "identity_new x25519 ra (sd_device ra)"
  obtain ba bb bi where enc: "to_toml C ?ca = Some ba" "to_toml C ?cb = Some bb" "to_json C ?ia = Some bi"
    using assms(2-4) by blast
  let ?fs1 = "[CONFIG \<mapsto> ba]" and ?fs2 = "[CONFIG \<mapsto> ba, IDENTITY \<mapsto> bi]" and ?fs3 = "[CONFIG \<mapsto> bb, IDENTITY \<mapsto> bi]"
  have s: "config_save C NoFault ?ca Map.empty = (Inr (), ?fs1)" "save_parts C NoFault ?ia ?fs1 = (Inr (), ?fs2)"
    "config_save C NoFault ?cb ?fs2 = (Inr (), ?fs3)"
    by (auto simp: config_save_def save_parts_def write_atomically_def enc file_names fun_eq_iff)
  have dev: "cf_device (config_new r) = sd_device r" "di_device (id_identity (identity_new x25519 r d)) = d" for r d
    by (simp_all add: config_new_def identity_new_def identity_generate_def)
  have stored: "stored_config C ?fs3 ?cb" "stored_identity C ?fs3 ?ia"
    by (simp_all add: stored_config_def stored_identity_def enc file_names)
  have miss: "identity_load C (sd_device rb) ?fs3 = LoadError (FileMismatch (sd_device ra) (sd_device rb))"
    using stored_loads(2) [OF assms(1) stored(2), of "sd_device rb"] assms(5) by (simp add: dev)
  have absent: "config_load C Map.empty = Absent" "identity_load C (sd_device ra) ?fs1 = Absent"
    using stored_loads(3,4) [OF assms(1)] by (simp_all add: file_names)
  have run: "interleave C x25519 [True, False, True, True, True, False, False] (ra, ReadConfig) (rb, ReadConfig) Map.empty =
      (Ready ?ca ?ia, Failed (FileMismatch (sd_device ra) (sd_device rb)), ?fs3)"
    using s miss absent by (simp add: dev)
  have stuck: "start_run C x25519 r faults (Failed e) fs = (Failed e, fs)" for r faults e fs
    by (induction faults) simp_all
  have later: "fst (start_run C x25519 r (f1 # f2 # faults) ReadConfig ?fs3) = Failed (FileMismatch (sd_device ra) (sd_device rb))"
    for r f1 f2 faults
    using stored_loads(1) [OF assms(1) stored(1)] miss by (simp add: dev stuck)
  show ?thesis using run later by blast
qed

section \<open>A sample\<close>

text \<open>Codecs for the witnesses: a device id is written as that many digits, the rest is fixed.\<close>

definition sample_seeds :: "uuid \<Rightarrow> seeds" where
  "sample_seeds u = \<lparr>sd_device = DeviceId u, sd_label = [], sd_secret = replicate 32 3\<rparr>"

definition digits_of :: "device_id \<Rightarrow> bytes" where
  "digits_of d = replicate (unat (as_uuid d)) 49"

definition sample_codecs :: codecs where
  "sample_codecs =
     \<lparr>to_toml = (\<lambda>c. if cf_settings c = default_settings [] then Some (digits_of (cf_device c)) else None),
      from_toml = (\<lambda>s. Some \<lparr>cf_device = DeviceId (of_nat (length s)), cf_settings = default_settings []\<rparr>),
      to_json = (\<lambda>i. let d = di_device (id_identity i) in
         if i = identity_new (\<lambda>k. k) (sample_seeds 0) d then Some (digits_of d) else None),
      from_json = (\<lambda>s. Some (identity_new (\<lambda>k. k) (sample_seeds 0) (DeviceId (of_nat (length s)))))\<rparr>"

lemma from_utf8_digits: "from_utf8 (replicate n 49) = Some (replicate n 49)"
  by (simp add: from_utf8_def) (induction n; simp)

lemma sample_codecs_ok: "codecs_ok sample_codecs"
proof -
  have "DeviceId (of_nat (length (replicate (unat (as_uuid d)) (49 :: nat)))) = d" for d by (cases d) simp
  then show ?thesis
    by (auto simp: codecs_ok_def sample_codecs_def digits_of_def from_utf8_digits Let_def split: if_splits)
qed

lemma sample_encodes:
  "to_toml sample_codecs (config_new (sample_seeds u)) = Some (digits_of (DeviceId u))"
  "to_json sample_codecs (identity_new (\<lambda>k. k) (sample_seeds u) d) = Some (digits_of d)"
  by (simp_all add: sample_codecs_def config_new_def identity_new_def sample_seeds_def identity_generate_def)

lemma start_run_life:
  assumes "in_proc s = Some (r, p)"
  shows "(life_step C x25519)\<^sup>*\<^sup>* s (s\<lparr>in_proc := Some (r, fst (start_run C x25519 r faults p (in_dir s))),
    in_dir := snd (start_run C x25519 r faults p (in_dir s))\<rparr>)"
  using assms
proof (induction faults arbitrary: s p)
  case Nil
  then have "s\<lparr>in_proc := Some (r, p), in_dir := in_dir s\<rparr> = s" by simp
  then show ?case by simp
next
  case (Cons f faults)
  obtain p' fs' where st: "start_step C x25519 r f p (in_dir s) = (p', fs')" by force
  from advance [OF Cons.prems this] have "life_step C x25519 s (s\<lparr>in_proc := Some (r, p'), in_dir := fs'\<rparr>)" .
  moreover have "(life_step C x25519)\<^sup>*\<^sup>* (s\<lparr>in_proc := Some (r, p'), in_dir := fs'\<rparr>)
      (s\<lparr>in_proc := Some (r, fst (start_run C x25519 r faults p' fs')), in_dir := snd (start_run C x25519 r faults p' fs')\<rparr>)"
    using Cons.IH [of "s\<lparr>in_proc := Some (r, p'), in_dir := fs'\<rparr>" p'] by simp
  ultimately show ?case by (simp add: st)
qed

theorem start_recovers_witness:
  "\<exists>c i fs'. start_run sample_codecs (\<lambda>k. k) (sample_seeds 5) [NoFault, NoFault, NoFault, NoFault] ReadConfig
     (snd (start_run sample_codecs (\<lambda>k. k) (sample_seeds 7) [NoFault, PartWritten 3] ReadConfig Map.empty)) = (Ready c i, fs') \<and>
   di_device (id_identity i) = cf_device c"
proof -
  let ?s0 = "inst_new\<lparr>in_proc := Some (sample_seeds 7, ReadConfig)\<rparr>"
  let ?r = "start_run sample_codecs (\<lambda>k. k) (sample_seeds 7) [NoFault, PartWritten 3] ReadConfig Map.empty"
  have "life_step sample_codecs (\<lambda>k. k) inst_new ?s0" by (rule launch) (simp add: inst_new_def)
  then have "(life_step sample_codecs (\<lambda>k. k))\<^sup>*\<^sup>* inst_new (?s0\<lparr>in_proc := Some (sample_seeds 7, fst ?r), in_dir := snd ?r\<rparr>)"
    using start_run_life [of ?s0 "sample_seeds 7" ReadConfig sample_codecs "\<lambda>k. k" "[NoFault, PartWritten 3]"]
    by (simp add: inst_new_def del: start_run.simps)
  from start_recovers [OF sample_codecs_ok this, of "sample_seeds 5"] show ?thesis
    by (auto simp: sample_encodes simp del: start_run.simps)
qed

theorem first_starts_race_witness:
  "\<exists>sched c i fs. interleave sample_codecs (\<lambda>k. k) sched (sample_seeds 5, ReadConfig) (sample_seeds 7, ReadConfig) Map.empty =
     (Ready c i, Failed (FileMismatch (DeviceId 5) (DeviceId 7)), fs)"
  using first_starts_race [OF sample_codecs_ok, of "sample_seeds 5" "sample_seeds 7" "\<lambda>k. k"]
  by (auto simp: sample_encodes) (auto simp: sample_seeds_def)

lemma sample_first_start:
  "start_run sample_codecs (\<lambda>k. k) (sample_seeds 5) [NoFault, NoFault, NoFault, NoFault] ReadConfig Map.empty =
     (Ready (config_new (sample_seeds 5)) (identity_new (\<lambda>k. k) (sample_seeds 5) (DeviceId 5)),
      [CONFIG \<mapsto> digits_of (DeviceId 5), IDENTITY \<mapsto> digits_of (DeviceId 5)])"
proof -
  have c: "cf_device (config_new (sample_seeds 5)) = DeviceId 5" by (simp add: config_new_def sample_seeds_def)
  have l: "config_load sample_codecs Map.empty = Absent"
    "identity_load sample_codecs (DeviceId 5) [CONFIG \<mapsto> digits_of (DeviceId 5)] = Absent"
    by (simp_all add: config_load_def identity_load_def read_to_string_def file_names)
  have s: "config_save sample_codecs NoFault (config_new (sample_seeds 5)) Map.empty = (Inr (), [CONFIG \<mapsto> digits_of (DeviceId 5)])"
    "save_parts sample_codecs NoFault (identity_new (\<lambda>k. k) (sample_seeds 5) (DeviceId 5)) [CONFIG \<mapsto> digits_of (DeviceId 5)] =
       (Inr (), [CONFIG \<mapsto> digits_of (DeviceId 5), IDENTITY \<mapsto> digits_of (DeviceId 5)])"
    by (auto simp: config_save_def save_parts_def write_atomically_def sample_encodes file_names fun_eq_iff)
  show ?thesis by (simp add: l s c)
qed


end
