(* ===== verification/Local_Socket.thy ===== *)
theory Local_Socket
  imports Local_Files Ipc_Wire
begin

text \<open>
  The local endpoint (\<open>clipse-ipc/src/transport.rs\<close>, \<open>Paths::ipc_endpoint\<close>): who listens on it, and how a
  client reaches it. On Unix the endpoint is a socket file, which outlives a daemon that crashed; on
  Windows it is a named pipe, of which the system allows one first instance.

  Binding the socket is a sequence of phases with one system call each, so that two daemons can
  interleave. Shown: one after the other, a second daemon steps aside while the first one listens and
  takes over when it has crashed; two at once can both believe that they own the endpoint. On Windows
  this cannot happen.

  The last part is the synthetic keystroke of \<open>clipsed/src/paste.rs\<close>.
\<close>

section \<open>Errors\<close>

datatype transport_error = AlreadyRunning | DaemonNotRunning | TransportIo

section \<open>A socket file\<close>

text \<open>
  What is at the path: nothing, or a socket and the process that listens on it; a socket whose process
  is gone is left behind.
\<close>

datatype 'p socket_file = NoSocket | SocketOf 'p

record 'p endpoint =
  ep_file :: "'p socket_file"
  ep_alive :: "'p list"

datatype bind_phase = CheckExists | TryConnect | RemoveStale | CreateParent | BindSocket | Bound | BindFailed transport_error

definition listening :: "'p endpoint \<Rightarrow> bool" where
  "listening e = (case ep_file e of NoSocket \<Rightarrow> False | SocketOf q \<Rightarrow> q \<in> set (ep_alive e))"

text \<open>One system call of \<open>Listener::bind\<close>; \<open>io_ok\<close> says that removing a file and making a directory go through.\<close>

fun bind_step :: "bool \<Rightarrow> 'p \<Rightarrow> bind_phase \<Rightarrow> 'p endpoint \<Rightarrow> bind_phase \<times> 'p endpoint" where
  "bind_step io_ok me CheckExists e = (if ep_file e = NoSocket then CreateParent else TryConnect, e)"
| "bind_step io_ok me TryConnect e = (if listening e then BindFailed AlreadyRunning else RemoveStale, e)"
| "bind_step io_ok me RemoveStale e =
     (if io_ok \<and> ep_file e \<noteq> NoSocket then (CreateParent, e\<lparr>ep_file := NoSocket\<rparr>) else (BindFailed TransportIo, e))"
| "bind_step io_ok me CreateParent e = (if io_ok then BindSocket else BindFailed TransportIo, e)"
| "bind_step io_ok me BindSocket e =
     (if ep_file e = NoSocket then (Bound, e\<lparr>ep_file := SocketOf me, ep_alive := me # ep_alive e\<rparr>)
      else (BindFailed TransportIo, e))"
| "bind_step io_ok me Bound e = (Bound, e)"
| "bind_step io_ok me (BindFailed err) e = (BindFailed err, e)"

fun bind_steps :: "nat \<Rightarrow> bool \<Rightarrow> 'p \<Rightarrow> bind_phase \<Rightarrow> 'p endpoint \<Rightarrow> bind_phase \<times> 'p endpoint" where
  "bind_steps 0 io_ok me p e = (p, e)"
| "bind_steps (Suc n) io_ok me p e = (case bind_step io_ok me p e of (p', e') \<Rightarrow> bind_steps n io_ok me p' e')"

text \<open>\<open>Listener::bind\<close> without anybody in between: it is over after five calls.\<close>

definition listener_bind :: "bool \<Rightarrow> 'p \<Rightarrow> 'p endpoint \<Rightarrow> bind_phase \<times> 'p endpoint" where
  "listener_bind io_ok me e = bind_steps 5 io_ok me CheckExists e"

text \<open>Dropping a listener removes the file at the path, whosever it is; a crash removes nothing.\<close>

definition listener_drop :: "'p \<Rightarrow> 'p endpoint \<Rightarrow> 'p endpoint" where
  "listener_drop me e = e\<lparr>ep_file := NoSocket, ep_alive := removeAll me (ep_alive e)\<rparr>"

definition crash :: "'p \<Rightarrow> 'p endpoint \<Rightarrow> 'p endpoint" where
  "crash me e = e\<lparr>ep_alive := removeAll me (ep_alive e)\<rparr>"

definition unix_connect :: "'p endpoint \<Rightarrow> transport_error + 'p" where
  "unix_connect e =
     (case ep_file e of
        NoSocket \<Rightarrow> Inl DaemonNotRunning
      | SocketOf q \<Rightarrow> if q \<in> set (ep_alive e) then Inr q else Inl TransportIo)"

section \<open>A named pipe\<close>

text \<open>
  With \<open>first_pipe_instance\<close> creating the pipe fails if it exists, with \<open>ERROR_PIPE_BUSY\<close> or a refusal of
  access; \<open>other_error\<close> is any other failure. A pipe ends with its process.
\<close>

definition pipe_bind :: "bool \<Rightarrow> 'p \<Rightarrow> 'p option \<Rightarrow> (transport_error + unit) \<times> 'p option" where
  "pipe_bind other_error me owner =
     (if owner \<noteq> None then (Inl AlreadyRunning, owner)
      else if other_error then (Inl TransportIo, owner)
      else (Inr (), Some me))"

datatype open_result = PipeOpened | PipeBusy | PipeNotFound | PipeError

definition CONNECT_ATTEMPTS :: nat where
  "CONNECT_ATTEMPTS = 20"

fun pipe_connect_from :: "nat \<Rightarrow> (nat \<Rightarrow> open_result) \<Rightarrow> nat \<Rightarrow> transport_error + unit" where
  "pipe_connect_from 0 answers k = Inl TransportIo"
| "pipe_connect_from (Suc n) answers k =
     (case answers k of
        PipeOpened \<Rightarrow> Inr ()
      | PipeBusy \<Rightarrow> pipe_connect_from n answers (k + 1)
      | PipeNotFound \<Rightarrow> Inl DaemonNotRunning
      | PipeError \<Rightarrow> Inl TransportIo)"

definition pipe_connect :: "(nat \<Rightarrow> open_result) \<Rightarrow> transport_error + unit" where
  "pipe_connect answers = pipe_connect_from CONNECT_ATTEMPTS answers 0"

section \<open>The name of the endpoint\<close>

text \<open>
  \<open>short_tag\<close>: twelve digits of the hash of the absolute path. \<open>absolute\<close> is \<open>std::path::absolute\<close>, \<open>None\<close> where
  it fails.
\<close>

definition short_tag :: "'x crates_scheme \<Rightarrow> (ustr \<Rightarrow> ustr option) \<Rightarrow> ustr \<Rightarrow> string" where
  "short_tag X absolute root =
     take 12 (to_hex X (hash_of X (utf8_encode (case absolute root of None \<Rightarrow> root | Some p \<Rightarrow> p))))"

definition pipe_endpoint :: "'x crates_scheme \<Rightarrow> (ustr \<Rightarrow> ustr option) \<Rightarrow> ustr \<Rightarrow> string" where
  "pipe_endpoint X absolute root = [CHR 0x5C, CHR 0x5C, CHR ''.'', CHR 0x5C] @ ''pipe'' @ [CHR 0x5C] @ ''clipse-'' @ short_tag X absolute root"

section \<open>The paste keystroke\<close>

datatype paste_error = PasteUnavailable | PasteKeystroke

text \<open>
  What is held down and typed: \<open>modifier\<close> stands for the key that \<open>paste_modifier\<close> chooses. Each call of
  the input library may fail, and then has no effect.
\<close>

record keyboard =
  kb_held :: bool
  kb_pasted :: nat

record key_results =
  kr_open :: bool
  kr_press :: bool
  kr_click :: bool
  kr_release :: bool

definition press_paste_shortcut :: "key_results \<Rightarrow> keyboard \<Rightarrow> (paste_error + unit) \<times> keyboard" where
  "press_paste_shortcut R kb =
     (if \<not> kr_open R then (Inl PasteUnavailable, kb)
      else if \<not> kr_press R then (Inl PasteKeystroke, kb)
      else let kb1 = kb\<lparr>kb_held := True\<rparr>;
               (result, kb2) = (if kr_click R then (Inr (), kb1\<lparr>kb_pasted := kb_pasted kb1 + 1\<rparr>) else (Inl PasteKeystroke, kb1));
               (release, kb3) = (if kr_release R then (Inr (), kb2\<lparr>kb_held := False\<rparr>) else (Inl PasteKeystroke, kb2))
           in (bind_r result (\<lambda>_. release), kb3))"

lemma modifier_released:
  assumes "press_paste_shortcut R kb = (res, kb')" "\<not> kb_held kb" "kr_release R"
  shows "\<not> kb_held kb' \<and> (res = Inr () \<longleftrightarrow> kb_pasted kb' = kb_pasted kb + 1)"
  using assms by (auto simp: press_paste_shortcut_def Let_def split: if_splits)

section \<open>One daemon at a time\<close>

lemma bind_steps_final [simp]:
  "bind_steps n io_ok me Bound e = (Bound, e)" "bind_steps n io_ok me (BindFailed err) e = (BindFailed err, e)"
  by (induction n) simp_all

lemma bind_steps_numeral [simp]:
  "bind_steps (numeral k) io_ok me p e = (case bind_step io_ok me p e of (p', e') \<Rightarrow> bind_steps (pred_numeral k) io_ok me p' e')"
  by (simp add: numeral_eq_Suc)

text \<open>
  Daemons that start one after the other: a new one owns the endpoint exactly if nobody listens there,
  whether the last one closed it or crashed; otherwise it learns that a daemon is running and changes
  nothing. A client then reaches the one that owns it.
\<close>

theorem second_daemon_steps_aside:
  "(listening e \<longrightarrow> listener_bind True me e = (BindFailed AlreadyRunning, e)) \<and>
   (\<not> listening e \<longrightarrow> fst (listener_bind True me e) = Bound \<and> unix_connect (snd (listener_bind True me e)) = Inr me)"
  by (cases "ep_file e") (auto simp: listener_bind_def listening_def unix_connect_def)

text \<open>
  Two daemons that start at the same time over the socket of one that crashed can both own the
  endpoint: the second removes the socket the first has just bound. The clients reach the second, and
  both have the database open.
\<close>

theorem stale_socket_race:
  assumes "ep_file e = SocketOf old" "old \<notin> set (ep_alive e)" "a \<noteq> b"
  shows "\<exists>n m e1 e2. bind_steps n True b CheckExists e = (RemoveStale, e) \<and>
    listener_bind True a e = (Bound, e1) \<and> bind_steps m True b RemoveStale e1 = (Bound, e2) \<and>
    set [a, b] \<subseteq> set (ep_alive e2) \<and> unix_connect e1 = Inr a \<and> unix_connect e2 = Inr b \<and>
    b \<in> set (ep_alive (listener_drop a e2)) \<and> unix_connect (listener_drop a e2) = Inl DaemonNotRunning"
proof -
  let ?e1 = "e\<lparr>ep_file := SocketOf a, ep_alive := a # ep_alive e\<rparr>"
  let ?e2 = "e\<lparr>ep_file := SocketOf b, ep_alive := b # a # ep_alive e\<rparr>"
  have b1: "bind_steps 2 True b CheckExists e = (RemoveStale, e)" and b2: "listener_bind True a e = (Bound, ?e1)"
    and b3: "bind_steps 3 True b RemoveStale ?e1 = (Bound, ?e2)"
    using assms by (auto simp: listener_bind_def listening_def)
  have c: "set [a, b] \<subseteq> set (ep_alive ?e2)" "unix_connect ?e1 = Inr a" "unix_connect ?e2 = Inr b"
    "b \<in> set (ep_alive (listener_drop a ?e2))" "unix_connect (listener_drop a ?e2) = Inl DaemonNotRunning"
    using assms(3) by (simp_all add: unix_connect_def listener_drop_def)
  show ?thesis by (rule exI [of _ 2], rule exI [of _ 3], rule exI [of _ ?e1], rule exI [of _ ?e2]) (intro conjI b1 b2 b3 c)
qed

lemma pipe_has_one_owner:
  "pipe_bind err me owner = (Inr (), owner') \<Longrightarrow> owner = None \<and> owner' = Some me"
  by (auto simp: pipe_bind_def split: if_splits)

lemma pipe_connect_ends:
  "pipe_connect answers = Inr () \<longleftrightarrow> (\<exists>n < CONNECT_ATTEMPTS. answers n = PipeOpened \<and> (\<forall>k < n. answers k = PipeBusy))"
proof -
  have "pipe_connect_from m answers j = Inr () \<longleftrightarrow>
      (\<exists>n < m. answers (j + n) = PipeOpened \<and> (\<forall>k < n. answers (j + k) = PipeBusy))" for m j
  proof (induction m arbitrary: j)
    case (Suc m)
    then show ?case by (cases "answers j") (simp_all add: Ex_less_Suc2 All_less_Suc2)
  qed simp
  from this [of CONNECT_ATTEMPTS 0] show ?thesis by (simp add: pipe_connect_def)
qed

theorem second_daemon_steps_aside_witness:
  "listener_bind True (2 :: nat) \<lparr>ep_file = SocketOf 1, ep_alive = [1]\<rparr> = (BindFailed AlreadyRunning, \<lparr>ep_file = SocketOf 1, ep_alive = [1]\<rparr>) \<and>
   fst (listener_bind True (2 :: nat) \<lparr>ep_file = SocketOf 1, ep_alive = []\<rparr>) = Bound"
  using second_daemon_steps_aside [of "\<lparr>ep_file = SocketOf 1, ep_alive = [1]\<rparr>" "2 :: nat"]
    second_daemon_steps_aside [of "\<lparr>ep_file = SocketOf 1, ep_alive = []\<rparr>" "2 :: nat"]
  by (simp add: listening_def del: bind_steps_numeral)

theorem stale_socket_race_witness:
  "\<exists>m e1 e2. listener_bind True (2 :: nat) \<lparr>ep_file = SocketOf 1, ep_alive = []\<rparr> = (Bound, e1) \<and>
     bind_steps m True 3 RemoveStale e1 = (Bound, e2) \<and> set [2, 3] \<subseteq> set (ep_alive e2)"
proof -
  have "SocketOf (1 :: nat) = SocketOf 1" "1 \<notin> set ([] :: nat list)" "2 \<noteq> (3 :: nat)" by simp_all
  then show ?thesis using stale_socket_race [of "\<lparr>ep_file = SocketOf 1, ep_alive = []\<rparr>" 1 2 "3 :: nat"] unfolding endpoint.simps by blast
qed

end
