(* ===== verification/Peer_Loops.thy ===== *)
theory Peer_Loops
  imports Daemon_Run Local_Socket
begin

text \<open>
  The loops of the peer manager (\<open>accept_loop\<close> and \<open>dial_loop\<close> of \<open>clipsed/src/peers.rs\<close>) and the life of
  the daemon process (\<open>run\<close> of \<open>clipsed/src/lib.rs\<close>, \<open>main.rs\<close>). The dial loop waits for three things at
  once, so it is a step relation; the reasons to sync arrive through \<open>tokio\<close>'s \<open>Notify\<close>, which keeps
  one permit while nobody waits. A pass itself is \<open>sync_all\<close> of the theory \<open>Peers\<close>.

  Shown: whatever a nudge arrives in the middle of, a pass that begins after it is never more than
  the end of the running pass away; there are no more passes than reasons for one; the accept loop
  serves every inbound connection until it is told to stop, failed ones notwithstanding; a second
  daemon stops before it opens the database, and requests are answered only when pairing and sync
  are in place.
\<close>

section \<open>The dial loop\<close>

datatype dial_phase = DialStarting | DialWaiting | DialBrowsing | DialPassing | DialEnded

datatype dial_label = Nudged | Ticked | PassBegins | PassEnds | ShutdownSet | DialQuiet

record dial_state =
  dl_phase :: dial_phase
  dl_permit :: bool
  dl_shutdown :: bool
  dl_changed :: bool

definition dial_new :: dial_state where
  "dial_new = \<lparr>dl_phase = DialStarting, dl_permit = False, dl_shutdown = False, dl_changed = False\<rparr>"

inductive dial_step :: "dial_state \<Rightarrow> dial_label \<Rightarrow> dial_state \<Rightarrow> bool" where
  browsed: "dl_phase s \<in> {DialStarting, DialBrowsing} \<Longrightarrow> dial_step s PassBegins (s\<lparr>dl_phase := DialPassing\<rparr>)"
| passed: "dl_phase s = DialPassing \<Longrightarrow> dial_step s PassEnds (s\<lparr>dl_phase := DialWaiting\<rparr>)"
| nudged: "dial_step s Nudged (s\<lparr>dl_permit := True\<rparr>)"
| notified: "dl_phase s = DialWaiting \<Longrightarrow> dl_permit s \<Longrightarrow> dial_step s PassBegins (s\<lparr>dl_phase := DialPassing, dl_permit := False\<rparr>)"
| tick: "dl_phase s = DialWaiting \<Longrightarrow> dial_step s Ticked (s\<lparr>dl_phase := DialBrowsing\<rparr>)"
| shutdown: "dial_step s ShutdownSet (s\<lparr>dl_shutdown := v, dl_changed := True\<rparr>)"
| changed: "dl_phase s = DialWaiting \<Longrightarrow> dl_changed s \<Longrightarrow>
    dial_step s DialQuiet (s\<lparr>dl_changed := False, dl_phase := (if dl_shutdown s then DialEnded else DialWaiting)\<rparr>)"

inductive_cases dial_stepE: "dial_step s l t"

inductive dial_run :: "dial_state \<Rightarrow> dial_label list \<Rightarrow> dial_state \<Rightarrow> bool" where
  dial_stop: "dial_run s [] s"
| dial_go: "dial_step s l t \<Longrightarrow> dial_run t tr u \<Longrightarrow> dial_run s (l # tr) u"

inductive_cases dial_runE: "dial_run s (l # tr) u"

lemma dial_run_append: "dial_run s (xs @ ys) u \<Longrightarrow> \<exists>t. dial_run s xs t \<and> dial_run t ys u"
proof (induction xs arbitrary: s)
  case (Cons x xs)
  then show ?case by (auto elim!: dial_runE intro: dial_go dest!: Cons.IH)
qed (auto intro: dial_stop)

lemma permit_kept: "dial_run s tr t \<Longrightarrow> dl_permit s \<Longrightarrow> PassBegins \<notin> set tr \<Longrightarrow> dl_permit t"
  by (induction rule: dial_run.induct) (auto elim!: dial_stepE)

text \<open>From any state with a permit the loop comes to a pass by itself.\<close>

lemma permit_leads_to_pass:
  assumes "dl_permit s" "dl_phase s \<noteq> DialEnded"
  shows "\<exists>tr t. dial_run s tr t \<and> PassBegins \<in> set tr \<and> set tr \<subseteq> {PassBegins, PassEnds} \<and> length tr \<le> 2"
proof (cases "dl_phase s")
  case DialPassing
  then have "dial_run s [PassEnds, PassBegins] (s\<lparr>dl_phase := DialPassing, dl_permit := False\<rparr>)"
    using dial_go [OF passed dial_go [OF notified dial_stop]] assms(1) by simp
  then show ?thesis by fastforce
next
  case DialWaiting
  then have "dial_run s [PassBegins] (s\<lparr>dl_phase := DialPassing, dl_permit := False\<rparr>)"
    using dial_go [OF notified dial_stop] assms(1) by simp
  then show ?thesis by fastforce
qed (use assms(2) dial_go [OF browsed dial_stop, of s] in fastforce)+

text \<open>
  C24. No reason to sync is lost: after a nudge, at whatever moment it came, a pass has begun since, or the
  loop has ended, or one will begin by itself as soon as the pass that is running ends.
\<close>

theorem nudge_is_not_lost:
  assumes "dial_run dial_new (before @ Nudged # after) s" "dl_phase s \<noteq> DialEnded"
  shows "PassBegins \<in> set after \<or>
    (\<exists>tr t. dial_run s tr t \<and> PassBegins \<in> set tr \<and> set tr \<subseteq> {PassBegins, PassEnds} \<and> length tr \<le> 2)"
proof (cases "PassBegins \<in> set after")
  case False
  obtain u where "dial_run u (Nudged # after) s" using dial_run_append [OF assms(1)] by blast
  then have "dial_run (u\<lparr>dl_permit := True\<rparr>) after s" by (auto elim!: dial_runE dial_stepE)
  from permit_kept [OF this _ False] have "dl_permit s" by simp
  then show ?thesis using permit_leads_to_pass assms(2) by blast
qed simp

theorem nudge_is_not_lost_witness:
  "\<exists>tr t. dial_run (dial_new\<lparr>dl_phase := DialPassing, dl_permit := True\<rparr>) tr t \<and> PassBegins \<in> set tr \<and> length tr \<le> 2"
proof -
  have "dial_run dial_new ([PassBegins] @ Nudged # []) (dial_new\<lparr>dl_phase := DialPassing, dl_permit := True\<rparr>)"
    using dial_go [OF browsed dial_go [OF nudged dial_stop], of dial_new] by (simp add: dial_new_def)
  from nudge_is_not_lost [OF this] show ?thesis by auto
qed

text \<open>A pass has a reason: the start, a tick, or a nudge that no other pass took.\<close>

definition owed :: "dial_state \<Rightarrow> nat" where
  "owed s = (if dl_permit s then 1 else 0) + (if dl_phase s \<in> {DialStarting, DialBrowsing} then 1 else 0)"

lemma passes_owed:
  "dial_run s tr t \<Longrightarrow> count_list tr PassBegins + owed t \<le> owed s + count_list tr Nudged + count_list tr Ticked"
proof (induction rule: dial_run.induct)
  case (dial_go s l t tr u)
  from dial_go.hyps(1) dial_go.IH show ?case by cases (auto simp: owed_def split: if_splits)
qed simp

theorem passes_have_reasons:
  "dial_run dial_new tr s \<Longrightarrow> count_list tr PassBegins \<le> 1 + count_list tr Nudged + count_list tr Ticked"
  using passes_owed [of dial_new tr s] by (simp add: owed_def dial_new_def)

text \<open>Told to stop, the loop ends after the pass it is in.\<close>

lemma shutdown_ends_dialling:
  assumes "dl_shutdown s" "dl_changed s"
  shows "\<exists>tr t. dial_run s tr t \<and> dl_phase t = DialEnded"
proof -
  have w: "dial_run t [DialQuiet] (t\<lparr>dl_changed := False, dl_phase := DialEnded\<rparr>)"
    if "dl_phase t = DialWaiting" "dl_changed t" "dl_shutdown t" for t
    using dial_go [OF changed dial_stop, of t] that by simp
  have p: "\<exists>tr u. dial_run t tr u \<and> dl_phase u = DialEnded" if "dl_phase t = DialPassing" "dl_changed t" "dl_shutdown t" for t
    using dial_go [OF passed w, of t] that by fastforce
  show ?thesis
  proof (cases "dl_phase s")
    case DialWaiting
    then show ?thesis using w [of s] assms by fastforce
  next
    case DialPassing
    then show ?thesis using p [of s] assms by blast
  next
    case DialStarting
    then show ?thesis using p [of "s\<lparr>dl_phase := DialPassing\<rparr>"] dial_go [OF browsed, of s] assms by fastforce
  next
    case DialBrowsing
    then show ?thesis using p [of "s\<lparr>dl_phase := DialPassing\<rparr>"] dial_go [OF browsed, of s] assms by fastforce
  qed (use dial_stop in blast)
qed

section \<open>The accept loop\<close>

datatype 'l incoming = IncomingSession 'l | IncomingPairing 'l | IncomingError

datatype 'l accept_event = ShutdownChanged bool | EndpointClosed | Arrived "'l incoming"

datatype 'l spawned = ServeSession 'l | ServePairing 'l

fun accept_loop :: "'l accept_event list \<Rightarrow> 'l spawned list" where
  "accept_loop [] = []"
| "accept_loop (ShutdownChanged v # evs) = (if v then [] else accept_loop evs)"
| "accept_loop (EndpointClosed # evs) = []"
| "accept_loop (Arrived (IncomingSession l) # evs) = ServeSession l # accept_loop evs"
| "accept_loop (Arrived (IncomingPairing l) # evs) = ServePairing l # accept_loop evs"
| "accept_loop (Arrived IncomingError # evs) = accept_loop evs"

fun stops :: "'l accept_event \<Rightarrow> bool" where
  "stops (ShutdownChanged v) = v"
| "stops EndpointClosed = True"
| "stops (Arrived _) = False"

fun task_for :: "'l accept_event \<Rightarrow> 'l spawned option" where
  "task_for (Arrived (IncomingSession l)) = Some (ServeSession l)"
| "task_for (Arrived (IncomingPairing l)) = Some (ServePairing l)"
| "task_for _ = None"

lemma accept_loop_serves_all: "accept_loop evs = List.map_filter task_for (takeWhile (\<lambda>ev. \<not> stops ev) evs)"
  by (induction evs rule: accept_loop.induct) (auto simp: map_filter_simps)

section \<open>Start and stop\<close>

datatype run_error = RunDirs | RunConfig | RunIdentity | RunBind | RunStore | RunWatch | RunPersist

datatype started = StartedDaemon | StartedAlreadyRunning

datatype run_action = CreateDirs | LoadConfig | LoadIdentity | BindEndpoint | OpenStore | StartWatcher | SetSink
  | SpawnCapture | BindQuic | StartDiscovery | SetPeers | SetPairing | SpawnPeerLoops | ServeIpc | SendReady
  | AwaitShutdown | SendShutdown | AwaitServing | AbortCapture | AbortPeerLoops | Persist

text \<open>What each of the calls gives.\<close>

record run_env =
  re_dirs :: bool
  re_config :: bool
  re_identity :: bool
  re_bind :: "transport_error + unit"
  re_store :: bool
  re_watch :: bool
  re_sync_enabled :: bool
  re_transport :: bool
  re_announce :: bool
  re_ready :: bool
  re_persist :: bool

definition peer_sync_actions :: "run_env \<Rightarrow> run_action list" where
  "peer_sync_actions e =
     (if \<not> re_sync_enabled e then []
      else if \<not> re_transport e then [BindQuic]
      else [BindQuic] @ (if re_announce e then [StartDiscovery] else []) @ [SetPeers, SetPairing, SpawnPeerLoops])"

definition clipsed_run :: "run_env \<Rightarrow> (run_error + started) \<times> run_action list" where
  "clipsed_run e =
     (if \<not> re_dirs e then (Inl RunDirs, [CreateDirs])
      else if \<not> re_config e then (Inl RunConfig, [CreateDirs, LoadConfig])
      else if \<not> re_identity e then (Inl RunIdentity, [CreateDirs, LoadConfig, LoadIdentity])
      else case re_bind e of
        Inl AlreadyRunning \<Rightarrow> (Inr StartedAlreadyRunning, [CreateDirs, LoadConfig, LoadIdentity, BindEndpoint])
      | Inl _ \<Rightarrow> (Inl RunBind, [CreateDirs, LoadConfig, LoadIdentity, BindEndpoint])
      | Inr _ \<Rightarrow>
          let opened = [CreateDirs, LoadConfig, LoadIdentity, BindEndpoint, OpenStore]
          in if \<not> re_store e then (Inl RunStore, opened)
             else if \<not> re_watch e then (Inl RunWatch, opened @ [StartWatcher])
             else (if re_persist e then Inr StartedDaemon else Inl RunPersist,
                   opened @ [StartWatcher, SetSink, SpawnCapture] @ peer_sync_actions e @
                   [ServeIpc] @ (if re_ready e then [SendReady] else []) @
                   [AwaitShutdown, SendShutdown, AwaitServing, AbortCapture] @
                   (if SpawnPeerLoops \<in> set (peer_sync_actions e) then [AbortPeerLoops] else []) @ [Persist]))"

text \<open>The data directory of the standalone daemon; without one it does not start.\<close>

definition main_paths :: "ustr option \<Rightarrow> ustr option \<Rightarrow> ustr option" where
  "main_paths data_dir platform_default = (case data_dir of Some dir \<Rightarrow> Some dir | None \<Rightarrow> platform_default)"

text \<open>\<open>main\<close>: success is a daemon that ran and stopped.\<close>

definition main_result :: "run_error + started \<Rightarrow> bool" where
  "main_result r = (case r of Inr StartedDaemon \<Rightarrow> True | _ \<Rightarrow> False)"

definition actions_before :: "run_action \<Rightarrow> run_action list \<Rightarrow> run_action set" where
  "actions_before x xs = set (takeWhile (\<lambda>y. y \<noteq> x) xs)"

lemma second_daemon_leaves_store:
  "fst (clipsed_run e) = Inr StartedAlreadyRunning \<Longrightarrow> OpenStore \<notin> set (snd (clipsed_run e)) \<and> \<not> main_result (fst (clipsed_run e))"
  by (auto simp: clipsed_run_def main_result_def Let_def split: if_splits sum.splits transport_error.splits)

lemma served_only_when_complete:
  assumes "clipsed_run e = (r, log)" "ServeIpc \<in> set log" "re_sync_enabled e" "re_transport e"
  shows "{OpenStore, SetSink, SpawnCapture, SetPeers, SetPairing} \<subseteq> actions_before ServeIpc log \<and> last log = Persist \<and>
    (SendReady \<in> set log \<longrightarrow> ServeIpc \<in> actions_before SendReady log)"
  using assms by (auto simp: clipsed_run_def actions_before_def peer_sync_actions_def Let_def split: if_splits sum.splits transport_error.splits)

end
