(* ===== verification/App_Tray.thy ===== *)
theory App_Tray
  imports Complex_Main Ipc_Protocol
begin

text \<open>
  What the app shows without its webview (\<open>apps/clipse-app/src-tauri/src\<close>): the tray
  (\<open>tray.rs\<close>), the place of the popup (\<open>popup.rs\<close>) and the windows on a second launch
  (\<open>instance.rs\<close>, \<open>lib.rs\<close>). Tauri is outside: whether a call succeeds and what it answers about
  windows and monitors are arguments; the reading of the clock is one too. Coordinates are \<open>f64\<close>, here
  real numbers: the sums that occur are of 32-bit integers and exact.

  Shown: a tray that replays the events since before it asked for the list of devices ends with the
  list the events describe; controls are enabled exactly when they can work; the popup lies on the
  monitor whenever it fits and no clamp panics.
\<close>

section \<open>The tray\<close>

record tray_model =
  tm_status :: "daemon_status option"
  tm_devices :: "peer_info list"
  tm_connected :: bool

definition tray_model_default :: tray_model where
  "tray_model_default = \<lparr>tm_status = None, tm_devices = [], tm_connected = False\<rparr>"

definition em_dash :: ustr where
  "em_dash = [32, 0x2014, 32]"

definition plural :: "nat \<Rightarrow> ustr \<Rightarrow> ustr" where
  "plural n noun = (if n = 1 then lit ''1 '' @ noun else dec n @ [32] @ noun @ lit ''s'')"

definition ago :: "u64 \<Rightarrow> u64 \<Rightarrow> ustr" where
  "ago now then_ms =
     (let m = unat (sat_sub now then_ms) div 60000
      in if m = 0 then lit ''just now''
         else if m = 1 then lit ''1 minute ago''
         else if m < 60 then dec m @ lit '' minutes ago''
         else if m < 120 then lit ''an hour ago''
         else if m < 60 * 24 then dec (m div 60) @ lit '' hours ago''
         else lit ''more than a day ago'')"

definition device_line :: "u64 \<Rightarrow> peer_info \<Rightarrow> ustr" where
  "device_line now device =
     pi_label device @ em_dash @
     (case pi_connectivity device of
        Lan \<Rightarrow> lit ''on this network''
      | Tailnet \<Rightarrow> lit ''over Tailscale''
      | Offline \<Rightarrow> (case pi_last_seen_ms device of
                     Some seen \<Rightarrow> lit ''last synced '' @ ago now seen
                   | None \<Rightarrow> lit ''not reached yet''))"

definition status_line :: "tray_model \<Rightarrow> ustr" where
  "status_line model =
     (if \<not> tm_connected model then lit ''Clipse'' @ em_dash @ lit ''daemon not running''
      else case tm_status model of
        None \<Rightarrow> lit ''Connecting to Clipse'' @ [0x2026]
      | Some st \<Rightarrow>
          let clips = plural (ds_clip_count st) (lit ''clip'');
              total = length (tm_devices model);
              online = length (filter (\<lambda>p. pi_connectivity p \<noteq> Offline) (tm_devices model))
          in lit ''Clipse'' @ em_dash @
             (if ds_paused st then lit ''paused ('' @ clips @ lit '')''
              else if total = 0 then lit ''syncing ('' @ clips @ lit '')''
              else if online = 0 then clips @ lit '', no device reachable''
              else if online = total then lit ''syncing with '' @ plural total (lit ''device'') @ lit '', '' @ clips
              else dec online @ lit '' of '' @ dec total @ lit '' devices, '' @ clips))"

definition tooltip :: "tray_model \<Rightarrow> ustr" where
  "tooltip model = (if tm_status model \<noteq> None \<and> tm_connected model then status_line model else lit ''Clipse'')"

datatype menu_item = MenuItem (mi_id: ustr) (mi_text: ustr) (mi_enabled: bool) | Separator

definition device_items :: "'x crates_scheme \<Rightarrow> u64 \<Rightarrow> peer_info list \<Rightarrow> menu_item list" where
  "device_items X now devices =
     (if devices = [] then [MenuItem (lit ''devices-empty'') (lit ''No paired devices'') False]
      else map (\<lambda>d. MenuItem (lit ''device-'' @ lit (device_to_string X (pi_device d))) (device_line now d) False) devices)"

definition model_paused :: "tray_model \<Rightarrow> bool" where
  "model_paused model = (case tm_status model of None \<Rightarrow> False | Some st \<Rightarrow> ds_paused st)"

definition menu_for :: "'x crates_scheme \<Rightarrow> u64 \<Rightarrow> tray_model \<Rightarrow> menu_item list" where
  "menu_for X now model =
     [MenuItem (lit ''status'') (status_line model) False, Separator] @
     device_items X now (tm_devices model) @
     [Separator,
      MenuItem (lit ''toggle-pause'') (if model_paused model then lit ''Resume syncing'' else lit ''Pause syncing'')
        (tm_connected model),
      MenuItem (lit ''open'') (lit ''Open Clipse'') True,
      Separator,
      MenuItem (lit ''quit'') (lit ''Quit'') True]"

text \<open>What \<open>update\<close> is called with.\<close>

definition model_status :: "daemon_status \<Rightarrow> tray_model \<Rightarrow> tray_model" where
  "model_status st model = model\<lparr>tm_status := Some st, tm_connected := True\<rparr>"

definition model_devices :: "peer_info list \<Rightarrow> tray_model \<Rightarrow> tray_model" where
  "model_devices devices model = model\<lparr>tm_devices := devices\<rparr>"

fun put_device :: "peer_info \<Rightarrow> peer_info list \<Rightarrow> peer_info list" where
  "put_device d [] = [d]"
| "put_device d (k # ks) = (if pi_device k = pi_device d then d # ks else k # put_device d ks)"

definition model_device_changed :: "peer_info \<Rightarrow> tray_model \<Rightarrow> tray_model" where
  "model_device_changed d model = model\<lparr>tm_devices := put_device d (tm_devices model)\<rparr>"

definition model_disconnected :: "tray_model \<Rightarrow> tray_model" where
  "model_disconnected model =
     model\<lparr>tm_connected := False, tm_devices := map (\<lambda>d. d\<lparr>pi_connectivity := Offline\<rparr>) (tm_devices model)\<rparr>"

text \<open>
  The tray as it is on the screen. A menu that Tauri cannot build leaves the old one there; the
  model has changed all the same.
\<close>

record tray =
  ty_model :: tray_model
  ty_menu :: "menu_item list"
  ty_tooltip :: ustr

definition tray_build :: "'x crates_scheme \<Rightarrow> u64 \<Rightarrow> tray" where
  "tray_build X now = \<lparr>ty_model = tray_model_default, ty_menu = menu_for X now tray_model_default, ty_tooltip = lit ''Clipse''\<rparr>"

definition tray_update :: "'x crates_scheme \<Rightarrow> u64 \<Rightarrow> bool \<Rightarrow> (tray_model \<Rightarrow> tray_model) \<Rightarrow> tray \<Rightarrow> tray" where
  "tray_update X now ok change t =
     (let model = change (ty_model t)
      in if ok then \<lparr>ty_model = model, ty_menu = menu_for X now model, ty_tooltip = tooltip model\<rparr>
         else t\<lparr>ty_model := model\<rparr>)"

datatype menu_action = TogglePause | OpenMain | QuitApp | NoAction

definition on_menu_event :: "ustr \<Rightarrow> menu_action" where
  "on_menu_event i =
     (if i = lit ''toggle-pause'' then TogglePause else if i = lit ''open'' then OpenMain
      else if i = lit ''quit'' then QuitApp else NoAction)"

section \<open>Windows\<close>

datatype window_op = Unminimize | ShowMain | FocusMain | HideMain | SetPosition real real | JoinEverySpace
  | ShowPopup | FocusPopup | EmitShown | HidePopup | PreventClose

definition should_reveal :: "ustr list \<Rightarrow> bool" where
  "should_reveal argv = (\<not> (\<exists>arg \<in> set argv. arg = lit ''--minimised''))"

definition show_main_window :: "bool \<Rightarrow> window_op list" where
  "show_main_window main_exists = (if main_exists then [Unminimize, ShowMain, FocusMain] else [])"

definition second_launch :: "bool \<Rightarrow> ustr list \<Rightarrow> window_op list" where
  "second_launch main_exists argv =
     (if \<not> should_reveal argv then [] else if main_exists then [Unminimize, ShowMain, FocusMain] else [])"

definition cold_start :: "bool \<Rightarrow> ustr list \<Rightarrow> window_op list" where
  "cold_start main_exists argv =
     (if (\<exists>arg \<in> set argv. arg = lit ''--minimised'') \<and> main_exists then [HideMain] else [])"

definition main_close_requested :: "window_op list" where
  "main_close_requested = [PreventClose, HideMain]"

record monitor =
  mo_x :: int
  mo_y :: int
  mo_width :: nat
  mo_height :: nat

datatype popup_error = TauriError | ClampPanic

text \<open>\<open>f64::clamp\<close> panics when the bounds are the wrong way round.\<close>

definition clamp_f64 :: "real \<Rightarrow> real \<Rightarrow> real \<Rightarrow> popup_error + real" where
  "clamp_f64 v lo hi = (if lo \<le> hi then Inr (min hi (max lo v)) else Inl ClampPanic)"

definition target_position :: "popup_error + real \<times> real \<Rightarrow> popup_error + nat \<times> nat \<Rightarrow>
    (real \<Rightarrow> real \<Rightarrow> popup_error + monitor option) \<Rightarrow> popup_error + monitor option \<Rightarrow> popup_error + real \<times> real" where
  "target_position cursor_position outer_size monitor_from_point current_monitor =
     bind_r cursor_position (\<lambda>(cx, cy).
     bind_r outer_size (\<lambda>(w, h).
     bind_r (monitor_from_point cx cy) (\<lambda>here.
     bind_r current_monitor (\<lambda>cur.
       case (case here of Some m \<Rightarrow> Some m | None \<Rightarrow> cur) of
         None \<Rightarrow> Inr (cx, cy)
       | Some m \<Rightarrow>
           let min_x = of_int (mo_x m); min_y = of_int (mo_y m);
               max_x = max (min_x + of_nat (mo_width m) - of_nat w) min_x;
               max_y = max (min_y + of_nat (mo_height m) - of_nat h) min_y
           in bind_r (clamp_f64 cx min_x max_x) (\<lambda>x. bind_r (clamp_f64 cy min_y max_y) (\<lambda>y. Inr (x, y)))))))"

text \<open>The calls that are made, up to the first that is not forgiven.\<close>

definition show_near_cursor :: "bool \<Rightarrow> bool \<Rightarrow> popup_error + real \<times> real \<Rightarrow> bool \<Rightarrow> bool \<Rightarrow> (popup_error + unit) \<times> window_op list" where
  "show_near_cursor macos popup_exists target show_ok focus_ok =
     (if \<not> popup_exists then (Inr (), [])
      else let before = (case target of Inr (x, y) \<Rightarrow> [SetPosition x y] | Inl _ \<Rightarrow> []) @ (if macos then [JoinEverySpace] else [])
           in if \<not> show_ok then (Inl TauriError, before)
              else if \<not> focus_ok then (Inl TauriError, before @ [ShowPopup])
              else (Inr (), before @ [ShowPopup, FocusPopup, EmitShown]))"

definition popup_hide :: "bool \<Rightarrow> window_op list" where
  "popup_hide popup_exists = (if popup_exists then [HidePopup] else [])"

definition hotkey_event :: "bool \<Rightarrow> bool \<Rightarrow> bool \<Rightarrow> popup_error + real \<times> real \<Rightarrow> bool \<Rightarrow> bool \<Rightarrow> window_op list" where
  "hotkey_event pressed macos popup_exists target show_ok focus_ok =
     (if \<not> pressed then [] else snd (show_near_cursor macos popup_exists target show_ok focus_ok))"

section \<open>Facts\<close>

text \<open>A list of devices as what it says of each.\<close>

definition device_map :: "peer_info list \<Rightarrow> device_id \<rightharpoonup> peer_info" where
  "device_map devices = map_of (map (\<lambda>p. (pi_device p, p)) devices)"

lemma device_map_put: "device_map (put_device d ks) = (device_map ks)(pi_device d \<mapsto> d)"
  by (induction ks) (auto simp: device_map_def)

lemma put_device_keys:
  "map pi_device (put_device d ks) = (if pi_device d \<in> pi_device ` set ks then map pi_device ks else map pi_device ks @ [pi_device d])"
  by (induction ks) (auto simp: image_iff)

lemma device_map_puts:
  "device_map (fold put_device ds ks) = device_map ks ++ map_of (rev (map (\<lambda>p. (pi_device p, p)) ds))"
  by (induction ds arbitrary: ks) (auto simp: device_map_put map_add_upd_left)


fun is_control :: "menu_item \<Rightarrow> bool" where
  "is_control (MenuItem _ _ enabled) = enabled"
| "is_control Separator = False"

lemma no_device_controls: "filter is_control (device_items X now devices) = []"
  by (simp add: device_items_def filter_empty_conv)

theorem menu_controls:
  "map mi_id (filter is_control (menu_for X now model)) =
   (if tm_connected model then [lit ''toggle-pause''] else []) @ [lit ''open'', lit ''quit'']"
  unfolding menu_for_def filter_append no_device_controls
  by (simp del: list.map add: list.map(1) [of mi_id] list.map(2) [of mi_id])

lemma menu_rows_act:
  assumes "MenuItem i txt True \<in> set (menu_for X now model)"
  shows "on_menu_event i \<noteq> NoAction"
  using assms by (auto simp: menu_for_def device_items_def on_menu_event_def split: if_splits)

text \<open>
  The popup never panics for its place, and where it fits the monitor it lies on it, at the cursor
  if it fits there.
\<close>

theorem popup_on_monitor:
  assumes "monitor_from_point cx cy = Inr here" "(case here of Some m \<Rightarrow> Some m | None \<Rightarrow> cur) = Some m"
  shows "\<exists>x y. target_position (Inr (cx, cy)) (Inr (w, h)) monitor_from_point (Inr cur) = Inr (x, y) \<and>
    of_int (mo_x m) \<le> x \<and> of_int (mo_y m) \<le> y \<and>
    (w \<le> mo_width m \<longrightarrow> x + of_nat w \<le> of_int (mo_x m) + of_nat (mo_width m)) \<and>
    (h \<le> mo_height m \<longrightarrow> y + of_nat h \<le> of_int (mo_y m) + of_nat (mo_height m)) \<and>
    (of_int (mo_x m) \<le> cx \<and> cx + of_nat w \<le> of_int (mo_x m) + of_nat (mo_width m) \<longrightarrow> x = cx) \<and>
    (of_int (mo_y m) \<le> cy \<and> cy + of_nat h \<le> of_int (mo_y m) + of_nat (mo_height m) \<longrightarrow> y = cy)"
  using assms by (auto simp: target_position_def clamp_f64_def Let_def)

theorem popup_on_monitor_witness:
  "\<exists>x y. target_position (Inr (1900, 500)) (Inr (400, 600))
     (\<lambda>_ _. Inr (Some \<lparr>mo_x = 0, mo_y = 0, mo_width = 1920, mo_height = 1080\<rparr>)) (Inr None) = Inr (x, y) \<and> x + 400 \<le> 1920 \<and> y + 600 \<le> 1080"
  using popup_on_monitor [of "\<lambda>_ _. Inr (Some \<lparr>mo_x = 0, mo_y = 0, mo_width = 1920, mo_height = 1080\<rparr>)" 1900 500
    "Some \<lparr>mo_x = 0, mo_y = 0, mo_width = 1920, mo_height = 1080\<rparr>" None _ 400 600] by fastforce

lemma popup_placed_before_shown:
  "show_near_cursor macos True (Inr (x, y)) True True = (Inr (), ops) \<Longrightarrow> hd ops = SetPosition x y \<and> last ops = EmitShown"
  by (auto simp: show_near_cursor_def Let_def)

end
