(* ===== verification/App_Backend.thy ===== *)
theory App_Backend
  imports App_Tray Ipc_Wire Daemon
begin

text \<open>
  The Rust half of the app (\<open>apps/clipse-app/src-tauri/src\<close>): the commands of the webview
  (\<open>commands.rs\<close>), the connection to the daemon (\<open>connection.rs\<close>), the global hotkey (\<open>hotkey.rs\<close>), the
  login item (\<open>autostart.rs\<close>), the notch panel (\<open>notch.rs\<close>) and the daemon inside the app
  (\<open>daemon_host.rs\<close>). A client of the local protocol is its state and a function \<open>call\<close>, an argument;
  with the daemon's own handler behind it, it is \<open>daemon_call\<close>. What the desktop answers is the
  record \<open>desk\<close>.

  The client is behind a lock that is held for one call, so a call is one step; between two of
  them every other task may run. Background tasks are kept as a list and take their steps in any
  order. A call that never returns keeps the lock and is not modelled.
\<close>

section \<open>State\<close>

type_synonym 'c client_call = "request \<Rightarrow> 'c \<Rightarrow> (client_error + response) \<times> 'c"

record desk =
  dk_now :: u64
  dk_menu_ok :: bool
  dk_register_ok :: "ustr \<Rightarrow> bool"
  dk_unregister_ok :: bool
  dk_exe :: ustr
  dk_login_query_ok :: bool
  dk_login_disable_ok :: bool
  dk_login_enable_ok :: bool
  dk_login_skips_existing :: bool
  dk_panel_ok :: bool
  dk_macos :: bool

datatype ui_event =
    UiConnectionChanged bool
  | UiStatusChanged daemon_status
  | UiDevicesChanged "peer_info list"
  | UiDeviceChanged peer_info
  | UiClipAdded clip
  | UiClipUpdated clip
  | UiClipRemoved clip_id
  | UiSuppressed ustr
  | UiPairingSucceeded ustr
  | UiPairingEnded ustr

record notch_clip =
  nc_id :: string
  nc_preview :: ustr
  nc_kind :: string
  nc_source_label :: ustr
  nc_from_peer :: bool

datatype panel_message = PanelClips "notch_clip list" | PanelHide

text \<open>The rest of a background task.\<close>

datatype task = AskStatus | TellStatus daemon_status | AskPaused | AskSetPaused bool | AskLogin | SetLogin bool

text \<open>
  Where \<open>run_loop\<close> is. \<open>GotStatus\<close> and \<open>GotDevices\<close> have the answer and have not shown it yet;
  \<open>GotEvent\<close> has an event that the panel is redrawn for first.
\<close>

datatype loop_phase = Connecting | FetchStatus | GotStatus "daemon_status option" | FetchDevices
  | GotDevices "peer_info list" | FirstPanel | Listening | GotEvent event | Closing | Sleeping

record 'c app =
  ap_client :: "'c option"
  ap_tray :: tray
  ap_emitted :: "ui_event list"
  ap_hotkey :: ustr
  ap_shortcuts :: "ustr list"
  ap_login_item :: "ustr option"
  ap_panel :: "panel_message list option"
  ap_tasks :: "task list"
  ap_phase :: loop_phase
  ap_backoff :: nat
  ap_slept :: "nat list"
  ap_reconciled :: bool
  ap_local_device :: string

definition MIN_BACKOFF :: nat where
  "MIN_BACKOFF = 500"

definition MAX_BACKOFF :: nat where
  "MAX_BACKOFF = 5000"

section \<open>Hotkey and login item\<close>

text \<open>
  The plugins for shortcuts and login items are outside; \<open>desk\<close> says which calls succeed. What a call
  that succeeds leaves behind is what they document: a shortcut is registered or no longer so, the
  login item is there with the path of the executable or gone, and on some platforms enabling leaves
  an item that exists as it is.
\<close>

definition os_register :: "desk \<Rightarrow> ustr \<Rightarrow> 'c app \<Rightarrow> bool \<times> 'c app" where
  "os_register D key a =
     (if dk_register_ok D key \<and> key \<notin> set (ap_shortcuts a) then (True, a\<lparr>ap_shortcuts := ap_shortcuts a @ [key]\<rparr>) else (False, a))"

definition os_unregister :: "desk \<Rightarrow> ustr \<Rightarrow> 'c app \<Rightarrow> 'c app" where
  "os_unregister D key a = (if dk_unregister_ok D then a\<lparr>ap_shortcuts := filter (\<lambda>k. k \<noteq> key) (ap_shortcuts a)\<rparr> else a)"

definition register_initial :: "desk \<Rightarrow> ustr \<Rightarrow> 'c app \<Rightarrow> 'c app" where
  "register_initial D key a = snd (os_register D key a)"

definition reregister :: "desk \<Rightarrow> ustr \<Rightarrow> 'c app \<Rightarrow> bool \<times> 'c app" where
  "reregister D new_hotkey a =
     (if ap_hotkey a = new_hotkey then (True, a)
      else let a1 = (if ap_hotkey a = [] then a else os_unregister D (ap_hotkey a) a)
           in case os_register D new_hotkey a1 of
                (False, a2) \<Rightarrow> (False, a2)
              | (True, a2) \<Rightarrow> (True, a2\<lparr>ap_hotkey := new_hotkey\<rparr>))"

definition login_disable :: "desk \<Rightarrow> 'c app \<Rightarrow> 'c app" where
  "login_disable D a = (if dk_login_disable_ok D then a\<lparr>ap_login_item := None\<rparr> else a)"

definition login_enable :: "desk \<Rightarrow> 'c app \<Rightarrow> 'c app" where
  "login_enable D a =
     (if dk_login_enable_ok D \<and> (ap_login_item a = None \<or> \<not> dk_login_skips_existing D)
      then a\<lparr>ap_login_item := Some (dk_exe D)\<rparr> else a)"

definition login_apply :: "desk \<Rightarrow> bool \<Rightarrow> 'c app \<Rightarrow> 'c app" where
  "login_apply D enabled a =
     (let already = dk_login_query_ok D \<and> ap_login_item a \<noteq> None
      in if \<not> enabled then (if already then login_disable D a else a)
         else login_enable D (if already then login_disable D a else a))"

section \<open>Commands\<close>

text \<open>
  \<open>CmdTransport\<close> and \<open>CmdUnexpected\<close> are both \<open>CommandError::Transport\<close>, with the message of the
  client's error and of \<open>unexpected\<close>.
\<close>

datatype command_error = NotConnected | CmdDaemon error_code | CmdTransport client_error | CmdUnexpected ustr

definition command_error_from :: "client_error \<Rightarrow> command_error" where
  "command_error_from e = (case e of ClientDaemon c \<Rightarrow> CmdDaemon c | other \<Rightarrow> CmdTransport other)"

definition app_call :: "'c client_call \<Rightarrow> request \<Rightarrow> 'c app \<Rightarrow> (command_error + response) \<times> 'c app" where
  "app_call C r a =
     (case ap_client a of
        None \<Rightarrow> (Inl NotConnected, a)
      | Some c \<Rightarrow> (case C r c of (ans, c') \<Rightarrow> (map_err command_error_from ans, a\<lparr>ap_client := Some c'\<rparr>)))"

definition emit_ui :: "ui_event \<Rightarrow> 'c app \<Rightarrow> 'c app" where
  "emit_ui ev a = a\<lparr>ap_emitted := ap_emitted a @ [ev]\<rparr>"

definition on_tray :: "'x crates_scheme \<Rightarrow> desk \<Rightarrow> (tray_model \<Rightarrow> tray_model) \<Rightarrow> 'c app \<Rightarrow> 'c app" where
  "on_tray X D change a = a\<lparr>ap_tray := tray_update X (dk_now D) (dk_menu_ok D) change (ap_tray a)\<rparr>"

definition spawn_task :: "task \<Rightarrow> 'c app \<Rightarrow> 'c app" where
  "spawn_task t a = a\<lparr>ap_tasks := ap_tasks a @ [t]\<rparr>"

datatype ui_command =
    CmdHistory ipc_query
  | CmdSearch ustr ipc_query
  | CmdGetClip clip_id
  | CmdGetPayload clip_id clip_format
  | CmdApply clip_id
  | CmdPaste clip_id
  | CmdSetPinned clip_id bool
  | CmdDelete clip_id
  | CmdStatus
  | CmdSetPaused bool
  | CmdDevices
  | CmdGetSettings
  | CmdUpdateSettings settings
  | CmdBeginPairing
  | CmdPairWithCode ustr
  | CmdCancelPairing
  | CmdForgetDevice device_id

datatype ui_value = VClips "clip list" | VClip "clip option" | VPayload "ustr option" | VUnit | VStatus daemon_status
  | VDevices "peer_info list" | VSettings settings | VPairingCode ustr u64 | VPaired ustr

text \<open>One call, and what is made of the answer to it.\<close>

definition command :: "'c client_call \<Rightarrow> request \<Rightarrow> ustr \<Rightarrow> (response \<Rightarrow> ui_value option) \<Rightarrow> 'c app \<Rightarrow>
    (command_error + ui_value) \<times> 'c app" where
  "command C r what accept a =
     (case app_call C r a of
        (Inl e, a') \<Rightarrow> (Inl e, a')
      | (Inr resp, a') \<Rightarrow> (case accept resp of None \<Rightarrow> (Inl (CmdUnexpected what), a') | Some v \<Rightarrow> (Inr v, a')))"

definition accept_clips :: "response \<Rightarrow> ui_value option" where
  "accept_clips resp = (case resp of RespClips cs \<Rightarrow> Some (VClips cs) | _ \<Rightarrow> None)"

definition accept_unit :: "response \<Rightarrow> ui_value option" where
  "accept_unit resp = (case resp of RespOk \<Rightarrow> Some VUnit | _ \<Rightarrow> None)"

definition cmd_history :: "'c client_call \<Rightarrow> ipc_query \<Rightarrow> 'c app \<Rightarrow> (command_error + ui_value) \<times> 'c app" where
  "cmd_history C q = command C (ReqHistory q) (lit ''history'') accept_clips"

definition cmd_search :: "'c client_call \<Rightarrow> ustr \<Rightarrow> ipc_query \<Rightarrow> 'c app \<Rightarrow> (command_error + ui_value) \<times> 'c app" where
  "cmd_search C str q = command C (ReqSearch str q) (lit ''search'') accept_clips"

definition cmd_get_clip :: "'c client_call \<Rightarrow> clip_id \<Rightarrow> 'c app \<Rightarrow> (command_error + ui_value) \<times> 'c app" where
  "cmd_get_clip C i = command C (ReqGetClip i) (lit ''get_clip'') (\<lambda>resp. case resp of RespClip c \<Rightarrow> Some (VClip c) | _ \<Rightarrow> None)"

text \<open>\<open>enc\<close> is the encoder of the \<open>base64\<close> crate.\<close>

definition cmd_get_payload :: "(bytes \<Rightarrow> ustr) \<Rightarrow> 'c client_call \<Rightarrow> clip_id \<Rightarrow> clip_format \<Rightarrow> 'c app \<Rightarrow> (command_error + ui_value) \<times> 'c app" where
  "cmd_get_payload enc C i fmt =
     command C (ReqGetPayload i fmt) (lit ''get_payload'')
       (\<lambda>resp. case resp of RespPayloadBytes bs \<Rightarrow> Some (VPayload (map_option enc bs)) | _ \<Rightarrow> None)"

definition cmd_apply :: "'c client_call \<Rightarrow> clip_id \<Rightarrow> 'c app \<Rightarrow> (command_error + ui_value) \<times> 'c app" where
  "cmd_apply C i = command C (ReqApply i) (lit ''apply'') accept_unit"

definition paste_from :: "'c client_call \<Rightarrow> clip_id \<Rightarrow> 'c app \<Rightarrow> (command_error + ui_value) \<times> 'c app" where
  "paste_from C i = command C (ReqPaste i) (lit ''paste'') accept_unit"

definition cmd_set_pinned :: "'c client_call \<Rightarrow> clip_id \<Rightarrow> bool \<Rightarrow> 'c app \<Rightarrow> (command_error + ui_value) \<times> 'c app" where
  "cmd_set_pinned C i pinned = command C (ReqSetPinned i pinned) (lit ''set_pinned'') accept_unit"

definition cmd_delete :: "'c client_call \<Rightarrow> clip_id \<Rightarrow> 'c app \<Rightarrow> (command_error + ui_value) \<times> 'c app" where
  "cmd_delete C i = command C (ReqDelete i) (lit ''delete'') accept_unit"

definition cmd_status :: "'c client_call \<Rightarrow> 'c app \<Rightarrow> (command_error + ui_value) \<times> 'c app" where
  "cmd_status C = command C ReqStatus (lit ''status'') (\<lambda>resp. case resp of RespStatus st \<Rightarrow> Some (VStatus st) | _ \<Rightarrow> None)"

definition cmd_set_paused :: "'c client_call \<Rightarrow> bool \<Rightarrow> 'c app \<Rightarrow> (command_error + ui_value) \<times> 'c app" where
  "cmd_set_paused C p a =
     (case command C (ReqSetPaused p) (lit ''set_paused'') accept_unit a of
        (Inl e, a') \<Rightarrow> (Inl e, a')
      | (Inr v, a') \<Rightarrow> (Inr v, spawn_task AskStatus a'))"

definition cmd_devices :: "'c client_call \<Rightarrow> 'c app \<Rightarrow> (command_error + ui_value) \<times> 'c app" where
  "cmd_devices C = command C ReqDevices (lit ''devices'') (\<lambda>resp. case resp of RespDevices ds \<Rightarrow> Some (VDevices ds) | _ \<Rightarrow> None)"

definition cmd_begin_pairing :: "'c client_call \<Rightarrow> 'c app \<Rightarrow> (command_error + ui_value) \<times> 'c app" where
  "cmd_begin_pairing C =
     command C ReqBeginPairing (lit ''begin_pairing'')
       (\<lambda>resp. case resp of RespPairingCode code expires \<Rightarrow> Some (VPairingCode code expires) | _ \<Rightarrow> None)"

definition cmd_pair_with_code :: "'c client_call \<Rightarrow> ustr \<Rightarrow> 'c app \<Rightarrow> (command_error + ui_value) \<times> 'c app" where
  "cmd_pair_with_code C code =
     command C (ReqPairWithCode code) (lit ''pair_with_code'') (\<lambda>resp. case resp of RespPaired lbl \<Rightarrow> Some (VPaired lbl) | _ \<Rightarrow> None)"

definition cmd_cancel_pairing :: "'c client_call \<Rightarrow> 'c app \<Rightarrow> (command_error + ui_value) \<times> 'c app" where
  "cmd_cancel_pairing C = command C ReqCancelPairing (lit ''cancel_pairing'') accept_unit"

definition cmd_forget_device :: "'c client_call \<Rightarrow> device_id \<Rightarrow> 'c app \<Rightarrow> (command_error + ui_value) \<times> 'c app" where
  "cmd_forget_device C dev = command C (ReqForgetDevice dev) (lit ''forget_device'') accept_unit"

definition accept_settings :: "response \<Rightarrow> ui_value option" where
  "accept_settings resp = (case resp of RespSettings cfg \<Rightarrow> Some (VSettings cfg) | _ \<Rightarrow> None)"

definition cmd_get_settings :: "'c client_call \<Rightarrow> 'c app \<Rightarrow> (command_error + ui_value) \<times> 'c app" where
  "cmd_get_settings C = command C ReqGetSettings (lit ''get_settings'') accept_settings"

definition cmd_update_settings :: "'c client_call \<Rightarrow> desk \<Rightarrow> settings \<Rightarrow> 'c app \<Rightarrow> (command_error + ui_value) \<times> 'c app" where
  "cmd_update_settings C D cfg a =
     (case command C (ReqUpdateSettings cfg) (lit ''update_settings'') accept_settings a of
        (Inr (VSettings applied), a') \<Rightarrow>
          (Inr (VSettings applied), login_apply D (s_start_at_login applied) (snd (reregister D (s_hotkey applied) a')))
      | other \<Rightarrow> other)"

definition invoke :: "(bytes \<Rightarrow> ustr) \<Rightarrow> 'c client_call \<Rightarrow> desk \<Rightarrow> ui_command \<Rightarrow> 'c app \<Rightarrow> (command_error + ui_value) \<times> 'c app" where
  "invoke enc C D cmd =
     (case cmd of
        CmdHistory q \<Rightarrow> cmd_history C q
      | CmdSearch str q \<Rightarrow> cmd_search C str q
      | CmdGetClip i \<Rightarrow> cmd_get_clip C i
      | CmdGetPayload i fmt \<Rightarrow> cmd_get_payload enc C i fmt
      | CmdApply i \<Rightarrow> cmd_apply C i
      | CmdPaste i \<Rightarrow> paste_from C i
      | CmdSetPinned i pinned \<Rightarrow> cmd_set_pinned C i pinned
      | CmdDelete i \<Rightarrow> cmd_delete C i
      | CmdStatus \<Rightarrow> cmd_status C
      | CmdSetPaused p \<Rightarrow> cmd_set_paused C p
      | CmdDevices \<Rightarrow> cmd_devices C
      | CmdGetSettings \<Rightarrow> cmd_get_settings C
      | CmdUpdateSettings cfg \<Rightarrow> cmd_update_settings C D cfg
      | CmdBeginPairing \<Rightarrow> cmd_begin_pairing C
      | CmdPairWithCode code \<Rightarrow> cmd_pair_with_code C code
      | CmdCancelPairing \<Rightarrow> cmd_cancel_pairing C
      | CmdForgetDevice dev \<Rightarrow> cmd_forget_device C dev)"

section \<open>Events for the webview and the tray\<close>

definition forward_status :: "'x crates_scheme \<Rightarrow> desk \<Rightarrow> daemon_status \<Rightarrow> 'c app \<Rightarrow> 'c app" where
  "forward_status X D st a = on_tray X D (model_status st) (emit_ui (UiStatusChanged st) a)"

definition forward_devices :: "'x crates_scheme \<Rightarrow> desk \<Rightarrow> peer_info list \<Rightarrow> 'c app \<Rightarrow> 'c app" where
  "forward_devices X D ds a = on_tray X D (model_devices ds) (emit_ui (UiDevicesChanged ds) a)"

definition forward_event :: "'x crates_scheme \<Rightarrow> desk \<Rightarrow> event \<Rightarrow> 'c app \<Rightarrow> 'c app" where
  "forward_event X D ev a =
     (case ev of
        ClipAdded c \<Rightarrow> emit_ui (UiClipAdded c) a
      | ClipUpdated c \<Rightarrow> emit_ui (UiClipUpdated c) a
      | ClipRemoved i \<Rightarrow> emit_ui (UiClipRemoved i) a
      | StatusChanged st \<Rightarrow> forward_status X D st a
      | DeviceChanged p \<Rightarrow> on_tray X D (model_device_changed p) (emit_ui (UiDeviceChanged p) a)
      | Suppressed reason \<Rightarrow> emit_ui (UiSuppressed reason) a
      | PairingSucceeded lbl \<Rightarrow> emit_ui (UiPairingSucceeded lbl) a
      | PairingEnded reason \<Rightarrow> emit_ui (UiPairingEnded reason) a)"

definition emit_connection_state :: "'x crates_scheme \<Rightarrow> desk \<Rightarrow> bool \<Rightarrow> 'c app \<Rightarrow> 'c app" where
  "emit_connection_state X D conn a =
     (let a1 = emit_ui (UiConnectionChanged conn) a in if conn then a1 else on_tray X D model_disconnected a1)"

section \<open>The notch panel\<close>

definition VISIBLE_CLIPS :: u32 where
  "VISIBLE_CLIPS = 3"

definition notch_clip_of :: "'x crates_scheme \<Rightarrow> string \<Rightarrow> clip \<Rightarrow> notch_clip" where
  "notch_clip_of X local_device c =
     \<lparr>nc_id = clip_id_to_string X (c_id c), nc_preview = c_preview c, nc_kind = kind_str (c_kind c),
      nc_source_label = src_device_label (c_source c),
      nc_from_peer = (device_to_string X (src_device (c_source c)) \<noteq> local_device)\<rparr>"

definition panel_send :: "desk \<Rightarrow> panel_message \<Rightarrow> 'c app \<Rightarrow> 'c app" where
  "panel_send D m a = (if dk_panel_ok D then a\<lparr>ap_panel := map_option (\<lambda>ms. ms @ [m]) (ap_panel a)\<rparr> else a)"

definition notch_show :: "'x crates_scheme \<Rightarrow> desk \<Rightarrow> clip list \<Rightarrow> 'c app \<Rightarrow> 'c app" where
  "notch_show X D clips a =
     panel_send D (PanelClips (map (notch_clip_of X (ap_local_device a))
       (take (unat VISIBLE_CLIPS) (filter (\<lambda>c. \<not> c_deleted c) clips)))) a"

definition notch_refresh :: "'x crates_scheme \<Rightarrow> 'c client_call \<Rightarrow> desk \<Rightarrow> 'c app \<Rightarrow> 'c app" where
  "notch_refresh X C D a =
     (if ap_panel a = None then a
      else case app_call C (ReqHistory (ipc_query_page VISIBLE_CLIPS)) a of
        (Inr (RespClips clips), a') \<Rightarrow>
          if list_all c_deleted clips then panel_send D PanelHide a' else notch_show X D clips a'
      | (_, a') \<Rightarrow> a')"

text \<open>A line of the panel's output; \<open>parse\<close> is the JSON reader, with the two members that are looked up.\<close>

definition notch_line :: "'x crates_scheme \<Rightarrow> (ustr \<Rightarrow> (string option \<times> string option) option) \<Rightarrow> 'c client_call \<Rightarrow> ustr \<Rightarrow> 'c app \<Rightarrow> 'c app" where
  "notch_line X parse C line a =
     (case parse line of
        Some (Some kind, Some i) \<Rightarrow>
          (if kind = ''paste'' then (case clip_id_from_str X i of Inr cid \<Rightarrow> snd (paste_from C cid a) | Inl _ \<Rightarrow> a) else a)
      | _ \<Rightarrow> a)"

section \<open>The connection loop\<close>

definition connect_both :: "client_error + 'c \<Rightarrow> client_error + unit \<Rightarrow> client_error + unit \<Rightarrow> client_error + 'c" where
  "connect_both cmd evt subscribed = bind_r cmd (\<lambda>c. bind_r evt (\<lambda>_. bind_r subscribed (\<lambda>_. Inr c)))"

definition fetch_status :: "'c client_call \<Rightarrow> 'c app \<Rightarrow> daemon_status option \<times> 'c app" where
  "fetch_status C a = (case app_call C ReqStatus a of (Inr (RespStatus st), a') \<Rightarrow> (Some st, a') | (_, a') \<Rightarrow> (None, a'))"

definition fetch_devices :: "'c client_call \<Rightarrow> 'c app \<Rightarrow> peer_info list \<times> 'c app" where
  "fetch_devices C a = (case app_call C ReqDevices a of (Inr (RespDevices ds), a') \<Rightarrow> (ds, a') | (_, a') \<Rightarrow> ([], a'))"

definition loop_connected :: "'x crates_scheme \<Rightarrow> desk \<Rightarrow> client_error + 'c \<Rightarrow> 'c app \<Rightarrow> 'c app" where
  "loop_connected X D r a =
     (case r of
        Inr c \<Rightarrow> (emit_connection_state X D True (a\<lparr>ap_client := Some c\<rparr>))
                 \<lparr>ap_backoff := MIN_BACKOFF, ap_local_device := '''', ap_phase := FetchStatus\<rparr>
      | Inl _ \<Rightarrow> (emit_connection_state X D False a)\<lparr>ap_phase := Sleeping\<rparr>)"

definition loop_status :: "'x crates_scheme \<Rightarrow> desk \<Rightarrow> daemon_status option \<Rightarrow> 'c app \<Rightarrow> 'c app" where
  "loop_status X D got a =
     (case got of
        None \<Rightarrow> a\<lparr>ap_phase := FetchDevices\<rparr>
      | Some st \<Rightarrow>
          let a1 = forward_status X D st (a\<lparr>ap_local_device := device_to_string X (ds_device st)\<rparr>);
              a2 = (if ap_reconciled a1 then a1 else spawn_task AskLogin (a1\<lparr>ap_reconciled := True\<rparr>))
          in a2\<lparr>ap_phase := FetchDevices\<rparr>)"

definition redraws_panel :: "event \<Rightarrow> bool" where
  "redraws_panel ev = (case ev of ClipAdded _ \<Rightarrow> True | ClipRemoved _ \<Rightarrow> True | ClipUpdated _ \<Rightarrow> True | _ \<Rightarrow> False)"

text \<open>\<open>EventStream::next\<close> gave an event, or an error, which ends the inner loop.\<close>

definition loop_event :: "'x crates_scheme \<Rightarrow> 'c client_call \<Rightarrow> desk \<Rightarrow> event \<Rightarrow> 'c app \<Rightarrow> 'c app" where
  "loop_event X C D ev a =
     (if dk_macos D \<and> redraws_panel ev then (notch_refresh X C D a)\<lparr>ap_phase := GotEvent ev\<rparr>
      else (forward_event X D ev a)\<lparr>ap_phase := Listening\<rparr>)"

definition loop_sleep :: "'c app \<Rightarrow> 'c app" where
  "loop_sleep a = a\<lparr>ap_slept := ap_slept a @ [ap_backoff a], ap_backoff := min (ap_backoff a * 2) MAX_BACKOFF,
     ap_phase := Connecting\<rparr>"

text \<open>
  One step of \<open>run_loop\<close> in each phase. \<open>dialled\<close> is the result of \<open>connect_both\<close>, \<open>next\<close> of the event
  stream; the other phases do not look at them.
\<close>

definition loop_step :: "'x crates_scheme \<Rightarrow> 'c client_call \<Rightarrow> desk \<Rightarrow> client_error + 'c \<Rightarrow> client_error + event \<Rightarrow> 'c app \<Rightarrow> 'c app" where
  "loop_step X C D dialled next a =
     (case ap_phase a of
        Connecting \<Rightarrow> loop_connected X D dialled a
      | FetchStatus \<Rightarrow> (case fetch_status C a of (got, a') \<Rightarrow> a'\<lparr>ap_phase := GotStatus got\<rparr>)
      | GotStatus got \<Rightarrow> loop_status X D got a
      | FetchDevices \<Rightarrow> (case fetch_devices C a of (ds, a') \<Rightarrow> a'\<lparr>ap_phase := GotDevices ds\<rparr>)
      | GotDevices ds \<Rightarrow> (forward_devices X D ds a)\<lparr>ap_phase := (if dk_macos D then FirstPanel else Listening)\<rparr>
      | FirstPanel \<Rightarrow> (notch_refresh X C D a)\<lparr>ap_phase := Listening\<rparr>
      | Listening \<Rightarrow> (case next of Inr ev \<Rightarrow> loop_event X C D ev a | Inl _ \<Rightarrow> a\<lparr>ap_client := None, ap_phase := Closing\<rparr>)
      | GotEvent ev \<Rightarrow> (forward_event X D ev a)\<lparr>ap_phase := Listening\<rparr>
      | Closing \<Rightarrow> (emit_connection_state X D False a)\<lparr>ap_phase := Sleeping\<rparr>
      | Sleeping \<Rightarrow> loop_sleep a)"

section \<open>Background tasks\<close>

text \<open>
  One step of a task, and what is left of it: \<open>refresh_tray_status\<close> (\<open>AskStatus\<close>),
  \<open>toggle_pause_from_tray\<close> (\<open>AskPaused\<close>) and \<open>apply_from_settings\<close> (\<open>AskLogin\<close>).
\<close>

definition task_step :: "'x crates_scheme \<Rightarrow> 'c client_call \<Rightarrow> desk \<Rightarrow> task \<Rightarrow> 'c app \<Rightarrow> task list \<times> 'c app" where
  "task_step X C D t a =
     (case t of
        AskStatus \<Rightarrow>
          (case app_call C ReqStatus a of (Inr (RespStatus st), a') \<Rightarrow> ([TellStatus st], a') | (_, a') \<Rightarrow> ([], a'))
      | TellStatus st \<Rightarrow> ([], forward_status X D st a)
      | AskPaused \<Rightarrow>
          (case app_call C ReqStatus a of
             (Inr (RespStatus st), a') \<Rightarrow> ([AskSetPaused (\<not> ds_paused st)], a') | (_, a') \<Rightarrow> ([], a'))
      | AskSetPaused p \<Rightarrow> ([], snd (app_call C (ReqSetPaused p) a))
      | AskLogin \<Rightarrow>
          (case app_call C ReqGetSettings a of
             (Inr (RespSettings cfg), a') \<Rightarrow> ([SetLogin (s_start_at_login cfg)], a') | (_, a') \<Rightarrow> ([], a'))
      | SetLogin wanted \<Rightarrow> ([], login_apply D wanted a))"

text \<open>
  The app's steps. \<open>P C\<close> holds of the ways in which a call may be answered at that moment; whatever
  else changes the other end of the connection is \<open>outside\<close>.
\<close>

inductive app_step :: "'x crates_scheme \<Rightarrow> ('c client_call \<Rightarrow> bool) \<Rightarrow> 'c app \<Rightarrow> 'c app \<Rightarrow> bool" for X P where
  loop: "P C \<Longrightarrow> app_step X P a (loop_step X C D (connect_both cmd evt subscribed) next a)"
| task: "P C \<Longrightarrow> ap_tasks a = ts @ t # us \<Longrightarrow> task_step X C D t (a\<lparr>ap_tasks := ts @ us\<rparr>) = (rest, a') \<Longrightarrow>
    app_step X P a (a'\<lparr>ap_tasks := ap_tasks a' @ rest\<rparr>)"
| command: "P C \<Longrightarrow> app_step X P a (snd (invoke enc C D cmd a))"
| tray_toggle: "app_step X P a (spawn_task AskPaused a)"
| panel_line: "P C \<Longrightarrow> app_step X P a (notch_line X parse C line a)"
| outside: "ap_client a = Some c \<Longrightarrow> app_step X P a (a\<lparr>ap_client := Some c'\<rparr>)"

inductive_cases app_stepE: "app_step X P a a'"

text \<open>Where the app looks for its data; \<open>None\<close> is a variable that is not set, a platform without a directory.\<close>

definition resolve_paths :: "ustr option \<Rightarrow> ustr option \<Rightarrow> ustr" where
  "resolve_paths data_dir platform_default =
     (case data_dir of Some dir \<Rightarrow> dir
      | None \<Rightarrow> (case platform_default of Some dir \<Rightarrow> dir | None \<Rightarrow> lit ''.clipse-dev/app''))"

text \<open>The state after \<open>setup\<close>.\<close>

definition app_new :: "'x crates_scheme \<Rightarrow> desk \<Rightarrow> ustr \<Rightarrow> ustr option \<Rightarrow> bool \<Rightarrow> 'c app" where
  "app_new X D default_hotkey login_item panel =
     register_initial D default_hotkey
       \<lparr>ap_client = None, ap_tray = tray_build X (dk_now D), ap_emitted = [], ap_hotkey = default_hotkey, ap_shortcuts = [],
        ap_login_item = login_item, ap_panel = (if panel then Some [] else None), ap_tasks = [], ap_phase = Connecting,
        ap_backoff = MIN_BACKOFF, ap_slept = [], ap_reconciled = False, ap_local_device = ''''\<rparr>"

section \<open>The daemon inside the app\<close>

text \<open>
  The task of \<open>spawn\<close> and the handle the exit hook has: whether the handle is still there and has its
  sender, whether the daemon was told to stop, whether its task runs, and whether it has reported
  that it stopped.
\<close>

record host =
  ho_handle :: bool
  ho_sender :: bool
  ho_told :: bool
  ho_running :: bool
  ho_reported :: bool

definition host_spawn :: host where
  "host_spawn = \<lparr>ho_handle = True, ho_sender = True, ho_told = False, ho_running = True, ho_reported = False\<rparr>"

text \<open>
  \<open>clipsed::run\<close> returns when it was told to stop (or the sender is gone), or by itself because
  another process is the daemon or starting it failed.
\<close>

definition host_task_ends :: "host \<Rightarrow> host" where
  "host_task_ends h = (if ho_running h then h\<lparr>ho_running := False, ho_reported := True\<rparr> else h)"

text \<open>\<open>in_time\<close>: the daemon, told to stop, does so within the grace period.\<close>

definition host_shutdown :: "bool \<Rightarrow> host \<Rightarrow> bool \<times> host" where
  "host_shutdown in_time h =
     (let h1 = (if ho_sender h then h\<lparr>ho_sender := False, ho_told := True\<rparr> else h);
          h2 = (if in_time then host_task_ends h1 else h1)
      in (ho_reported h2, h2\<lparr>ho_reported := False\<rparr>))"

definition host_exit :: "bool \<Rightarrow> host \<Rightarrow> bool option \<times> host" where
  "host_exit in_time h =
     (if ho_handle h then (case host_shutdown in_time (h\<lparr>ho_handle := False\<rparr>) of (ok, h') \<Rightarrow> (Some ok, h')) else (None, h))"

end
