(* ===== verification/App_Props.thy ===== *)
theory App_Props
  imports App_Backend Daemon_Run
begin

text \<open>
  What the Rust half of the app does with a daemon behind it. Every command but one is exactly one
  request and understands the daemon's answer to it; saving the settings does not: the daemon
  answers \<open>Ok\<close> where the command expects the settings, so the settings are saved, the user is told
  that they were not, and neither the hotkey nor the login item follows. In every interleaving of the
  app's tasks a client is there exactly while the loop is connected, and the waits between two
  attempts are from half a second to five seconds.
\<close>

section \<open>Commands and the daemon's answers\<close>

definition daemon_call :: "env \<Rightarrow> world \<Rightarrow> daemon client_call" where
  "daemon_call E w r d =
     (case handle E w r d of (resp, d') \<Rightarrow> (case resp of RespError c \<Rightarrow> Inl (ClientDaemon c) | _ \<Rightarrow> Inr resp, d'))"

fun request_of :: "ui_command \<Rightarrow> request" where
  "request_of (CmdHistory q) = ReqHistory q"
| "request_of (CmdSearch str q) = ReqSearch str q"
| "request_of (CmdGetClip i) = ReqGetClip i"
| "request_of (CmdGetPayload i fmt) = ReqGetPayload i fmt"
| "request_of (CmdApply i) = ReqApply i"
| "request_of (CmdPaste i) = ReqPaste i"
| "request_of (CmdSetPinned i p) = ReqSetPinned i p"
| "request_of (CmdDelete i) = ReqDelete i"
| "request_of CmdStatus = ReqStatus"
| "request_of (CmdSetPaused p) = ReqSetPaused p"
| "request_of CmdDevices = ReqDevices"
| "request_of CmdGetSettings = ReqGetSettings"
| "request_of (CmdUpdateSettings cfg) = ReqUpdateSettings cfg"
| "request_of CmdBeginPairing = ReqBeginPairing"
| "request_of (CmdPairWithCode code) = ReqPairWithCode code"
| "request_of CmdCancelPairing = ReqCancelPairing"
| "request_of (CmdForgetDevice dev) = ReqForgetDevice dev"

text \<open>What each request is answered with, if not with an error.\<close>

definition answers_to :: "request \<Rightarrow> response \<Rightarrow> bool" where
  "answers_to r resp \<longleftrightarrow> (\<exists>c. resp = RespError c) \<or>
     (case r of
        ReqHistory _ \<Rightarrow> \<exists>cs. resp = RespClips cs
      | ReqSearch _ _ \<Rightarrow> \<exists>cs. resp = RespClips cs
      | ReqGetClip _ \<Rightarrow> \<exists>c. resp = RespClip c
      | ReqGetPayload _ _ \<Rightarrow> \<exists>bs. resp = RespPayloadBytes bs
      | ReqStatus \<Rightarrow> \<exists>st. resp = RespStatus st
      | ReqDevices \<Rightarrow> \<exists>ds. resp = RespDevices ds
      | ReqGetSettings \<Rightarrow> \<exists>cfg. resp = RespSettings cfg
      | ReqBeginPairing \<Rightarrow> \<exists>c t. resp = RespPairingCode c t
      | ReqPairWithCode _ \<Rightarrow> \<exists>l. resp = RespPaired l
      | ReqHello _ _ \<Rightarrow> \<exists>v n dev. resp = RespHello v n dev
      | _ \<Rightarrow> resp = RespOk)"

lemma store_response_cases: "(\<exists>c. store_response r k = RespError c) \<or> (\<exists>x. store_response r k = k x)"
  by (cases r) (auto simp: store_response_def)

lemma apply_answers: "fst (daemon_apply E w i d) = RespOk \<or> (\<exists>c. fst (daemon_apply E w i d) = RespError c)"
  by (auto simp: daemon_apply_def split: sum.splits option.splits prod.splits)

lemma begin_pairing_answers:
  "(\<exists>c. fst (begin_pairing E w d) = RespError c) \<or> (\<exists>c t. fst (begin_pairing E w d) = RespPairingCode c t)"
  by (auto simp: begin_pairing_def split: option.splits sum.splits prod.splits)

lemma pair_with_code_answers:
  "(\<exists>c. fst (pair_with_code E w typed d) = RespError c) \<or> (\<exists>l. fst (pair_with_code E w typed d) = RespPaired l)"
  by (auto simp: pair_with_code_def Let_def split: option.splits sum.splits prod.splits bool.splits)

lemma handle_answers: "answers_to r (fst (handle E w r d))"
proof (cases r)
  case (ReqHistory q)
  then show ?thesis using store_response_cases by (auto simp: answers_to_def handle_def)
next
  case (ReqSearch str q)
  then show ?thesis using store_response_cases by (auto simp: answers_to_def handle_def)
next
  case (ReqGetClip i)
  then show ?thesis using store_response_cases by (auto simp: answers_to_def handle_def)
next
  case (ReqGetPayload i fmt)
  then show ?thesis using store_response_cases [of _ RespPayloadBytes]
    by (auto simp: answers_to_def handle_def handle_get_payload_def split: sum.splits option.splits prod.splits)
next
  case (ReqApply i)
  then show ?thesis using apply_answers [of E w i d] by (auto simp: answers_to_def handle_def)
next
  case (ReqPaste i)
  then show ?thesis using apply_answers [of E w i d]
    by (auto simp: answers_to_def handle_def handle_paste_def split: prod.splits)
next
  case (ReqSetPinned i p)
  then show ?thesis by (auto simp: answers_to_def handle_def handle_set_pinned_def Let_def split: prod.splits sum.splits)
next
  case (ReqDelete i)
  then show ?thesis by (auto simp: answers_to_def handle_def handle_delete_def split: prod.splits sum.splits)
next
  case (ReqForgetDevice dev)
  then show ?thesis by (auto simp: answers_to_def handle_def forget_device_def split: option.splits prod.splits sum.splits)
next
  case ReqBeginPairing
  then show ?thesis using begin_pairing_answers by (auto simp: answers_to_def handle_def)
next
  case (ReqPairWithCode code)
  then show ?thesis using pair_with_code_answers by (auto simp: answers_to_def handle_def)
qed (simp_all add: answers_to_def handle_def Let_def)

text \<open>A command on a connected app, from the answer it gets.\<close>

lemma command_answer:
  assumes "ap_client a = Some d" "handle E w r d = (resp, d')"
  shows "command (daemon_call E w) r what accept a =
    ((case resp of RespError c \<Rightarrow> Inl (CmdDaemon c) | _ \<Rightarrow> (case accept resp of None \<Rightarrow> Inl (CmdUnexpected what) | Some v \<Rightarrow> Inr v)),
     a\<lparr>ap_client := Some d'\<rparr>)"
  using assms by (cases resp)
    (auto simp: command_def app_call_def daemon_call_def command_error_from_def split: option.splits)

lemmas command_defs = cmd_history_def cmd_search_def cmd_get_clip_def cmd_get_payload_def cmd_apply_def paste_from_def
  cmd_set_pinned_def cmd_delete_def cmd_status_def cmd_set_paused_def cmd_devices_def cmd_get_settings_def
  cmd_begin_pairing_def cmd_pair_with_code_def cmd_cancel_pairing_def cmd_forget_device_def accept_clips_def
  accept_unit_def accept_settings_def


definition sample_desk :: desk where
  "sample_desk = \<lparr>dk_now = 0, dk_menu_ok = True, dk_register_ok = (\<lambda>key. key \<noteq> lit ''Nope''), dk_unregister_ok = True, dk_exe = lit ''clipse'',
     dk_login_query_ok = True, dk_login_disable_ok = True, dk_login_enable_ok = True, dk_login_skips_existing = True,
     dk_panel_ok = True, dk_macos = False\<rparr>"

definition sample_key :: ustr where
  "sample_key = s_hotkey (default_settings [])"

definition sample_app :: "daemon app" where
  "sample_app = (app_new sample_env sample_desk sample_key None False)\<lparr>ap_client := Some (sample_start 1)\<rparr>"


section \<open>Runs of the app\<close>

definition known_when_connected :: "tray_model \<Rightarrow> bool" where
  "known_when_connected m \<longleftrightarrow> (tm_connected m \<longrightarrow> tm_status m \<noteq> None)"

lemma known_updates [simp]:
  "known_when_connected (model_status st m)"
  "known_when_connected (model_devices ds m) = known_when_connected m"
  "known_when_connected (model_device_changed p m) = known_when_connected m"
  "known_when_connected (model_disconnected m)"
  by (simp_all add: known_when_connected_def model_status_def model_devices_def model_device_changed_def model_disconnected_def)

definition app_inv :: "'c app \<Rightarrow> bool" where
  "app_inv a \<longleftrightarrow> known_when_connected (ty_model (ap_tray a)) \<and>
     (ap_client a = None \<longleftrightarrow> ap_phase a \<in> {Connecting, Closing, Sleeping}) \<and>
     MIN_BACKOFF \<le> ap_backoff a \<and> ap_backoff a \<le> MAX_BACKOFF \<and> (\<forall>ms \<in> set (ap_slept a). MIN_BACKOFF \<le> ms \<and> ms \<le> MAX_BACKOFF)"

text \<open>What an operation leaves alone that only calls the daemon or the desktop.\<close>

definition calm :: "'c app \<Rightarrow> 'c app \<Rightarrow> bool" where
  "calm a a' \<longleftrightarrow> ty_model (ap_tray a') = ty_model (ap_tray a) \<and> (ap_client a' = None \<longleftrightarrow> ap_client a = None) \<and>
     ap_phase a' = ap_phase a \<and> ap_backoff a' = ap_backoff a \<and> ap_slept a' = ap_slept a"

lemma calm_inv: "calm a a' \<Longrightarrow> app_inv a \<Longrightarrow> app_inv a'"
  by (auto simp: calm_def app_inv_def)

lemma calm_refl: "calm a a"
  by (simp add: calm_def)

lemma calm_trans: "calm a b \<Longrightarrow> calm b c \<Longrightarrow> calm a c"
  by (simp add: calm_def)

lemma call_calm: "app_call C r a = (res, a') \<Longrightarrow> calm a a'"
  by (auto simp: app_call_def calm_def split: option.splits prod.splits)

lemma command_calm: "calm a (snd (command C r what accept a))"
  by (auto simp: command_def split: prod.splits sum.splits option.splits intro: call_calm)

lemma register_calm: "calm a (snd (os_register D key a))" "calm a (os_unregister D key a)"
  by (simp_all add: os_register_def os_unregister_def calm_def)

lemma reregister_calm: "calm a (snd (reregister D key a))"
  by (auto simp: reregister_def os_register_def os_unregister_def calm_def Let_def)

lemma login_calm: "calm a (login_apply D wanted a)"
  by (auto simp: login_apply_def login_enable_def login_disable_def calm_def Let_def)

lemma spawn_calm: "calm a (spawn_task t a)"
  by (simp add: spawn_task_def calm_def)

lemma update_settings_calm: "calm a (snd (cmd_update_settings C D cfg a))"
proof (cases "command C (ReqUpdateSettings cfg) (lit ''update_settings'') accept_settings a")
  case (Pair res a1)
  then have "calm a a1" using command_calm [of a C "ReqUpdateSettings cfg" "lit ''update_settings''" accept_settings] by simp
  then have "calm a (login_apply D on (snd (reregister D key a1)))" for on key
    by (rule calm_trans [OF calm_trans [OF _ reregister_calm] login_calm])
  then show ?thesis using \<open>calm a a1\<close> unfolding cmd_update_settings_def Pair by (simp split: sum.split ui_value.split)
qed

lemma set_paused_calm: "calm a (snd (cmd_set_paused C p a))"
  using command_calm [of a C "ReqSetPaused p" "lit ''set_paused''" accept_unit]
  by (auto simp: cmd_set_paused_def split: prod.splits sum.splits intro: calm_trans [OF _ spawn_calm])

lemma invoke_calm: "calm a (snd (invoke enc C D cmd a))"
  by (cases cmd) (simp_all only: invoke_def ui_command.case update_settings_calm set_paused_calm cmd_history_def cmd_search_def
    cmd_get_clip_def cmd_get_payload_def cmd_apply_def paste_from_def cmd_set_pinned_def cmd_delete_def cmd_status_def
    cmd_devices_def cmd_get_settings_def cmd_begin_pairing_def cmd_pair_with_code_def cmd_cancel_pairing_def
    cmd_forget_device_def command_calm)

lemma refresh_calm: "calm a (notch_refresh X C D a)"
proof (cases "app_call C (ReqHistory (ipc_query_page VISIBLE_CLIPS)) a")
  case (Pair res a1)
  then have c: "calm a a1" by (rule call_calm)
  have "calm a (panel_send D m a1)" for m
    using c by (simp add: panel_send_def calm_def)
  then show ?thesis
    using c by (simp add: notch_refresh_def Pair notch_show_def calm_refl split: sum.split response.split)
qed

lemma line_calm: "calm a (notch_line X parse C line a)"
  by (simp add: notch_line_def calm_refl paste_from_def command_calm split: option.split sum.split prod.split)

lemma forward_status_inv: "app_inv a \<Longrightarrow> app_inv (forward_status X D st a)"
  by (simp add: app_inv_def forward_status_def on_tray_def emit_ui_def tray_update_def Let_def)

lemma forward_event_inv: "app_inv a \<Longrightarrow> app_inv (forward_event X D ev a)"
  by (cases ev) (simp_all add: forward_event_def forward_status_inv, simp_all add: app_inv_def on_tray_def emit_ui_def tray_update_def Let_def)

lemma task_step_inv:
  assumes "app_inv a" "task_step X C D t a = (rest, a')"
  shows "app_inv a'"
proof (cases t)
  case (TellStatus st)
  then show ?thesis using assms by (auto simp: task_step_def forward_status_inv)
next
  case (SetLogin wanted)
  then show ?thesis using assms calm_inv [OF login_calm] by (auto simp: task_step_def)
qed (use assms in \<open>auto simp: task_step_def split: prod.splits sum.splits response.splits intro: calm_inv [OF call_calm] calm_inv [OF call_calm [OF surjective_pairing]]\<close>)

lemma in_phase: "app_inv a \<Longrightarrow> (ap_client a = None \<longleftrightarrow> ph \<in> {Connecting, Closing, Sleeping}) \<Longrightarrow> app_inv (a\<lparr>ap_phase := ph\<rparr>)"
  by (simp add: app_inv_def)

lemma app_new_inv: "app_inv (app_new X D key item panel)"
  by (simp add: app_new_def register_initial_def os_register_def app_inv_def tray_build_def tray_model_default_def
    known_when_connected_def MIN_BACKOFF_def MAX_BACKOFF_def)

lemma connected_inv: "app_inv a \<Longrightarrow> app_inv (loop_connected X D r a)" if "ap_phase a = Connecting"
  using that by (cases r) (simp_all add: loop_connected_def emit_connection_state_def emit_ui_def on_tray_def tray_update_def Let_def
    app_inv_def MIN_BACKOFF_def MAX_BACKOFF_def)

lemma sleep_inv: "app_inv a \<Longrightarrow> ap_phase a = Sleeping \<Longrightarrow> app_inv (loop_sleep a)"
  by (auto simp: app_inv_def loop_sleep_def MIN_BACKOFF_def MAX_BACKOFF_def)

lemma loop_status_inv: "app_inv a \<Longrightarrow> ap_phase a = GotStatus got \<Longrightarrow> app_inv (loop_status X D got a)"
  by (cases got) (simp_all add: loop_status_def app_inv_def forward_status_def on_tray_def emit_ui_def tray_update_def spawn_task_def Let_def)

lemma calm_client: "calm a a' \<Longrightarrow> ap_client a' = None \<longleftrightarrow> ap_client a = None"
  by (simp add: calm_def)

lemma event_client: "ap_client (forward_event X D ev a) = ap_client a"
  by (cases ev) (simp_all add: forward_event_def forward_status_def on_tray_def emit_ui_def)

lemma loop_step_inv:
  assumes a: "app_inv a"
  shows "app_inv (loop_step X C D dialled next a)"
proof (cases "ap_phase a")
  case Connecting
  then show ?thesis using connected_inv [OF Connecting a] by (simp add: loop_step_def)
next
  case FetchStatus
  obtain got a' where f: "fetch_status C a = (got, a')" by (cases "fetch_status C a")
  then have "calm a a'" by (auto simp: fetch_status_def split: prod.splits sum.splits response.splits intro: call_calm)
  then show ?thesis using calm_inv [OF _ a] FetchStatus a by (auto simp: loop_step_def f app_inv_def calm_def)
next
  case (GotStatus got)
  then show ?thesis using loop_status_inv [OF a GotStatus] by (simp add: loop_step_def)
next
  case FetchDevices
  obtain ds a' where f: "fetch_devices C a = (ds, a')" by (cases "fetch_devices C a")
  then have "calm a a'" by (auto simp: fetch_devices_def split: prod.splits sum.splits response.splits intro: call_calm)
  then show ?thesis using calm_inv [OF _ a] FetchDevices a by (auto simp: loop_step_def f app_inv_def calm_def)
next
  case (GotDevices ds)
  then show ?thesis using a by (simp add: loop_step_def forward_devices_def on_tray_def emit_ui_def tray_update_def Let_def app_inv_def)
next
  case FirstPanel
  then have "ap_client a \<noteq> None" using a by (simp add: app_inv_def)
  then have "app_inv ((notch_refresh X C D a)\<lparr>ap_phase := Listening\<rparr>)"
    by (intro in_phase calm_inv [OF refresh_calm a]) (simp add: calm_client [OF refresh_calm])
  then show ?thesis using FirstPanel by (simp add: loop_step_def)
next
  case Listening
  then have c: "ap_client a \<noteq> None" using a by (simp add: app_inv_def)
  then have "app_inv (loop_event X C D ev a)" for ev
    using in_phase [OF calm_inv [OF refresh_calm a], of X C D "GotEvent ev"] in_phase [OF forward_event_inv [OF a], of X D ev Listening]
    by (simp add: loop_event_def calm_client [OF refresh_calm] event_client)
  moreover have "app_inv (a\<lparr>ap_client := None, ap_phase := Closing\<rparr>)" using a by (simp add: app_inv_def)
  ultimately show ?thesis using Listening by (simp add: loop_step_def split: sum.split)
next
  case (GotEvent ev)
  then have "ap_client a \<noteq> None" using a by (simp add: app_inv_def)
  then show ?thesis using in_phase [OF forward_event_inv [OF a], of X D ev Listening] GotEvent by (simp add: loop_step_def event_client)
next
  case Closing
  then show ?thesis using a
    by (simp add: loop_step_def emit_connection_state_def emit_ui_def on_tray_def tray_update_def Let_def app_inv_def)
next
  case Sleeping
  then show ?thesis using sleep_inv [OF a] by (simp add: loop_step_def)
qed

lemma app_step_inv: "app_step X P a a' \<Longrightarrow> app_inv a \<Longrightarrow> app_inv a'"
proof (induction rule: app_step.induct)
  case (task C a ts t us D rest a')
  have "app_inv (a\<lparr>ap_tasks := ts @ us\<rparr>)" using task.prems by (simp add: app_inv_def)
  then have "app_inv a'" using task_step_inv task.hyps(3) by blast
  then show ?case by (simp add: app_inv_def)
next
  case (outside a c c')
  then show ?case by (auto simp: app_inv_def)
qed (simp_all add: loop_step_inv calm_inv [OF invoke_calm] calm_inv [OF spawn_calm] calm_inv [OF line_calm])

lemma app_run_inv: "(app_step X P)\<^sup>*\<^sup>* a a' \<Longrightarrow> app_inv a \<Longrightarrow> app_inv a'"
  by (induction rule: rtranclp_induct) (auto intro: app_step_inv)

lemma status_line_known: "known_when_connected m \<Longrightarrow> status_line m \<noteq> lit ''Connecting to Clipse'' @ [0x2026]"
  by (auto simp: known_when_connected_def status_line_def Let_def em_dash_def)

text \<open>
  C21. In every interleaving of the connection loop, the background tasks, the commands and whatever the
  daemon does, the app has a client exactly while the loop is connected, waits between half a second
  and five seconds between two attempts, and never shows that it is connecting: the tray knows a
  status whenever it says it is connected.
\<close>

theorem app_stays_consistent:
  assumes "(app_step X P)\<^sup>*\<^sup>* (app_new X D key item panel) a"
  shows "(ap_client a = None \<longleftrightarrow> ap_phase a \<in> {Connecting, Closing, Sleeping}) \<and>
    (\<forall>ms \<in> set (ap_slept a). 500 \<le> ms \<and> ms \<le> 5000) \<and>
    status_line (ty_model (ap_tray a)) \<noteq> lit ''Connecting to Clipse'' @ [0x2026]"
proof -
  have i: "app_inv a" by (rule app_run_inv [OF assms app_new_inv])
  then have "status_line (ty_model (ap_tray a)) \<noteq> lit ''Connecting to Clipse'' @ [0x2026]"
    by (intro status_line_known) (simp add: app_inv_def)
  then show ?thesis using i by (auto simp: app_inv_def MIN_BACKOFF_def MAX_BACKOFF_def)
qed

text \<open>The first attempt fails: half a second later the next one is made.\<close>

definition sample_offline :: "daemon app" where
  "sample_offline = loop_sleep (loop_connected sample_env sample_desk (Inl (ClientFrame FrameClosed))
     (app_new sample_env sample_desk sample_key None False))"

lemma sample_offline_run:
  "(app_step sample_env (\<lambda>C. \<exists>E w. C = daemon_call E w))\<^sup>*\<^sup>* (app_new sample_env sample_desk sample_key None False) sample_offline"
proof -
  let ?a = "app_new sample_env sample_desk sample_key None False :: daemon app"
  let ?P = "\<lambda>C. \<exists>E w. C = daemon_call E w" and ?C = "daemon_call sample_env sample_world"
  let ?b = "loop_connected sample_env sample_desk (Inl (ClientFrame FrameClosed)) ?a"
  have ph: "ap_phase ?a = Connecting" "ap_phase ?b = Sleeping"
    by (simp_all add: app_new_def register_initial_def os_register_def loop_connected_def)
  have "app_step sample_env ?P ?a (loop_step sample_env ?C sample_desk (connect_both (Inl (ClientFrame FrameClosed)) (Inr ()) (Inr ())) (Inl ClientUnexpected) ?a)"
    by (rule app_step.loop) blast
  moreover have "app_step sample_env ?P ?b (loop_step sample_env ?C sample_desk (connect_both (Inl ClientUnexpected) (Inr ()) (Inr ())) (Inl ClientUnexpected) ?b)"
    by (rule app_step.loop) blast
  ultimately show ?thesis
    unfolding sample_offline_def by (auto simp: loop_step_def ph connect_both_def)
qed

theorem app_stays_consistent_witness:
  "ap_slept sample_offline = [500] \<and> ap_client sample_offline = None"
  using app_stays_consistent [OF sample_offline_run]
  by (simp add: sample_offline_def loop_sleep_def loop_connected_def emit_connection_state_def emit_ui_def on_tray_def Let_def
    app_new_def register_initial_def os_register_def MIN_BACKOFF_def)

section \<open>Settings that do not arrive\<close>

text \<open>What only the settings command and the start of the app change.\<close>

definition same_keys :: "'c app \<Rightarrow> 'c app \<Rightarrow> bool" where
  "same_keys a a' \<longleftrightarrow> ap_hotkey a' = ap_hotkey a \<and> ap_shortcuts a' = ap_shortcuts a"

lemma same_keys_refl: "same_keys a a"
  by (simp add: same_keys_def)

lemma same_keys_trans: "same_keys a b \<Longrightarrow> same_keys b c \<Longrightarrow> same_keys a c"
  by (simp add: same_keys_def)

lemma call_keys: "app_call C r a = (res, a') \<Longrightarrow> same_keys a a'"
  by (auto simp: app_call_def same_keys_def split: option.splits prod.splits)

lemma command_keys: "command C r what accept a = (res, a') \<Longrightarrow> same_keys a a'"
  by (auto simp: command_def split: prod.splits sum.splits option.splits dest: call_keys)

lemma update_settings_unexpected:
  "\<exists>e a'. cmd_update_settings (daemon_call E w) D cfg a = (Inl e, a') \<and> same_keys a a' \<and> ap_login_item a' = ap_login_item a"
proof (cases "ap_client a")
  case None
  then show ?thesis by (simp add: cmd_update_settings_def command_def app_call_def same_keys_refl)
next
  case (Some d)
  obtain resp d' where h: "handle E w (ReqUpdateSettings cfg) d = (resp, d')" by (cases "handle E w (ReqUpdateSettings cfg) d")
  then have "resp = RespOk \<or> (\<exists>c. resp = RespError c)"
    using handle_answers [of "ReqUpdateSettings cfg" E w d] by (auto simp: answers_to_def)
  then show ?thesis
    using command_answer [OF Some h, of "lit ''update_settings''" accept_settings]
    unfolding cmd_update_settings_def by (auto simp: accept_settings_def same_keys_def)
qed

lemma invoke_keys: "same_keys a (snd (invoke enc (daemon_call E w) D cmd a))"
proof (cases "\<exists>cfg. cmd = CmdUpdateSettings cfg")
  case True
  then obtain cfg where cmd: "cmd = CmdUpdateSettings cfg" by blast
  then show ?thesis using update_settings_unexpected [of E w D cfg a] by (auto simp: invoke_def)
next
  case False
  have "same_keys a (snd (command (daemon_call E w) r what accept a))" for r what accept
    by (rule command_keys [OF surjective_pairing])
  then show ?thesis using False
    by (cases cmd) (auto simp: invoke_def command_defs spawn_task_def same_keys_def split: prod.splits sum.splits dest: command_keys)
qed

lemma desk_keys:
  "same_keys a (emit_ui ev a)" "same_keys a (on_tray X D change a)" "same_keys a (login_apply D wanted a)"
  "same_keys a (panel_send D m a)" "same_keys a (spawn_task t a)"
  by (auto simp: same_keys_def emit_ui_def on_tray_def login_apply_def login_enable_def login_disable_def panel_send_def
    spawn_task_def Let_def)

lemma forward_keys: "same_keys a (forward_status X D st a)" "same_keys a (forward_devices X D ds a)" "same_keys a (forward_event X D ev a)"
  by (auto simp: same_keys_def forward_status_def forward_devices_def emit_ui_def on_tray_def forward_event_def split: event.split)

lemma panel_refresh_keys: "same_keys a (notch_refresh X C D a)"
  by (auto simp: notch_refresh_def notch_show_def same_keys_refl split: prod.splits sum.splits response.splits
    dest: call_keys intro: same_keys_trans [OF call_keys desk_keys(4)])

lemma line_keys: "same_keys a (notch_line X parse C line a)"
  by (auto simp: notch_line_def same_keys_refl paste_from_def split: option.split sum.split prod.split
    intro: command_keys [OF surjective_pairing])

lemma fetch_keys: "same_keys a (snd (fetch_status C a))" "same_keys a (snd (fetch_devices C a))"
  by (auto simp: fetch_status_def fetch_devices_def split: prod.splits sum.splits response.splits dest: call_keys)

lemma connection_keys: "same_keys a (emit_connection_state X D on a)"
  by (simp add: emit_connection_state_def Let_def emit_ui_def on_tray_def same_keys_def)

lemmas keys_frame = forward_keys [unfolded same_keys_def] panel_refresh_keys [unfolded same_keys_def] fetch_keys [unfolded same_keys_def]
  connection_keys [unfolded same_keys_def]

lemma loop_keys: "same_keys a (loop_step X C D dialled next a)"
  by (cases "ap_phase a") (simp_all add: loop_step_def loop_connected_def loop_status_def loop_event_def loop_sleep_def same_keys_def
    spawn_task_def Let_def keys_frame case_prod_beta split: sum.split option.split)

lemma task_keys: "task_step X C D t a = (rest, a') \<Longrightarrow> same_keys a a'"
  by (cases t) (auto simp: task_step_def split: prod.splits sum.splits response.splits
    dest: call_keys intro: desk_keys forward_keys call_keys [OF surjective_pairing])

lemma app_step_keys: "app_step X P a a' \<Longrightarrow> (\<And>C. P C \<Longrightarrow> \<exists>E w. C = daemon_call E w) \<Longrightarrow> same_keys a a'"
proof (induction rule: app_step.induct)
  case (task C a ts t us D rest a')
  then show ?case using task_keys [OF task.hyps(3)] by (simp add: same_keys_def)
next
  case (command C a enc D cmd)
  then obtain E w where "C = daemon_call E w" by blast
  then show ?case by (simp add: invoke_keys)
qed (simp_all add: loop_keys desk_keys line_keys, simp add: same_keys_def)

lemma app_run_keys:
  assumes "(app_step X P)\<^sup>*\<^sup>* a a'" and P: "\<And>C. P C \<Longrightarrow> \<exists>E w. C = daemon_call E w"
  shows "same_keys a a'"
  using assms(1)
proof (induction rule: rtranclp_induct)
  case (step y z)
  then show ?case using same_keys_trans app_step_keys [OF _ P] by blast
qed (rule same_keys_refl)

text \<open>
  C37. Saving the settings from the app with the daemon behind it: the daemon applies and saves them, the
  command reports an unexpected answer, and neither the hotkey nor the login item follows; at any
  time the only shortcut that can be registered is the default of the start.
\<close>

theorem saved_settings_reported_lost:
  assumes "(app_step X (\<lambda>C. \<exists>E w. C = daemon_call E w))\<^sup>*\<^sup>* (app_new X D key item panel) a" "ap_client a = Some d" "w_save_ok w"
  shows "\<exists>a' d'. invoke enc (daemon_call E w) D' (CmdUpdateSettings cfg) a = (Inl (CmdUnexpected (lit ''update_settings'')), a') \<and>
    ap_client a' = Some d' \<and> dm_settings d' = cfg \<and> dm_saved_settings d' = cfg \<and>
    ap_hotkey a' = key \<and> set (ap_shortcuts a') \<subseteq> {key} \<and> ap_login_item a' = ap_login_item a"
proof -
  have k: "same_keys (app_new X D key item panel) a" by (rule app_run_keys [OF assms(1)])
  define d' where "d' = snd (handle E w (ReqUpdateSettings cfg) d)"
  have h: "handle E w (ReqUpdateSettings cfg) d = (RespOk, d')" "dm_settings d' = cfg" "dm_saved_settings d' = cfg"
    using assms(3) by (simp_all add: d'_def handle_def emit_status_def daemon_emit_def Let_def)
  have "invoke enc (daemon_call E w) D' (CmdUpdateSettings cfg) a = (Inl (CmdUnexpected (lit ''update_settings'')), a\<lparr>ap_client := Some d'\<rparr>)"
    unfolding invoke_def ui_command.case cmd_update_settings_def command_answer [OF assms(2) h(1)] by (simp add: accept_settings_def)
  then show ?thesis
    using h k by (intro exI [of _ "a\<lparr>ap_client := Some d'\<rparr>"] exI [of _ d'])
      (auto simp: same_keys_def app_new_def register_initial_def os_register_def)
qed

lemma sample_connected:
  "(app_step sample_env (\<lambda>C. \<exists>E w. C = daemon_call E w))\<^sup>*\<^sup>* (app_new sample_env sample_desk sample_key None False)
     (loop_connected sample_env sample_desk (Inr (sample_start 1)) (app_new sample_env sample_desk sample_key None False))"
proof -
  let ?a = "app_new sample_env sample_desk sample_key None False :: daemon app"
  have "ap_phase ?a = Connecting" by (simp add: app_new_def register_initial_def os_register_def)
  then have "loop_step sample_env (daemon_call sample_env sample_world) sample_desk (connect_both (Inr (sample_start 1)) (Inr ()) (Inr ()))
      (Inl ClientUnexpected) ?a = loop_connected sample_env sample_desk (Inr (sample_start 1)) ?a"
    by (simp add: loop_step_def connect_both_def)
  moreover have "app_step sample_env (\<lambda>C. \<exists>E w. C = daemon_call E w) ?a (loop_step sample_env (daemon_call sample_env sample_world)
      sample_desk (connect_both (Inr (sample_start 1)) (Inr ()) (Inr ())) (Inl ClientUnexpected) ?a)"
    by (rule app_step.loop) blast
  ultimately show ?thesis by simp
qed

theorem saved_settings_reported_lost_witness:
  "\<exists>a' d'. invoke (\<lambda>_. []) (daemon_call sample_env sample_world) sample_desk
      (CmdUpdateSettings ((default_settings [])\<lparr>s_hotkey := lit ''Alt+V''\<rparr>))
      (loop_connected sample_env sample_desk (Inr (sample_start 1)) (app_new sample_env sample_desk sample_key None False)) =
      (Inl (CmdUnexpected (lit ''update_settings'')), a') \<and>
    ap_client a' = Some d' \<and> s_hotkey (dm_saved_settings d') = lit ''Alt+V'' \<and> ap_hotkey a' = sample_key"
proof -
  let ?b = "loop_connected sample_env sample_desk (Inr (sample_start 1)) (app_new sample_env sample_desk sample_key None False)"
  have c: "ap_client ?b = Some (sample_start 1)"
    by (simp add: loop_connected_def emit_connection_state_def emit_ui_def)
  have w: "w_save_ok sample_world" by (simp add: sample_world_def)
  from saved_settings_reported_lost [OF sample_connected c w,
      where enc = "\<lambda>_. []" and E = sample_env and D' = sample_desk and cfg = "(default_settings [])\<lparr>s_hotkey := lit ''Alt+V''\<rparr>"]
  show ?thesis by (elim exE conjE) (intro exI conjI, assumption, assumption, simp, assumption)
qed

text \<open>
  A hotkey that the system refuses takes the old one with it: the old one is gone, still noted as
  registered, and asking for it again reports success and registers nothing.
\<close>

theorem refused_hotkey_loses_old:
  assumes "ap_hotkey a = old" "ap_shortcuts a = [old]" "old \<noteq> []" "bad \<noteq> old" "\<not> dk_register_ok D bad" "dk_unregister_ok D"
  shows "\<exists>a'. reregister D bad a = (False, a') \<and> ap_shortcuts a' = [] \<and> reregister D' old a' = (True, a')"
  using assms by (auto simp: reregister_def os_register_def os_unregister_def)

theorem refused_hotkey_loses_old_witness:
  "\<exists>a'. reregister sample_desk (lit ''Nope'') (app_new sample_env sample_desk sample_key None False :: daemon app) = (False, a') \<and> ap_shortcuts a' = []"
  by (rule exE [OF refused_hotkey_loses_old [of "app_new sample_env sample_desk sample_key None False :: daemon app" sample_key "lit ''Nope''"
      sample_desk sample_desk]]) (auto simp: app_new_def register_initial_def os_register_def sample_desk_def sample_key_def default_settings_def)

section \<open>The tray and the desktop\<close>

text \<open>
  A status that was fetched before the connection broke and shown after it makes the tray say that
  the daemon is running.
\<close>

lemma late_status_shows_connected:
  assumes "P C" "ap_phase a = Listening" "ap_tasks a = [TellStatus st]"
  shows "\<exists>a'. (app_step X P)\<^sup>*\<^sup>* a a' \<and> ap_client a' = None \<and> ap_phase a' = Sleeping \<and> tm_connected (ty_model (ap_tray a'))"
proof -
  let ?dial = "connect_both (Inl ClientUnexpected) (Inr ()) (Inr ())"
  let ?b = "loop_step X C sample_desk ?dial (Inl ClientUnexpected) a"
  let ?c = "loop_step X C sample_desk ?dial (Inl ClientUnexpected) ?b"
  let ?d = "forward_status X sample_desk st (?c\<lparr>ap_tasks := []\<rparr>)"
  have b: "?b = a\<lparr>ap_client := None, ap_phase := Closing\<rparr>" using assms(2) by (simp add: loop_step_def)
  have c: "ap_client ?c = None" "ap_phase ?c = Sleeping" "ap_tasks ?c = [TellStatus st]"
    unfolding b using assms(3) by (simp_all add: loop_step_def emit_connection_state_def emit_ui_def on_tray_def Let_def)
  have steps: "app_step X P a ?b" "app_step X P ?b ?c" using assms(1) by (auto intro: app_step.loop)
  have "task_step X C sample_desk (TellStatus st) (?c\<lparr>ap_tasks := [] @ []\<rparr>) = ([], ?d)" by (simp add: task_step_def)
  then have "app_step X P ?c (?d\<lparr>ap_tasks := ap_tasks ?d @ []\<rparr>)"
    using assms(1) c(3) by (intro app_step.task [where P = P and C = C and ts = "[]" and us = "[]" and t = "TellStatus st" and D = sample_desk]) simp_all
  then have "(app_step X P)\<^sup>*\<^sup>* a ?d" using steps by (auto intro: rtranclp.rtrancl_into_rtrancl)
  moreover have "ap_client ?d = None" "ap_phase ?d = Sleeping" "tm_connected (ty_model (ap_tray ?d))"
    using c by (simp_all add: forward_status_def on_tray_def emit_ui_def tray_update_def model_status_def Let_def)
  ultimately show ?thesis by blast
qed

text \<open>The next attempt that fails corrects it.\<close>

lemma failed_attempt_shows_offline:
  "\<not> tm_connected (ty_model (ap_tray (loop_connected X D (Inl e) a)))"
  "list_all (\<lambda>p. pi_connectivity p = Offline) (tm_devices (ty_model (ap_tray (loop_connected X D (Inl e) a))))"
  by (simp_all add: loop_connected_def emit_connection_state_def on_tray_def tray_update_def model_disconnected_def Let_def list_all_iff)

text \<open>A device that is forgotten leaves the daemon's list and stays in the tray's.\<close>

lemma forgotten_device_stays_in_tray:
  assumes "forget_device w dev d = (RespOk, d')" "dm_sink d = Some evs"
  shows "\<exists>es. dm_sink d' = Some (evs @ es) \<and>
    tm_devices (ty_model (ap_tray (fold (forward_event X D) es a))) = tm_devices (ty_model (ap_tray a))"
proof -
  obtain n t where d': "d' = emit_status w (d\<lparr>dm_net := Some (n\<lparr>ns_trust := t, ns_saved_trust := t, ns_table := reload_from_trust t (ns_table n)\<rparr>)\<rparr>)"
    using assms(1) by (auto simp: forget_device_def split: option.splits prod.splits sum.splits if_splits)
  then obtain st where "dm_sink d' = Some (evs @ [StatusChanged st])"
    using assms(2) by (auto simp: emit_status_def daemon_emit_def)
  then show ?thesis
    by (intro exI [of _ "[StatusChanged st]"])
      (simp add: forward_event_def forward_status_def on_tray_def emit_ui_def tray_update_def model_status_def Let_def)
qed

lemma login_follows_setting:
  assumes "dk_login_query_ok D" "dk_login_disable_ok D" "dk_login_enable_ok D"
  shows "ap_login_item (login_apply D wanted a) = (if wanted then Some (dk_exe D) else None)"
  using assms by (auto simp: login_apply_def login_enable_def login_disable_def Let_def)

lemma panel_shows_live_clips:
  assumes "ap_panel a = Some ms" "dk_panel_ok D"
  shows "\<exists>cs. ap_panel (notch_show X D clips a) = Some (ms @ [PanelClips (map (notch_clip_of X (ap_local_device a)) cs)]) \<and>
    length cs \<le> 3 \<and> set cs \<subseteq> {c \<in> set clips. \<not> c_deleted c}"
  using assms set_take_subset by (fastforce simp: notch_show_def panel_send_def VISIBLE_CLIPS_def)

lemma panel_marks_other_devices:
  "crates_ok X \<Longrightarrow> nc_from_peer (notch_clip_of X (device_to_string X dev) c) \<longleftrightarrow> src_device (c_source c) \<noteq> dev"
  by (simp add: notch_clip_of_def device_to_string_inj)

text \<open>The waits while no attempt succeeds.\<close>

definition failed_attempt :: "'x crates_scheme \<Rightarrow> desk \<Rightarrow> 'c app \<Rightarrow> 'c app" where
  "failed_attempt X D a = loop_sleep (loop_connected X D (Inl ClientUnexpected) a)"

lemma failed_attempt_sel:
  "ap_backoff (failed_attempt X D a) = min (ap_backoff a * 2) 5000" "ap_slept (failed_attempt X D a) = ap_slept a @ [ap_backoff a]"
  by (simp_all add: failed_attempt_def loop_sleep_def loop_connected_def emit_connection_state_def emit_ui_def on_tray_def Let_def MAX_BACKOFF_def)

lemma failed_attempts_back_off:
  assumes "ap_backoff a = MIN_BACKOFF" "ap_slept a = []"
  shows "ap_slept ((failed_attempt X D ^^ n) a) = map (\<lambda>k. min (500 * 2 ^ k) 5000) [0..<n] \<and>
    ap_backoff ((failed_attempt X D ^^ n) a) = min (500 * 2 ^ n) 5000"
  using assms by (induction n) (simp_all add: failed_attempt_sel MIN_BACKOFF_def)

text \<open>Quitting waits for the daemon, once.\<close>

lemma exit_stops_daemon:
  assumes "ho_handle h" "ho_sender h" "ho_running h" "host_exit True h = (r, h')"
  shows "r = Some True \<and> ho_told h' \<and> \<not> ho_running h' \<and> host_exit in_time h' = (None, h')"
  using assms by (auto simp: host_exit_def host_shutdown_def host_task_ends_def Let_def)

lemma spawn_always_has_handle: "ho_handle host_spawn"
  by (simp add: host_spawn_def)

end
