(* ===== verification/End_To_End.thy ===== *)
theory End_To_End
  imports Daemon_Run
begin

text \<open>
  From a copy on one device to a paste on another: the capture path of one daemon, a sync session
  between the two, and the request of a user interface at the other. The lemmas put together what
  the parts promise; the property is stated in the root theory.
\<close>

section \<open>The daemon that captures\<close>

lemma hash_matches_norm:
  assumes "hash_matches X c" "c_payloads c = sort_payloads (c_payloads c)"
  shows "hash_matches X (norm_clip c)"
  using assms by (simp add: hash_matches_def norm_clip_def compute_hash_def norm_payload_def comp_def)

lemma capture_adds:
  assumes "store_state E (dm_store d)" "\<not> dm_paused d" "captured_clip E w cap d = Some c"
    "distinct (map (\<lambda>(fmt, _). label fmt) (cap_payloads cap))" "spilled cap = []" "blobs_ok E (dm_store d)"
    "w_fresh_id w \<notin> c_id ` set (history E (dm_store d))" "c_hash c \<notin> c_hash ` set (history E (dm_store d))"
  shows "store_state E (dm_store (on_capture E w (Captured cap) d)) \<and>
    history E (dm_store (on_capture E w (Captured cap) d)) = history E (dm_store d) @ [norm_clip c]"
proof -
  note st = store_stateD [OF assms(1)]
  obtain t clk where t: "clock_now (w_now w) (dm_clock d) = (t, clk)" by force
  have c: "clip_new E (w_fresh_id w) (map (capture_payload E) (cap_payloads cap)) (daemon_clip_source (cap_app cap) d) t = Some c"
    using assms(3) by (simp add: captured_clip_def t)
  have new: "find (\<lambda>e. c_hash e = c_hash c \<and> \<not> c_deleted e) (history E (dm_store d)) = None"
    using assms(8) by (auto simp: find_None_iff image_iff)
  obtain res st1 where ins: "store_insert E c (dm_store d) = (res, st1)" by force
  from insert_history [OF st(1,2) captured_clip_wf [OF env_okD [OF st(1)] c] ins]
  have r: "res = Inr (Inserted (c_id c))" "history E st1 = history E (dm_store d) @ [norm_clip c]" "store_ok E st1"
    using hash_matches_clip_new [OF c] captured_labels [OF c assms(4)] new assms(7) clip_new_parts(3) [OF c] by auto
  from write_capture_result [OF st(1), of "[]" "dm_store d" c "Inserted (c_id c)" st1] ins r(1) assms(6)
  obtain st' where st': "write_capture E [] c (dm_store d) = (Inr (Inserted (c_id c)), st')"
    and rows: "st_clip st' = st_clip st1" "st_payload st' = st_payload st1" by auto
  have "dm_store (on_capture E w (Captured cap) d) = st'"
    by (simp add: on_capture_def store_capture_def assms(2,5) t c st' announce_capture_def Let_def)
  moreover have "store_ok E st'" "history E st' = history E st1"
    using r(3) store_ok_cong [OF rows] same_rows(1) [OF rows] by blast+
  moreover have "c_hash (norm_clip c) = c_hash c" by (simp add: norm_clip_def)
  ultimately show ?thesis using r(2) st assms(8) by (simp add: store_state_def)
qed

section \<open>The daemon that pastes\<close>

lemma inline_capture:
  assumes "spilled cap = []" "p \<in> set (cap_payloads cap)"
  shows "inline_bytes (capture_payload X p) = Some (snd p)"
proof -
  have "\<not> of_nat (length (snd p)) > INLINE_MAX_BYTES"
    using assms by (cases p) (auto simp: spilled_def filter_empty_conv)
  then show ?thesis
    by (cases p) (auto simp: capture_payload_def payload_new_def inline_bytes_def Let_def)
qed

lemma norm_payload_inline [simp]: "inline_bytes (norm_payload p) = inline_bytes p" "p_format (norm_payload p) = from_label (label (p_format p))"
  by (simp_all add: norm_payload_def inline_bytes_def)

lemma materialize_inline:
  assumes "\<And>p. p \<in> set ps \<Longrightarrow> inline_bytes p = Some (f p)"
  shows "fst (materialize E ps st) = map (\<lambda>p. (p_format p, f p)) ps"
  using assms unfolding materialize_spec by (induction ps) (auto simp: map_filter_simps)

text \<open>What was copied, from the clip it became.\<close>

lemma captured_payloads:
  assumes "clip_new X i (map (capture_payload X) ps) src t = Some c" "spilled cap = []" "ps = cap_payloads cap"
    "list_all (\<lambda>(fmt, _). canonical fmt) ps"
  shows "mset (fst (materialize E (c_payloads (norm_clip c)) st)) = mset ps"
proof -
  let ?f = "\<lambda>p. (p_format p, case inline_bytes p of Some bs \<Rightarrow> bs | None \<Rightarrow> [])"
  have pay: "c_payloads (norm_clip c) = map norm_payload (sort_payloads (sort_payloads (map (capture_payload X) ps)))"
    using clip_new_parts(1) [OF assms(1)] by (simp add: norm_clip_def)
  have inl: "inline_bytes (capture_payload X p) = Some (snd p)" if "p \<in> set ps" for p
    using inline_capture [OF assms(2)] that assms(3) by simp
  have "fst (materialize E (c_payloads (norm_clip c)) st) = map ?f (c_payloads (norm_clip c))"
    unfolding pay by (rule materialize_inline) (auto simp: sort_payloads_def inl)
  then have "mset (fst (materialize E (c_payloads (norm_clip c)) st)) = image_mset (\<lambda>p. ?f (norm_payload (capture_payload X p))) (mset ps)"
    unfolding pay by (simp add: sort_payloads_def image_mset.compositionality comp_def)
  also have "\<dots> = image_mset (\<lambda>p. p) (mset ps)"
    by (rule image_mset_cong) (use assms(4) inl in \<open>auto simp: canonical_def list_all_iff\<close>)
  finally show ?thesis by simp
qed

lemma apply_known:
  assumes "store_state E (dm_store d)" "lookup h (history E (dm_store d)) = Some e" "w_write_ok w"
  shows "\<exists>d'. handle E w (ReqApply (c_id e)) d = (RespOk, d') \<and>
    dm_clipboard d' = Some (fst (materialize E (c_payloads e) (dm_store d)))"
proof -
  note st = store_stateD [OF assms(1)]
  have "e \<in> set (history E (dm_store d))" using lookup_SomeD [OF assms(2)] by blast
  then have "find (\<lambda>f. c_id f = c_id e) (history E (dm_store d)) = Some e"
    using st(4) by (intro find_unique) (auto simp: distinct_map dest: inj_onD)
  then have "store_get E (c_id e) (dm_store d) = Inr (Some e)" by (simp add: store_get_history [OF st(1,2)])
  then show ?thesis using assms(3) by (simp add: handle_def daemon_apply_def split: prod.split)
qed

lemma capture_device: "clk_device (dm_clock (on_capture E w ev d)) = clk_device (dm_clock d)"
proof -
  have now: "clk_device (snd (clock_now t k)) = clk_device k" for t k
    by (simp add: clock_now_def Let_def)
  have "dm_clock (daemon_emit e d) = dm_clock d" "dm_clock (emit_status w d) = dm_clock d" "dm_clock (sync_soon d) = dm_clock d"
    "dm_clock (note_suppression d) = dm_clock d" for e d
    by (simp_all add: daemon_emit_def emit_status_def sync_soon_def note_suppression_def)
  then show ?thesis
    using now [of "w_now w" "dm_clock d"]
    by (auto simp: on_capture_def store_capture_def announce_capture_def Let_def split: capture_event.split prod.split option.split
      sum.split insert_outcome.split)
qed

text \<open>Adding the new clip keeps the two histories fit for a session.\<close>

lemma syncable_snoc:
  assumes "syncable E H G" "hash_matches E e" "length H + length G < 100000" "c_id e \<notin> c_id ` set G"
  shows "syncable E (H @ [e]) G"
  using assms by (auto simp: syncable_def image_iff)

end
