(* ===== verification/Spec2Isabelle.thy ===== *)
theory Spec2Isabelle
  imports Merge Chunk Echo_Guards Sync_Safety Sync_Gaps Capture_Pipeline Daemon_Pairing
    Quic_Transport Ipc_Serving Win_System Watch_Lifecycle Peer_Loops App_Props End_To_End
begin

text \<open>
  Clipse keeps the clipboard histories of a user's devices the same. On every device a daemon
  (\<open>clipsed\<close>) watches the clipboard, stores what is copied, and exchanges the history with the paired
  devices it can reach; a user interface talks to the daemon over a local socket. This development
  models the daemon and the libraries it is made of, file by file, as functions on explicit states,
  and proves what they promise to each other and to the user.

  \<^bold>\<open>How the parts work together.\<close> A platform backend hands every change of the clipboard to the capture
  pipeline, which applies the privacy rules; what passes is stamped by the hybrid logical clock and
  inserted into the store, and the peers are woken. A sync session compares summaries of the two
  stores, moves the clips one side lacks and then the large payloads, and merges them by the
  last-writer-wins rule. Sessions run over links: frames on a QUIC stream, encrypted by a Noise
  session between devices whose keys the trust set has. A key enters the trust set by the pairing
  ceremony with a six-digit code. Requests of a user interface are answered by the daemon's handler,
  frame by frame, on a connection that may also carry events.

  \<^bold>\<open>Theories and sources\<close> (paths under \<open>src/crates\<close>).

    \<^item> \<open>Prelude\<close>, \<open>Text\<close>, \<open>Crates\<close>, \<open>Wire\<close>: Rust's integers, strings, byte orders and streams; the third-party
      crates as records of functions with their documented behaviour.
    \<^item> \<open>Hlc_Clock\<close>, \<open>Content_Hash\<close>, \<open>Clip_Model\<close>: \<open>clipse-core\<close> (\<open>id.rs\<close>, \<open>hlc.rs\<close>, \<open>hash.rs\<close>, \<open>clip.rs\<close>).
    \<^item> \<open>Merge\<close>, \<open>Chunk\<close>, \<open>Echo_Guards\<close>: \<open>clipse-sync\<close> (\<open>merge.rs\<close>, \<open>chunk.rs\<close>, \<open>loop_guard.rs\<close>) and
      \<open>clipse-clipboard/src/own_write_guard.rs\<close>.
    \<^item> \<open>Store_Rows\<close>, \<open>Store\<close>, \<open>Store_Spec\<close>, \<open>Store_Reads\<close>, \<open>Blob_Store\<close>, \<open>Store_Open\<close>: \<open>clipse-store\<close>, the SQL
      statements as operations on tables; the invariant of the tables, the abstract history each
      operation refines, ordered reads, blobs and quota, migrations.
    \<^item> \<open>Secrets\<close>, \<open>Capture_Pipeline\<close>: \<open>clipse-clipboard\<close> (\<open>sensitive/\<close>, \<open>capture.rs\<close>, \<open>watch.rs\<close>).
    \<^item> \<open>Pairing\<close>, \<open>Pairing_State\<close>, \<open>Noise_Session\<close>: \<open>clipse-crypto\<close> and \<open>clipsed/src/pairing.rs\<close>.
    \<^item> \<open>Candidates\<close>, \<open>Discovery\<close>, \<open>Tailnet\<close>, \<open>Secure_Link\<close>, \<open>Link_Fifo\<close>, \<open>Quic_Transport\<close>: \<open>clipse-net\<close>.
    \<^item> \<open>Sync_Session\<close>, \<open>Sync_Run\<close>, \<open>Sync_Turn\<close>, \<open>Sync_Convergence\<close>, \<open>Sync_Safety\<close>, \<open>Sync_Gaps\<close>:
      \<open>clipsed/src/sync.rs\<close> and \<open>clipse-sync/src/message.rs\<close>; a session as a coinductive process, two of
      them over bounded streams, and what they achieve.
    \<^item> \<open>Ipc_Protocol\<close>, \<open>Ipc_Wire\<close>, \<open>Ipc_Serving\<close>: \<open>clipse-ipc\<close> and \<open>clipsed/src/ipc_server.rs\<close>.
    \<^item> \<open>Peers\<close>, \<open>Daemon\<close>, \<open>Daemon_Props\<close>, \<open>Daemon_Run\<close>, \<open>Daemon_Pairing\<close>, \<open>Peer_Loops\<close>: \<open>clipsed\<close> (\<open>peers.rs\<close>,
      \<open>daemon.rs\<close>, \<open>capture.rs\<close>, \<open>lib.rs\<close>, \<open>main.rs\<close>); the state of a daemon, its handlers, its runs, its
      loops and the order in which it starts and stops.
    \<^item> \<open>Os_Text\<close>, \<open>Clipboard_Backend\<close>, \<open>Win_Clipboard\<close>, \<open>Win_System\<close>, \<open>Unix_Clipboard\<close>, \<open>Watch_Lifecycle\<close>:
      \<open>clipse-clipboard/src/platform\<close> and the handle in \<open>watch.rs\<close>; the layouts of the Windows
      clipboard, the pasteboard, both Linux display servers, the watch loop they share as a locale,
      and start, run and drop of the watch thread as interleavings.
    \<^item> \<open>Local_Files\<close>, \<open>Local_Socket\<close>: \<open>clipsed/src/config.rs\<close>, \<open>identity.rs\<close>, \<open>paste.rs\<close>,
      \<open>clipse-core/src/paths.rs\<close> and \<open>clipse-ipc/src/transport.rs\<close>; files with interrupted writes, and who
      owns the local endpoint.
    \<^item> \<open>App_Tray\<close>, \<open>App_Backend\<close>, \<open>App_Props\<close>: \<open>src/apps/clipse-app/src-tauri/src\<close>; the tray, the windows, the
      commands of the webview and the connection to the daemon.

  \<^bold>\<open>States and operations.\<close> A struct is a record, an enum a datatype, an operation a function from the
  old state to a result and the new state; an error is a value of a sum type, a panic a value of its
  own. What runs behind a lock is one step. Tasks that run at once are steps of an inductive
  relation or of a function of labels: \<open>system_step\<close> for the daemon, \<open>serve_step\<close> for one connection of a user interface,
  \<open>dial_step\<close> for the dial loop, \<open>app_step\<close> for the app, \<open>watch_step\<close> for a watcher. A sync session is a coinductive process that
  sends, receives or touches its state, and a run interleaves two of them, or one of them with a peer
  that sends what it likes. Clocks, random values and what the operating system answers are arguments.

  \<^bold>\<open>What the groups of lemmas show.\<close>

    \<^item> Convergence: two honest sessions leave both stores with the same clips by the
      last-writer-wins rule (\<open>Sync_Convergence\<close>, on \<open>Merge\<close> and \<open>Store_Spec\<close>); a hostile peer can add to a
      history and break nothing (\<open>Sync_Safety\<close>); what a session does not achieve is stated as well
      (\<open>Sync_Gaps\<close>).
    \<^item> Storage: every operation on the tables refines an operation on an abstract history and keeps
      the invariant that makes every read succeed; reads are exact; eviction spares what is pinned.
    \<^item> Trust: a device enters the trust set only with a proof of a shown or typed code, two honest
      daemons do pair, views that differ never do, and a session on the wire exists only between
      devices that are paired.
    \<^item> Transport: the encrypted link refines two queues of messages within the budget of a key; frames
      survive any fragmentation; every request of a user interface is answered once, in order.
    \<^item> Privacy: what looks like a secret leaves no trace in store or events, and what Clipse wrote
      itself is not captured again.
    \<^item> Composition: what is copied on one device, after a session, is what a paste puts on the
      clipboard of the other (\<open>End_To_End\<close> and the theorem below).
    \<^item> Desktop: what is written to a clipboard reads back; changes are reported once each; dropping a
      watcher returns and silences it; the app understands every answer of the daemon but one.

  \<^bold>\<open>Interfaces.\<close> A locale states what one part relies on from another and is interpreted on the model
  itself: a clock whose stamps increase, a replica that merges by last writer wins, a guard that
  recognises echoes, a store whose pins and deletions touch one clip, steps of two processes that
  commute, a wire format that survives fragmentation (the frames of the protocols), a clipboard
  backend whose write is recognised by its own guard, and a watch thread that notices that it is to
  stop (Windows, macOS, X11, Wayland).

  \<^bold>\<open>Bounds and fuel.\<close> No definition takes fuel. Loops over a stream recurse on the bytes that are left;
  retries recurse on the attempts that are left (5 to open the Windows clipboard, 20 to connect to a
  pipe), as the code bounds them; the start of a daemon takes at most four steps; a bind takes at
  most five. A watch thread that was told to stop returns within six steps of its own, on Windows four
  and one for each message that is waiting. Streams between two sessions hold a bounded number of items, and a run is any number of
  steps. Machine integers have the width of the source, and where a sum may wrap it does.

  \<^bold>\<open>Third-party crates\<close> are records of functions (\<open>crates\<close>, \<open>env\<close>, \<open>snow\<close>, \<open>ipc_rmp\<close> and others) with the
  documented behaviour as a predicate, and each theorem that uses such a predicate has a witness with
  a concrete instance: BLAKE3, UUIDs, hexadecimal text, SQLite's full-text matcher, MessagePack, the
  Noise library, regular expressions, JSON and TOML.

  \<^bold>\<open>Not modelled.\<close> The set-up of TLS and of QUIC endpoints, the SQLCipher key and the windows of
  Tauri are configuration of libraries: the source calls them and no property of
  the source rests on more than their success. Poisoned locks and the exhaustion of memory end the
  program. The web front end, the notch panel and the examples are other programs, in other languages
  or beside the product.
\<close>

section \<open>From a copy to a paste\<close>


text \<open>Two new devices, and the text that is copied on the first.\<close>

lemma sample_start_store:
  "store_state sample_env (dm_store (sample_start u))" "history sample_env (dm_store (sample_start u)) = []"
  "blobs_ok sample_env (dm_store (sample_start u))" "\<not> dm_paused (sample_start u)" "dm_clock (sample_start u) = clock_new (DeviceId u)"
  by (simp_all add: sample_start_def daemon_start_def daemon_new_def store_open_def fresh_store_def store_state_def sample_env_ok
    store_ok_def live_rows_def history_def blobs_ok_def Let_def split: option.split)


end
